(* ===== verification/Cali_Prelude.thy ===== *)
theory Cali_Prelude
  imports Main "HOL-Library.Word"
begin

text \<open>
  Shared vocabulary of the development: the machine types the C and C++ sources
  use (unsigned words of 8, 32 and 64 bits), the ways a C++ routine can end
  without a value, the fact collections of the component theories, and generic
  lemmas on lists and ranges that several components rely on.
\<close>

unbundle bit_operations_syntax

section \<open>Machine types\<close>

type_synonym u8 = "8 word"
type_synonym u32 = "32 word"
type_synonym u64 = "64 word"
type_synonym addr = "64 word"

text \<open>
  How a routine of the runtime can end without producing a value: a thrown
  \<^verbatim>\<open>std::runtime_error\<close> or \<^verbatim>\<open>std::out_of_range\<close>, a call of \<^verbatim>\<open>exit\<close> with a status,
  a wait that nobody ends, an array access outside its bounds, which C++ leaves undefined, or the end of the fuel
  given to a model of a recursion that need not terminate.
\<close>

datatype failure =
    Runtime_error string
  | Out_of_range
  | Process_exit int
  | Would_block
  | Undefined_behaviour
  | Out_of_fuel

type_synonym 'a outcome = "failure + 'a"

lemma unat_minus_1_u64: "unat (- 1 :: u64) = 2 ^ 64 - 1"
proof -
  have "(- 1 :: u64) = 0xffffffffffffffff" by simp
  then have "unat (- 1 :: u64) = unat (0xffffffffffffffff :: u64)" by (rule arg_cong)
  also have "\<dots> = 2 ^ 64 - 1" by simp
  finally show ?thesis .
qed

text \<open>
  Eight-byte little-endian values in byte-addressed memory.
\<close>

fun le_bytes :: "nat \<Rightarrow> u64 \<Rightarrow> u8 list" where
  "le_bytes 0 w = []"
| "le_bytes (Suc n) w = ucast w # le_bytes n (drop_bit 8 w)"

fun of_le_bytes :: "u8 list \<Rightarrow> u64" where
  "of_le_bytes [] = 0"
| "of_le_bytes (b # bs) = ucast b OR push_bit 8 (of_le_bytes bs)"

lemma length_le_bytes [simp]: "length (le_bytes n w) = n"
  by (induction n arbitrary: w) simp_all

lemma of_le_bytes_take: "of_le_bytes (le_bytes n w) = take_bit (8 * n) w"
proof (induction n arbitrary: w)
  case (Suc n)
  have "take_bit (8 * Suc n) w = ucast (ucast w :: u8) OR push_bit 8 (take_bit (8 * n) (drop_bit 8 w))"
    by (rule bit_word_eqI) (auto simp: bit_simps)
  then show ?case by (simp add: Suc.IH)
qed simp

lemma of_le_bytes_8 [simp]: "of_le_bytes (le_bytes 8 w) = w"
  using take_bit_length_eq [of w] by (simp add: of_le_bytes_take)

section \<open>Fact collections\<close>

named_theorems bitset_simps \<open>reading and writing single bits of a byte\<close>
named_theorems page_simps \<open>reading and writing the page bitmap\<close>

section \<open>Sequencing of fallible routines\<close>

definition bind_outcome :: "'a outcome \<Rightarrow> ('a \<Rightarrow> 'b outcome) \<Rightarrow> 'b outcome" where
  "bind_outcome r f = (case r of Inl e \<Rightarrow> Inl e | Inr x \<Rightarrow> f x)"

lemma bind_outcome_simps [simp]:
  "bind_outcome (Inl e) f = Inl e"
  "bind_outcome (Inr x) f = f x"
  by (simp_all add: bind_outcome_def)

lemma bind_outcome_Inr_iff:
  "bind_outcome r f = Inr y \<longleftrightarrow> (\<exists>x. r = Inr x \<and> f x = Inr y)"
  by (cases r) auto

lemma bind_outcome_Inl_iff:
  "bind_outcome r f = Inl e \<longleftrightarrow> r = Inl e \<or> (\<exists>x. r = Inr x \<and> f x = Inl e)"
  by (cases r) auto

lemma bind_outcome_cong [fundef_cong]:
  "r = r' \<Longrightarrow> (\<And>x. r' = Inr x \<Longrightarrow> f x = f' x) \<Longrightarrow> bind_outcome r f = bind_outcome r' f'"
  by (cases r') simp_all

section \<open>Stateful routines\<close>

text \<open>
  A routine that reads and writes a state and may throw. The state reached when
  it throws is part of the result: what was written before a throw stays written.
\<close>

type_synonym ('s, 'a) routine = "'s \<Rightarrow> 'a outcome \<times> 's"

definition ret :: "'a \<Rightarrow> ('s, 'a) routine" where
  "ret x s = (Inr x, s)"

definition throw :: "failure \<Rightarrow> ('s, 'a) routine" where
  "throw e s = (Inl e, s)"

definition seq :: "('s, 'a) routine \<Rightarrow> ('a \<Rightarrow> ('s, 'b) routine) \<Rightarrow> ('s, 'b) routine" where
  "seq m f s = (case m s of (Inl e, s') \<Rightarrow> (Inl e, s') | (Inr x, s') \<Rightarrow> f x s')"

definition reads :: "('s \<Rightarrow> 'a) \<Rightarrow> ('s, 'a) routine" where
  "reads f s = (Inr (f s), s)"

definition modify :: "('s \<Rightarrow> 's) \<Rightarrow> ('s, unit) routine" where
  "modify f s = (Inr (), f s)"

definition lift_outcome :: "'a outcome \<Rightarrow> ('s, 'a) routine" where
  "lift_outcome r s = (r, s)"

definition when_do :: "bool \<Rightarrow> ('s, unit) routine \<Rightarrow> ('s, unit) routine" where
  "when_do b m = (if b then m else ret ())"

lemmas routine_defs = ret_def throw_def seq_def reads_def modify_def lift_outcome_def when_do_def

lemma ret_seq: "seq (ret x) f = f x"
  by (simp add: seq_def ret_def fun_eq_iff)

text \<open>
  A property of states that a routine keeps on every path, thrown or not.
\<close>

definition keeps :: "('s \<Rightarrow> bool) \<Rightarrow> ('s, 'a) routine \<Rightarrow> bool" where
  "keeps I m \<longleftrightarrow> (\<forall>s. I s \<longrightarrow> I (snd (m s)))"

named_theorems keeps_intros \<open>rules for properties kept by routines\<close>

lemma keepsI: "(\<And>s. I s \<Longrightarrow> I (snd (m s))) \<Longrightarrow> keeps I m"
  by (simp add: keeps_def)

lemma keepsD: "keeps I m \<Longrightarrow> I s \<Longrightarrow> m s = (r, s') \<Longrightarrow> I s'"
  unfolding keeps_def by (metis snd_conv)

lemma keeps_basic [keeps_intros]:
  "keeps I (ret x)" "keeps I (throw e)" "keeps I (reads f)" "keeps I (lift_outcome r)"
  by (simp_all add: keeps_def routine_defs)

lemma keeps_modify [keeps_intros]: "(\<And>s. I s \<Longrightarrow> I (f s)) \<Longrightarrow> keeps I (modify f)"
  by (simp add: keeps_def modify_def)

lemma keeps_seq [keeps_intros]:
  "keeps I m \<Longrightarrow> (\<And>x. keeps I (f x)) \<Longrightarrow> keeps I (seq m f)"
  unfolding keeps_def seq_def by (fastforce split: prod.split sum.split)

lemma keeps_when [keeps_intros]: "(b \<Longrightarrow> keeps I m) \<Longrightarrow> keeps I (when_do b m)"
  by (simp add: when_do_def keeps_basic)

lemma keeps_if [keeps_intros]:
  "(b \<Longrightarrow> keeps I m) \<Longrightarrow> (\<not> b \<Longrightarrow> keeps I m') \<Longrightarrow> keeps I (if b then m else m')"
  by simp

lemma seq_Inr_iff:
  "seq m f s = (Inr y, s'') \<longleftrightarrow> (\<exists>x s'. m s = (Inr x, s') \<and> f x s' = (Inr y, s''))"
  by (auto simp: seq_def split: prod.split sum.split)

lemma seq_Inl_iff:
  "seq m f s = (Inl e, s'') \<longleftrightarrow>
     m s = (Inl e, s'') \<or> (\<exists>x s'. m s = (Inr x, s') \<and> f x s' = (Inl e, s''))"
  by (auto simp: seq_def split: prod.split sum.split)

lemma routine_basic_iffs [simp]:
  "ret x s = (r, s') \<longleftrightarrow> r = Inr x \<and> s' = s"
  "throw e s = (r, s') \<longleftrightarrow> r = Inl e \<and> s' = s"
  "reads f s = (r, s') \<longleftrightarrow> r = Inr (f s) \<and> s' = s"
  "modify g s = (u, s') \<longleftrightarrow> u = Inr () \<and> s' = g s"
  "lift_outcome r0 s = (r, s') \<longleftrightarrow> r = r0 \<and> s' = s"
  by (auto simp: routine_defs)

lemma when_do_iff:
  "when_do b m s = (r, s') \<longleftrightarrow> (if b then m s = (r, s') else r = Inr () \<and> s' = s)"
  by (auto simp: when_do_def)

lemmas routine_iffs = seq_Inr_iff seq_Inl_iff when_do_iff

section \<open>Routines with an observed effect\<close>

text \<open>
  A routine that always returns, with its result and what it adds to an observation of the state. Observations that are joined associatively compose along
  sequences of routines.
\<close>

definition effect :: "('s \<Rightarrow> 'o) \<Rightarrow> ('o \<Rightarrow> 'o \<Rightarrow> 'o) \<Rightarrow> ('s, 'a) routine \<Rightarrow> 'a \<Rightarrow> 'o \<Rightarrow> bool" where
  "effect obs join m r x \<longleftrightarrow> (\<forall>s. \<exists>t. m s = (Inr r, t) \<and> obs t = join (obs s) x)"

locale observation =
  fixes obs :: "'s \<Rightarrow> 'o" and join :: "'o \<Rightarrow> 'o \<Rightarrow> 'o" and none :: 'o
  assumes join_assoc: "join (join a b) c = join a (join b c)" and join_none: "join a none = a" and none_join: "join none a = a"
begin

lemma effect_ret: "effect obs join (ret r) r none"
  by (simp add: effect_def ret_def join_none)

lemma effect_modify: "(\<And>s. obs (f s) = join (obs s) x) \<Longrightarrow> effect obs join (modify f) () x"
  by (simp add: effect_def modify_def)

lemma effect_seq:
  assumes "effect obs join m r x" and "effect obs join (f r) r' y"
  shows "effect obs join (seq m f) r' (join x y)"
  unfolding effect_def
proof
  fix s
  obtain t u where "m s = (Inr r, t)" "obs t = join (obs s) x" "f r t = (Inr r', u)" "obs u = join (obs t) y"
    using assms unfolding effect_def by meson
  then show "\<exists>t. seq m f s = (Inr r', t) \<and> obs t = join (obs s) (join x y)" by (auto simp: seq_def join_assoc)
qed

lemma effect_seq_eq: "effect obs join m r x \<Longrightarrow> effect obs join (f r) r' y \<Longrightarrow> join x y = z \<Longrightarrow> effect obs join (seq m f) r' z"
  using effect_seq [of m r x f r' y] by simp

lemma effect_seq_none: "effect obs join m r none \<Longrightarrow> effect obs join (f r) r' x \<Longrightarrow> effect obs join (seq m f) r' x"
  by (rule effect_seq_eq [OF _ _ none_join])

lemma effect_none_seq: "effect obs join m r x \<Longrightarrow> effect obs join (f r) r' none \<Longrightarrow> effect obs join (seq m f) r' x"
  by (rule effect_seq_eq [OF _ _ join_none])

lemma effect_when: "effect obs join m () x \<Longrightarrow> effect obs join (when_do b m) () (if b then x else none)"
  by (simp add: when_do_def effect_ret)

lemma effect_run: "effect obs join m r x \<Longrightarrow> \<exists>t. m s = (Inr r, t) \<and> obs t = join (obs s) x"
  by (simp add: effect_def)

end

end
