(* ===== verification/Byte_Bitset.thy ===== *)
theory Byte_Bitset
  imports Cali_Prelude
begin

text \<open>
  \<^verbatim>\<open>libipc/byte_bitset.h\<close>: eight flags in one \<^verbatim>\<open>uint8_t\<close>. The operators of the
  struct are translated with the integer promotions of C: the byte is widened to
  32 bits, the shifted mask is formed at 32 bits, and the result of a compound
  assignment is truncated back to 8 bits.
\<close>

section \<open>Definitions\<close>

record ByteBitset =
  data :: u8

definition bitset_count :: "ByteBitset \<Rightarrow> nat" where
  "bitset_count b = length (filter (bit (data b)) [0..<8])"

definition bitset_all :: "ByteBitset \<Rightarrow> bool" where
  "bitset_all b \<longleftrightarrow> data b = 0xff"

definition bitset_none :: "ByteBitset \<Rightarrow> bool" where
  "bitset_none b \<longleftrightarrow> data b = 0"

definition bitset_size :: "ByteBitset \<Rightarrow> nat" where
  "bitset_size b = LENGTH(8) div 8"

definition bitset_index :: "ByteBitset \<Rightarrow> nat \<Rightarrow> bool" where
  "bitset_index b index \<longleftrightarrow> ((ucast (data b) :: u32) AND push_bit index 1) \<noteq> 0"

definition bitset_set :: "ByteBitset \<Rightarrow> nat \<Rightarrow> bool \<Rightarrow> ByteBitset" where
  "bitset_set b index v =
     (if v
      then b\<lparr>data := ucast ((ucast (data b) :: u32) OR push_bit index 1)\<rparr>
      else b\<lparr>data := ucast ((ucast (data b) :: u32) XOR ((ucast (data b) :: u32) AND push_bit index 1))\<rparr>)"

section \<open>Bits read back\<close>

lemma push_bit_1_word_neq_0_iff:
  "(w AND push_bit n 1) \<noteq> 0 \<longleftrightarrow> bit w n" for w :: u32
proof -
  have "bit (w AND push_bit n 1) m \<longleftrightarrow> bit w n \<and> m = n" for m
    by (auto simp: bit_simps dest: bit_imp_le_length)
  then show ?thesis
    by (metis bit_eq_iff bit_0_eq bot_apply bot_bool_def)
qed

lemma bitset_index_bit [bitset_simps]:
  "bitset_index b i \<longleftrightarrow> bit (data b) i"
  unfolding bitset_index_def push_bit_1_word_neq_0_iff
  by (auto simp: bit_simps dest: bit_imp_le_length)

lemma bit_data_bitset_set [bitset_simps]:
  "bit (data (bitset_set b i v)) j \<longleftrightarrow> (if i = j then v \<and> j < 8 else bit (data b) j)"
  by (auto simp: bitset_set_def bit_simps dest: bit_imp_le_length)

lemma bitset_index_set:
  "i < 8 \<Longrightarrow> bitset_index (bitset_set b i v) j = (if i = j then v else bitset_index b j)"
  by (auto simp: bitset_simps)

lemma bitset_all_iff: "bitset_all b \<longleftrightarrow> (\<forall>i<8. bitset_index b i)"
proof -
  have ones: "(0xff :: u8) = - 1" by simp
  have "bitset_all b \<longleftrightarrow> data b = - 1"
    unfolding bitset_all_def ones ..
  also have "\<dots> \<longleftrightarrow> (\<forall>i<8. bit (data b) i)"
    by (auto intro!: bit_word_eqI)
  finally show ?thesis by (simp add: bitset_index_bit)
qed

lemma bitset_none_iff: "bitset_none b \<longleftrightarrow> (\<forall>i<8. \<not> bitset_index b i)"
  by (auto simp: bitset_none_def bitset_index_bit intro!: bit_word_eqI)

lemma bitset_count_le: "bitset_count b \<le> 8"
  unfolding bitset_count_def by (rule order_trans [OF length_filter_le]) simp

lemma bitset_count_all_none:
  "bitset_count b = 8 \<longleftrightarrow> bitset_all b"
  "bitset_count b = 0 \<longleftrightarrow> bitset_none b"
proof -
  have "bitset_count b = 8 \<longleftrightarrow> length (filter (bit (data b)) [0..<8]) = length [0..<8::nat]"
    by (simp add: bitset_count_def)
  also have "\<dots> \<longleftrightarrow> (\<forall>i\<in>set [0..<8]. bit (data b) i)"
    by (metis filter_True length_filter_less nat_neq_iff)
  finally show "bitset_count b = 8 \<longleftrightarrow> bitset_all b"
    by (auto simp: bitset_all_iff bitset_index_bit)
  show "bitset_count b = 0 \<longleftrightarrow> bitset_none b"
    by (auto simp: bitset_none_iff bitset_index_bit bitset_count_def filter_empty_conv)
qed

lemma bitset_count_eq_card: "bitset_count b = card {i. i < 8 \<and> bitset_index b i}"
proof -
  have "bitset_count b = card (set (filter (bit (data b)) [0..<8]))"
    unfolding bitset_count_def by (rule distinct_card [symmetric]) simp
  also have "set (filter (bit (data b)) [0..<8]) = {i. i < 8 \<and> bitset_index b i}"
    by (auto simp: bitset_index_bit)
  finally show ?thesis .
qed

lemma bitset_set_absorb:
  "i < 8 \<Longrightarrow> bitset_set (bitset_set b i v) i w = bitset_set b i w"
proof -
  assume "i < 8"
  then have "data (bitset_set (bitset_set b i v) i w) = data (bitset_set b i w)"
    by (intro bit_word_eqI) (simp add: bit_data_bitset_set)
  then show ?thesis by simp
qed

end
