(* ===== verification/Page_Bitmap.thy ===== *)
theory Page_Bitmap
  imports Byte_Bitset
begin

text \<open>
  The bitmap \<^verbatim>\<open>pages_used\<close> of \<^verbatim>\<open>SharedMemoryInformation\<close>
  (\<^verbatim>\<open>libipc/shared_memory_manager.cpp\<close>): an array of \<^verbatim>\<open>ByteBitset\<close>, one bit per
  shared page, and \<^verbatim>\<open>findContinousFreePages\<close>, which scans it byte by byte for a run
  of clear bits. The scan is shown to be equivalent to a page-by-page reference
  scan, and the reference scan to return the first free run, shifted by one page.
\<close>

section \<open>The bitmap interface\<close>

text \<open>
  What the users of a bitmap rely on: a bit that was written is read back, every
  other bit is unchanged, and writing does not change the capacity.
\<close>

locale page_bitmap =
  fixes get :: "'b \<Rightarrow> nat \<Rightarrow> bool"
    and put :: "'b \<Rightarrow> nat \<Rightarrow> bool \<Rightarrow> 'b"
    and cap :: "'b \<Rightarrow> nat"
  assumes get_put: "i < cap b \<Longrightarrow> get (put b i v) j = (if i = j then v else get b j)"
    and cap_put: "cap (put b i v) = cap b"
begin

lemma cap_fold_put: "cap (fold (\<lambda>i b. put b i v) is b) = cap b"
  by (induction "is" arbitrary: b) (simp_all add: cap_put)

lemma get_fold_put:
  "\<forall>i\<in>set is. i < cap b \<Longrightarrow>
     get (fold (\<lambda>i b. put b i v) is b) j = (if j \<in> set is then v else get b j)"
  by (induction "is" arbitrary: b) (auto simp: get_put cap_put)

lemma get_fold_range:
  "pos + n \<le> cap b \<Longrightarrow>
     get (fold (\<lambda>i b. put b i v) [pos..<pos + n] b) j =
       (if pos \<le> j \<and> j < pos + n then v else get b j)"
  by (subst get_fold_put) auto

lemma fold_range_restores:
  assumes "pos + n \<le> cap b" and "\<And>j. pos \<le> j \<Longrightarrow> j < pos + n \<Longrightarrow> get b j = v"
  shows "get (fold (\<lambda>i b. put b i v) [pos..<pos + n]
               (fold (\<lambda>i b. put b i w) [pos..<pos + n] b)) j = get b j"
  using assms by (simp add: get_fold_range cap_fold_put)

end

section \<open>The bitmap as the code has it\<close>

definition page_used :: "ByteBitset list \<Rightarrow> nat \<Rightarrow> bool" where
  "page_used pages i = (i div 8 < length pages \<and> bitset_index (pages ! (i div 8)) (i mod 8))"

definition put_page :: "ByteBitset list \<Rightarrow> nat \<Rightarrow> bool \<Rightarrow> ByteBitset list" where
  "put_page pages i v = pages[i div 8 := bitset_set (pages ! (i div 8)) (i mod 8) v]"

text \<open>
  The loops \<^verbatim>\<open>for (i = pos; i < pos + count; i++) pages_used[i / 8].set(i % 8, v)\<close>
  of \<^verbatim>\<open>init\<close>, \<^verbatim>\<open>requestContinousFreePagesInternal\<close> and \<^verbatim>\<open>freePages\<close>. An index past
  the end of the array is undefined behaviour.
\<close>

fun set_pages :: "ByteBitset list \<Rightarrow> nat \<Rightarrow> nat \<Rightarrow> bool \<Rightarrow> ByteBitset list outcome" where
  "set_pages pages i 0 v = Inr pages"
| "set_pages pages i (Suc n) v =
     (if i div 8 < length pages then set_pages (put_page pages i v) (Suc i) n v
      else Inl Undefined_behaviour)"

definition bitmap_cap :: "ByteBitset list \<Rightarrow> nat" where
  "bitmap_cap pages = 8 * length pages"

lemma div8_less_iff: "i div 8 < length pages \<longleftrightarrow> i < bitmap_cap pages"
  unfolding bitmap_cap_def by linarith

lemma length_put_page [simp]: "length (put_page pages i v) = length pages"
  by (simp add: put_page_def)

interpretation pb: page_bitmap page_used put_page bitmap_cap
proof (unfold_locales, goal_cases)
  case (1 i b v j)
  then have i: "i div 8 < length b" by (simp add: div8_less_iff)
  show ?case
  proof (cases "i div 8 = j div 8")
    case True
    then have "i = j \<longleftrightarrow> i mod 8 = j mod 8" by (metis div_mult_mod_eq)
    with True i show ?thesis
      by (simp add: page_used_def put_page_def bitset_index_set)
  next
    case False
    with i show ?thesis by (auto simp: page_used_def put_page_def)
  qed
next
  case (2 b i v)
  show ?case by (simp add: bitmap_cap_def)
qed

lemmas page_bitmap_facts [page_simps] = pb.get_put pb.cap_put pb.cap_fold_put

lemma set_pages_in_range:
  "pos + n \<le> bitmap_cap pages \<Longrightarrow>
     set_pages pages pos n v = Inr (fold (\<lambda>i b. put_page b i v) [pos..<pos + n] pages)"
proof (induction n arbitrary: pos pages)
  case (Suc n)
  then have "pos div 8 < length pages" by (simp add: div8_less_iff)
  moreover have "[pos..<pos + Suc n] = pos # [Suc pos..<Suc pos + n]"
    by (simp add: upt_rec)
  ultimately show ?case using Suc by (simp add: pb.cap_put)
qed simp

lemma set_pages_out_of_range:
  "bitmap_cap pages < pos + n \<Longrightarrow> 0 < n \<Longrightarrow> set_pages pages pos n v = Inl Undefined_behaviour"
proof (induction n arbitrary: pos pages)
  case (Suc n)
  show ?case
  proof (cases "pos < bitmap_cap pages")
    case True
    with Suc.prems have "bitmap_cap (put_page pages pos v) < Suc pos + n" and "0 < n"
      by (simp_all add: pb.cap_put)
    then have "set_pages (put_page pages pos v) (Suc pos) n v = Inl Undefined_behaviour"
      by (rule Suc.IH)
    then show ?thesis by simp
  qed (simp add: div8_less_iff)
qed simp

lemma set_pages_Inr:
  assumes "set_pages pages pos n v = Inr pages'"
  shows "length pages' = length pages"
    and "0 < n \<Longrightarrow> pos + n \<le> bitmap_cap pages"
    and "page_used pages' j = (if pos \<le> j \<and> j < pos + n then v else page_used pages j)"
proof -
  show le: "pos + n \<le> bitmap_cap pages" if "0 < n"
    using assms that set_pages_out_of_range [of pages pos n v] by (cases "bitmap_cap pages < pos + n") auto
  have eq: "pages' = fold (\<lambda>i b. put_page b i v) [pos..<pos + n] pages"
  proof (cases "n = 0")
    case True
    with assms show ?thesis by simp
  next
    case False
    with assms le show ?thesis by (simp add: set_pages_in_range)
  qed
  show "length pages' = length pages"
    using pb.cap_fold_put [of v "[pos..<pos + n]" pages] by (simp add: eq bitmap_cap_def)
  show "page_used pages' j = (if pos \<le> j \<and> j < pos + n then v else page_used pages j)"
    using le by (cases "n = 0") (auto simp: eq pb.get_fold_range)
qed

lemma set_pages_Inl: "set_pages pages pos n v = Inl e \<Longrightarrow> e = Undefined_behaviour"
  by (cases "bitmap_cap pages < pos + n"; cases "0 < n")
    (simp_all add: set_pages_out_of_range set_pages_in_range)

section \<open>Searching a run of free pages\<close>

text \<open>
  The inner loop over the eight bits of a partly used byte. It ends with the
  position to return (\<^const>\<open>Inl\<close>) or with the counters it leaves (\<^const>\<open>Inr\<close>).
\<close>

fun scan_byte :: "ByteBitset \<Rightarrow> nat \<Rightarrow> nat \<Rightarrow> nat list \<Rightarrow> nat \<Rightarrow> nat \<Rightarrow> nat + nat \<times> nat" where
  "scan_byte b count i [] c last_start = Inr (c, last_start)"
| "scan_byte b count i (j # js) c last_start =
     (if bitset_index b j then scan_byte b count i js 0 last_start
      else let last_start = (if c = 0 then i + j else last_start); c = c + 1
           in if count \<le> c then Inl last_start else scan_byte b count i js c last_start)"

function find_loop :: "ByteBitset list \<Rightarrow> nat \<Rightarrow> nat \<Rightarrow> nat \<Rightarrow> nat \<Rightarrow> nat option" where
  "find_loop pages count i c last_start =
     (if i div 8 < length pages then
        if bitset_all (pages ! (i div 8)) then find_loop pages count (i + 8) 0 last_start
        else if bitset_none (pages ! (i div 8)) then
          let last_start = (if c = 0 then i else last_start); c = c + 8
          in if count \<le> c then Some last_start else find_loop pages count (i + 8) c last_start
        else
          case scan_byte (pages ! (i div 8)) count i [0..<8] c last_start of
            Inl pos \<Rightarrow> Some pos
          | Inr (c, last_start) \<Rightarrow> find_loop pages count (i + 8) c last_start
      else None)"
  by pat_completeness auto
termination
  by (relation "measure (\<lambda>(pages, count, i, c, last_start). length pages - i div 8)") auto

declare find_loop.simps [simp del]

definition findContinousFreePages :: "ByteBitset list \<Rightarrow> nat \<Rightarrow> nat outcome" where
  "findContinousFreePages pages count =
     (case find_loop pages count 1 0 0 of
        Some pos \<Rightarrow> Inr pos
      | None \<Rightarrow> Inl (Runtime_error ''Too much memory used! (NOT IMPLEMENTED)''))"

section \<open>The scan against a reference\<close>

text \<open>
  The reference scan visits one page at a time; \<^term>\<open>c\<close> counts the free pages just
  before page \<^term>\<open>q\<close>. It returns the first page of the run.
\<close>

function scan_pages :: "(nat \<Rightarrow> bool) \<Rightarrow> nat \<Rightarrow> nat \<Rightarrow> nat \<Rightarrow> nat \<Rightarrow> nat option" where
  "scan_pages used n count q c =
     (if q < n then
        if used q then scan_pages used n count (Suc q) 0
        else if count \<le> Suc c then Some (q - c)
        else scan_pages used n count (Suc q) (Suc c)
      else None)"
  by pat_completeness auto
termination
  by (relation "measure (\<lambda>(used, n, count, q, c). n - q)") auto

declare scan_pages.simps [simp del]

definition free_run :: "(nat \<Rightarrow> bool) \<Rightarrow> nat \<Rightarrow> nat \<Rightarrow> nat \<Rightarrow> bool" where
  "free_run used n count p = (p + count \<le> n \<and> list_all (\<lambda>q. \<not> used q) [p..<p + count])"

lemma free_run_iff: "free_run used n count p \<longleftrightarrow> p + count \<le> n \<and> (\<forall>q. p \<le> q \<and> q < p + count \<longrightarrow> \<not> used q)"
  by (auto simp: free_run_def list_all_iff)

lemma scan_pages_used_run:
  assumes "\<And>k. k < m \<Longrightarrow> used (q + k)" and "q + m \<le> n" and "0 < m"
  shows "scan_pages used n count q c = scan_pages used n count (q + m) 0"
  using assms
proof (induction m arbitrary: q c)
  case (Suc m)
  from Suc.prems(1) [of 0] Suc.prems(2)
  have "scan_pages used n count q c = scan_pages used n count (Suc q) 0"
    by (simp add: scan_pages.simps [of used n count q])
  also have "\<dots> = scan_pages used n count (Suc q + m) 0"
  proof (cases "m = 0")
    case False
    then show ?thesis using Suc.prems Suc.IH [of "Suc q"]
      by (metis Suc_less_eq add_Suc_right add_Suc_shift neq0_conv)
  qed simp
  finally show ?case by simp
qed simp

lemma scan_pages_free_run:
  assumes "\<And>k. k < m \<Longrightarrow> \<not> used (q + k)" and "q + m \<le> n" and "c < count" and "c \<le> q"
  shows "scan_pages used n count q c =
    (if count \<le> c + m then Some (q - c) else scan_pages used n count (q + m) (c + m))"
  using assms
proof (induction m arbitrary: q c)
  case (Suc m)
  have step: "scan_pages used n count q c =
      (if count \<le> Suc c then Some (q - c) else scan_pages used n count (Suc q) (Suc c))"
    using Suc.prems(1) [of 0] Suc.prems(2) by (simp add: scan_pages.simps [of used n count q])
  show ?case
  proof (cases "count \<le> Suc c")
    case False
    have "\<And>k. k < m \<Longrightarrow> \<not> used (Suc q + k)"
      using Suc.prems(1) by (metis Suc_less_eq add_Suc_right add_Suc_shift)
    with False Suc.prems Suc.IH [of "Suc q" "Suc c"] step show ?thesis
      by simp
  qed (use step in simp)
qed simp

text \<open>
  What the counters of the loop mean at page \<^term>\<open>q\<close>: \<^term>\<open>c\<close> pages before it are free,
  and the remembered start is one past the first of them.
\<close>

definition scan_inv :: "nat \<Rightarrow> nat \<Rightarrow> nat \<Rightarrow> nat \<Rightarrow> bool" where
  "scan_inv count q c last_start = (c < count \<and> c \<le> q \<and> (0 < c \<longrightarrow> last_start = Suc (q - c)))"

lemma scan_byte_refines:
  assumes "8 * k + 8 \<le> n" and "m \<le> 8"
    and "\<And>j. j < 8 \<Longrightarrow> used (8 * k + j) = bitset_index b j"
    and "scan_inv count (8 * k + m) c last_start"
  shows "case scan_byte b count (Suc (8 * k)) [m..<8] c last_start of
       Inl pos \<Rightarrow> 0 < pos \<and> scan_pages used n count (8 * k + m) c = Some (pos - 1)
     | Inr (c', last_start') \<Rightarrow>
         scan_pages used n count (8 * k + m) c = scan_pages used n count (8 * k + 8) c' \<and>
         scan_inv count (8 * k + 8) c' last_start'"
  using assms(2,4)
proof (induction "8 - m" arbitrary: m c last_start)
  case 0
  then show ?case by simp
next
  case (Suc d)
  then have m: "m < 8" and upt: "[m..<8] = m # [Suc m..<8]" by (simp_all add: upt_rec)
  have IH: "scan_inv count (8 * k + Suc m) c' l \<Longrightarrow>
      case scan_byte b count (Suc (8 * k)) [Suc m..<8] c' l of
       Inl pos \<Rightarrow> 0 < pos \<and> scan_pages used n count (8 * k + Suc m) c' = Some (pos - 1)
     | Inr (c'', l') \<Rightarrow>
         scan_pages used n count (8 * k + Suc m) c' = scan_pages used n count (8 * k + 8) c'' \<and>
         scan_inv count (8 * k + 8) c'' l'" for c' l
    using Suc.hyps(1) [of "Suc m" c' l] Suc.hyps(2) m by simp
  have q: "8 * k + m < n" using assms(1) m by simp
  let ?l = "if c = 0 then Suc (8 * k + m) else last_start"
  have byte: "scan_byte b count (Suc (8 * k)) [m..<8] c last_start =
      (if used (8 * k + m) then scan_byte b count (Suc (8 * k)) [Suc m..<8] 0 last_start
       else if count \<le> Suc c then Inl ?l
       else scan_byte b count (Suc (8 * k)) [Suc m..<8] (Suc c) ?l)"
    using assms(3) [OF m] by (simp add: upt Let_def)
  have scan: "scan_pages used n count (8 * k + m) c =
      (if used (8 * k + m) then scan_pages used n count (8 * k + Suc m) 0
       else if count \<le> Suc c then Some (8 * k + m - c)
       else scan_pages used n count (8 * k + Suc m) (Suc c))"
    using q by (simp add: scan_pages.simps [of used n count "8 * k + m"])
  consider "used (8 * k + m)" | "\<not> used (8 * k + m)" "count \<le> Suc c" | "\<not> used (8 * k + m)" "\<not> count \<le> Suc c"
    by blast
  then show ?case
  proof cases
    case 1
    with IH [of 0 last_start] Suc.prems(2) show ?thesis
      unfolding byte scan by (simp add: scan_inv_def)
  next
    case 2
    with Suc.prems(2) show ?thesis unfolding byte scan by (simp add: scan_inv_def)
  next
    case 3
    with Suc.prems(2) have "scan_inv count (8 * k + Suc m) (Suc c) ?l"
      by (auto simp: scan_inv_def)
    with 3 IH show ?thesis unfolding byte scan by (simp only: if_False)
  qed
qed

lemma find_loop_end: "length pages \<le> k \<Longrightarrow> find_loop pages count (Suc (8 * k)) c last_start = None"
proof -
  have div: "Suc (8 * k) div 8 = k" by linarith
  assume "length pages \<le> k"
  then show ?thesis by (simp only: find_loop.simps [of pages count "Suc (8 * k)"] div not_less [symmetric] if_False)
qed

lemma find_loop_step:
  assumes "k < length pages"
  shows "find_loop pages count (Suc (8 * k)) c last_start =
     (if bitset_all (pages ! k) then find_loop pages count (Suc (8 * k) + 8) 0 last_start
      else if bitset_none (pages ! k) then
        let last_start = (if c = 0 then Suc (8 * k) else last_start); c = c + 8
        in if count \<le> c then Some last_start else find_loop pages count (Suc (8 * k) + 8) c last_start
      else
        case scan_byte (pages ! k) count (Suc (8 * k)) [0..<8] c last_start of
          Inl pos \<Rightarrow> Some pos
        | Inr (c, last_start) \<Rightarrow> find_loop pages count (Suc (8 * k) + 8) c last_start)"
proof -
  have div: "Suc (8 * k) div 8 = k" by linarith
  from assms show ?thesis
    by (simp only: find_loop.simps [of pages count "Suc (8 * k)"] div if_True)
qed

lemma find_loop_refines:
  assumes "scan_inv count (8 * k) c last_start"
  shows "find_loop pages count (Suc (8 * k)) c last_start =
    map_option Suc (scan_pages (page_used pages) (bitmap_cap pages) count (8 * k) c)"
  using assms
proof (induction "length pages - k" arbitrary: k c last_start)
  case 0
  then show ?case
    by (simp add: find_loop_end scan_pages.simps [of _ _ count "8 * k"] bitmap_cap_def)
next
  case (Suc d)
  then have k: "k < length pages" by simp
  let ?u = "page_used pages" and ?n = "bitmap_cap pages" and ?b = "pages ! k"
  have n: "8 * k + 8 \<le> ?n" using k by (simp add: bitmap_cap_def)
  have u: "j < 8 \<Longrightarrow> ?u (8 * k + j) = bitset_index ?b j" for j
    using k by (simp add: page_used_def)
  have IH: "scan_inv count (8 * k + 8) c' l \<Longrightarrow>
     find_loop pages count (Suc (8 * k) + 8) c' l = map_option Suc (scan_pages ?u ?n count (8 * k + 8) c')" for c' l
    using Suc.hyps(1) [of "Suc k" c' l] Suc.hyps(2) by (simp add: algebra_simps)
  note step = find_loop_step [OF k, of count c last_start]
  consider "bitset_all ?b" | "\<not> bitset_all ?b" "bitset_none ?b" | "\<not> bitset_all ?b" "\<not> bitset_none ?b"
    by blast
  then show ?case
  proof cases
    case 1
    then have "scan_pages ?u ?n count (8 * k) c = scan_pages ?u ?n count (8 * k + 8) 0"
      using n u by (intro scan_pages_used_run) (auto simp: bitset_all_iff)
    with 1 k IH [of 0 last_start] Suc.prems show ?thesis
      by (simp add: step scan_inv_def)
  next
    case 2
    have "scan_pages ?u ?n count (8 * k) c =
        (if count \<le> c + 8 then Some (8 * k - c) else scan_pages ?u ?n count (8 * k + 8) (c + 8))"
      using n u 2(2) Suc.prems by (intro scan_pages_free_run) (auto simp: bitset_none_iff scan_inv_def)
    with 2 k IH [of "c + 8" "if c = 0 then Suc (8 * k) else last_start"] Suc.prems show ?thesis
      by (auto simp: step scan_inv_def Let_def)
  next
    case 3
    have "8 * k + 0 = 8 * k" by simp
    with 3 k IH Suc.prems scan_byte_refines [of k ?n 0 ?u ?b count c last_start] n u show ?thesis
      by (auto simp: step split: sum.splits prod.splits)
  qed
qed

lemma scan_pages_first_fit:
  assumes "c < count" and "c \<le> q" and "\<And>r. q - c \<le> r \<Longrightarrow> r < q \<Longrightarrow> \<not> used r"
    and "\<And>p. p < q - c \<Longrightarrow> \<not> free_run used n count p"
  shows "case scan_pages used n count q c of
      Some p \<Rightarrow> free_run used n count p \<and> (\<forall>p'<p. \<not> free_run used n count p')
    | None \<Rightarrow> \<forall>p. \<not> free_run used n count p"
  using assms
proof (induction used n count q c rule: scan_pages.induct)
  case (1 used n count q c)
  let ?goal = "\<lambda>q c. case scan_pages used n count q c of
      Some p \<Rightarrow> free_run used n count p \<and> (\<forall>p'<p. \<not> free_run used n count p')
    | None \<Rightarrow> \<forall>p. \<not> free_run used n count p"
  note unf = scan_pages.simps [of used n count q c]
  consider "n \<le> q" | "q < n" "used q" | "q < n" "\<not> used q" "count \<le> Suc c" | "q < n" "\<not> used q" "Suc c < count"
    by linarith
  then show ?case
  proof cases
    case 1
    have "\<not> free_run used n count p" for p
      using "1.prems" 1 by (cases "p < q - c") (auto simp: free_run_iff)
    with 1 show ?thesis by (simp add: unf)
  next
    case 2
    have "\<not> free_run used n count p" if "p < Suc q" for p
    proof (cases "p < q - c")
      case False
      with that "1.prems"(1,2) have "p \<le> q" "q < p + count" by linarith+
      with 2 show ?thesis by (auto simp: free_run_iff)
    qed (use "1.prems" in simp)
    with 2 "1.prems"(1) have "?goal (Suc q) 0" by (intro "1.IH"(1)) auto
    with 2 show ?thesis by (simp add: unf)
  next
    case 3
    with "1.prems" have count: "count = Suc c" by simp
    have "\<not> used r" if "q - c \<le> r" "r < Suc q" for r
      using that 3 "1.prems"(3) [of r] by (cases "r = q") auto
    with 3 "1.prems"(2) have "free_run used n count (q - c)"
      by (auto simp: free_run_iff count)
    with 3 "1.prems" show ?thesis by (simp add: unf)
  next
    case 4
    have "\<not> used r" if "Suc q - Suc c \<le> r" "r < Suc q" for r
      using that 4 "1.prems"(3) [of r] by (cases "r = q") auto
    with 4 "1.prems" have "?goal (Suc q) (Suc c)" by (intro "1.IH"(2)) auto
    with 4 show ?thesis by (simp add: unf)
  qed
qed

section \<open>What the search returns\<close>

lemma find_scan:
  "0 < count \<Longrightarrow> find_loop pages count 1 0 0 =
     map_option Suc (scan_pages (page_used pages) (bitmap_cap pages) count 0 0)"
  using find_loop_refines [of count 0 0 0 pages] by (simp add: scan_inv_def)

lemma find_Inr_iff:
  assumes "0 < count"
  shows "findContinousFreePages pages count = Inr pos \<longleftrightarrow>
    0 < pos \<and> free_run (page_used pages) (bitmap_cap pages) count (pos - 1) \<and>
    (\<forall>p<pos - 1. \<not> free_run (page_used pages) (bitmap_cap pages) count p)"
proof -
  let ?fr = "free_run (page_used pages) (bitmap_cap pages) count"
  have "case scan_pages (page_used pages) (bitmap_cap pages) count 0 0 of
      Some p \<Rightarrow> ?fr p \<and> (\<forall>p'<p. \<not> ?fr p') | None \<Rightarrow> \<forall>p. \<not> ?fr p"
    using assms by (intro scan_pages_first_fit) auto
  with find_scan [OF assms, of pages] show ?thesis
    by (cases "scan_pages (page_used pages) (bitmap_cap pages) count 0 0"; cases pos)
      (auto simp: findContinousFreePages_def intro: linorder_cases)
qed

text \<open>
  A request of no page at all is answered like a request of one page.
\<close>

lemma scan_byte_zero: "scan_byte b 0 i js 0 l = scan_byte b 1 i js 0 l"
  by (induction js arbitrary: l) simp_all

lemma scan_byte_one_Inr: "scan_byte b 1 i js 0 l = Inr (c, l') \<Longrightarrow> c = 0"
  by (induction js arbitrary: l) (auto split: if_splits)

lemma find_loop_zero: "find_loop pages 0 i 0 l = find_loop pages 1 i 0 l"
proof (induction "length pages - i div 8" arbitrary: i l)
  case 0
  then show ?case by (simp add: find_loop.simps [of pages _ i])
next
  case (Suc d)
  then have "find_loop pages 0 (i + 8) 0 l = find_loop pages 1 (i + 8) 0 l" for l by simp
  with Suc.hyps(2) show ?case
    unfolding find_loop.simps [of pages 0 i] find_loop.simps [of pages 1 i]
    by (auto simp: Let_def scan_byte_zero split: sum.split dest!: scan_byte_one_Inr [unfolded One_nat_def])
qed

lemma find_zero: "findContinousFreePages pages 0 = findContinousFreePages pages 1"
  by (simp add: findContinousFreePages_def find_loop_zero)

lemma find_Inl_iff:
  assumes "0 < count"
  shows "findContinousFreePages pages count = Inl e \<longleftrightarrow>
    e = Runtime_error ''Too much memory used! (NOT IMPLEMENTED)'' \<and>
    (\<forall>p. \<not> free_run (page_used pages) (bitmap_cap pages) count p)"
proof -
  let ?fr = "free_run (page_used pages) (bitmap_cap pages) count"
  have "case scan_pages (page_used pages) (bitmap_cap pages) count 0 0 of
      Some p \<Rightarrow> ?fr p \<and> (\<forall>p'<p. \<not> ?fr p') | None \<Rightarrow> \<forall>p. \<not> ?fr p"
    using assms by (intro scan_pages_first_fit) auto
  with find_scan [OF assms, of pages] show ?thesis
    by (cases "scan_pages (page_used pages) (bitmap_cap pages) count 0 0")
      (auto simp: findContinousFreePages_def)
qed

text \<open>
  C6: for a positive request the byte-wise search is equivalent to a first-fit search over single
  pages: it throws exactly when no run of \<^term>\<open>count\<close> free pages exists, and otherwise returns
  the position one page past the start of the lowest such run.
\<close>

theorem findContinousFreePages_first_fit:
  assumes "0 < count"
  shows "case findContinousFreePages pages count of
      Inr pos \<Rightarrow> 0 < pos \<and> free_run (page_used pages) (bitmap_cap pages) count (pos - 1) \<and>
        (\<forall>p<pos - 1. \<not> free_run (page_used pages) (bitmap_cap pages) count p)
    | Inl e \<Rightarrow> e = Runtime_error ''Too much memory used! (NOT IMPLEMENTED)'' \<and>
        (\<forall>p. \<not> free_run (page_used pages) (bitmap_cap pages) count p)"
  using find_Inr_iff [OF assms, of pages] find_Inl_iff [OF assms, of pages]
  by (simp split: sum.split)

theorem findContinousFreePages_first_fit_witness:
  "(0::nat) < 10 \<and>
   findContinousFreePages [\<lparr>data = 0x0f\<rparr>, \<lparr>data = 0\<rparr>, \<lparr>data = 0x10\<rparr>] 10 = Inr 5 \<and>
   free_run (page_used [\<lparr>data = 0x0f\<rparr>, \<lparr>data = 0\<rparr>, \<lparr>data = 0x10\<rparr>]) 24 10 4 \<and>
   findContinousFreePages [\<lparr>data = 0x0f\<rparr>] 5 = Inl (Runtime_error ''Too much memory used! (NOT IMPLEMENTED)'')"
proof -
  have "findContinousFreePages [\<lparr>data = 0x0f\<rparr>, \<lparr>data = 0\<rparr>, \<lparr>data = 0x10\<rparr>] 10 = Inr 5"
    and "findContinousFreePages [\<lparr>data = 0x0f\<rparr>] 5 = Inl (Runtime_error ''Too much memory used! (NOT IMPLEMENTED)'')"
    by code_simp+
  with findContinousFreePages_first_fit [of 10 "[\<lparr>data = 0x0f\<rparr>, \<lparr>data = 0\<rparr>, \<lparr>data = 0x10\<rparr>]"]
  show ?thesis by (simp add: bitmap_cap_def)
qed

end
