(* ===== verification/Shm_Region.thy ===== *)
theory Shm_Region
  imports Cali_Prelude
begin

text \<open>
  The address layout of the shared memory (\<^verbatim>\<open>libipc/shm_malloc.h\<close>) and the rounding
  macros of \<^verbatim>\<open>libipc/shared_memory_manager.cpp\<close>, on 64-bit words. The pointer tests
  are shown to select two disjoint ranges of 2^40 bytes, and the rounding macros
  to round to multiples of a power of two, wrapping where the addition overflows.
\<close>

section \<open>Definitions\<close>

definition shm_shared_memory_base :: addr where
  "shm_shared_memory_base = 0x3f0000000000"

definition shm_shared_memory_file :: addr where
  "shm_shared_memory_file = 0x3e0000000000"

definition shm_shared_memory_mask :: addr where
  "shm_shared_memory_mask = 0xffffff0000000000"

definition shm_is_shared_memory_pointer :: "addr \<Rightarrow> bool" where
  "shm_is_shared_memory_pointer p = (p AND shm_shared_memory_mask = shm_shared_memory_base)"

definition shm_is_shared_file_pointer :: "addr \<Rightarrow> bool" where
  "shm_is_shared_file_pointer p = (p AND shm_shared_memory_mask = shm_shared_memory_file)"

definition ALIGN_DOWN :: "u64 \<Rightarrow> u64 \<Rightarrow> u64" where
  "ALIGN_DOWN b sz = b AND (- sz)"

definition ALIGN_UP :: "u64 \<Rightarrow> u64 \<Rightarrow> u64" where
  "ALIGN_UP b sz = ALIGN_DOWN (b + sz - 1) sz"

section \<open>Masks that clear low bits\<close>

lemma unat_and_minus_exp:
  fixes x :: "'a::len word"
  shows "unat (x AND - (2 ^ k)) = unat x div 2 ^ k * 2 ^ k"
proof -
  have "unat (x AND - (2 ^ k)) = push_bit k (drop_bit k (unat x))"
    by (rule bit_eqI) (auto simp: minus_exp_eq_not_mask bit_simps dest: bit_imp_le_length)
  then show ?thesis by (simp add: push_bit_eq_mult drop_bit_eq_div)
qed

lemma div_exp_eq_iff: "x div 2 ^ k * 2 ^ k = c * 2 ^ k \<longleftrightarrow> x div 2 ^ k = (c::nat)"
  by simp

section \<open>The two shared ranges\<close>

lemma mask_is_minus_exp: "shm_shared_memory_mask = - (2 ^ 40)"
  by (simp add: shm_shared_memory_mask_def)

lemma masked_range_iff:
  assumes "unat b = c * 2 ^ 40"
  shows "(p AND shm_shared_memory_mask = b) \<longleftrightarrow> unat b \<le> unat p \<and> unat p < unat b + 2 ^ 40"
proof -
  have "p AND shm_shared_memory_mask = b \<longleftrightarrow> unat (p AND shm_shared_memory_mask) = unat b"
    by (simp add: word_unat_eq_iff)
  also have "\<dots> \<longleftrightarrow> unat p div 2 ^ 40 = c"
    unfolding mask_is_minus_exp unat_and_minus_exp assms by (rule div_exp_eq_iff)
  also have "\<dots> \<longleftrightarrow> c * 2 ^ 40 \<le> unat p \<and> unat p < c * 2 ^ 40 + 2 ^ 40"
    by (simp add: div_nat_eqI div_less_iff_less_mult less_eq_div_iff_mult_less_eq) arith
  finally show ?thesis by (simp add: assms)
qed

lemma shared_memory_pointer_iff:
  "shm_is_shared_memory_pointer p \<longleftrightarrow>
     unat shm_shared_memory_base \<le> unat p \<and> unat p < unat shm_shared_memory_base + 2 ^ 40"
  unfolding shm_is_shared_memory_pointer_def
  using masked_range_iff [of shm_shared_memory_base "0x3f" p] by (simp add: shm_shared_memory_base_def)

lemma shared_file_pointer_iff:
  "shm_is_shared_file_pointer p \<longleftrightarrow>
     unat shm_shared_memory_file \<le> unat p \<and> unat p < unat shm_shared_memory_file + 2 ^ 40"
  unfolding shm_is_shared_file_pointer_def
  using masked_range_iff [of shm_shared_memory_file "0x3e" p] by (simp add: shm_shared_memory_file_def)

lemma base_offset_shared:
  "n < 2 ^ 40 \<Longrightarrow> shm_is_shared_memory_pointer (shm_shared_memory_base + of_nat n)"
  by (simp add: shared_memory_pointer_iff shm_shared_memory_base_def unat_word_ariths unat_of_nat)

lemma null_not_shared [simp]: "\<not> shm_is_shared_memory_pointer 0" "\<not> shm_is_shared_file_pointer 0"
  by (simp_all add: shm_is_shared_memory_pointer_def shm_is_shared_file_pointer_def
      shm_shared_memory_base_def shm_shared_memory_file_def)

section \<open>Rounding\<close>

lemma ALIGN_DOWN_exp: "unat (ALIGN_DOWN b (2 ^ k)) = unat b div 2 ^ k * 2 ^ k"
  by (simp only: ALIGN_DOWN_def unat_and_minus_exp)

lemma ALIGN_UP_exp:
  "unat (ALIGN_UP b (2 ^ k)) = unat (b + 2 ^ k - 1) div 2 ^ k * 2 ^ k"
  by (simp only: ALIGN_UP_def ALIGN_DOWN_exp)

lemma unat_exp_minus_1: "k < 64 \<Longrightarrow> unat (of_nat (2 ^ k - 1) :: u64) = 2 ^ k - 1"
proof -
  assume "k < 64"
  then have "(2::nat) ^ k < 2 ^ 64" by (intro power_strict_increasing) auto
  then have "(2::nat) ^ k - 1 < 2 ^ 64" by linarith
  then show ?thesis unfolding unat_of_nat by simp
qed

lemma unat_round_add:
  fixes b :: u64
  assumes "k < 64" and "unat b + (2 ^ k - 1) < 2 ^ 64"
  shows "unat (b + 2 ^ k - 1) = unat b + (2 ^ k - 1)"
proof -
  have "b + 2 ^ k - 1 = b + of_nat (2 ^ k - 1)"
    by (simp add: of_nat_diff)
  moreover have "unat (of_nat (2 ^ k - 1) :: u64) = 2 ^ k - 1"
    by (rule unat_exp_minus_1 [OF assms(1)])
  ultimately show ?thesis using assms(2) by (simp only: unat_word_ariths(1)) simp
qed

lemma ALIGN_UP_no_wrap:
  assumes "k < 64" and "unat b + (2 ^ k - 1) < 2 ^ 64"
  shows "unat b \<le> unat (ALIGN_UP b (2 ^ k))" and "unat (ALIGN_UP b (2 ^ k)) < unat b + 2 ^ k"
    and "2 ^ k dvd unat (ALIGN_UP b (2 ^ k))"
proof -
  have eq: "unat (ALIGN_UP b (2 ^ k)) = (unat b + (2 ^ k - 1)) div 2 ^ k * 2 ^ k"
    by (simp only: ALIGN_UP_exp unat_round_add [OF assms])
  show "2 ^ k dvd unat (ALIGN_UP b (2 ^ k))" by (simp add: eq)
  have "(unat b + (2 ^ k - 1)) mod 2 ^ k < (2::nat) ^ k" and "0 < (2::nat) ^ k" by simp_all
  then show "unat b \<le> unat (ALIGN_UP b (2 ^ k))" and "unat (ALIGN_UP b (2 ^ k)) < unat b + 2 ^ k"
    unfolding eq using div_mult_mod_eq [of "unat b + (2 ^ k - 1)" "2 ^ k"] by linarith+
qed

text \<open>
  A length in the last page of the address space wraps to zero.
\<close>

lemma ALIGN_UP_wrap:
  assumes "k < 64" and "2 ^ 64 - 2 ^ k < unat b"
  shows "ALIGN_UP b (2 ^ k) = 0"
proof -
  have pos: "(2::nat) ^ k \<le> 2 ^ 64" using assms(1) by (intro power_increasing) auto
  have "b + 2 ^ k - 1 = b + of_nat (2 ^ k - 1)" by (simp add: of_nat_diff)
  moreover have "unat (of_nat (2 ^ k - 1) :: u64) = 2 ^ k - 1"
    by (rule unat_exp_minus_1 [OF assms(1)])
  moreover have "unat b < 2 ^ 64" using unsigned_less [of b] by simp
  ultimately have "unat (b + 2 ^ k - 1) = unat b + (2 ^ k - 1) - 2 ^ 64"
    using assms(2) pos by (simp only: unat_plus_if') simp
  moreover have "0 < (2::nat) ^ k" by simp
  ultimately have "unat (b + 2 ^ k - 1) < 2 ^ k" using \<open>unat b < 2 ^ 64\<close> pos by linarith
  then have "unat (ALIGN_UP b (2 ^ k)) = 0" by (simp add: ALIGN_UP_exp)
  then show ?thesis by (simp add: unat_eq_0)
qed

text \<open>
  C11: Bounds of the rounding macros for every word and every power of two. Rounding down stays less than one unit below the value. Rounding up is a multiple less than one unit
  above the value as long as the value is at most one unit below the end of the address space; for larger values it wraps around to zero.
\<close>

theorem ALIGN_bounds:
  assumes "k < 64"
  shows "2 ^ k dvd unat (ALIGN_DOWN b (2 ^ k)) \<and> unat (ALIGN_DOWN b (2 ^ k)) \<le> unat b \<and> unat b < unat (ALIGN_DOWN b (2 ^ k)) + 2 ^ k \<and>
    2 ^ k dvd unat (ALIGN_UP b (2 ^ k)) \<and>
    (if unat b \<le> 2 ^ 64 - 2 ^ k then unat b \<le> unat (ALIGN_UP b (2 ^ k)) \<and> unat (ALIGN_UP b (2 ^ k)) < unat b + 2 ^ k else ALIGN_UP b (2 ^ k) = 0)"
proof -
  have "unat b mod 2 ^ k < (2::nat) ^ k" by simp
  then have down: "unat (ALIGN_DOWN b (2 ^ k)) \<le> unat b" "unat b < unat (ALIGN_DOWN b (2 ^ k)) + 2 ^ k" "2 ^ k dvd unat (ALIGN_DOWN b (2 ^ k))"
    unfolding ALIGN_DOWN_exp using div_mult_mod_eq [of "unat b" "2 ^ k"] by (linarith, linarith, simp)
  have "(2::nat) ^ k \<le> 2 ^ 64" using assms by (intro power_increasing) auto
  moreover have "0 < (2::nat) ^ k" by simp
  ultimately have wrap: "unat b \<le> 2 ^ 64 - 2 ^ k \<longleftrightarrow> unat b + (2 ^ k - 1) < 2 ^ 64" by linarith
  show ?thesis
  proof (cases "unat b \<le> 2 ^ 64 - 2 ^ k")
    case True
    then show ?thesis using down ALIGN_UP_no_wrap [OF assms] wrap by simp
  next
    case False
    then show ?thesis using down ALIGN_UP_wrap [OF assms, of b] by simp
  qed
qed

theorem ALIGN_bounds_witness: "unat (ALIGN_UP 4097 (2 ^ 12)) < 4097 + 2 ^ 12 \<and> ALIGN_UP 0xffffffffffffffff (2 ^ 12) = 0"
proof -
  have "unat (4097 :: u64) \<le> 2 ^ 64 - 2 ^ 12" "\<not> unat (0xffffffffffffffff :: u64) \<le> 2 ^ 64 - 2 ^ 12" by simp_all
  then show ?thesis using ALIGN_bounds [of 12 4097] ALIGN_bounds [of 12 "0xffffffffffffffff"] by simp
qed

end
