(* ===== verification/Shared_Lock.thy ===== *)
theory Shared_Lock
  imports Cali_Prelude
begin

text \<open>
  The inter-process locks of the runtime: \<^verbatim>\<open>SharedMutex\<close> and \<^verbatim>\<open>SharedLockGuard\<close>
  (\<^verbatim>\<open>libipc/shared_lock.h\<close>) over a System V semaphore, and the status lock of
  \<^verbatim>\<open>libipc/shared_memory_locking.cpp\<close> over POSIX record locks. Processes that enter
  and leave guarded sections form a step relation; mutual exclusion is an invariant of its
  reachable states as long as no wait is interrupted by a signal.
\<close>

section \<open>Semaphores of the operating system\<close>

text \<open>
  The semaphore sets a \<^verbatim>\<open>semget\<close> has created, each with one semaphore. \<^verbatim>\<open>semop\<close> adds to
  the value; a decrement below zero sleeps, and a signal that arrives while it sleeps
  ends the call with \<^verbatim>\<open>EINTR\<close>. A removed or unknown set gives \<^verbatim>\<open>EINVAL\<close>, a value above
  \<^verbatim>\<open>SEMVMX\<close> gives \<^verbatim>\<open>ERANGE\<close>.
\<close>

type_synonym sems = "int \<Rightarrow> nat option"

datatype errno = EINTR | EINVAL | EIDRM | ERANGE

datatype semop_result = Sem_done sems | Sem_sleep | Sem_failed errno

definition SEMVMX :: nat where
  "SEMVMX = 32767"

definition semop :: "bool \<Rightarrow> sems \<Rightarrow> int \<Rightarrow> int \<Rightarrow> semop_result" where
  "semop interrupted k semid delta =
     (case k semid of
        None \<Rightarrow> Sem_failed EINVAL
      | Some v \<Rightarrow>
          (if int v + delta < 0 then if interrupted then Sem_failed EINTR else Sem_sleep
           else if int SEMVMX < int v + delta then Sem_failed ERANGE
           else Sem_done (k(semid \<mapsto> nat (int v + delta)))))"

section \<open>SharedMutex\<close>

record SharedMutex =
  semaphore :: int
  mutex_has_forked :: bool

text \<open>
  \<^verbatim>\<open>lock\<close> and \<^verbatim>\<open>unlock\<close> print an error when \<^verbatim>\<open>semop\<close> fails and return as if it had
  succeeded. \<^const>\<open>None\<close> is a call that still sleeps.
\<close>

definition SharedMutex_lock :: "bool \<Rightarrow> SharedMutex \<Rightarrow> sems \<Rightarrow> sems option" where
  "SharedMutex_lock interrupted m k =
     (case semop interrupted k (semaphore m) (- 1) of
        Sem_done k' \<Rightarrow> Some k' | Sem_sleep \<Rightarrow> None | Sem_failed _ \<Rightarrow> Some k)"

definition SharedMutex_unlock :: "SharedMutex \<Rightarrow> sems \<Rightarrow> sems" where
  "SharedMutex_unlock m k =
     (case semop False k (semaphore m) 1 of
        Sem_done k' \<Rightarrow> k' | Sem_sleep \<Rightarrow> k | Sem_failed _ \<Rightarrow> k)"

text \<open>
  The constructor: \<^term>\<open>semid\<close> is the result of \<^verbatim>\<open>semget\<close>, \<^term>\<open>-1 :: int\<close> when it failed, and a
  fresh set has the value 0.
\<close>

definition SharedMutex_new :: "bool \<Rightarrow> int \<Rightarrow> sems \<Rightarrow> SharedMutex \<times> sems" where
  "SharedMutex_new avoid_autoterminate semid k =
     (let m = \<lparr>semaphore = semid, mutex_has_forked = avoid_autoterminate\<rparr>;
          k' = (if semid = - 1 then k else k(semid \<mapsto> 0))
      in (m, SharedMutex_unlock m k'))"

definition SharedMutex_terminate :: "SharedMutex \<Rightarrow> sems \<Rightarrow> SharedMutex \<times> sems" where
  "SharedMutex_terminate m k =
     (if semaphore m \<noteq> - 1 then (m\<lparr>semaphore := - 1\<rparr>, k(semaphore m := None)) else (m, k))"

definition SharedMutex_delete :: "SharedMutex \<Rightarrow> sems \<Rightarrow> SharedMutex \<times> sems" where
  "SharedMutex_delete m k = (if \<not> mutex_has_forked m then SharedMutex_terminate m k else (m, k))"

section \<open>Processes that use the guard\<close>

text \<open>
  \<^verbatim>\<open>SharedLockGuard\<close> locks in its constructor and unlocks in its destructor.
\<close>

definition SharedLockGuard_new :: "bool \<Rightarrow> SharedMutex \<Rightarrow> sems \<Rightarrow> sems option" where
  "SharedLockGuard_new interrupted m k = SharedMutex_lock interrupted m k"

definition SharedLockGuard_delete :: "SharedMutex \<Rightarrow> sems \<Rightarrow> sems" where
  "SharedLockGuard_delete m k = SharedMutex_unlock m k"

datatype guard_pc = Outside | Holding

record lock_sys =
  lk_mutex :: SharedMutex
  lk_sems :: sems
  lk_pcs :: "guard_pc list"

definition holders :: "guard_pc list \<Rightarrow> nat" where
  "holders pcs = length (filter (\<lambda>p. p = Holding) pcs)"

definition lock_init :: "int \<Rightarrow> sems \<Rightarrow> nat \<Rightarrow> lock_sys" where
  "lock_init semid k n =
     (case SharedMutex_new False semid k of
        (m, k') \<Rightarrow> \<lparr>lk_mutex = m, lk_sems = k', lk_pcs = replicate n Outside\<rparr>)"

text \<open>
  One step of the system: process \<^term>\<open>i\<close> enters or leaves a guarded section. With
  \<^term>\<open>signals\<close>, a wait may be interrupted.
\<close>

inductive lock_step :: "bool \<Rightarrow> lock_sys \<Rightarrow> lock_sys \<Rightarrow> bool" for signals where
  enter: "\<lbrakk> i < length (lk_pcs s); lk_pcs s ! i = Outside; interrupted \<longrightarrow> signals;
     SharedLockGuard_new interrupted (lk_mutex s) (lk_sems s) = Some k \<rbrakk> \<Longrightarrow>
     lock_step signals s (s\<lparr>lk_sems := k, lk_pcs := (lk_pcs s)[i := Holding]\<rparr>)"
| leave: "\<lbrakk> i < length (lk_pcs s); lk_pcs s ! i = Holding \<rbrakk> \<Longrightarrow>
     lock_step signals s (s\<lparr>lk_sems := SharedLockGuard_delete (lk_mutex s) (lk_sems s),
       lk_pcs := (lk_pcs s)[i := Outside]\<rparr>)"

inductive_cases lock_stepE: "lock_step signals s t"

abbreviation lock_reachable :: "bool \<Rightarrow> lock_sys \<Rightarrow> lock_sys \<Rightarrow> bool" where
  "lock_reachable signals \<equiv> (lock_step signals)\<^sup>*\<^sup>*"

section \<open>Mutual exclusion\<close>

lemma holders_update:
  assumes "i < length pcs"
  shows "pcs ! i = Outside \<Longrightarrow> holders (pcs[i := Holding]) = Suc (holders pcs)"
    and "pcs ! i = Holding \<Longrightarrow> Suc (holders (pcs[i := Outside])) = holders pcs"
  using assms
  by (induction pcs arbitrary: i) (auto simp: holders_def nth_Cons split: nat.splits)

lemma holders_replicate [simp]: "holders (replicate n Outside) = 0"
  by (simp add: holders_def)

text \<open>
  The value of the semaphore and the number of holders add up to one.
\<close>

definition lock_inv :: "lock_sys \<Rightarrow> bool" where
  "lock_inv s \<longleftrightarrow> (\<exists>v. lk_sems s (semaphore (lk_mutex s)) = Some v \<and> v + holders (lk_pcs s) = 1)"

lemma lock_Some_iff:
  assumes "k (semaphore m) = Some v" and "v \<le> SEMVMX"
  shows "SharedMutex_lock False m k = Some k' \<longleftrightarrow> 0 < v \<and> k' = k(semaphore m \<mapsto> v - 1)"
  using assms by (auto simp: SharedMutex_lock_def semop_def nat_diff_distrib)

lemma unlock_value:
  assumes "k (semaphore m) = Some v" and "v < SEMVMX"
  shows "SharedMutex_unlock m k = k(semaphore m \<mapsto> Suc v)"
  using assms by (simp add: SharedMutex_unlock_def semop_def nat_add_distrib)

lemma lock_inv_init: "semid \<noteq> - 1 \<Longrightarrow> lock_inv (lock_init semid k n)"
  by (simp add: lock_init_def SharedMutex_new_def lock_inv_def unlock_value SEMVMX_def Let_def)

lemma lock_inv_step:
  assumes "lock_step False s t" and "lock_inv s"
  shows "lock_inv t"
proof -
  from assms(2) obtain v where v: "lk_sems s (semaphore (lk_mutex s)) = Some v"
    and sum: "v + holders (lk_pcs s) = 1"
    by (auto simp: lock_inv_def)
  then have "v < SEMVMX" by (simp add: SEMVMX_def)
  from assms(1) show ?thesis
  proof (cases rule: lock_step.cases)
    case (enter i interrupted k)
    with v sum \<open>v < SEMVMX\<close> show ?thesis
      by (auto simp: lock_inv_def SharedLockGuard_new_def lock_Some_iff holders_update)
  next
    case (leave i)
    with v sum \<open>v < SEMVMX\<close> holders_update(2) [of i "lk_pcs s"] show ?thesis
      by (auto simp: lock_inv_def SharedLockGuard_delete_def unlock_value)
  qed
qed

lemma lock_inv_reachable:
  "lock_reachable False s t \<Longrightarrow> lock_inv s \<Longrightarrow> lock_inv t"
  by (induction rule: rtranclp_induct) (auto intro: lock_inv_step)

text \<open>
  C13: as long as no wait is interrupted by a signal, at most one process is inside a section
  guarded by a \<^verbatim>\<open>SharedLockGuard\<close>, and a free mutex can be taken by every waiting process.
\<close>

theorem SharedMutex_mutual_exclusion:
  assumes "semid \<noteq> - 1" and "lock_reachable False (lock_init semid k n) s"
  shows "holders (lk_pcs s) \<le> 1 \<and>
    (SharedLockGuard_new False (lk_mutex s) (lk_sems s) \<noteq> None \<longleftrightarrow> holders (lk_pcs s) = 0)"
proof -
  from assms have "lock_inv s" by (blast intro: lock_inv_reachable lock_inv_init)
  then obtain v where "lk_sems s (semaphore (lk_mutex s)) = Some v" "v + holders (lk_pcs s) = 1"
    by (auto simp: lock_inv_def)
  then show ?thesis
    by (cases v) (auto simp: SharedLockGuard_new_def SharedMutex_lock_def semop_def SEMVMX_def)
qed

theorem SharedMutex_mutual_exclusion_witness:
  "\<exists>s. (7::int) \<noteq> - 1 \<and> lock_reachable False (lock_init 7 Map.empty 2) s \<and> lk_pcs s = [Holding, Outside] \<and>
     holders (lk_pcs s) \<le> 1"
proof -
  let ?i = "lock_init 7 Map.empty 2"
  let ?s = "?i\<lparr>lk_sems := [7 \<mapsto> 0], lk_pcs := (lk_pcs ?i)[0 := Holding]\<rparr>"
  have init: "lk_pcs ?i = [Outside, Outside]" "lk_mutex ?i = \<lparr>semaphore = 7, mutex_has_forked = False\<rparr>"
    "lk_sems ?i = [7 \<mapsto> 1]"
    by (simp_all add: lock_init_def SharedMutex_new_def SharedMutex_unlock_def semop_def SEMVMX_def Let_def numeral_2_eq_2)
  then have "lock_step False ?i ?s"
    by (intro lock_step.enter [where interrupted = False])
      (simp_all add: SharedLockGuard_new_def SharedMutex_lock_def semop_def SEMVMX_def)
  then have r: "lock_reachable False ?i ?s" by blast
  from SharedMutex_mutual_exclusion [OF _ r] r init show ?thesis by (intro exI [of _ ?s]) simp
qed

text \<open>
  When a wait is interrupted by a signal, \<^verbatim>\<open>SharedMutex::lock\<close> only prints a message and
  returns, so that two processes reach the guarded section together; when both have left, the
  semaphore is 2 and it stays open for two.
\<close>

theorem SharedMutex_interrupted_wait:
  assumes "semid \<noteq> - 1"
  shows "\<exists>s t. lock_reachable True (lock_init semid k 2) s \<and> lk_pcs s = [Holding, Holding] \<and>
    lock_reachable True s t \<and> lk_pcs t = [Outside, Outside] \<and> lk_sems t semid = Some 2"
proof -
  let ?m = "\<lparr>semaphore = semid, mutex_has_forked = False\<rparr>"
  let ?S = "\<lambda>v pcs. \<lparr>lk_mutex = ?m, lk_sems = k(semid \<mapsto> v), lk_pcs = pcs\<rparr>"
  note sem_simps = SharedLockGuard_new_def SharedLockGuard_delete_def SharedMutex_lock_def
    SharedMutex_unlock_def semop_def SEMVMX_def
  have init: "lock_init semid k 2 = ?S 1 [Outside, Outside]"
    using assms by (simp add: lock_init_def SharedMutex_new_def sem_simps Let_def numeral_2_eq_2)
  have 1: "lock_step True (?S 1 [Outside, Outside]) (?S 0 [Holding, Outside])"
    using lock_step.enter [of 0 "?S 1 [Outside, Outside]" False True] by (simp add: sem_simps)
  have 2: "lock_step True (?S 0 [Holding, Outside]) (?S 0 [Holding, Holding])"
    using lock_step.enter [of 1 "?S 0 [Holding, Outside]" True True] by (simp add: sem_simps)
  have 3: "lock_step True (?S 0 [Holding, Holding]) (?S 1 [Outside, Holding])"
    using lock_step.leave [of 0 "?S 0 [Holding, Holding]" True] by (simp add: sem_simps)
  have 4: "lock_step True (?S 1 [Outside, Holding]) (?S 2 [Outside, Outside])"
    using lock_step.leave [of 1 "?S 1 [Outside, Holding]" True] by (simp add: sem_simps)
  show ?thesis
    unfolding init using 1 2 3 4
    by (intro exI [of _ "?S 0 [Holding, Holding]"] exI [of _ "?S 2 [Outside, Outside]"])
      (auto intro: converse_rtranclp_into_rtranclp)
qed

theorem SharedMutex_interrupted_wait_witness:
  "\<exists>s. (3::int) \<noteq> - 1 \<and> lock_reachable True (lock_init 3 Map.empty 2) s \<and> holders (lk_pcs s) = 2"
proof -
  obtain s where "lock_reachable True (lock_init 3 Map.empty 2) s" "lk_pcs s = [Holding, Holding]"
    using SharedMutex_interrupted_wait [of 3 Map.empty] by auto
  then show ?thesis by (intro exI [of _ s]) (simp add: holders_def)
qed

section \<open>The status lock\<close>

text \<open>
  Read locks on the first byte of the shared memory file: the process ids that hold one.
  \<^verbatim>\<open>F_GETLK\<close> with a write lock reports \<^verbatim>\<open>F_UNLCK\<close> when no other process holds a lock.
\<close>

definition statuslock_install :: "nat \<Rightarrow> nat list \<Rightarrow> nat list" where
  "statuslock_install pid locks = List.insert pid locks"

definition statuslock_is_sole_survivor :: "nat \<Rightarrow> nat list \<Rightarrow> bool" where
  "statuslock_is_sole_survivor pid locks = list_all (\<lambda>q. q = pid) locks"

text \<open>
  The processes of the program: record locks are not inherited by a fork and vanish with
  the process. The fork handler installs the lock of the child as its first action.
\<close>

record status_sys =
  live :: "nat list"
  locks :: "nat list"

inductive status_step :: "status_sys \<Rightarrow> status_sys \<Rightarrow> bool" where
  fork: "\<lbrakk> p \<in> set (live s); q \<notin> set (live s) \<rbrakk> \<Longrightarrow> status_step s (s\<lparr>live := q # live s\<rparr>)"
| handler: "p \<in> set (live s) \<Longrightarrow> status_step s (s\<lparr>locks := statuslock_install p (locks s)\<rparr>)"
| exit: "p \<in> set (live s) \<Longrightarrow>
    status_step s \<lparr>live = removeAll p (live s), locks = removeAll p (locks s)\<rparr>"

lemma status_locks_live:
  "status_step\<^sup>*\<^sup>* s t \<Longrightarrow> set (locks s) \<subseteq> set (live s) \<Longrightarrow> set (locks t) \<subseteq> set (live t)"
proof (induction rule: rtranclp_induct)
  case (step t u)
  from step(2) step(3) [OF step(4)] show ?case
    by (cases rule: status_step.cases) (auto simp: statuslock_install_def)
qed

text \<open>
  In every reachable state, a process that is not told to be the sole survivor has
  a live sibling; and once the fork handlers of all live processes have run, it is told to be the
  sole survivor exactly when it is.
\<close>

theorem statuslock_sound:
  assumes "status_step\<^sup>*\<^sup>* \<lparr>live = [p0], locks = [p0]\<rparr> s" and "p \<in> set (live s)"
  shows "(\<not> statuslock_is_sole_survivor p (locks s) \<longrightarrow> (\<exists>q\<in>set (live s). q \<noteq> p)) \<and>
    (set (live s) \<subseteq> set (locks s) \<longrightarrow>
       (statuslock_is_sole_survivor p (locks s) \<longleftrightarrow> set (live s) = {p}))"
proof -
  have "set (locks s) \<subseteq> set (live s)" using status_locks_live [OF assms(1)] by simp
  with assms(2) show ?thesis by (auto simp: statuslock_is_sole_survivor_def list_all_iff)
qed

theorem statuslock_sound_witness:
  "\<exists>s. status_step\<^sup>*\<^sup>* \<lparr>live = [1], locks = [1]\<rparr> s \<and> 1 \<in> set (live s) \<and> set (live s) \<subseteq> set (locks s) \<and>
     \<not> statuslock_is_sole_survivor 1 (locks s) \<and> set (live s) \<noteq> {1}"
proof -
  let ?a = "\<lparr>live = [1], locks = [1]\<rparr>" and ?b = "\<lparr>live = [2, 1], locks = [1]\<rparr>"
    and ?c = "\<lparr>live = [2, 1], locks = [2, 1]\<rparr>"
  have "status_step ?a ?b" using status_step.fork [of 1 ?a 2] by simp
  moreover have "status_step ?b ?c"
    using status_step.handler [of 2 ?b] by (simp add: statuslock_install_def)
  ultimately have r: "status_step\<^sup>*\<^sup>* ?a ?c" by (blast intro: converse_rtranclp_into_rtranclp)
  from statuslock_sound [OF r, of 1] r show ?thesis
    by (intro exI [of _ ?c]) (auto simp: statuslock_is_sole_survivor_def)
qed

end
