(* ===== verification/Shared_Memory.thy ===== *)
theory Shared_Memory
  imports Page_Bitmap Shm_Region Shared_Lock
begin

text \<open>
  \<^verbatim>\<open>SharedMemoryInformation\<close> of \<^verbatim>\<open>libipc/shared_memory_manager.cpp\<close>: the allocator
  that hands out runs of pages of the shared segment, grows the file behind it and
  follows the growth in every process that maps it, and the \<^verbatim>\<open>shm_mmap\<close> family on top of
  it. Sizes are natural numbers: the bitmap bounds every page index by its capacity, and
  the bounds lemmas show that all byte sizes stay below 2^40. Addresses and the lengths
  a caller passes are 64-bit words.
\<close>

section \<open>State\<close>

text \<open>
  The object at the start of the segment, shared by all processes. The field \<^verbatim>\<open>bitset_size\<close> is
  the length of the list \<^verbatim>\<open>pages_used\<close>.
\<close>

record SharedMemoryInformation =
  base :: addr
  has_forked :: bool
  has_unintenden_fork :: bool
  shared_size :: nat
  shm_fd :: int
  pages_used :: "ByteBitset list"
  first_unused_page_index :: nat
  mtx :: SharedMutex
  mmap_next_free_address :: u64

text \<open>
  What each process has for itself: its \<^verbatim>\<open>SharedMemoryPrivateInformation\<close>, and the static
  variables of the file, \<^verbatim>\<open>_dl_pagesize\<close> and the glibc hooks among them.
\<close>

record process =
  current_mapped_size :: nat
  use_shared_memory_only :: bool
  malloc_hook :: bool
  memalign_hook :: bool
  has_forked_complete :: bool
  dl_pagesize :: nat

text \<open>
  The state one process works on: the shared object, its own variables, the file behind the
  segment (its size and its bytes by offset) and the semaphores.
\<close>

record shm_state =
  info :: SharedMemoryInformation
  proc :: process
  file_size :: nat
  contents :: "nat \<Rightarrow> u8"
  shm_sems :: sems

text \<open>
  The answers of the kernel: whether \<^verbatim>\<open>ftruncate(fd, size)\<close> succeeds, and the address
  \<^verbatim>\<open>mremap(addr, old, new, MREMAP_MAYMOVE)\<close> returns, \<^const>\<open>None\<close> for \<^verbatim>\<open>MAP_FAILED\<close>.
\<close>

record os =
  os_ftruncate :: "int \<Rightarrow> nat \<Rightarrow> bool"
  os_mremap :: "addr \<Rightarrow> nat \<Rightarrow> nat \<Rightarrow> addr option"

definition set_mapped :: "nat \<Rightarrow> shm_state \<Rightarrow> shm_state" where
  "set_mapped n s = s\<lparr>proc := (proc s)\<lparr>current_mapped_size := n\<rparr>\<rparr>"

section \<open>Hooks of the C library\<close>

definition register_shared_memory_as_default :: "shm_state \<Rightarrow> shm_state" where
  "register_shared_memory_as_default s =
     s\<lparr>proc := (proc s)\<lparr>use_shared_memory_only := True, malloc_hook := True, memalign_hook := True\<rparr>\<rparr>"

definition unregister_shared_memory_as_default :: "shm_state \<Rightarrow> shm_state" where
  "unregister_shared_memory_as_default s =
     (if use_shared_memory_only (proc s)
      then s\<lparr>proc := (proc s)\<lparr>malloc_hook := False, memalign_hook := False\<rparr>\<rparr> else s)"

definition reregister_shared_memory_as_default :: "shm_state \<Rightarrow> shm_state" where
  "reregister_shared_memory_as_default s =
     (if use_shared_memory_only (proc s)
      then s\<lparr>proc := (proc s)\<lparr>malloc_hook := True, memalign_hook := True\<rparr>\<rparr> else s)"

section \<open>Growing the segment\<close>

definition setFDsize :: "os \<Rightarrow> (shm_state, unit) routine" where
  "setFDsize k s =
     (let n = shared_size (info s) in
      if os_ftruncate k (shm_fd (info s)) n
      then ret () (s\<lparr>file_size := n, contents := (\<lambda>i. if i < min n (file_size s) then contents s i else 0)\<rparr>)
      else throw (Runtime_error ''ftruncate failed'') s)"

definition remapSharedMemory :: "os \<Rightarrow> nat \<Rightarrow> (shm_state, unit) routine" where
  "remapSharedMemory k old_shared_size s =
     (case os_mremap k (base (info s)) old_shared_size (shared_size (info s)) of
        None \<Rightarrow> throw (Runtime_error ''Could not remap shared memory!'')
                  (unregister_shared_memory_as_default s)
      | Some a \<Rightarrow>
          (if a \<noteq> base (info s)
           then throw (Runtime_error ''Remap failed (memory moved)'')
                  (unregister_shared_memory_as_default s)
           else ret () (set_mapped (shared_size (info s)) s)))"

definition resizeSharedMemory :: "os \<Rightarrow> nat \<Rightarrow> (shm_state, unit) routine" where
  "resizeSharedMemory k pages s =
     (if pages * dl_pagesize (proc s) = shared_size (info s) then ret () s
      else seq (modify (\<lambda>s. s\<lparr>info := (info s)\<lparr>shared_size := dl_pagesize (proc s) * pages\<rparr>\<rparr>))
        (\<lambda>_. seq (setFDsize k)
        (\<lambda>_. seq (\<lambda>s. remapSharedMemory k (current_mapped_size (proc s)) s)
        (\<lambda>_. modify (\<lambda>s. s\<lparr>info := (info s)\<lparr>first_unused_page_index :=
                min (first_unused_page_index (info s)) pages\<rparr>\<rparr>)))) s)"

text \<open>
  Another process follows the growth; a failure ends the process.
\<close>

definition shared_memory_remapped_to_size :: "addr \<Rightarrow> nat \<Rightarrow> shm_state \<Rightarrow> shm_state" where
  "shared_memory_remapped_to_size a len s = (if base (info s) = a then set_mapped len s else s)"

definition internal_remap_shm :: "os \<Rightarrow> (shm_state, unit) routine" where
  "internal_remap_shm k s =
     (if current_mapped_size (proc s) < shared_size (info s) then
        (case os_mremap k (base (info s)) (current_mapped_size (proc s)) (shared_size (info s)) of
           None \<Rightarrow> throw (Process_exit 1) (unregister_shared_memory_as_default s)
         | Some a \<Rightarrow>
             (if a \<noteq> base (info s) then throw (Process_exit 1) (unregister_shared_memory_as_default s)
              else ret () (shared_memory_remapped_to_size (base (info s)) (shared_size (info s)) s)))
      else ret () s)"

definition remap_shared_memory :: "os \<Rightarrow> (shm_state, unit) routine" where
  "remap_shared_memory k = internal_remap_shm k"

section \<open>Allocating and freeing pages\<close>

definition fill_bytes :: "nat \<Rightarrow> nat \<Rightarrow> u8 \<Rightarrow> (nat \<Rightarrow> u8) \<Rightarrow> nat \<Rightarrow> u8" where
  "fill_bytes off n v m = (\<lambda>i. if off \<le> i \<and> i < off + n then v else m i)"

definition bzero_pages :: "nat \<Rightarrow> nat \<Rightarrow> shm_state \<Rightarrow> shm_state" where
  "bzero_pages pos count s =
     s\<lparr>contents := fill_bytes (pos * dl_pagesize (proc s)) (count * dl_pagesize (proc s)) 0 (contents s)\<rparr>"

definition block_pages :: "nat \<Rightarrow> nat \<Rightarrow> bool \<Rightarrow> (shm_state, unit) routine" where
  "block_pages pos count v s =
     (case set_pages (pages_used (info s)) pos count v of
        Inl e \<Rightarrow> throw e s
      | Inr pages \<Rightarrow> ret () (s\<lparr>info := (info s)\<lparr>pages_used := pages\<rparr>\<rparr>))"

definition requestContinousFreePagesInternal :: "os \<Rightarrow> nat \<Rightarrow> (shm_state, nat) routine" where
  "requestContinousFreePagesInternal k count =
     seq (\<lambda>s. lift_outcome (findContinousFreePages (pages_used (info s)) count) s)
     (\<lambda>pos. seq (\<lambda>s. when_do (shared_size (info s) < (pos + count) * dl_pagesize (proc s))
                    (resizeSharedMemory k (pos + count)) s)
     (\<lambda>_. seq (\<lambda>s. when_do (current_mapped_size (proc s) < shared_size (info s))
                    (remapSharedMemory k (current_mapped_size (proc s))) s)
     (\<lambda>_. seq (\<lambda>s. when_do (pos < first_unused_page_index (info s)) (modify (bzero_pages pos count)) s)
     (\<lambda>_. seq (block_pages pos count True)
     (\<lambda>_. seq (modify (\<lambda>s. s\<lparr>info := (info s)\<lparr>first_unused_page_index :=
                 max (first_unused_page_index (info s)) (pos + count)\<rparr>\<rparr>))
     (\<lambda>_. ret pos))))))"

text \<open>
  A block under a \<^verbatim>\<open>SharedLockGuard\<close>: an exception unwinds the stack and unlocks, the end of
  the process (\<^verbatim>\<open>exit\<close>) does not.
\<close>

definition unwinds :: "'a outcome \<Rightarrow> bool" where
  "unwinds r = (case r of Inl (Process_exit c) \<Rightarrow> False | Inl Undefined_behaviour \<Rightarrow> False | _ \<Rightarrow> True)"

definition with_guard :: "(shm_state, 'a) routine \<Rightarrow> (shm_state, 'a) routine" where
  "with_guard m s =
     (case SharedLockGuard_new False (mtx (info s)) (shm_sems s) of
        None \<Rightarrow> (Inl Would_block, s)
      | Some k \<Rightarrow>
          (case m (s\<lparr>shm_sems := k\<rparr>) of (r, s') \<Rightarrow>
             (r, if unwinds r
                 then s'\<lparr>shm_sems := SharedLockGuard_delete (mtx (info s')) (shm_sems s')\<rparr> else s')))"

definition requestContinousFreePages :: "os \<Rightarrow> nat \<Rightarrow> (shm_state, nat) routine" where
  "requestContinousFreePages k count =
     with_guard (seq (remap_shared_memory k) (\<lambda>_. requestContinousFreePagesInternal k count))"

definition requestContinousFreePagesForMove :: "os \<Rightarrow> nat \<Rightarrow> nat \<Rightarrow> (shm_state, nat) routine" where
  "requestContinousFreePagesForMove k count preferred_pos =
     with_guard (requestContinousFreePagesInternal k count)"

definition freePages :: "nat \<Rightarrow> nat \<Rightarrow> (shm_state, unit) routine" where
  "freePages pos count = with_guard (block_pages pos count False)"

section \<open>The invariant of the segment\<close>

text \<open>
  With pages of 4096 bytes: every page in use lies below \<^verbatim>\<open>first_unused_page_index\<close>, the pages
  from there on are zero, all of them lie inside \<^verbatim>\<open>shared_size\<close>, neither the mapping nor the
  file is larger than that, and the segment never exceeds the pages the bitmap can describe by
  more than one.
\<close>

definition shm_inv :: "shm_state \<Rightarrow> bool" where
  "shm_inv s \<longleftrightarrow>
     dl_pagesize (proc s) = 4096 \<and>
     base (info s) = shm_shared_memory_base \<and>
     bitmap_cap (pages_used (info s)) \<le> 2 ^ 24 \<and>
     shared_size (info s) \<le> 4096 * Suc (bitmap_cap (pages_used (info s))) \<and>
     4096 * first_unused_page_index (info s) \<le> shared_size (info s) \<and>
     current_mapped_size (proc s) \<le> shared_size (info s) \<and>
     file_size s \<le> shared_size (info s) \<and>
     (\<forall>q. page_used (pages_used (info s)) q \<longrightarrow> q < first_unused_page_index (info s)) \<and>
     (\<forall>i\<ge>4096 * first_unused_page_index (info s). contents s i = 0) \<and>
     (\<forall>i\<ge>file_size s. contents s i = 0)"

lemma shm_invD:
  assumes "shm_inv s"
  shows "dl_pagesize (proc s) = 4096" "base (info s) = shm_shared_memory_base"
    "bitmap_cap (pages_used (info s)) \<le> 2 ^ 24"
    "shared_size (info s) \<le> 4096 * Suc (bitmap_cap (pages_used (info s)))"
    "4096 * first_unused_page_index (info s) \<le> shared_size (info s)"
    "current_mapped_size (proc s) \<le> shared_size (info s)"
    "file_size s \<le> shared_size (info s)"
    "page_used (pages_used (info s)) q \<Longrightarrow> q < first_unused_page_index (info s)"
    "4096 * first_unused_page_index (info s) \<le> i \<Longrightarrow> contents s i = 0"
    "file_size s \<le> i \<Longrightarrow> contents s i = 0"
  using assms by (auto simp: shm_inv_def)

text \<open>
  A kernel that grants every growth of the file, and one that extends every mapping in place.
\<close>

definition ftruncate_ok :: "os \<Rightarrow> bool" where
  "ftruncate_ok k \<longleftrightarrow> (\<forall>fd n. os_ftruncate k fd n)"

definition mremap_ok :: "os \<Rightarrow> bool" where
  "mremap_ok k \<longleftrightarrow> (\<forall>a m n. os_mremap k a m n = Some a)"

lemma unregister_simps [simp]:
  "info (unregister_shared_memory_as_default s) = info s"
  "file_size (unregister_shared_memory_as_default s) = file_size s"
  "contents (unregister_shared_memory_as_default s) = contents s"
  "shm_sems (unregister_shared_memory_as_default s) = shm_sems s"
  "current_mapped_size (proc (unregister_shared_memory_as_default s)) = current_mapped_size (proc s)"
  "dl_pagesize (proc (unregister_shared_memory_as_default s)) = dl_pagesize (proc s)"
  by (simp_all add: unregister_shared_memory_as_default_def)

lemma set_mapped_simps [simp]:
  "info (set_mapped n s) = info s" "file_size (set_mapped n s) = file_size s"
  "contents (set_mapped n s) = contents s" "shm_sems (set_mapped n s) = shm_sems s"
  "current_mapped_size (proc (set_mapped n s)) = n"
  "dl_pagesize (proc (set_mapped n s)) = dl_pagesize (proc s)"
  by (simp_all add: set_mapped_def)

lemma shm_inv_unregister [simp]: "shm_inv (unregister_shared_memory_as_default s) = shm_inv s"
  by (simp add: shm_inv_def)

lemma shm_inv_set_mapped: "shm_inv s \<Longrightarrow> n \<le> shared_size (info s) \<Longrightarrow> shm_inv (set_mapped n s)"
  by (simp add: shm_inv_def)

lemma shm_inv_sems [simp]: "shm_inv (s\<lparr>shm_sems := k\<rparr>) = shm_inv s"
  by (simp add: shm_inv_def)

lemma remapSharedMemory_cases:
  assumes "remapSharedMemory k n s = (r, s')"
  obtains "r = Inr ()" "s' = set_mapped (shared_size (info s)) s"
    | e where "r = Inl (Runtime_error e)" "s' = unregister_shared_memory_as_default s" "\<not> mremap_ok k"
proof (cases "os_mremap k (base (info s)) n (shared_size (info s)) = Some (base (info s))")
  case True
  with assms that(1) show thesis by (simp add: remapSharedMemory_def)
next
  case False
  with assms have "\<exists>e. r = Inl (Runtime_error e) \<and> s' = unregister_shared_memory_as_default s"
    by (auto simp: remapSharedMemory_def split: option.splits)
  moreover from False have "\<not> mremap_ok k" by (auto simp: mremap_ok_def)
  ultimately show thesis using that(2) by blast
qed

lemma internal_remap_cases:
  assumes "internal_remap_shm k s = (r, s')"
  obtains "r = Inr ()" "s' = s" "shared_size (info s) \<le> current_mapped_size (proc s)"
    | "r = Inr ()" "s' = set_mapped (shared_size (info s)) s" "current_mapped_size (proc s) < shared_size (info s)"
    | "r = Inl (Process_exit 1)" "s' = unregister_shared_memory_as_default s" "\<not> mremap_ok k"
      "current_mapped_size (proc s) < shared_size (info s)"
proof (cases "current_mapped_size (proc s) < shared_size (info s)")
  case less: True
  show thesis
  proof (cases "os_mremap k (base (info s)) (current_mapped_size (proc s)) (shared_size (info s)) = Some (base (info s))")
    case True
    with assms less that(2) show thesis
      by (simp add: internal_remap_shm_def shared_memory_remapped_to_size_def)
  next
    case False
    with assms less have "r = Inl (Process_exit 1) \<and> s' = unregister_shared_memory_as_default s"
      by (auto simp: internal_remap_shm_def split: option.splits)
    moreover from False have "\<not> mremap_ok k" by (auto simp: mremap_ok_def)
    ultimately show thesis using less that(3) by blast
  qed
qed (use assms that(1) in \<open>simp add: internal_remap_shm_def\<close>)

text \<open>
  The three ways a growth can end: done, file not grown (the recorded size is raised all the
  same), or file grown and mapping not.
\<close>

definition grown :: "nat \<Rightarrow> shm_state \<Rightarrow> shm_state" where
  "grown pages s = s\<lparr>info := (info s)\<lparr>shared_size := 4096 * pages\<rparr>\<rparr>"

lemma resizeSharedMemory_cases:
  assumes "resizeSharedMemory k pages s = (r, s')" and inv: "shm_inv s"
    and grow: "shared_size (info s) < 4096 * pages"
  obtains "r = Inr ()" "s' = set_mapped (4096 * pages) ((grown pages s)\<lparr>file_size := 4096 * pages\<rparr>)"
        "os_ftruncate k (shm_fd (info s)) (4096 * pages)"
    | "r = Inl (Runtime_error ''ftruncate failed'')" "s' = grown pages s"
        "\<not> os_ftruncate k (shm_fd (info s)) (4096 * pages)"
    | e where "r = Inl (Runtime_error e)"
        "s' = unregister_shared_memory_as_default ((grown pages s)\<lparr>file_size := 4096 * pages\<rparr>)" "\<not> mremap_ok k"
        "os_ftruncate k (shm_fd (info s)) (4096 * pages)"
proof -
  note D = shm_invD [OF inv]
  have "(\<lambda>i. if i < min (4096 * pages) (file_size s) then contents s i else 0) = contents s"
    using D(7,10) grow by (auto simp: fun_eq_iff)
  then have set: "setFDsize k (grown pages s) =
      (if os_ftruncate k (shm_fd (info s)) (4096 * pages)
       then (Inr (), (grown pages s)\<lparr>file_size := 4096 * pages\<rparr>)
       else (Inl (Runtime_error ''ftruncate failed''), grown pages s))"
    by (simp add: setFDsize_def grown_def ret_def throw_def Let_def cong: if_cong)
  have "first_unused_page_index (info s) < pages" using D(5) grow by simp
  then have min: "min (first_unused_page_index (info s)) pages = first_unused_page_index (info s)" by simp
  let ?g = "(grown pages s)\<lparr>file_size := 4096 * pages\<rparr>"
  have run: "resizeSharedMemory k pages s =
      (case setFDsize k (grown pages s) of (Inl e, t) \<Rightarrow> (Inl e, t) | (Inr _, t) \<Rightarrow>
       (case remapSharedMemory k (current_mapped_size (proc t)) t of (Inl e, u) \<Rightarrow> (Inl e, u) | (Inr _, u) \<Rightarrow>
          (Inr (), u\<lparr>info := (info u)\<lparr>first_unused_page_index := min (first_unused_page_index (info u)) pages\<rparr>\<rparr>)))"
    using grow by (simp add: resizeSharedMemory_def seq_def modify_def grown_def D(1) mult.commute
        split: prod.split sum.split)
  show thesis
  proof (cases "os_ftruncate k (shm_fd (info s)) (4096 * pages)")
    case False
    with assms(1) set run that(2) show thesis by simp
  next
    case True
    obtain r' u where u: "remapSharedMemory k (current_mapped_size (proc ?g)) ?g = (r', u)" by fastforce
    then show thesis
    proof (cases rule: remapSharedMemory_cases)
      case 1
      have "set_mapped (4096 * pages) ?g\<lparr>info := (info (set_mapped (4096 * pages) ?g))\<lparr>first_unused_page_index :=
          min (first_unused_page_index (info (set_mapped (4096 * pages) ?g))) pages\<rparr>\<rparr> = set_mapped (4096 * pages) ?g"
        using min by (simp add: set_mapped_def grown_def)
      then have "resizeSharedMemory k pages s = (Inr (), set_mapped (4096 * pages) ?g)"
        using 1 u by (simp add: run set True) (simp add: grown_def)
      with assms(1) that(1) True show thesis by simp
    next
      case (2 e)
      then have "resizeSharedMemory k pages s = (Inl (Runtime_error e), unregister_shared_memory_as_default ?g)"
        using u by (simp add: run set True)
      with assms(1) that(3) [of e] 2(3) True show thesis by simp
    qed
  qed
qed

lemma shm_inv_grown:
  assumes "shm_inv s" and "shared_size (info s) < 4096 * pages"
    and "pages \<le> Suc (bitmap_cap (pages_used (info s)))"
  shows "shm_inv (grown pages s)" and "shm_inv ((grown pages s)\<lparr>file_size := 4096 * pages\<rparr>)"
  using assms by (auto simp: shm_inv_def grown_def)

section \<open>What a request does\<close>

text \<open>
  The state after a successful request of \<^term>\<open>count\<close> pages at \<^term>\<open>pos\<close>.
\<close>

definition request_result :: "nat \<Rightarrow> nat \<Rightarrow> ByteBitset list \<Rightarrow> shm_state \<Rightarrow> shm_state" where
  "request_result pos count pages s =
     (let n = max (shared_size (info s)) (4096 * (pos + count)) in
      s\<lparr>info := (info s)\<lparr>shared_size := n, pages_used := pages,
           first_unused_page_index := max (first_unused_page_index (info s)) (pos + count)\<rparr>,
        proc := (proc s)\<lparr>current_mapped_size := n\<rparr>,
        file_size := (if shared_size (info s) < 4096 * (pos + count) then 4096 * (pos + count) else file_size s),
        contents := fill_bytes (4096 * pos) (4096 * count) 0 (contents s)\<rparr>)"

lemma request_result_simps [simp]:
  "pages_used (info (request_result pos count pages s)) = pages"
  "shared_size (info (request_result pos count pages s)) = max (shared_size (info s)) (4096 * (pos + count))"
  "first_unused_page_index (info (request_result pos count pages s)) =
     max (first_unused_page_index (info s)) (pos + count)"
  "base (info (request_result pos count pages s)) = base (info s)"
  "mtx (info (request_result pos count pages s)) = mtx (info s)"
  "shm_fd (info (request_result pos count pages s)) = shm_fd (info s)"
  "current_mapped_size (proc (request_result pos count pages s)) = max (shared_size (info s)) (4096 * (pos + count))"
  "dl_pagesize (proc (request_result pos count pages s)) = dl_pagesize (proc s)"
  "file_size (request_result pos count pages s) =
     (if shared_size (info s) < 4096 * (pos + count) then 4096 * (pos + count) else file_size s)"
  "contents (request_result pos count pages s) = fill_bytes (4096 * pos) (4096 * count) 0 (contents s)"
  "shm_sems (request_result pos count pages s) = shm_sems s"
  by (simp_all add: request_result_def Let_def)

lemma find_pos_bounds:
  assumes "findContinousFreePages pages count = Inr pos"
  shows "0 < pos" "pos + count \<le> Suc (bitmap_cap pages)"
    "\<And>q. pos \<le> Suc q \<Longrightarrow> Suc q < pos + count \<Longrightarrow> \<not> page_used pages q"
proof -
  from assms have "findContinousFreePages pages (max 1 count) = Inr pos"
    by (cases "count = 0") (simp_all add: find_zero max_def)
  moreover have "0 < max 1 count" by simp
  ultimately have pos: "0 < pos" and "free_run (page_used pages) (bitmap_cap pages) (max 1 count) (pos - 1)"
    unfolding find_Inr_iff [OF \<open>0 < max 1 count\<close>] by auto
  then have fr: "free_run (page_used pages) (bitmap_cap pages) count (pos - 1)"
    by (auto simp: free_run_iff)
  with pos
  show "0 < pos" "pos + count \<le> Suc (bitmap_cap pages)" by (auto simp: free_run_iff)
  show "\<not> page_used pages q" if "pos \<le> Suc q" "Suc q < pos + count" for q
  proof -
    from that pos have "pos - 1 \<le> q" "q < pos - 1 + count" by linarith+
    with fr show ?thesis by (simp add: free_run_iff)
  qed
qed

lemma zero_block:
  assumes "shm_inv s" and "first_unused_page_index (info s) \<le> pos"
  shows "fill_bytes (4096 * pos) n 0 (contents s) = contents s"
proof
  fix i
  show "fill_bytes (4096 * pos) n 0 (contents s) i = contents s i"
    using shm_invD(9) [OF assms(1), of i] assms(2) by (auto simp: fill_bytes_def)
qed

lemma request_tail:
  assumes "shm_inv t" and "current_mapped_size (proc t) = shared_size (info t)"
    and "4096 * (pos + count) \<le> shared_size (info t)"
    and run: "seq (\<lambda>s. when_do (pos < first_unused_page_index (info s)) (modify (bzero_pages pos count)) s)
     (\<lambda>_. seq (block_pages pos count True)
     (\<lambda>_. seq (modify (\<lambda>s. s\<lparr>info := (info s)\<lparr>first_unused_page_index :=
                 max (first_unused_page_index (info s)) (pos + count)\<rparr>\<rparr>))
     (\<lambda>_. ret pos))) t = (r, s')"
  shows "(\<exists>pages. set_pages (pages_used (info t)) pos count True = Inr pages \<and>
       r = Inr pos \<and> s' = request_result pos count pages t) \<or>
    (r = Inl Undefined_behaviour \<and> set_pages (pages_used (info t)) pos count True = Inl Undefined_behaviour \<and>
     s' = t\<lparr>contents := fill_bytes (4096 * pos) (4096 * count) 0 (contents t)\<rparr>)"
proof -
  note D = shm_invD [OF assms(1)]
  let ?z = "t\<lparr>contents := fill_bytes (4096 * pos) (4096 * count) 0 (contents t)\<rparr>"
  have z: "(\<lambda>s. when_do (pos < first_unused_page_index (info s)) (modify (bzero_pages pos count)) s) t = (Inr (), ?z)"
    using zero_block [OF assms(1), of pos "4096 * count"]
    by (simp add: when_do_def bzero_pages_def D(1) mult.commute not_less)
  show ?thesis
  proof (cases "set_pages (pages_used (info t)) pos count True")
    case (Inl e)
    then have "e = Undefined_behaviour" by (rule set_pages_Inl)
    with Inl run show ?thesis
      by (simp add: seq_def z block_pages_def throw_def)
  next
    case (Inr pages)
    let ?f = "?z\<lparr>info := (info t)\<lparr>pages_used := pages, first_unused_page_index :=
        max (first_unused_page_index (info t)) (pos + count)\<rparr>\<rparr>"
    from Inr run have "r = Inr pos" and "s' = ?f"
      by (simp_all add: seq_def z block_pages_def ret_def modify_def)
    moreover have "?f = request_result pos count pages t"
      using assms(2,3) by (simp add: request_result_def max_absorb1)
    ultimately show ?thesis using Inr by simp
  qed
qed

lemma bitmap_cap_set_pages: "set_pages pages pos n v = Inr pages' \<Longrightarrow> bitmap_cap pages' = bitmap_cap pages"
  using set_pages_Inr(1) by (simp add: bitmap_cap_def)

lemma request_result_inv:
  assumes "set_pages (pages_used (info s)) pos count True = Inr pages" and "shm_inv s"
    and "pos + count \<le> Suc (bitmap_cap (pages_used (info s)))"
  shows "shm_inv (request_result pos count pages s)"
proof -
  note D = shm_invD [OF assms(2)]
  have "4096 * max (first_unused_page_index (info s)) (pos + count)
      \<le> max (shared_size (info s)) (4096 * (pos + count))"
    using D(5) by (simp add: max_def)
  moreover have "max (shared_size (info s)) (4096 * (pos + count))
      \<le> 4096 * Suc (bitmap_cap (pages_used (info s)))"
    using D(4) assms(3) by (simp only: max.bounded_iff mult_le_mono2 simp_thms)
  moreover have "q < max (first_unused_page_index (info s)) (pos + count)" if "page_used pages q" for q
    using that D(8) [of q] by (auto simp: set_pages_Inr(3) [OF assms(1)] less_max_iff_disj split: if_splits)
  moreover have "fill_bytes (4096 * pos) (4096 * count) 0 (contents s) i = 0"
    if "4096 * max (first_unused_page_index (info s)) (pos + count) \<le> i" for i
  proof -
    from that have "4096 * first_unused_page_index (info s) \<le> i" by (auto simp: max_def split: if_splits)
    then show ?thesis using D(9) by (simp add: fill_bytes_def)
  qed
  moreover have "fill_bytes (4096 * pos) (4096 * count) 0 (contents s) i = 0" if "contents s i = 0" for i
    using that by (simp add: fill_bytes_def)
  ultimately show ?thesis
    using D by (simp add: shm_inv_def bitmap_cap_set_pages [OF assms(1)] max.coboundedI1)
qed

text \<open>
  After the two growing steps of a request the process maps the whole segment and the block
  fits.
\<close>

lemma request_growth:
  assumes inv: "shm_inv s" and le: "pos + count \<le> Suc (bitmap_cap (pages_used (info s)))"
    and run: "seq (\<lambda>s. when_do (shared_size (info s) < (pos + count) * dl_pagesize (proc s))
                    (resizeSharedMemory k (pos + count)) s)
     (\<lambda>_ s. when_do (current_mapped_size (proc s) < shared_size (info s))
                    (remapSharedMemory k (current_mapped_size (proc s))) s) s = (r, t)"
  obtains "r = Inr ()" "shm_inv t" "current_mapped_size (proc t) = shared_size (info t)"
      "4096 * (pos + count) \<le> shared_size (info t)" "shm_sems t = shm_sems s" "mtx (info t) = mtx (info s)"
      "\<And>pages. request_result pos count pages t = request_result pos count pages s"
      "pages_used (info t) = pages_used (info s)"
    | e where "r = Inl (Runtime_error e)" "shm_inv t" "pages_used (info t) = pages_used (info s)"
      "contents t = contents s" "shm_sems t = shm_sems s" "mtx (info t) = mtx (info s)"
      "\<not> mremap_ok k \<or> \<not> ftruncate_ok k \<and> shared_size (info s) < 4096 * (pos + count)"
proof (cases "shared_size (info s) < (pos + count) * dl_pagesize (proc s)")
  case True
  then have grow: "shared_size (info s) < 4096 * (pos + count)" by (simp add: shm_invD [OF inv])
  note inv' = shm_inv_grown [OF inv grow le]
  obtain r' u where u: "resizeSharedMemory k (pos + count) s = (r', u)" by fastforce
  from u inv grow show thesis
  proof (cases rule: resizeSharedMemory_cases)
    case 1
    have "current_mapped_size (proc u) = shared_size (info u)" by (simp add: 1 grown_def)
    with run True u 1(1) have t: "r = Inr ()" "t = u" by (simp_all add: seq_def when_do_def ret_def)
    have "request_result pos count pages u = request_result pos count pages s" for pages
      using 1 grow by (simp add: request_result_def grown_def set_mapped_def Let_def max_absorb2)
    then show thesis using 1 t inv'(2)
      by (intro that(1)) (simp_all add: shm_inv_set_mapped grown_def)
  next
    case 2
    with run True grow u inv' show thesis
      by (intro that(2)) (auto simp: seq_def when_do_def grown_def ftruncate_ok_def)
  next
    case (3 e)
    with run True u inv' show thesis
      by (intro that(2)) (auto simp: seq_def when_do_def grown_def)
  qed
next
  case False
  then have fits: "4096 * (pos + count) \<le> shared_size (info s)" by (simp add: shm_invD [OF inv])
  show thesis
  proof (cases "current_mapped_size (proc s) < shared_size (info s)")
    case True
    with run False have "remapSharedMemory k (current_mapped_size (proc s)) s = (r, t)"
      by (simp add: seq_def when_do_def ret_def)
    then show thesis
    proof (cases rule: remapSharedMemory_cases)
      case 1
      have "request_result pos count pages t = request_result pos count pages s" for pages
        using 1 fits by (simp add: request_result_def set_mapped_def Let_def max_absorb1)
      with 1 inv fits show thesis by (intro that(1)) (simp_all add: shm_inv_set_mapped)
    next
      case (2 e)
      then show thesis using inv by (intro that(2)) simp_all
    qed
  next
    case mapped: False
    with run False have "r = Inr ()" "t = s" by (simp_all add: seq_def when_do_def ret_def)
    then show thesis using inv fits mapped shm_invD(6) [OF inv] by (intro that(1)) auto
  qed
qed

lemma request_unfold:
  "requestContinousFreePagesInternal k count s =
     (case findContinousFreePages (pages_used (info s)) count of
        Inl e \<Rightarrow> (Inl e, s)
      | Inr pos \<Rightarrow>
          seq (seq (\<lambda>s. when_do (shared_size (info s) < (pos + count) * dl_pagesize (proc s))
                    (resizeSharedMemory k (pos + count)) s)
            (\<lambda>_ s. when_do (current_mapped_size (proc s) < shared_size (info s))
                    (remapSharedMemory k (current_mapped_size (proc s))) s))
          (\<lambda>_. seq (\<lambda>s. when_do (pos < first_unused_page_index (info s)) (modify (bzero_pages pos count)) s)
           (\<lambda>_. seq (block_pages pos count True)
           (\<lambda>_. seq (modify (\<lambda>s. s\<lparr>info := (info s)\<lparr>first_unused_page_index :=
                 max (first_unused_page_index (info s)) (pos + count)\<rparr>\<rparr>))
           (\<lambda>_. ret pos)))) s)"
  by (simp add: requestContinousFreePagesInternal_def seq_def lift_outcome_def split: sum.split prod.split)

text \<open>
  A request either succeeds as described, or reports an error and leaves the bitmap as it was.
\<close>

lemma requestInternal_cases:
  assumes inv: "shm_inv s" and run: "requestContinousFreePagesInternal k count s = (r, s')"
  obtains pos pages where "r = Inr pos" "findContinousFreePages (pages_used (info s)) count = Inr pos"
      "set_pages (pages_used (info s)) pos count True = Inr pages" "s' = request_result pos count pages s"
      "shm_inv s'"
    | e where "r = Inl (Runtime_error e)" "shm_inv s'" "pages_used (info s') = pages_used (info s)"
      "contents s' = contents s" "shm_sems s' = shm_sems s" "mtx (info s') = mtx (info s)"
      "\<And>pos. findContinousFreePages (pages_used (info s)) count = Inr pos \<Longrightarrow>
        \<not> mremap_ok k \<or> \<not> ftruncate_ok k \<and> shared_size (info s) < 4096 * (pos + count)"
      "\<And>e'. findContinousFreePages (pages_used (info s)) count = Inl e' \<Longrightarrow> e' = Runtime_error e"
    | pos where "r = Inl Undefined_behaviour" "findContinousFreePages (pages_used (info s)) count = Inr pos"
      "bitmap_cap (pages_used (info s)) < pos + count" "shm_inv s'" "pages_used (info s') = pages_used (info s)"
      "shm_sems s' = shm_sems s" "mtx (info s') = mtx (info s)"
proof (cases "findContinousFreePages (pages_used (info s)) count")
  case (Inl e)
  then have e: "e = Runtime_error ''Too much memory used! (NOT IMPLEMENTED)''"
    by (simp add: findContinousFreePages_def split: option.splits)
  with Inl run have "r = Inl (Runtime_error ''Too much memory used! (NOT IMPLEMENTED)'')" "s' = s"
    by (simp_all add: request_unfold)
  with inv Inl e show thesis by (intro that(2)) simp_all
next
  case (Inr pos)
  note le = find_pos_bounds(2) [OF Inr]
  obtain r1 t where t: "seq (\<lambda>s. when_do (shared_size (info s) < (pos + count) * dl_pagesize (proc s))
                    (resizeSharedMemory k (pos + count)) s)
            (\<lambda>_ s. when_do (current_mapped_size (proc s) < shared_size (info s))
                    (remapSharedMemory k (current_mapped_size (proc s))) s) s = (r1, t)"
    by fastforce
  from inv le t show thesis
  proof (cases rule: request_growth)
    case (2 e)
    with t Inr run show thesis by (intro that(2)) (auto simp: request_unfold seq_def [of "seq _ _"])
  next
    case 1
    with t Inr run have tail: "seq (\<lambda>s. when_do (pos < first_unused_page_index (info s)) (modify (bzero_pages pos count)) s)
           (\<lambda>_. seq (block_pages pos count True)
           (\<lambda>_. seq (modify (\<lambda>s. s\<lparr>info := (info s)\<lparr>first_unused_page_index :=
                 max (first_unused_page_index (info s)) (pos + count)\<rparr>\<rparr>))
           (\<lambda>_. ret pos))) t = (r, s')"
      by (simp add: request_unfold seq_def [of "seq _ _"])
    from request_tail [OF 1(2-4) tail] show thesis
    proof (elim disjE exE conjE)
      fix pages
      assume "set_pages (pages_used (info t)) pos count True = Inr pages" "r = Inr pos"
        "s' = request_result pos count pages t"
      with 1 Inr inv le show thesis by (intro that(1)) (simp_all add: request_result_inv)
    next
      assume ub: "r = Inl Undefined_behaviour" "set_pages (pages_used (info t)) pos count True = Inl Undefined_behaviour"
        "s' = t\<lparr>contents := fill_bytes (4096 * pos) (4096 * count) 0 (contents t)\<rparr>"
      then have "bitmap_cap (pages_used (info s)) < pos + count"
        using 1(8) set_pages_in_range [of pos count "pages_used (info s)" True] by (cases "pos + count \<le> bitmap_cap (pages_used (info s))") auto
      moreover have "shm_inv s'" using 1(2) ub(3) by (auto simp: shm_inv_def fill_bytes_def)
      ultimately show thesis using ub Inr 1(5,6,8) by (intro that(3)) simp_all
    qed
  qed
qed

section \<open>Requests under the guard\<close>

definition mutex_free :: "shm_state \<Rightarrow> bool" where
  "mutex_free s \<longleftrightarrow> shm_sems s (semaphore (mtx (info s))) = Some 1"

lemma with_guard_free:
  assumes "mutex_free s" and "m (s\<lparr>shm_sems := (shm_sems s)(semaphore (mtx (info s)) \<mapsto> 0)\<rparr>) = (r, s')"
    and "shm_sems s' = (shm_sems s)(semaphore (mtx (info s)) \<mapsto> 0)" and "mtx (info s') = mtx (info s)"
  shows "with_guard m s = (r, if unwinds r then s'\<lparr>shm_sems := shm_sems s\<rparr> else s')"
proof -
  have "SharedLockGuard_new False (mtx (info s)) (shm_sems s) = Some ((shm_sems s)(semaphore (mtx (info s)) \<mapsto> 0))"
    using assms(1) by (simp add: mutex_free_def SharedLockGuard_new_def SharedMutex_lock_def semop_def SEMVMX_def)
  moreover have "SharedLockGuard_delete (mtx (info s')) (shm_sems s') = shm_sems s"
    using assms(1,3,4) by (auto simp: mutex_free_def SharedLockGuard_delete_def SharedMutex_unlock_def semop_def SEMVMX_def)
  ultimately show ?thesis
    using assms(2) by (simp add: with_guard_def)
qed

lemma with_guard_blocked:
  "shm_sems s (semaphore (mtx (info s))) = Some 0 \<Longrightarrow> with_guard m s = (Inl Would_block, s)"
  by (simp add: with_guard_def SharedLockGuard_new_def SharedMutex_lock_def semop_def)

lemma request_result_sems: "request_result pos count pages (s\<lparr>shm_sems := k\<rparr>) = (request_result pos count pages s)\<lparr>shm_sems := k\<rparr>"
  by (simp add: request_result_def Let_def)

lemma request_result_set_mapped: "request_result pos count pages (set_mapped n s) = request_result pos count pages s"
  by (simp add: request_result_def set_mapped_def Let_def)

lemma unwinds_simps [simp]:
  "unwinds (Inr x)" "unwinds (Inl (Runtime_error e))" "\<not> unwinds (Inl (Process_exit c))"
  "\<not> unwinds (Inl Undefined_behaviour)"
  by (simp_all add: unwinds_def)

text \<open>
  How a call under the guard ends when the mutex is free: served, refused with an exception
  and the mutex free again, or dead with the mutex still taken.
\<close>

lemma request_cases:
  assumes inv: "shm_inv s" and free: "mutex_free s" and run: "requestContinousFreePages k count s = (r, s')"
  obtains pos pages where "r = Inr pos" "findContinousFreePages (pages_used (info s)) count = Inr pos"
      "set_pages (pages_used (info s)) pos count True = Inr pages" "s' = request_result pos count pages s"
      "shm_inv s'"
    | e where "r = Inl (Runtime_error e)" "shm_inv s'" "pages_used (info s') = pages_used (info s)"
      "contents s' = contents s" "mutex_free s'"
      "\<And>pos. findContinousFreePages (pages_used (info s)) count = Inr pos \<Longrightarrow>
        \<not> mremap_ok k \<or> \<not> ftruncate_ok k \<and> shared_size (info s) < 4096 * (pos + count)"
      "\<And>e'. findContinousFreePages (pages_used (info s)) count = Inl e' \<Longrightarrow> e' = Runtime_error e"
    | "r = Inl (Process_exit 1)" "shm_inv s'" "pages_used (info s') = pages_used (info s)"
      "shm_sems s' (semaphore (mtx (info s'))) = Some 0" "contents s' = contents s" "\<not> mremap_ok k"
      "current_mapped_size (proc s) < shared_size (info s)"
    | pos where "r = Inl Undefined_behaviour" "findContinousFreePages (pages_used (info s)) count = Inr pos"
      "bitmap_cap (pages_used (info s)) < pos + count" "shm_inv s'" "pages_used (info s') = pages_used (info s)"
proof -
  let ?k = "(shm_sems s)(semaphore (mtx (info s)) \<mapsto> 0)" and ?s = "s\<lparr>shm_sems := (shm_sems s)(semaphore (mtx (info s)) \<mapsto> 0)\<rparr>"
  let ?m = "seq (remap_shared_memory k) (\<lambda>_. requestContinousFreePagesInternal k count)"
  note result = that
  have inv1: "shm_inv ?s" using inv by simp
  obtain r1 t where t: "internal_remap_shm k ?s = (r1, t)" by fastforce
  note run' = run [unfolded requestContinousFreePages_def]
  have follow: thesis if r1: "r1 = Inr ()" and tt: "t = ?s \<or> t = set_mapped (shared_size (info ?s)) ?s"
  proof -
    have invt: "shm_inv t" using tt inv1 by (auto simp: shm_inv_set_mapped)
    have teq: "pages_used (info t) = pages_used (info s)" "contents t = contents s" "shm_sems t = ?k"
      "mtx (info t) = mtx (info s)" "shared_size (info t) = shared_size (info s)" "\<And>pos count pages. request_result pos count pages t = (request_result pos count pages s)\<lparr>shm_sems := ?k\<rparr>"
      using tt by (auto simp: request_result_set_mapped request_result_sems)
    obtain r2 u where u: "requestContinousFreePagesInternal k count t = (r2, u)" by fastforce
    have m: "?m ?s = (r2, u)" using t r1 u by (simp add: seq_def remap_shared_memory_def)
    from invt u show thesis
    proof (cases rule: requestInternal_cases)
      case (1 pos pages)
      then have "with_guard ?m s = (Inr pos, (request_result pos count pages s))"
        using with_guard_free [where m = ?m, OF free m] teq by simp
      with run' have rs: "r = Inr pos" "s' = request_result pos count pages s" by simp_all
      show thesis
        by (rule result(1) [OF rs(1) _ _ rs(2)])
          (use 1(2,3) teq(1) rs(2) inv in \<open>simp_all add: request_result_inv find_pos_bounds(2)\<close>)
    next
      case (2 e)
      then have "with_guard ?m s = (Inl (Runtime_error e), u\<lparr>shm_sems := shm_sems s\<rparr>)"
        using with_guard_free [where m = ?m, OF free m] teq by simp
      with 2 run' teq free show thesis by (intro result(2)) (auto simp: mutex_free_def)
    next
      case (3 pos)
      then have "with_guard ?m s = (Inl Undefined_behaviour, u)"
        using with_guard_free [where m = ?m, OF free m] teq by simp
      with 3 run' teq show thesis by (intro result(4)) auto
    qed
  qed
  from t show thesis
  proof (cases rule: internal_remap_cases)
    case 3
    then have m: "?m ?s = (Inl (Process_exit 1), unregister_shared_memory_as_default ?s)"
      using t by (simp add: seq_def remap_shared_memory_def)
    have "with_guard ?m s = (Inl (Process_exit 1), unregister_shared_memory_as_default ?s)"
      using with_guard_free [where m = ?m, OF free m] by simp
    with run' inv 3(3,4) show thesis by (intro result(3)) auto
  qed (auto intro: follow)
qed

lemma request_succeeds:
  assumes "shm_inv s" and "mutex_free s" and find: "findContinousFreePages (pages_used (info s)) count = Inr pos"
    and cap: "pos + count \<le> bitmap_cap (pages_used (info s))" and "mremap_ok k"
    and "ftruncate_ok k \<or> 4096 * (pos + count) \<le> shared_size (info s)"
  obtains pages where "set_pages (pages_used (info s)) pos count True = Inr pages"
    "requestContinousFreePages k count s = (Inr pos, request_result pos count pages s)"
proof -
  obtain r s' where run: "requestContinousFreePages k count s = (r, s')" by fastforce
  with assms(1,2) show thesis
  proof (cases rule: request_cases)
    case (1 p pages)
    with find run show thesis by (intro that) simp_all
  next
    case (2 e)
    from 2(6) [OF find] assms(5,6) show thesis by auto
  qed (use assms(5) find cap in auto)
qed

section \<open>Properties of requests\<close>

text \<open>
  A small segment for concrete runs: sixteen pages described, three in use.
\<close>

definition example_state :: shm_state where
  "example_state =
     \<lparr>info = \<lparr>base = shm_shared_memory_base, has_forked = False, has_unintenden_fork = False,
        shared_size = 12288, shm_fd = 1022, pages_used = [\<lparr>data = 7\<rparr>, \<lparr>data = 0\<rparr>],
        first_unused_page_index = 3, mtx = \<lparr>semaphore = 5, mutex_has_forked = False\<rparr>,
        mmap_next_free_address = 0x3e0000000000\<rparr>,
      proc = \<lparr>current_mapped_size = 12288, use_shared_memory_only = False, malloc_hook = False,
        memalign_hook = False, has_forked_complete = False, dl_pagesize = 4096\<rparr>,
      file_size = 12288, contents = (\<lambda>i. if i < 12288 then 170 else 0), shm_sems = [5 \<mapsto> 1]\<rparr>"

definition good_os :: os where
  "good_os = \<lparr>os_ftruncate = (\<lambda>_ _. True), os_mremap = (\<lambda>a _ _. Some a)\<rparr>"

lemma example_used: "page_used [\<lparr>data = 7\<rparr>, \<lparr>data = 0\<rparr>] q \<Longrightarrow> q < 3"
proof -
  assume u: "page_used [\<lparr>data = 7\<rparr>, \<lparr>data = 0\<rparr>] q"
  then have "q div 8 < 2" by (simp add: page_used_def)
  then have "q < 16" by linarith
  moreover have "\<forall>q\<in>set [3..<16]. \<not> page_used [\<lparr>data = 7\<rparr>, \<lparr>data = 0\<rparr>] q" by code_simp
  ultimately show "q < 3" using u by (metis atLeastLessThan_iff not_le set_upt)
qed

lemma example_inv: "shm_inv example_state"
  unfolding shm_inv_def example_state_def by (simp add: bitmap_cap_def) (use example_used in auto)

lemma example_pages: "pages_used (info example_state) = [\<lparr>data = 7\<rparr>, \<lparr>data = 0\<rparr>]"
  by (simp add: example_state_def)

lemma example_free: "mutex_free example_state"
  by (simp add: mutex_free_def example_state_def)

lemma good_os_ok: "ftruncate_ok good_os" "mremap_ok good_os"
  by (simp_all add: good_os_def ftruncate_ok_def mremap_ok_def)

lemma example_request:
  obtains s' where "requestContinousFreePages good_os 2 example_state = (Inr 4, s')"
proof -
  have "findContinousFreePages (pages_used (info example_state)) 2 = Inr 4"
    unfolding example_pages by code_simp
  then show thesis
    using example_inv example_free good_os_ok
    by (elim request_succeeds [where k = good_os]) (auto simp: example_state_def bitmap_cap_def that)
qed





text \<open>
  A refused request is atomic for the allocation: whatever the kernel answers, the bitmap and
  all bytes are as before, the invariant holds, and unless the process has ended the mutex is free.
\<close>

theorem requestContinousFreePages_refused:
  assumes "shm_inv s" and "mutex_free s" and "requestContinousFreePages k count s = (Inl (Runtime_error e), s')"
  shows "pages_used (info s') = pages_used (info s) \<and> contents s' = contents s \<and> mutex_free s' \<and> shm_inv s'"
  using assms by (cases rule: request_cases) auto

theorem requestContinousFreePages_refused_witness:
  "\<exists>s' e. requestContinousFreePages good_os 14 example_state = (Inl (Runtime_error e), s') \<and>
     pages_used (info s') = pages_used (info example_state) \<and> mutex_free s' \<and> shm_inv s'"
proof -
  have find: "findContinousFreePages (pages_used (info example_state)) 14 =
      Inl (Runtime_error ''Too much memory used! (NOT IMPLEMENTED)'')"
    unfolding example_pages by code_simp
  obtain r s' where run: "requestContinousFreePages good_os 14 example_state = (r, s')" by fastforce
  with example_inv example_free have "r = Inl (Runtime_error ''Too much memory used! (NOT IMPLEMENTED)'')"
    by (cases rule: request_cases) (use find good_os_ok in auto)
  with run requestContinousFreePages_refused [OF example_inv example_free] show ?thesis by blast
qed

definition full_disk_os :: os where
  "full_disk_os = \<lparr>os_ftruncate = (\<lambda>_ _. False), os_mremap = (\<lambda>a _ _. Some a)\<rparr>"

text \<open>
  When \<^verbatim>\<open>ftruncate\<close> refuses to grow the file, \<^verbatim>\<open>shared_size\<close> has been raised already and
  stays raised. The same request, repeated, is then served without another attempt to grow the file, with a
  block that ends past the end of the file.
\<close>

theorem refused_growth_then_served:
  assumes "shm_inv s" and "mutex_free s" and find: "findContinousFreePages (pages_used (info s)) count = Inr pos"
    and "pos + count \<le> bitmap_cap (pages_used (info s))" and grow: "shared_size (info s) < 4096 * (pos + count)"
    and "current_mapped_size (proc s) = shared_size (info s)" and "\<not> os_ftruncate k (shm_fd (info s)) (4096 * (pos + count))"
    and "mremap_ok k'"
  shows "\<exists>s' s''. requestContinousFreePages k count s = (Inl (Runtime_error ''ftruncate failed''), s') \<and>
    requestContinousFreePages k' count s' = (Inr pos, s'') \<and> file_size s'' < 4096 * (pos + count)"
proof -
  let ?g = "grown (pos + count) s" and ?k = "(shm_sems s)(semaphore (mtx (info s)) \<mapsto> 0)"
  let ?m = "seq (remap_shared_memory k) (\<lambda>_. requestContinousFreePagesInternal k count)"
  let ?s = "s\<lparr>shm_sems := ?k\<rparr>"
  have inv: "shm_inv ?s" using assms(1) by simp
  obtain r t where rt: "resizeSharedMemory k (pos + count) ?s = (r, t)" by fastforce
  have grow': "shared_size (info ?s) < 4096 * (pos + count)" using grow by simp
  from rt inv grow' have "(r, t) = (Inl (Runtime_error ''ftruncate failed''), ?g\<lparr>shm_sems := ?k\<rparr>)"
    by (cases rule: resizeSharedMemory_cases) (use assms(7) in \<open>auto simp: grown_def\<close>)
  with rt have "?m ?s = (Inl (Runtime_error ''ftruncate failed''), ?g\<lparr>shm_sems := ?k\<rparr>)"
    using assms(6) find grow by (simp add: seq_def remap_shared_memory_def internal_remap_shm_def ret_def request_unfold
        when_do_def shm_invD(1) [OF assms(1)] algebra_simps)
  then have first: "requestContinousFreePages k count s = (Inl (Runtime_error ''ftruncate failed''), ?g)"
    unfolding requestContinousFreePages_def using with_guard_free [where m = ?m, OF assms(2)]
    by (simp add: grown_def)
  have "shm_inv ?g" using assms(1) grow assms(4) by (intro shm_inv_grown) auto
  then obtain pages where "requestContinousFreePages k' count ?g = (Inr pos, request_result pos count pages ?g)"
    using assms(2,8) find assms(4)
    by (elim request_succeeds [where pos = pos and k = k' and count = count]) (auto simp: mutex_free_def grown_def)
  moreover have "file_size (request_result pos count pages ?g) < 4096 * (pos + count)"
    using shm_invD(7) [OF assms(1)] grow by (simp add: grown_def)
  ultimately show ?thesis using first by blast
qed

theorem refused_growth_then_served_witness:
  "\<exists>s' s''. findContinousFreePages (pages_used (info example_state)) 2 = Inr 4 \<and> mremap_ok good_os \<and>
     requestContinousFreePages full_disk_os 2 example_state = (Inl (Runtime_error ''ftruncate failed''), s') \<and>
     requestContinousFreePages good_os 2 s' = (Inr 4, s'') \<and> file_size s'' < 24576"
proof -
  have "findContinousFreePages (pages_used (info example_state)) 2 = Inr 4"
    unfolding example_pages by code_simp
  with refused_growth_then_served [OF example_inv example_free this, of full_disk_os good_os] good_os_ok
  show ?thesis by (auto simp: example_state_def bitmap_cap_def full_disk_os_def)
qed


text \<open>
  A second request of one page is served with the same page as the first, because the search
  returns the page after the free one it has found and the request marks only the returned page.
\<close>

theorem single_page_request_repeats:
  assumes "shm_inv s" and "mutex_free s" and "requestContinousFreePages k 1 s = (Inr pos, s')"
    and "mremap_ok k'"
  shows "\<exists>s''. requestContinousFreePages k' 1 s' = (Inr pos, s'')"
  using assms(1-3)
proof (cases rule: request_cases)
  case (1 p pages)
  then have p: "p = pos" by simp
  let ?u = "page_used (pages_used (info s))" and ?n = "bitmap_cap (pages_used (info s))"
  have S: "pages_used (info s') = pages" "bitmap_cap pages = ?n" "mutex_free s'"
    "4096 * (pos + 1) \<le> shared_size (info s')"
    using 1 p assms(2) bitmap_cap_set_pages [OF 1(3)] by (auto simp: mutex_free_def)
  have fit: "pos + 1 \<le> ?n" using set_pages_Inr(2) [OF 1(3)] p by simp
  have mark: "page_used pages q = (q = pos \<or> ?u q)" for q
    using set_pages_Inr(3) [OF 1(3)] p by auto
  have "0 < pos \<and> free_run ?u ?n 1 (pos - 1) \<and> (\<forall>p<pos - 1. \<not> free_run ?u ?n 1 p)"
    using 1(2) find_Inr_iff [of 1] p by simp
  then have "0 < pos \<and> free_run (page_used pages) ?n 1 (pos - 1) \<and> (\<forall>p<pos - 1. \<not> free_run (page_used pages) ?n 1 p)"
    by (auto simp: free_run_iff mark)
  then have "findContinousFreePages (pages_used (info s')) 1 = Inr pos"
    using find_Inr_iff [of 1 pages pos] S by simp
  with 1(5) S assms(4) fit show ?thesis
    by (elim request_succeeds [where k = k' and count = 1]) auto
qed simp_all

theorem single_page_request_repeats_witness:
  "\<exists>s' s''. shm_inv example_state \<and> mutex_free example_state \<and> mremap_ok good_os \<and>
     requestContinousFreePages good_os 1 example_state = (Inr 4, s') \<and>
     requestContinousFreePages good_os 1 s' = (Inr 4, s'')"
proof -
  have "findContinousFreePages (pages_used (info example_state)) 1 = Inr 4"
    unfolding example_pages by code_simp
  then obtain s' where "requestContinousFreePages good_os 1 example_state = (Inr 4, s')"
    using example_inv example_free good_os_ok
    by (elim request_succeeds [where k = good_os]) (auto simp: example_state_def bitmap_cap_def)
  with single_page_request_repeats [OF example_inv example_free this good_os_ok(2)]
  show ?thesis using example_inv example_free good_os_ok by blast
qed

section \<open>Freeing\<close>

lemma freePages_run:
  assumes "mutex_free s" and "0 < count"
  shows "freePages pos count s =
    (case set_pages (pages_used (info s)) pos count False of
       Inr pages \<Rightarrow> (Inr (), s\<lparr>info := (info s)\<lparr>pages_used := pages\<rparr>\<rparr>)
     | Inl e \<Rightarrow> (Inl Undefined_behaviour, s\<lparr>shm_sems := (shm_sems s)(semaphore (mtx (info s)) \<mapsto> 0)\<rparr>))"
proof -
  let ?m = "block_pages pos count False"
  let ?s = "s\<lparr>shm_sems := (shm_sems s)(semaphore (mtx (info s)) \<mapsto> 0)\<rparr>"
  show ?thesis
  proof (cases "set_pages (pages_used (info s)) pos count False")
    case (Inl e)
    with set_pages_Inl [OF this] have "?m ?s = (Inl Undefined_behaviour, ?s)"
      by (simp add: block_pages_def throw_def)
    from with_guard_free [where m = ?m, OF assms(1) this] Inl show ?thesis by (simp add: freePages_def)
  next
    case (Inr pages)
    then have "?m ?s = (Inr (), ?s\<lparr>info := (info s)\<lparr>pages_used := pages\<rparr>\<rparr>)"
      by (simp add: block_pages_def ret_def)
    from with_guard_free [where m = ?m, OF assms(1) this] Inr show ?thesis by (simp add: freePages_def)
  qed
qed

text \<open>
  Freeing a run of pages inside the bitmap clears exactly their marks, keeps the invariant and
  every byte, and leaves the mutex free.
\<close>

theorem freePages_clears:
  assumes "shm_inv s" and "mutex_free s" and "pos + count \<le> bitmap_cap (pages_used (info s))" and "0 < count"
  shows "\<exists>s'. freePages pos count s = (Inr (), s') \<and> shm_inv s' \<and> mutex_free s' \<and> contents s' = contents s \<and>
    (\<forall>q. page_used (pages_used (info s')) q \<longleftrightarrow>
           page_used (pages_used (info s)) q \<and> \<not> (pos \<le> q \<and> q < pos + count))"
proof -
  obtain pages where set: "set_pages (pages_used (info s)) pos count False = Inr pages"
    using set_pages_in_range [OF assms(3), of False] by blast
  let ?s = "s\<lparr>info := (info s)\<lparr>pages_used := pages\<rparr>\<rparr>"
  have "shm_inv ?s"
    using assms(1) by (auto simp: shm_inv_def bitmap_cap_set_pages [OF set] set_pages_Inr(3) [OF set] split: if_splits)
  then show ?thesis
    using assms(2) set_pages_Inr(3) [OF set] by (auto simp: freePages_run [OF assms(2,4)] set mutex_free_def)
qed

theorem freePages_clears_witness:
  "\<exists>s'. shm_inv example_state \<and> mutex_free example_state \<and>
     freePages 1 2 example_state = (Inr (), s') \<and> \<not> page_used (pages_used (info s')) 1"
  using freePages_clears [OF example_inv example_free, of 1 2] example_inv example_free
  by (auto simp: example_pages bitmap_cap_def)

end
