(* ===== verification/Shm_Mmap.thy ===== *)
theory Shm_Mmap
  imports Shared_Memory
begin

text \<open>
  The calls the allocator and the program see (\<^verbatim>\<open>libipc/shared_memory_manager.cpp\<close>):
  \<^verbatim>\<open>shm_mmap\<close>, \<^verbatim>\<open>shm_mremap\<close>, \<^verbatim>\<open>shm_munmap\<close>, \<^verbatim>\<open>shm_mprotect\<close>, the mapping of files in both
  processes, the checks on mappings requested by the other process, the replacements of
  \<^verbatim>\<open>mmap\<close> and \<^verbatim>\<open>mremap\<close>, and the creation of the segment. The system calls \<^verbatim>\<open>mmap\<close> and
  \<^verbatim>\<open>mprotect\<close> themselves are parameters.
\<close>

section \<open>Definitions\<close>

definition MAP_FAILED :: addr where
  "MAP_FAILED = - 1"

type_synonym sys_mmap = "addr \<Rightarrow> u64 \<Rightarrow> int \<Rightarrow> int \<Rightarrow> int \<Rightarrow> int \<Rightarrow> addr"

definition pageIndexToAddress :: "shm_state \<Rightarrow> nat \<Rightarrow> addr" where
  "pageIndexToAddress s page = base (info s) + of_nat page * of_nat (dl_pagesize (proc s))"

definition addressToPageIndex :: "shm_state \<Rightarrow> addr \<Rightarrow> nat" where
  "addressToPageIndex s a = unat (a - base (info s)) div dl_pagesize (proc s)"

text \<open>
  A caller's length as a number of pages, after rounding up.
\<close>

definition page_count :: "shm_state \<Rightarrow> u64 \<Rightarrow> nat" where
  "page_count s len = unat (ALIGN_UP len (of_nat (dl_pagesize (proc s)))) div dl_pagesize (proc s)"

definition shm_mmap :: "os \<Rightarrow> sys_mmap \<Rightarrow> addr \<Rightarrow> u64 \<Rightarrow> int \<Rightarrow> int \<Rightarrow> int \<Rightarrow> int \<Rightarrow> (shm_state, addr) routine" where
  "shm_mmap k real_mmap a len prot flags fd offset s =
     (if 0 \<le> fd \<or> 0 < offset \<or> a \<noteq> 0
      then ret (real_mmap a len prot flags fd offset) s
      else seq (requestContinousFreePages k (page_count s len))
             (\<lambda>pageStart. reads (\<lambda>s. pageIndexToAddress s pageStart)) s)"

text \<open>
  \<^verbatim>\<open>memcpy\<close> inside the segment, by offsets. A range that is not mapped faults, and
  overlapping ranges are undefined.
\<close>

definition copy_bytes :: "nat \<Rightarrow> nat \<Rightarrow> nat \<Rightarrow> (nat \<Rightarrow> u8) \<Rightarrow> nat \<Rightarrow> u8" where
  "copy_bytes dst src n m = (\<lambda>i. if dst \<le> i \<and> i < dst + n then m (src + (i - dst)) else m i)"

definition shm_memcpy :: "addr \<Rightarrow> addr \<Rightarrow> nat \<Rightarrow> (shm_state, unit) routine" where
  "shm_memcpy dst src n s =
     (let d = unat (dst - base (info s)); c = unat (src - base (info s)) in
      if d + n \<le> current_mapped_size (proc s) \<and> c + n \<le> current_mapped_size (proc s) \<and>
         (d + n \<le> c \<or> c + n \<le> d)
      then ret () (s\<lparr>contents := copy_bytes d c n (contents s)\<rparr>)
      else throw Undefined_behaviour s)"

definition shm_mremap :: "os \<Rightarrow> addr \<Rightarrow> u64 \<Rightarrow> u64 \<Rightarrow> (shm_state, addr) routine" where
  "shm_mremap k old_address old_size new_size s =
     (let old_page_index = addressToPageIndex s old_address;
          old_count = page_count s old_size in
      seq (requestContinousFreePagesForMove k (page_count s new_size) old_page_index)
      (\<lambda>new_page_index. if new_page_index = old_page_index then ret old_address
        else seq (reads (\<lambda>s. pageIndexToAddress s new_page_index))
        (\<lambda>new_address. seq (shm_memcpy new_address old_address (unat (ALIGN_UP old_size (of_nat (dl_pagesize (proc s))))))
        (\<lambda>_. seq (freePages old_page_index old_count)
        (\<lambda>_. ret new_address)))) s)"

text \<open>
  \<^verbatim>\<open>shm_munmap\<close> ends without a return statement; its callers get no defined value.
\<close>

definition shm_munmap :: "addr \<Rightarrow> u64 \<Rightarrow> (shm_state, unit) routine" where
  "shm_munmap a len s = freePages (addressToPageIndex s a) (page_count s len) s"

definition PROT_READ :: int where "PROT_READ = 1"
definition PROT_WRITE :: int where "PROT_WRITE = 2"

definition shm_mprotect :: "(addr \<Rightarrow> u64 \<Rightarrow> int \<Rightarrow> int) \<Rightarrow> addr \<Rightarrow> u64 \<Rightarrow> int \<Rightarrow> int" where
  "shm_mprotect real_mprotect a len prot =
     (if shm_is_shared_memory_pointer a \<and> (prot = PROT_READ + PROT_WRITE \<or> prot = PROT_READ) then 0
      else real_mprotect a len prot)"

text \<open>
  Mapping a file in both processes: the address comes from a counter, the other process maps
  its own copy of the descriptor at the same address.
\<close>

definition synchronizedFileMap ::
    "sys_mmap \<Rightarrow> sys_mmap \<Rightarrow> (int \<Rightarrow> int) \<Rightarrow> u64 \<Rightarrow> int \<Rightarrow> int \<Rightarrow> int \<Rightarrow> int \<Rightarrow> (shm_state, addr \<times> addr) routine" where
  "synchronizedFileMap real_mmap remote_mmap mapToOtherSide len prot flags fd offset s =
     (let remoteFD = mapToOtherSide fd;
          a = mmap_next_free_address (info s);
          s = s\<lparr>info := (info s)\<lparr>mmap_next_free_address :=
                  a + ALIGN_UP len (of_nat (dl_pagesize (proc s)))\<rparr>\<rparr>
      in ret (real_mmap a len prot flags fd offset, remote_mmap a len prot flags remoteFD offset) s)"

definition shm_mmap_share ::
    "os \<Rightarrow> sys_mmap \<Rightarrow> sys_mmap \<Rightarrow> (int \<Rightarrow> int) \<Rightarrow> addr \<Rightarrow> u64 \<Rightarrow> int \<Rightarrow> int \<Rightarrow> int \<Rightarrow> int \<Rightarrow> (shm_state, addr) routine" where
  "shm_mmap_share k real_mmap remote_mmap mapToOtherSide a len prot flags fd offset =
     (if 0 \<le> fd
      then seq (synchronizedFileMap real_mmap remote_mmap mapToOtherSide len prot flags fd offset)
             (\<lambda>(result, result2). ret result)
      else shm_mmap k real_mmap a len prot flags fd offset)"

definition internal_mmap :: "sys_mmap \<Rightarrow> addr \<Rightarrow> u64 \<Rightarrow> int \<Rightarrow> int \<Rightarrow> int \<Rightarrow> int \<Rightarrow> addr" where
  "internal_mmap real_mmap a len prot flags fd offset =
     (if a = 0 \<or> \<not> shm_is_shared_memory_pointer a \<and> \<not> shm_is_shared_file_pointer a then MAP_FAILED
      else real_mmap a len prot flags fd offset)"

text \<open>
  The replacements of \<^verbatim>\<open>mmap\<close>, \<^verbatim>\<open>mmap64\<close> and \<^verbatim>\<open>mremap\<close>.
\<close>

definition mmap :: "os \<Rightarrow> sys_mmap \<Rightarrow> addr \<Rightarrow> u64 \<Rightarrow> int \<Rightarrow> int \<Rightarrow> int \<Rightarrow> int \<Rightarrow> (shm_state, addr) routine" where
  "mmap k real_mmap a len prot flags fd offset s =
     (if use_shared_memory_only (proc s) then shm_mmap k real_mmap a len prot flags fd offset s
      else ret (real_mmap a len prot flags fd offset) s)"

definition mmap64 :: "os \<Rightarrow> sys_mmap \<Rightarrow> sys_mmap \<Rightarrow> addr \<Rightarrow> u64 \<Rightarrow> int \<Rightarrow> int \<Rightarrow> int \<Rightarrow> int \<Rightarrow> (shm_state, addr) routine" where
  "mmap64 k real_mmap real_mmap64 a len prot flags fd offset s =
     (if use_shared_memory_only (proc s) then shm_mmap k real_mmap a len prot flags fd offset s
      else ret (real_mmap64 a len prot flags fd offset) s)"

definition mremap ::
    "os \<Rightarrow> (addr \<Rightarrow> u64 \<Rightarrow> u64 \<Rightarrow> int \<Rightarrow> addr) \<Rightarrow> addr \<Rightarrow> u64 \<Rightarrow> u64 \<Rightarrow> int \<Rightarrow> (shm_state, addr) routine" where
  "mremap k real_mremap old_address old_size new_size flags s =
     (if shm_is_shared_memory_pointer old_address then shm_mremap k old_address old_size new_size s
      else ret (real_mremap old_address old_size new_size flags) s)"

section \<open>Creating the segment\<close>

text \<open>
  The number of pages for the object itself: doubled until it fits. The bound on the
  recursion is the size of the object, which no page count in use exceeds.
\<close>

function info_pages_loop :: "nat \<Rightarrow> nat \<Rightarrow> nat \<Rightarrow> nat" where
  "info_pages_loop ps size_info info_pages =
     (if 0 < ps \<and> 0 < info_pages \<and> ps * info_pages < size_info
      then info_pages_loop ps size_info (info_pages * 2) else info_pages)"
  by pat_completeness auto
termination
proof (relation "measure (\<lambda>(ps, size_info, info_pages). size_info - info_pages)", goal_cases)
  case (2 ps size_info n)
  then have "n \<le> ps * n" by simp
  with 2 have "0 < n" "n < size_info" by linarith+
  then show ?case by simp
qed simp

declare info_pages_loop.simps [simp del]

definition bitset_pages :: nat where
  "bitset_pages = 512"

text \<open>
  \<^verbatim>\<open>init\<close>: the memory of the bitmap is zero when it is handed over, and the first pages are
  marked.
\<close>

definition shm_init :: "int \<Rightarrow> nat \<Rightarrow> addr \<Rightarrow> nat \<Rightarrow> nat \<Rightarrow> SharedMutex \<Rightarrow> (SharedMemoryInformation \<times> nat) outcome" where
  "shm_init fd sz this bitset_bytes used_pages m =
     bind_outcome (set_pages (replicate bitset_bytes \<lparr>data = 0\<rparr>) 0 used_pages True)
       (\<lambda>pages. Inr (\<lparr>base = this, has_forked = False, has_unintenden_fork = False, shared_size = sz,
          shm_fd = fd, pages_used = pages, first_unused_page_index = used_pages, mtx = m,
          mmap_next_free_address = 0x3e0000000000\<rparr>, sz))"

text \<open>
  \<^verbatim>\<open>shared_memory_init\<close>, with the size of the object, the page size, the descriptor of the
  fresh segment, the address \<^verbatim>\<open>mmap\<close> returned and the semaphore \<^verbatim>\<open>semget\<close> returned. With
  \<^verbatim>\<open>MPROTECT_MODE\<close> the object and the bitmap live in a private mapping and the segment starts with
  one page. In the other mode they occupy the first pages of the segment, which are marked as used: the
  model keeps them in \<^const>\<open>info\<close>, and \<^const>\<open>contents\<close> holds the bytes of the other pages.
\<close>

definition shared_memory_init ::
    "bool \<Rightarrow> nat \<Rightarrow> nat \<Rightarrow> int \<Rightarrow> addr \<Rightarrow> int \<Rightarrow> sems \<Rightarrow> shm_state option \<Rightarrow> shm_state option outcome" where
  "shared_memory_init mprotect_mode size_info ps fd ptr semid sems0 shared_memory_info =
     (case shared_memory_info of
        Some s \<Rightarrow> Inr (Some s)
      | None \<Rightarrow>
          (let info_pages = info_pages_loop ps size_info 1;
               used_pages = (if mprotect_mode then 0 else info_pages + bitset_pages);
               mapped_size = (if mprotect_mode then ps else ps * (info_pages + bitset_pages));
               (m, sems') = SharedMutex_new False semid sems0
           in bind_outcome (shm_init fd mapped_size ptr (bitset_pages * ps) used_pages m)
                (\<lambda>(i, mapped). Inr (Some
                   \<lparr>info = i,
                    proc = \<lparr>current_mapped_size = mapped, use_shared_memory_only = False,
                      malloc_hook = False, memalign_hook = False, has_forked_complete = False, dl_pagesize = ps\<rparr>,
                    file_size = mapped_size, contents = (\<lambda>_. 0), shm_sems = sems'\<rparr>))))"

section \<open>The initial state\<close>

lemma info_pages_loop_bounds:
  assumes "0 < ps" and "0 < n"
  shows "size_info \<le> ps * info_pages_loop ps size_info n" and "info_pages_loop ps size_info n \<le> max n (2 * size_info)"
  using assms
proof (induction ps size_info n rule: info_pages_loop.induct)
  case (1 ps size_info n)
  { case 1
    with "1.IH"(1) show ?case by (cases "ps * n < size_info") (auto simp: info_pages_loop.simps [of ps size_info n])
  next
    case 2
    have "n \<le> ps * n" using 2 by simp
    then have "max (n * 2) (2 * size_info) \<le> max n (2 * size_info)" if "ps * n < size_info" using that by linarith
    then show ?case using 2 "1.IH"(2)
      by (cases "ps * n < size_info") (auto simp: info_pages_loop.simps [of ps size_info n] intro: order_trans) }
qed

lemma page_used_zero [simp]: "\<not> page_used (replicate n \<lparr>data = 0\<rparr>) q"
  by (simp add: page_used_def bitset_index_bit)



section \<open>Addresses of pages\<close>

lemma page_count_eq:
  assumes "dl_pagesize (proc s) = 4096"
  shows "page_count s len = (if unat len \<le> 2 ^ 64 - 4096 then (unat len + 4095) div 4096 else 0)"
proof (cases "unat len \<le> 2 ^ 64 - 4096")
  case True
  then have "unat (ALIGN_UP len (2 ^ 12)) = (unat len + 4095) div 4096 * 4096"
    unfolding ALIGN_UP_exp using unat_round_add [of 12 len] by simp
  with True assms show ?thesis by (simp add: page_count_def)
next
  case False
  with ALIGN_UP_wrap [of 12 len] assms show ?thesis by (simp add: page_count_def)
qed

lemma page_count_covers:
  assumes "dl_pagesize (proc s) = 4096" and "unat len \<le> 2 ^ 64 - 4096"
  shows "unat len \<le> 4096 * page_count s len"
  using assms by (simp add: page_count_eq)

lemma address_offset:
  assumes "base (info s) = shm_shared_memory_base" and "dl_pagesize (proc s) = 4096" and "4096 * p + j < 2 ^ 40"
  shows "unat (pageIndexToAddress s p + of_nat j - base (info s)) = 4096 * p + j"
    and "shm_is_shared_memory_pointer (pageIndexToAddress s p + of_nat j)"
    and "unat (pageIndexToAddress s p + of_nat j) = unat shm_shared_memory_base + (4096 * p + j)"
proof -
  have eq: "pageIndexToAddress s p + of_nat j = shm_shared_memory_base + of_nat (4096 * p + j)"
    using assms by (simp add: pageIndexToAddress_def mult.commute)
  have small: "unat (of_nat (4096 * p + j) :: u64) = 4096 * p + j"
    using assms(3) unfolding unat_of_nat by simp
  then show "unat (pageIndexToAddress s p + of_nat j - base (info s)) = 4096 * p + j"
    unfolding eq assms(1) by simp
  show "shm_is_shared_memory_pointer (pageIndexToAddress s p + of_nat j)"
    unfolding eq using assms(3) by (rule base_offset_shared)
  have "unat (shm_shared_memory_base :: addr) + (4096 * p + j) < 2 ^ 64"
    using assms(3) by (simp add: shm_shared_memory_base_def)
  then show "unat (pageIndexToAddress s p + of_nat j) = unat shm_shared_memory_base + (4096 * p + j)"
    unfolding eq unat_word_ariths(1) small by simp
qed

lemma addressToPageIndex_inverse:
  assumes "shm_inv s" and "4096 * p + j < 2 ^ 40" and "j < 4096"
  shows "addressToPageIndex s (pageIndexToAddress s p + of_nat j) = p"
  using address_offset(1) [OF shm_invD(2,1) [OF assms(1)] assms(2)] assms(3)
  by (simp add: addressToPageIndex_def shm_invD [OF assms(1)])

lemma mapped_small:
  assumes "shm_inv s" shows "shared_size (info s) \<le> 2 ^ 37"
  using shm_invD(3,4) [OF assms] by simp

section \<open>Properties of the mapping calls\<close>

lemma shm_mmap_anonymous:
  "shm_mmap k real_mmap 0 len prot flags (- 1) 0 s =
     seq (requestContinousFreePages k (page_count s len)) (\<lambda>p. reads (\<lambda>s. pageIndexToAddress s p)) s"
  by (simp add: shm_mmap_def)

lemma shm_mmap_Inr:
  assumes "shm_inv s" and "mutex_free s" and "shm_mmap k real_mmap 0 len prot flags (- 1) 0 s = (Inr a, s')"
  obtains pos pages where "set_pages (pages_used (info s)) pos (page_count s len) True = Inr pages"
    "s' = request_result pos (page_count s len) pages s" "a = pageIndexToAddress s' pos" "shm_inv s'"
    "\<And>q. pos \<le> q \<Longrightarrow> Suc q < pos + page_count s len \<Longrightarrow> \<not> page_used (pages_used (info s)) q"
proof -
  from assms(3) obtain pos where run: "requestContinousFreePages k (page_count s len) s = (Inr pos, s')"
    and a: "a = pageIndexToAddress s' pos"
    by (auto simp: shm_mmap_anonymous routine_iffs)
  from assms(1,2) run show thesis
  proof (cases rule: request_cases)
    case (1 p pages)
    with a run show thesis using find_pos_bounds(3) [OF 1(2)]
      by (intro that [of pos pages]) auto
  qed simp_all
qed



text \<open>
  A length in the last page of the address space overflows when it is rounded up: the call
  still returns an address when it is served, but no page is marked and no byte is cleared.
\<close>

theorem shm_mmap_length_overflow:
  assumes "shm_inv s" and "mutex_free s" and "2 ^ 64 - 4096 < unat len"
    and "shm_mmap k real_mmap 0 len prot flags (- 1) 0 s = (Inr a, s')"
  shows "shm_is_shared_memory_pointer a \<and> pages_used (info s') = pages_used (info s) \<and> contents s' = contents s"
  using assms(1,2,4)
proof (cases rule: shm_mmap_Inr)
  case (1 pos pages)
  have "page_count s len = 0"
    using assms(3) by (simp add: page_count_eq [OF shm_invD(1) [OF assms(1)]])
  with 1 have "pages_used (info s') = pages_used (info s)" "contents s' = contents s"
    "4096 * pos \<le> shared_size (info s')"
    by (auto simp: fill_bytes_def fun_eq_iff)
  with mapped_small [OF 1(4)] address_offset(2) [OF shm_invD(2,1) [OF 1(4)], of pos 0] 1(3) show ?thesis
    by simp
qed

theorem shm_mmap_length_overflow_witness:
  "\<exists>s' a. 2 ^ 64 - 4096 < unat (0xffffffffffffffff :: u64) \<and>
     shm_mmap good_os (\<lambda>_ _ _ _ _ _. 0) 0 0xffffffffffffffff 3 34 (- 1) 0 example_state = (Inr a, s') \<and>
     pages_used (info s') = pages_used (info example_state)"
proof -
  have big: "2 ^ 64 - 4096 < unat (0xffffffffffffffff :: u64)" by simp
  have "findContinousFreePages (pages_used (info example_state)) 0 = Inr 4"
    unfolding example_pages by code_simp
  then obtain s' where "requestContinousFreePages good_os 0 example_state = (Inr 4, s')"
    using example_inv example_free good_os_ok
    by (elim request_succeeds [where k = good_os]) (auto simp: example_state_def bitmap_cap_def)
  moreover have "page_count example_state 0xffffffffffffffff = 0"
    using big by (subst page_count_eq) (simp_all add: example_state_def)
  ultimately obtain a where "shm_mmap good_os (\<lambda>_ _ _ _ _ _. 0) 0 0xffffffffffffffff 3 34 (- 1) 0 example_state = (Inr a, s')"
    by (auto simp: shm_mmap_anonymous seq_def reads_def)
  with shm_mmap_length_overflow [OF example_inv example_free big this] big show ?thesis by blast
qed

text \<open>
  C10: unmapping what \<^verbatim>\<open>shm_mmap\<close> returned, with the same length, clears the marks of the block
  again, so that all pages are marked as before the call, if the last page of the block was free.
\<close>

theorem shm_munmap_mmap:
  assumes "shm_inv s" and "mutex_free s" and "unat len \<le> 2 ^ 64 - 4096" and "0 < unat len"
    and "shm_mmap k real_mmap 0 len prot flags (- 1) 0 s = (Inr a, s')"
    and "\<not> page_used (pages_used (info s)) (addressToPageIndex s' (a + of_nat (unat len - 1)))"
  shows "\<exists>s''. shm_munmap a len s' = (Inr (), s'') \<and>
    (\<forall>q. page_used (pages_used (info s'')) q = page_used (pages_used (info s)) q)"
  using assms(1,2,5)
proof (cases rule: shm_mmap_Inr)
  case (1 pos pages)
  let ?n = "page_count s len"
  note D = shm_invD [OF 1(4)]
  have n: "?n = (unat len + 4095) div 4096" using assms(3) by (simp add: page_count_eq [OF shm_invD(1) [OF assms(1)]])
  then have pos_n: "0 < ?n" using assms(4) by simp
  have "4096 * (pos + ?n) \<le> shared_size (info s')" by (simp add: 1(2))
  with mapped_small [OF 1(4)] n assms(4) have small: "4096 * pos + (unat len - 1) < 2 ^ 40" by simp
  have "addressToPageIndex s' (a + of_nat (unat len - 1)) = pos + (unat len - 1) div 4096"
    using address_offset(1) [OF D(2,1) small, folded 1(3)] by (simp add: addressToPageIndex_def D)
  also have "\<dots> = pos + ?n - 1" using n assms(4) by simp
  finally have last: "\<not> page_used (pages_used (info s)) (pos + ?n - 1)" using assms(6) by simp
  have idx: "addressToPageIndex s' a = pos"
    using addressToPageIndex_inverse [OF 1(4), of pos 0] small by (simp add: 1(3))
  have cnt: "page_count s' len = ?n" by (simp add: page_count_def 1(2))
  have free: "mutex_free s'" using assms(2) by (simp add: mutex_free_def 1(2))
  have pages: "pages_used (info s') = pages" by (simp add: 1(2))
  have cap: "pos + ?n \<le> bitmap_cap pages"
    using set_pages_Inr(2) [OF 1(1) pos_n] bitmap_cap_set_pages [OF 1(1)] by simp
  then obtain pages' where set: "set_pages pages pos ?n False = Inr pages'"
    using set_pages_in_range [of pos ?n pages False] by blast
  have "page_used pages' q = page_used (pages_used (info s)) q" for q
    using 1(5) [of q] last unfolding set_pages_Inr(3) [OF set] set_pages_Inr(3) [OF 1(1)]
    by (cases "Suc q < pos + ?n"; cases "q < pos + ?n"; cases "q = pos + ?n - 1") auto
  then show ?thesis
    using freePages_run [OF free pos_n, of pos] set by (simp add: shm_munmap_def idx cnt pages)
qed

theorem shm_munmap_mmap_witness:
  "\<exists>s' s'' a. shm_mmap good_os (\<lambda>_ _ _ _ _ _. 0) 0 5000 3 34 (- 1) 0 example_state = (Inr a, s') \<and>
     \<not> page_used (pages_used (info example_state)) (addressToPageIndex s' (a + of_nat (unat (5000 :: u64) - 1))) \<and>
     shm_munmap a 5000 s' = (Inr (), s'') \<and> \<not> page_used (pages_used (info s'')) 4"
proof -
  have n: "page_count example_state 5000 = 2"
    by (subst page_count_eq) (simp_all add: example_state_def)
  obtain s' where run: "requestContinousFreePages good_os 2 example_state = (Inr 4, s')"
    by (rule example_request)
  let ?a = "pageIndexToAddress s' 4"
  have m: "shm_mmap good_os (\<lambda>_ _ _ _ _ _. 0) 0 5000 3 34 (- 1) 0 example_state = (Inr ?a, s')"
    using n run by (simp add: shm_mmap_anonymous seq_def reads_def)
  have inv: "shm_inv s'" using example_inv example_free run by (cases rule: request_cases) auto
  have "addressToPageIndex s' (?a + of_nat 4999) = 5"
    using address_offset(1) [OF shm_invD(2,1) [OF inv], of 4 4999]
    by (simp add: addressToPageIndex_def shm_invD [OF inv])
  moreover have "\<not> page_used (pages_used (info example_state)) 5" "\<not> page_used (pages_used (info example_state)) 4"
    unfolding example_pages by code_simp+
  ultimately show ?thesis
    using shm_munmap_mmap [OF example_inv example_free _ _ m] m by fastforce
qed

section \<open>Moving a block\<close>

lemma move_Inr:
  assumes inv: "shm_inv s" and free: "mutex_free s"
    and run: "requestContinousFreePagesForMove k count old s = (Inr pos, s')"
  obtains pages where "findContinousFreePages (pages_used (info s)) count = Inr pos"
    "set_pages (pages_used (info s)) pos count True = Inr pages"
    "s' = request_result pos count pages s" "shm_inv s'" "mutex_free s'"
proof -
  let ?k = "(shm_sems s)(semaphore (mtx (info s)) \<mapsto> 0)" and ?m = "requestContinousFreePagesInternal k count"
  have inv1: "shm_inv (s\<lparr>shm_sems := ?k\<rparr>)" using inv by simp
  obtain r t where m: "?m (s\<lparr>shm_sems := ?k\<rparr>) = (r, t)" by fastforce
  note result = that
  from inv1 m show thesis
  proof (cases rule: requestInternal_cases)
    case (1 p pages)
    then have "with_guard ?m s = (Inr p, request_result p count pages s)"
      using with_guard_free [where m = ?m, OF free m] by (simp add: request_result_sems)
    with run have eq: "p = pos" "s' = request_result pos count pages s"
      by (auto simp: requestContinousFreePagesForMove_def)
    have "shm_inv s'"
      unfolding eq(2) using 1(2,3) inv eq(1) by (intro request_result_inv) (simp_all add: find_pos_bounds(2))
    moreover have "mutex_free s'" using free by (simp add: eq mutex_free_def)
    ultimately show thesis using 1(2,3) eq by (intro result) simp_all
  next
    case (2 e)
    then show thesis using with_guard_free [where m = ?m, OF free m] run
      by (simp add: requestContinousFreePagesForMove_def)
  next
    case (3 p)
    then show thesis using with_guard_free [where m = ?m, OF free m] run
      by (simp add: requestContinousFreePagesForMove_def)
  qed
qed

text \<open>
  The state in which \<^verbatim>\<open>shm_mremap\<close> returns a new address: the new block requested, the
  rounded old size copied, the old pages freed.
\<close>

lemma shm_mremap_Inr:
  assumes inv: "shm_inv s" and free: "mutex_free s" and run: "shm_mremap k old_address old_size new_size s = (Inr a, s')"
    and moved: "a \<noteq> old_address" and old: "0 < page_count s old_size"
  obtains pos t pages where
    "requestContinousFreePagesForMove k (page_count s new_size) (addressToPageIndex s old_address) s = (Inr pos, t)"
    "pos \<noteq> addressToPageIndex s old_address" "a = pageIndexToAddress t pos"
    "set_pages (pages_used (info t)) (addressToPageIndex s old_address) (page_count s old_size) False = Inr pages"
    "unat (a - base (info t)) + 4096 * page_count s old_size \<le> current_mapped_size (proc t)"
    "contents s' = copy_bytes (unat (a - base (info t))) (unat (old_address - base (info t)))
       (4096 * page_count s old_size) (contents t)"
    "pages_used (info s') = pages"
proof -
  note D = shm_invD [OF inv]
  have size_eq: "unat (ALIGN_UP old_size 4096) = 4096 * page_count s old_size"
  proof -
    have "unat (ALIGN_UP old_size (2 ^ 12)) = 4096 * (unat (ALIGN_UP old_size (2 ^ 12)) div 4096)"
      unfolding ALIGN_UP_exp by simp
    then show ?thesis by (simp add: page_count_def D)
  qed
  from run moved obtain pos t u where
    req: "requestContinousFreePagesForMove k (page_count s new_size) (addressToPageIndex s old_address) s = (Inr pos, t)"
    and ne: "pos \<noteq> addressToPageIndex s old_address" and a: "a = pageIndexToAddress t pos"
    and cp: "shm_memcpy a old_address (4096 * page_count s old_size) t = (Inr (), u)"
    and fr: "freePages (addressToPageIndex s old_address) (page_count s old_size) u = (Inr (), s')"
    using size_eq by (auto simp: shm_mremap_def Let_def routine_iffs D split: if_splits)
  from inv free req have "mutex_free t" by (rule move_Inr)
  from cp have u: "u = t\<lparr>contents := copy_bytes (unat (a - base (info t))) (unat (old_address - base (info t)))
       (4096 * page_count s old_size) (contents t)\<rparr>"
    and fit: "unat (a - base (info t)) + 4096 * page_count s old_size \<le> current_mapped_size (proc t)"
    by (auto simp: shm_memcpy_def Let_def split: if_splits)
  have "mutex_free u" using \<open>mutex_free t\<close> by (simp add: u mutex_free_def)
  from freePages_run [OF this old, of "addressToPageIndex s old_address"] fr
  obtain pages where set: "set_pages (pages_used (info u)) (addressToPageIndex s old_address) (page_count s old_size) False = Inr pages"
    and s': "s' = u\<lparr>info := (info u)\<lparr>pages_used := pages\<rparr>\<rparr>"
    by (auto split: sum.splits)
  show thesis
    by (rule that [OF req ne a _ fit, of pages]) (use set s' u in auto)
qed

lemma shm_mremap_bytes:
  assumes inv: "shm_inv s" and free: "mutex_free s" and run: "shm_mremap k old_address old_size new_size s = (Inr a, s')"
    and moved: "a \<noteq> old_address" and old: "0 < page_count s old_size"
    and aligned: "unat (old_address - base (info s)) = 4096 * op"
    and used: "\<And>q. op \<le> q \<Longrightarrow> q < op + page_count s old_size \<Longrightarrow> page_used (pages_used (info s)) q"
    and last: "\<not> page_used (pages_used (info s)) (addressToPageIndex s a + page_count s new_size - 1)"
  obtains pos where "a = pageIndexToAddress s pos" "addressToPageIndex s a = pos"
    "\<And>j. j < 4096 * page_count s old_size \<Longrightarrow> contents s' (4096 * pos + j) = contents s (4096 * op + j)"
    "\<And>q. page_used (pages_used (info s')) q \<longleftrightarrow>
       (page_used (pages_used (info s)) q \<or> pos \<le> q \<and> q < pos + page_count s new_size) \<and>
       \<not> (op \<le> q \<and> q < op + page_count s old_size)"
  using inv free run moved old
proof (cases rule: shm_mremap_Inr)
  case (1 pos t pages)
  let ?n = "page_count s new_size" and ?o = "page_count s old_size"
  note D = shm_invD [OF inv]
  have op: "addressToPageIndex s old_address = op" unfolding addressToPageIndex_def aligned by (simp add: D)
  from inv free 1(1) obtain pages1 where M: "findContinousFreePages (pages_used (info s)) ?n = Inr pos"
    "set_pages (pages_used (info s)) pos ?n True = Inr pages1" "t = request_result pos ?n pages1 s" "shm_inv t"
    by (rule move_Inr)
  have T: "base (info t) = base (info s)" "dl_pagesize (proc t) = dl_pagesize (proc s)" by (simp_all add: M(3))
  have a: "a = pageIndexToAddress s pos" using 1(3) T by (simp add: pageIndexToAddress_def)
  have "4096 * (pos + ?n) \<le> shared_size (info t)" by (simp add: M(3))
  with mapped_small [OF M(4)] have small: "4096 * pos + 0 < 2 ^ 40" by simp
  have off: "unat (a - base (info s)) = 4096 * pos"
    using address_offset(1) [OF D(2,1) small] by (simp add: a)
  have idx: "addressToPageIndex s a = pos" unfolding addressToPageIndex_def off by (simp add: D)
  have disj: "\<not> (pos \<le> q \<and> q < pos + ?n)" if "op \<le> q" "q < op + ?o" for q
    using used [OF that] find_pos_bounds(3) [OF M(1), of q] last idx
    by (cases "q = pos + ?n - 1"; cases "Suc q < pos + ?n") auto
  have bytes: "contents t (4096 * op + j) = contents s (4096 * op + j)" if "j < 4096 * ?o" for j
  proof -
    have "op \<le> op + j div 4096" "op + j div 4096 < op + ?o" using that by (simp_all add: less_mult_imp_div_less mult.commute)
    from disj [OF this] have "\<not> (pos \<le> op + j div 4096 \<and> op + j div 4096 < pos + ?n)" .
    moreover have "4096 * pos \<le> 4096 * op + j \<longleftrightarrow> pos \<le> op + j div 4096"
      "4096 * op + j < 4096 * pos + 4096 * ?n \<longleftrightarrow> op + j div 4096 < pos + ?n" by linarith+
    ultimately show ?thesis by (auto simp: M(3) fill_bytes_def)
  qed
  show thesis
  proof (rule that [OF a idx])
    show "contents s' (4096 * pos + j) = contents s (4096 * op + j)" if "j < 4096 * ?o" for j
      using bytes [OF that] that by (simp add: 1(6) copy_bytes_def T off aligned)
    show "page_used (pages_used (info s')) q \<longleftrightarrow>
       (page_used (pages_used (info s)) q \<or> pos \<le> q \<and> q < pos + ?n) \<and> \<not> (op \<le> q \<and> q < op + ?o)" for q
      using set_pages_Inr(3) [OF M(2), of q] set_pages_Inr(3) [OF 1(4), of q] by (auto simp: 1(7) op M(3))
  qed
qed

lemma move_eq_request:
  assumes "current_mapped_size (proc s) = shared_size (info s)"
  shows "requestContinousFreePagesForMove k count old s = requestContinousFreePages k count s"
  using assms by (auto simp: requestContinousFreePagesForMove_def requestContinousFreePages_def with_guard_def
      seq_def remap_shared_memory_def internal_remap_shm_def ret_def split: option.split)

text \<open>
  The example segment with all sixteen pages mapped.
\<close>

definition example_mapped :: shm_state where
  "example_mapped = set_mapped 65536 (example_state\<lparr>info := (info example_state)\<lparr>shared_size := 65536\<rparr>, file_size := 65536\<rparr>)"

lemma example_mapped_facts:
  "shm_inv example_mapped" "mutex_free example_mapped"
  "pages_used (info example_mapped) = [\<lparr>data = 7\<rparr>, \<lparr>data = 0\<rparr>]"
  "base (info example_mapped) = shm_shared_memory_base" "dl_pagesize (proc example_mapped) = 4096"
  "current_mapped_size (proc example_mapped) = 65536" "shared_size (info example_mapped) = 65536"
  using example_inv example_free example_pages
  by (auto simp: shm_inv_def mutex_free_def example_mapped_def example_state_def bitmap_cap_def)

lemma example_page_counts:
  "page_count example_mapped 8192 = 2" "page_count example_mapped 4096 = 1"
  by (simp_all add: page_count_eq [OF example_mapped_facts(5)])

lemma shm_mremap_example:
  assumes "new_size = 4096 \<or> new_size = 8192"
  obtains s' where "shm_mremap good_os (shm_shared_memory_base + 4096) 8192 new_size example_mapped =
    (Inr (shm_shared_memory_base + 16384), s')"
proof -
  note F = example_mapped_facts
  let ?n = "page_count example_mapped new_size"
  have n: "?n = 1 \<or> ?n = 2" using assms example_page_counts by auto
  have "findContinousFreePages [\<lparr>data = 7\<rparr>, \<lparr>data = 0\<rparr>] 1 = Inr 4" "findContinousFreePages [\<lparr>data = 7\<rparr>, \<lparr>data = 0\<rparr>] 2 = Inr 4"
    by code_simp+
  with n have "findContinousFreePages (pages_used (info example_mapped)) ?n = Inr 4" by (auto simp: F)
  then obtain pages where set: "set_pages (pages_used (info example_mapped)) 4 ?n True = Inr pages"
    and req: "requestContinousFreePages good_os ?n example_mapped = (Inr 4, request_result 4 ?n pages example_mapped)"
    using F n good_os_ok by (elim request_succeeds [where k = good_os]) (auto simp: bitmap_cap_def)
  let ?t = "request_result 4 ?n pages example_mapped"
  have idx: "addressToPageIndex example_mapped (shm_shared_memory_base + 4096) = 1"
    by (simp add: addressToPageIndex_def F)
  have cp: "shm_memcpy (shm_shared_memory_base + 16384) (shm_shared_memory_base + 4096) 8192 ?t =
      (Inr (), ?t\<lparr>contents := copy_bytes 16384 4096 8192 (contents ?t)\<rparr>)"
    using n by (auto simp: shm_memcpy_def F ret_def)
  have "mutex_free (?t\<lparr>contents := copy_bytes 16384 4096 8192 (contents ?t)\<rparr>)"
    using F(2) by (simp add: mutex_free_def)
  moreover have "\<exists>p. set_pages pages 1 2 False = Inr p"
    using set_pages_in_range [of 1 2 pages False] bitmap_cap_set_pages [OF set] by (simp add: F bitmap_cap_def)
  ultimately obtain u where fr: "freePages 1 2 (?t\<lparr>contents := copy_bytes 16384 4096 8192 (contents ?t)\<rparr>) = (Inr (), u)"
    by (auto simp: freePages_run)
  have "ALIGN_UP 8192 (of_nat 4096) = 8192" by (simp add: ALIGN_UP_def ALIGN_DOWN_def)
  moreover have "pageIndexToAddress ?t 4 = shm_shared_memory_base + 16384" by (simp add: pageIndexToAddress_def F)
  ultimately show thesis
    using req cp fr that
    by (simp add: shm_mremap_def Let_def idx move_eq_request F seq_def reads_def ret_def example_page_counts)
qed

text \<open>
  Moving a mapped block keeps its bytes: when \<^verbatim>\<open>shm_mremap\<close> returns a new address and the last
  page of the new block was free, the bytes of the old block are found at the new address, the new block is marked, and the
  old pages are free.
\<close>

theorem shm_mremap_moves:
  assumes "shm_inv s" and "mutex_free s" and "shm_mremap k old_address old_size new_size s = (Inr a, s')"
    and "a \<noteq> old_address" and "0 < page_count s old_size" and "page_count s old_size \<le> page_count s new_size"
    and "unat (old_address - base (info s)) = 4096 * op"
    and "\<And>q. op \<le> q \<Longrightarrow> q < op + page_count s old_size \<Longrightarrow> page_used (pages_used (info s)) q"
    and "\<not> page_used (pages_used (info s)) (addressToPageIndex s a + page_count s new_size - 1)"
  shows "\<exists>pos. a = pageIndexToAddress s pos \<and>
    (\<forall>j<4096 * page_count s old_size. contents s' (4096 * pos + j) = contents s (4096 * op + j)) \<and>
    (\<forall>q. page_used (pages_used (info s')) q \<longleftrightarrow>
       pos \<le> q \<and> q < pos + page_count s new_size \<and> \<not> (op \<le> q \<and> q < op + page_count s old_size) \<or>
       page_used (pages_used (info s)) q \<and> \<not> (op \<le> q \<and> q < op + page_count s old_size))"
  using assms(1-5,7-9)
proof (rule shm_mremap_bytes)
  fix pos
  assume "a = pageIndexToAddress s pos"
    "\<And>j. j < 4096 * page_count s old_size \<Longrightarrow> contents s' (4096 * pos + j) = contents s (4096 * op + j)"
    "\<And>q. page_used (pages_used (info s')) q \<longleftrightarrow>
       (page_used (pages_used (info s)) q \<or> pos \<le> q \<and> q < pos + page_count s new_size) \<and>
       \<not> (op \<le> q \<and> q < op + page_count s old_size)"
  then show ?thesis by (intro exI [of _ pos]) auto
qed

lemma example_used_pages: "1 \<le> q \<Longrightarrow> q < 3 \<Longrightarrow> page_used [\<lparr>data = 7\<rparr>, \<lparr>data = 0\<rparr>] q"
proof -
  assume "1 \<le> q" "q < 3"
  then have "q = 1 \<or> q = 2" by linarith
  moreover have "page_used [\<lparr>data = 7\<rparr>, \<lparr>data = 0\<rparr>] 1" "page_used [\<lparr>data = 7\<rparr>, \<lparr>data = 0\<rparr>] 2"
    by code_simp+
  ultimately show ?thesis by auto
qed

theorem shm_mremap_moves_witness:
  "\<exists>s'. shm_inv example_mapped \<and> mutex_free example_mapped \<and>
     shm_mremap good_os (shm_shared_memory_base + 4096) 8192 8192 example_mapped =
       (Inr (shm_shared_memory_base + 16384), s') \<and>
     unat (shm_shared_memory_base + 4096 - base (info example_mapped)) = 4096 * 1 \<and>
     contents example_mapped 4096 = 170 \<and> (\<exists>pos. contents s' (4096 * pos) = 170)"
proof -
  note F = example_mapped_facts
  obtain s' where run: "shm_mremap good_os (shm_shared_memory_base + 4096) 8192 8192 example_mapped =
       (Inr (shm_shared_memory_base + 16384), s')"
    using shm_mremap_example [of 8192] by auto
  have free: "\<not> page_used [\<lparr>data = 7\<rparr>, \<lparr>data = 0\<rparr>] 5" by code_simp
  have "\<exists>pos. shm_shared_memory_base + 16384 = pageIndexToAddress example_mapped pos \<and>
    (\<forall>j<4096 * page_count example_mapped 8192. contents s' (4096 * pos + j) = contents example_mapped (4096 * 1 + j)) \<and>
    (\<forall>q. page_used (pages_used (info s')) q \<longleftrightarrow>
       pos \<le> q \<and> q < pos + page_count example_mapped 8192 \<and> \<not> (1 \<le> q \<and> q < 1 + page_count example_mapped 8192) \<or>
       page_used (pages_used (info example_mapped)) q \<and> \<not> (1 \<le> q \<and> q < 1 + page_count example_mapped 8192))"
    by (rule shm_mremap_moves [OF F(1,2) run])
      (use free example_used_pages in \<open>auto simp: example_page_counts F addressToPageIndex_def\<close>)
  then obtain pos where "\<forall>j<8192. contents s' (4096 * pos + j) = contents example_mapped (4096 + j)"
    by (auto simp: example_page_counts)
  then have "contents s' (4096 * pos) = contents example_mapped 4096" by (auto dest!: spec [of _ 0])
  moreover have "contents example_mapped 4096 = 170" by (simp add: example_mapped_def example_state_def)
  ultimately show ?thesis using F run by auto
qed

text \<open>
  Shrinking copies the whole old block: every byte of the old block beyond the new size is written
  into the pages that follow the new block, which belong to someone else.
\<close>

theorem shm_mremap_shrink_overruns:
  assumes "shm_inv s" and "mutex_free s" and "shm_mremap k old_address old_size new_size s = (Inr a, s')"
    and "a \<noteq> old_address" and "page_count s new_size < page_count s old_size"
    and "unat (old_address - base (info s)) = 4096 * op"
    and "\<And>q. op \<le> q \<Longrightarrow> q < op + page_count s old_size \<Longrightarrow> page_used (pages_used (info s)) q"
    and "\<not> page_used (pages_used (info s)) (addressToPageIndex s a + page_count s new_size - 1)"
  shows "\<exists>pos. a = pageIndexToAddress s pos \<and>
    (\<forall>j<4096 * (page_count s old_size - page_count s new_size).
       contents s' (4096 * (pos + page_count s new_size) + j) = contents s (4096 * (op + page_count s new_size) + j))"
proof -
  have "0 < page_count s old_size" using assms(5) by simp
  from shm_mremap_bytes [OF assms(1-4) this assms(6-8)] obtain pos where pos: "a = pageIndexToAddress s pos"
    "\<And>j. j < 4096 * page_count s old_size \<Longrightarrow> contents s' (4096 * pos + j) = contents s (4096 * op + j)"
    by metis
  have "contents s' (4096 * (pos + page_count s new_size) + j) = contents s (4096 * (op + page_count s new_size) + j)"
    if "j < 4096 * (page_count s old_size - page_count s new_size)" for j
    using pos(2) [of "4096 * page_count s new_size + j"] that by (simp add: algebra_simps)
  with pos(1) show ?thesis by blast
qed

theorem shm_mremap_shrink_overruns_witness:
  "\<exists>s' pos. shm_inv example_mapped \<and> mutex_free example_mapped \<and>
     shm_mremap good_os (shm_shared_memory_base + 4096) 8192 4096 example_mapped =
       (Inr (shm_shared_memory_base + 16384), s') \<and>
     page_count example_mapped 4096 < page_count example_mapped 8192 \<and>
     contents s' (4096 * (pos + 1)) = 170"
proof -
  note F = example_mapped_facts
  obtain s' where run: "shm_mremap good_os (shm_shared_memory_base + 4096) 8192 4096 example_mapped =
       (Inr (shm_shared_memory_base + 16384), s')"
    using shm_mremap_example [of 4096] by auto
  have free: "\<not> page_used [\<lparr>data = 7\<rparr>, \<lparr>data = 0\<rparr>] 4" by code_simp
  have "\<exists>pos. shm_shared_memory_base + 16384 = pageIndexToAddress example_mapped pos \<and>
    (\<forall>j<4096 * (page_count example_mapped 8192 - page_count example_mapped 4096).
       contents s' (4096 * (pos + page_count example_mapped 4096) + j) =
       contents example_mapped (4096 * (1 + page_count example_mapped 4096) + j))"
    by (rule shm_mremap_shrink_overruns [OF F(1,2) run])
      (use free example_used_pages in \<open>auto simp: example_page_counts F addressToPageIndex_def\<close>)
  then obtain pos where "\<forall>j<4096. contents s' (4096 * (pos + 1) + j) = contents example_mapped (8192 + j)"
    by (auto simp: example_page_counts)
  then have "contents s' (4096 * (pos + 1)) = contents example_mapped 8192" by (auto dest!: spec [of _ 0])
  moreover have "contents example_mapped 8192 = 170" by (simp add: example_mapped_def example_state_def)
  ultimately have "contents s' (4096 * (pos + 1)) = 170" by simp
  with F run show ?thesis by (intro exI [of _ s'] exI [of _ pos]) (simp add: example_page_counts)
qed

end
