(* ===== verification/Shm_Alloc.thy ===== *)
theory Shm_Alloc
  imports Shared_Memory
begin

text \<open>
  The replacements of the allocation functions in \<^verbatim>\<open>libipc/shared_memory_manager.cpp\<close>. A program has two heaps: the one of the C library
  and the one of the allocator for shared memory. The replacements choose the heap by the address and by the hooks of the C library. Both
  allocators are parameters; what they promise is \<open>libs_ok\<close>.
\<close>

section \<open>State and allocators\<close>

text \<open>
  Blocks are given by their first address and their length. The flag \<^verbatim>\<open>memory_mutex\<close> says that the mutex of this name is held.
\<close>

datatype which = Shm | Libc

record heap =
  shm :: shm_state
  memory_mutex :: bool
  blocks :: "which \<Rightarrow> addr \<rightharpoonup> u64"
  mem :: "addr \<Rightarrow> u8"

text \<open>
  The allocators pick an address for a length in the current state or none. \<^verbatim>\<open>real(free)\<close> and \<^verbatim>\<open>real(realloc)\<close> may not be resolved yet.
\<close>

record libs =
  pick :: "which \<Rightarrow> heap \<Rightarrow> u64 \<Rightarrow> addr option"
  real_free :: bool
  real_realloc :: bool

definition proc_of :: "heap \<Rightarrow> process" where
  "proc_of h = proc (shm h)"

definition set_hook :: "bool \<Rightarrow> heap \<Rightarrow> heap" where
  "set_hook b h = h\<lparr>shm := (shm h)\<lparr>proc := (proc (shm h))\<lparr>malloc_hook := b\<rparr>\<rparr>\<rparr>"

text \<open>
  The construction and the destruction of a \<^verbatim>\<open>std::lock_guard\<close> around a routine. The mutex is not recursive.
\<close>

definition guarded :: "(heap, 'a) routine \<Rightarrow> (heap, 'a) routine" where
  "guarded m h =
     (if memory_mutex h then throw Would_block h
      else (case m (h\<lparr>memory_mutex := True\<rparr>) of (r, h') \<Rightarrow> (r, h'\<lparr>memory_mutex := False\<rparr>)))"

definition memcpy :: "addr \<Rightarrow> addr \<Rightarrow> u64 \<Rightarrow> (heap, unit) routine" where
  "memcpy dst src n h =
     (if n = 0 then ret () h
      else if dst = 0 \<or> src = 0 then throw Undefined_behaviour h
      else ret () (h\<lparr>mem := (\<lambda>x. if unat (x - dst) < unat n then mem h (src + (x - dst)) else mem h x)\<rparr>))"

definition set_block :: "which \<Rightarrow> addr \<Rightarrow> u64 option \<Rightarrow> heap \<Rightarrow> heap" where
  "set_block w a n h = h\<lparr>blocks := (blocks h)(w := (blocks h w)(a := n))\<rparr>"

text \<open>
  The functions of the two allocators as their documentation describes them. Freeing what is no block is an error they may detect or not.
\<close>

definition allocate :: "libs \<Rightarrow> which \<Rightarrow> u64 \<Rightarrow> (heap, addr) routine" where
  "allocate A w n h = (case pick A w h n of None \<Rightarrow> ret 0 h | Some a \<Rightarrow> ret a (set_block w a (Some n) h))"

definition release :: "which \<Rightarrow> addr \<Rightarrow> (heap, unit) routine" where
  "release w p h =
     (if p = 0 then ret () h
      else if blocks h w p = None then throw Undefined_behaviour h
      else ret () (set_block w p None h))"

definition resize :: "libs \<Rightarrow> which \<Rightarrow> addr \<Rightarrow> u64 \<Rightarrow> (heap, addr) routine" where
  "resize A w p n h =
     (if p = 0 then allocate A w n h
      else
        case blocks h w p of
          None \<Rightarrow> throw Undefined_behaviour h
        | Some old \<Rightarrow>
            if n = 0 then seq (release w p) (\<lambda>_. ret 0) h
            else seq (allocate A w n) (\<lambda>q.
              if q = 0 then ret 0 else seq (memcpy q p (min old n)) (\<lambda>_. seq (release w p) (\<lambda>_. ret q))) h)"

abbreviation shm_malloc_2 :: "libs \<Rightarrow> u64 \<Rightarrow> (heap, addr) routine" where
  "shm_malloc_2 A \<equiv> allocate A Shm"

abbreviation shm_free :: "addr \<Rightarrow> (heap, unit) routine" where
  "shm_free \<equiv> release Shm"

abbreviation shm_realloc :: "libs \<Rightarrow> addr \<Rightarrow> u64 \<Rightarrow> (heap, addr) routine" where
  "shm_realloc A \<equiv> resize A Shm"

section \<open>The replacements\<close>

definition unregister :: "(heap, unit) routine" where
  "unregister = modify (\<lambda>h. h\<lparr>shm := unregister_shared_memory_as_default (shm h)\<rparr>)"

definition reregister :: "(heap, unit) routine" where
  "reregister = modify (\<lambda>h. h\<lparr>shm := reregister_shared_memory_as_default (shm h)\<rparr>)"

text \<open>
  The replaced \<^verbatim>\<open>free\<close>.
\<close>

definition heap_free :: "libs \<Rightarrow> addr \<Rightarrow> (heap, unit) routine" where
  "heap_free A p =
     (if shm_is_shared_memory_pointer p then
        guarded (seq unregister (\<lambda>_. seq (shm_free p) (\<lambda>_. reregister)))
      else if real_free A then release Libc p
      else ret ())"

text \<open>
  The hook that replaces \<^verbatim>\<open>malloc\<close>, and \<^verbatim>\<open>malloc\<close> of the C library, which calls it when it is installed.
\<close>

definition shm_malloc_hook :: "libs \<Rightarrow> u64 \<Rightarrow> (heap, addr) routine" where
  "shm_malloc_hook A n =
     guarded (seq (modify (set_hook False)) (\<lambda>_. seq (shm_malloc_2 A n) (\<lambda>result.
       seq (modify (set_hook False)) (\<lambda>_. seq (modify (set_hook True)) (\<lambda>_. ret result)))))"

definition malloc :: "libs \<Rightarrow> u64 \<Rightarrow> (heap, addr) routine" where
  "malloc A n h = (if malloc_hook (proc_of h) then shm_malloc_hook A n h else allocate A Libc n h)"

text \<open>
  The replaced \<^verbatim>\<open>realloc\<close>. Before \<^verbatim>\<open>real(realloc)\<close> is resolved, it takes the length from the word in front of the block. The
  constant of the mask has 32 bits and is widened with zeros.
\<close>

definition read_u64 :: "(addr \<Rightarrow> u8) \<Rightarrow> addr \<Rightarrow> u64" where
  "read_u64 m a = of_le_bytes (map (\<lambda>i. m (a + of_nat i)) [0..<8])"

definition bootstrap_size :: "heap \<Rightarrow> addr \<Rightarrow> u64" where
  "bootstrap_size h p = read_u64 (mem h) (p - 8) AND 0xfffffff8"

definition heap_realloc :: "libs \<Rightarrow> addr \<Rightarrow> u64 \<Rightarrow> (heap, addr) routine" where
  "heap_realloc A p n h =
     (if p = 0 \<and> use_shared_memory_only (proc_of h) \<or> shm_is_shared_memory_pointer p then
        guarded (seq unregister (\<lambda>_. seq (shm_realloc A p n) (\<lambda>q. seq reregister (\<lambda>_. ret q)))) h
      else if p = 0 then malloc A n h
      else if \<not> real_realloc A then
        (let current_size = bootstrap_size h p in
         if n < current_size then ret p h
         else seq (malloc A n) (\<lambda>q. seq (memcpy q p current_size) (\<lambda>_. seq (heap_free A p) (\<lambda>_. ret q))) h)
      else resize A Libc p n h)"

text \<open>
  Variants for the compiler passes, which replace calls by them: memory moves to the shared heap with the next \<^verbatim>\<open>realloc\<close>, and only
  shared memory is freed.
\<close>

definition realloc_to_shm :: "libs \<Rightarrow> addr \<Rightarrow> u64 \<Rightarrow> (heap, addr) routine" where
  "realloc_to_shm A p n =
     (if p = 0 \<or> shm_is_shared_memory_pointer p then shm_realloc A p n
      else seq (shm_malloc_2 A n) (\<lambda>result. seq (memcpy result p n) (\<lambda>_. ret result)))"

definition ipc_free :: "libs \<Rightarrow> addr \<Rightarrow> (heap, addr) routine" where
  "ipc_free A p = (if shm_is_shared_memory_pointer p then seq (heap_free A p) (\<lambda>_. ret 0) else ret p)"

definition shm_free_wrapper :: "addr \<Rightarrow> (addr \<Rightarrow> (heap, unit) routine) \<Rightarrow> (heap, unit) routine" where
  "shm_free_wrapper p originalFree = (if shm_is_shared_memory_pointer p then shm_free p else originalFree p)"

section \<open>Strings in shared memory\<close>

text \<open>
  \<^verbatim>\<open>strlen\<close> looks at at most \<^term>\<open>k\<close> bytes; the string of a program has its end somewhere.
\<close>

fun strlen :: "nat \<Rightarrow> (addr \<Rightarrow> u8) \<Rightarrow> addr \<Rightarrow> u64 outcome" where
  "strlen 0 m a = Inl Out_of_fuel"
| "strlen (Suc k) m a = (if m a = 0 then Inr 0 else bind_outcome (strlen k m (a + 1)) (\<lambda>n. Inr (n + 1)))"

definition shm_strdup :: "libs \<Rightarrow> nat \<Rightarrow> addr \<Rightarrow> (heap, addr) routine" where
  "shm_strdup A k s h =
     (case strlen k (mem h) s of
        Inl e \<Rightarrow> throw e h
      | Inr n \<Rightarrow> seq (shm_malloc_2 A (n + 1)) (\<lambda>newString.
          if newString = 0 then ret 0 else seq (memcpy newString s (n + 1)) (\<lambda>_. ret newString)) h)"

text \<open>
  The result of \<^verbatim>\<open>getenv\<close> is a parameter, zero for a missing variable. The length is kept in an \<^verbatim>\<open>int\<close>.
\<close>

definition shm_getenv :: "libs \<Rightarrow> nat \<Rightarrow> addr \<Rightarrow> (heap, addr) routine" where
  "shm_getenv A k result h =
     (if result = 0 then ret 0 h
      else case strlen k (mem h) result of
        Inl e \<Rightarrow> throw e h
      | Inr n \<Rightarrow>
          let len1 = scast (ucast (n + 1) :: u32) in
          seq (shm_malloc_2 A len1) (\<lambda>r2. seq (memcpy r2 result len1) (\<lambda>_. ret r2)) h)"

text \<open>
  The string that \<^verbatim>\<open>vasprintf\<close> gives is a parameter: the block and the length without the final zero.
\<close>

definition shm_vasprintf :: "libs \<Rightarrow> addr \<times> u32 \<Rightarrow> (heap, addr \<times> u32) routine" where
  "shm_vasprintf A printed =
     (case printed of (result, len) \<Rightarrow>
        seq (shm_malloc_2 A (scast (len + 1))) (\<lambda>strp.
          seq (memcpy strp result (scast (len + 1))) (\<lambda>_. seq (heap_free A result) (\<lambda>_. ret (strp, len)))))"

section \<open>Life cycle of the segment\<close>

text \<open>
  Whether the semaphore is removed depends on the configuration of the program: with forks only the last process removes it, else any process that is no
  unintended fork.
\<close>

definition shared_memory_terminate :: "bool \<Rightarrow> nat \<Rightarrow> nat list \<Rightarrow> shm_state \<Rightarrow> shm_state" where
  "shared_memory_terminate is_forking pid status_locks s =
     (if (if is_forking then statuslock_is_sole_survivor pid status_locks else \<not> has_unintenden_fork (info s)) then
        case SharedMutex_terminate (mtx (info s)) (shm_sems s) of (m, k) \<Rightarrow> s\<lparr>info := (info s)\<lparr>mtx := m\<rparr>, shm_sems := k\<rparr>
      else s)"

definition shared_memory_forking :: "shm_state \<Rightarrow> shm_state" where
  "shared_memory_forking s = s\<lparr>info := (info s)\<lparr>has_forked := True\<rparr>\<rparr>"

definition shared_memory_forking_complete :: "shm_state \<Rightarrow> shm_state" where
  "shared_memory_forking_complete s = s\<lparr>proc := (proc s)\<lparr>has_forked_complete := True\<rparr>\<rparr>"

definition shared_memory_unfork :: "shm_state \<Rightarrow> shm_state" where
  "shared_memory_unfork s = s\<lparr>proc := (proc s)\<lparr>has_forked_complete := False\<rparr>, info := (info s)\<lparr>has_unintenden_fork := True\<rparr>\<rparr>"

definition shared_memory_has_forked :: "shm_state \<Rightarrow> bool" where
  "shared_memory_has_forked s = has_forked_complete (proc s)"

definition internal_setSharedFDSize :: "os \<Rightarrow> (shm_state, unit) routine" where
  "internal_setSharedFDSize k = setFDsize k"

section \<open>What the allocators promise\<close>

definition block :: "addr \<Rightarrow> u64 \<Rightarrow> addr set" where
  "block a n = {x. unat a \<le> unat x \<and> unat x < unat a + max 1 (unat n)}"

definition placed_block :: "which \<Rightarrow> addr \<Rightarrow> u64 \<Rightarrow> bool" where
  "placed_block w a n \<longleftrightarrow> a \<noteq> 0 \<and> unat a + max 1 (unat n) \<le> 2 ^ 64 \<and> (\<forall>x\<in>block a n. shm_is_shared_memory_pointer x \<longleftrightarrow> w = Shm)"

text \<open>
  A new block lies in the region of its heap, inside the address space, and overlaps no block of this heap.
\<close>

definition libs_ok :: "libs \<Rightarrow> bool" where
  "libs_ok A \<longleftrightarrow> (\<forall>w h n a. pick A w h n = Some a \<longrightarrow> placed_block w a n \<and> (\<forall>b m. blocks h w b = Some m \<longrightarrow> block a n \<inter> block b m = {}))"

definition blocks_ok :: "heap \<Rightarrow> bool" where
  "blocks_ok h \<longleftrightarrow> (\<forall>w a n. blocks h w a = Some n \<longrightarrow> placed_block w a n) \<and>
     (\<forall>w a b m n. blocks h w a = Some m \<longrightarrow> blocks h w b = Some n \<longrightarrow> a \<noteq> b \<longrightarrow> block a m \<inter> block b n = {})"

definition hooks_ok :: "heap \<Rightarrow> bool" where
  "hooks_ok h \<longleftrightarrow> \<not> memory_mutex h \<and> malloc_hook (proc_of h) = use_shared_memory_only (proc_of h) \<and>
     memalign_hook (proc_of h) = use_shared_memory_only (proc_of h)"

definition heap_ok :: "heap \<Rightarrow> bool" where
  "heap_ok h \<longleftrightarrow> blocks_ok h \<and> hooks_ok h"

text \<open>
  The blocks other than \<^term>\<open>p\<close> keep their lengths and bytes.
\<close>

definition others_kept :: "addr \<Rightarrow> heap \<Rightarrow> heap \<Rightarrow> bool" where
  "others_kept p h h' \<longleftrightarrow> (\<forall>w b m. b \<noteq> p \<longrightarrow> blocks h w b = Some m \<longrightarrow> blocks h' w b = Some m \<and> (\<forall>x\<in>block b m. mem h' x = mem h x))"

lemma unat_bound: "unat (n :: u64) < 2 ^ 64"
  using unsigned_less [of n, where ?'a = nat] by simp

lemma block_start: "a \<in> block a n"
  by (simp add: block_def)

lemma block_offset: "unat x < unat a + unat n \<Longrightarrow> unat a \<le> unat x \<Longrightarrow> x \<in> block a n"
  by (simp add: block_def)

lemma placed_start: "placed_block w a n \<Longrightarrow> shm_is_shared_memory_pointer a \<longleftrightarrow> w = Shm"
  using block_start unfolding placed_block_def by blast

lemma blocks_ok_which: "blocks_ok h \<Longrightarrow> blocks h w p = Some n \<Longrightarrow> p \<noteq> 0 \<and> (shm_is_shared_memory_pointer p \<longleftrightarrow> w = Shm)"
  unfolding blocks_ok_def using placed_start placed_block_def by blast

lemma blocks_ok_disjoint:
  assumes "blocks_ok h" and "blocks h w a = Some m" and "blocks h w' b = Some n" and "a \<noteq> b \<or> w \<noteq> w'"
  shows "block a m \<inter> block b n = {}"
proof (cases "w = w'")
  case True
  with assms show ?thesis unfolding blocks_ok_def by blast
next
  case False
  have "placed_block w a m" "placed_block w' b n" using assms(1-3) unfolding blocks_ok_def by blast+
  with False show ?thesis unfolding placed_block_def by (cases w; cases w') auto
qed

lemma offset_in_block:
  assumes "placed_block w a n" and "i < unat n"
  shows "a + of_nat i \<in> block a n"
proof -
  have i: "i < 2 ^ 64" using assms(2) unat_bound [of n] by simp
  then have "unat (a + of_nat i) = (unat a + i) mod 2 ^ 64" by (simp add: unat_word_ariths unat_of_nat)
  also have "\<dots> = unat a + i" using assms by (simp add: placed_block_def)
  finally have "unat (a + of_nat i) = unat a + i" .
  then show ?thesis using assms(2) by (simp add: block_def)
qed

lemma memcpy_into_block:
  assumes "placed_block w q len" and "n \<le> len" and "p \<noteq> 0"
  obtains m where "memcpy q p n h = (Inr (), h\<lparr>mem := m\<rparr>)" "\<And>i. i < unat n \<Longrightarrow> m (q + of_nat i) = mem h (p + of_nat i)"
    "\<And>x. x \<notin> block q len \<Longrightarrow> m x = mem h x"
proof -
  define m where "m = (\<lambda>x. if unat (x - q) < unat n then mem h (p + (x - q)) else mem h x)"
  have le: "unat n \<le> unat len" using assms(2) by (simp add: word_le_nat_alt)
  have inside: "x \<in> block q len" if "unat (x - q) < unat n" for x
    using offset_in_block [OF assms(1), of "unat (x - q)"] that le by simp
  have "memcpy q p n h = (Inr (), h\<lparr>mem := m\<rparr>)"
    using assms(1,3) by (simp add: memcpy_def placed_block_def m_def fun_eq_iff) 
  moreover have "m (q + of_nat i) = mem h (p + of_nat i)" if "i < unat n" for i
    using that unat_bound [of n] by (simp add: m_def unat_of_nat)
  moreover have "m x = mem h x" if "x \<notin> block q len" for x using that inside by (auto simp: m_def)
  ultimately show thesis using that by blast
qed

lemma set_block_simps [simp]:
  "blocks (set_block w a n h) w' b = (if w' = w \<and> b = a then n else blocks h w' b)"
  "shm (set_block w a n h) = shm h" "memory_mutex (set_block w a n h) = memory_mutex h" "mem (set_block w a n h) = mem h"
  by (simp_all add: set_block_def)

lemma blocks_ok_alloc: "libs_ok A \<Longrightarrow> blocks_ok h \<Longrightarrow> pick A w h n = Some a \<Longrightarrow> blocks_ok (set_block w a (Some n) h)"
  unfolding libs_ok_def blocks_ok_def by (auto split: if_splits) blast+

lemma blocks_ok_release: "blocks_ok h \<Longrightarrow> blocks_ok (set_block w a None h)"
  unfolding blocks_ok_def by (auto split: if_splits)

lemma blocks_ok_cong: "blocks h' = blocks h \<Longrightarrow> blocks_ok h \<Longrightarrow> blocks_ok h'"
  by (simp add: blocks_ok_def)

lemma pick_fresh: "libs_ok A \<Longrightarrow> pick A w h n = Some a \<Longrightarrow> placed_block w a n \<and> blocks h w a = None"
  unfolding libs_ok_def using block_start by (cases "blocks h w a") blast+

text \<open>
  What \<^verbatim>\<open>realloc\<close> of one allocator promises about its result.
\<close>

definition resized :: "which \<Rightarrow> addr \<Rightarrow> u64 \<Rightarrow> addr \<Rightarrow> heap \<Rightarrow> heap \<Rightarrow> bool" where
  "resized w p n q h h' \<longleftrightarrow> others_kept p h h' \<and> (q = 0 \<and> n \<noteq> 0 \<longrightarrow> blocks h' = blocks h \<and> mem h' = mem h) \<and>
     (q \<noteq> 0 \<longrightarrow> blocks h' w q = Some n \<and>
        (\<forall>old i. blocks h w p = Some old \<and> i < min (unat old) (unat n) \<longrightarrow> mem h' (q + of_nat i) = mem h (p + of_nat i)))"

lemma resized_cong:
  "blocks h1 = blocks h \<Longrightarrow> mem h1 = mem h \<Longrightarrow> blocks h2 = blocks h' \<Longrightarrow> mem h2 = mem h' \<Longrightarrow> resized w p n q h1 h2 = resized w p n q h h'"
  by (simp only: resized_def others_kept_def)

lemma allocate_ok:
  assumes "libs_ok A" and "blocks_ok h"
  obtains q h' where "allocate A w n h = (Inr q, h')" "blocks_ok h'" "shm h' = shm h" "memory_mutex h' = memory_mutex h" "mem h' = mem h"
    "\<forall>w' b m. blocks h w' b = Some m \<longrightarrow> blocks h' w' b = Some m" "q = 0 \<longrightarrow> h' = h"
    "q \<noteq> 0 \<longrightarrow> h' = set_block w q (Some n) h \<and> placed_block w q n \<and> blocks h w q = None"
proof (cases "pick A w h n")
  case None
  then show thesis using that [of 0 h] assms(2) by (simp add: allocate_def)
next
  case (Some a)
  note fresh = pick_fresh [OF assms(1) Some]
  then have "a \<noteq> 0" by (simp add: placed_block_def)
  with Some fresh show thesis
    using that [of a "set_block w a (Some n) h"] blocks_ok_alloc [OF assms Some] by (simp add: allocate_def)
qed

lemma resize_ok:
  assumes "libs_ok A" and "blocks_ok h" and "p = 0 \<or> blocks h w p \<noteq> None"
  shows "\<exists>q h'. resize A w p n h = (Inr q, h') \<and> blocks_ok h' \<and> shm h' = shm h \<and> memory_mutex h' = memory_mutex h \<and> resized w p n q h h'"
proof -
  have zero: "blocks h w' 0 = None" for w' using blocks_ok_which [OF assms(2)] by (cases "blocks h w' 0") auto
  obtain q h1 where q: "allocate A w n h = (Inr q, h1)" "blocks_ok h1" "shm h1 = shm h" "memory_mutex h1 = memory_mutex h" "mem h1 = mem h"
      "\<forall>w' b m. blocks h w' b = Some m \<longrightarrow> blocks h1 w' b = Some m" "q = 0 \<longrightarrow> h1 = h"
      "q \<noteq> 0 \<longrightarrow> h1 = set_block w q (Some n) h \<and> placed_block w q n \<and> blocks h w q = None"
    using allocate_ok [OF assms(1,2), of w n] .
  show ?thesis
  proof (cases "p = 0")
    case True
    with q zero show ?thesis by (auto simp: resize_def resized_def others_kept_def)
  next
    case False
    with assms(3) obtain old where old: "blocks h w p = Some old" by blast
    show ?thesis
    proof (cases "n = 0 \<or> q = 0")
      case True
      have "others_kept p h (set_block w p None h)" by (auto simp: others_kept_def)
      then show ?thesis using True False old q(1,7) assms(2) blocks_ok_release [OF assms(2)]
        by (cases "n = 0") (simp_all add: resize_def seq_def release_def resized_def others_kept_def routine_defs)
    next
      case nq: False
      then have h1: "h1 = set_block w q (Some n) h" "placed_block w q n" "blocks h w q = None" using q(8) by auto
      then have "q \<noteq> p" using old by auto
      obtain m where m: "memcpy q p (min old n) h1 = (Inr (), h1\<lparr>mem := m\<rparr>)"
          "\<And>i. i < unat (min old n) \<Longrightarrow> m (q + of_nat i) = mem h1 (p + of_nat i)" "\<And>x. x \<notin> block q n \<Longrightarrow> m x = mem h1 x"
        using memcpy_into_block [OF h1(2), of "min old n" p h1] False by auto
      let ?h = "set_block w p None (h1\<lparr>mem := m\<rparr>)"
      have "resize A w p n h = (Inr q, ?h)"
        using False old nq q(1) m(1) h1(1) by (simp add: resize_def seq_def release_def ret_def)
      moreover have "blocks_ok ?h" by (rule blocks_ok_release, rule blocks_ok_cong [OF _ q(2)]) simp
      moreover have "others_kept p h ?h" unfolding others_kept_def
      proof (intro allI impI conjI ballI)
        fix w' b k assume b: "b \<noteq> p" "blocks h w' b = Some k"
        then show "blocks ?h w' b = Some k" using q(6) by simp
        have "block q n \<inter> block b k = {}"
          using b old h1(3) q(6) h1(1) by (intro blocks_ok_disjoint [OF q(2), of w _ _ w']) auto
        then show "mem ?h x = mem h x" if "x \<in> block b k" for x using m(3) that q(5) by auto
      qed
      moreover have "mem ?h (q + of_nat i) = mem h (p + of_nat i)" if "i < min (unat old) (unat n)" for i
        using m(2) [of i] that q(5) by (simp add: min_def word_le_nat_alt split: if_splits)
      ultimately show ?thesis using nq q(3,4) h1(1) old \<open>q \<noteq> p\<close> by (auto simp: resized_def)
    qed
  qed
qed

lemma hooks_restored: "hooks_ok h \<Longrightarrow> reregister_shared_memory_as_default (unregister_shared_memory_as_default (shm h)) = shm h"
  by (simp add: hooks_ok_def proc_of_def reregister_shared_memory_as_default_def unregister_shared_memory_as_default_def)

lemma guarded_body:
  assumes "hooks_ok h" and "m (h\<lparr>memory_mutex := True, shm := unregister_shared_memory_as_default (shm h)\<rparr>) = (Inr r, h')"
    and "shm h' = unregister_shared_memory_as_default (shm h)"
  shows "guarded (seq unregister (\<lambda>_. seq m (\<lambda>r. seq reregister (\<lambda>_. ret r)))) h = (Inr r, h'\<lparr>shm := shm h, memory_mutex := False\<rparr>)"
  using assms hooks_restored [OF assms(1)]
  by (simp add: guarded_def hooks_ok_def unregister_def reregister_def routine_defs)

lemma seq_ret [simp]: "seq m ret = m"
  by (rule ext) (simp add: seq_def ret_def split: prod.split sum.split)

lemma hooks_ok_cong: "shm h' = shm h \<Longrightarrow> \<not> memory_mutex h' \<Longrightarrow> hooks_ok h \<Longrightarrow> hooks_ok h'"
  by (simp add: hooks_ok_def proc_of_def)

text \<open>
  \<^verbatim>\<open>free\<close> gives every block back to the heap it came from. For the null pointer and for a block of either heap it returns, removes exactly
  this block, changes no byte, releases the mutex and leaves the hooks as they were.
\<close>

theorem heap_free_right_heap:
  assumes "heap_ok h" and "real_free A" and "p = 0 \<or> (\<exists>w. blocks h w p \<noteq> None)"
  shows "\<exists>h'. heap_free A p h = (Inr (), h') \<and> heap_ok h' \<and> (\<forall>w. blocks h' w = (blocks h w)(p := None)) \<and> mem h' = mem h \<and> shm h' = shm h"
proof -
  have ok: "blocks_ok h" "hooks_ok h" using assms(1) by (simp_all add: heap_ok_def)
  show ?thesis
  proof (cases "shm_is_shared_memory_pointer p")
    case True
    then have p: "p \<noteq> 0" "blocks h Libc p = None"
      using blocks_ok_which [OF ok(1), of Libc p] null_not_shared by (cases "blocks h Libc p"; auto)+
    then have "blocks h Shm p \<noteq> None" using assms(3) by (metis which.exhaust)
    note p = p(1) this p(2)
    let ?h = "set_block Shm p None (h\<lparr>memory_mutex := True, shm := unregister_shared_memory_as_default (shm h)\<rparr>)"
    let ?h' = "?h\<lparr>shm := shm h, memory_mutex := False\<rparr>"
    have "heap_free A p h = (Inr (), ?h')"
      using guarded_body [OF ok(2), of "release Shm p" "()" ?h] p True by (simp add: heap_free_def release_def ret_def)
    moreover have "blocks ?h' w = (blocks h w)(p := None)" for w using p(3) by (cases w) auto
    moreover have "blocks_ok ?h'" by (rule blocks_ok_cong [OF _ blocks_ok_release [OF ok(1), of Shm p]]) (simp add: set_block_def)
    moreover have "hooks_ok ?h'" using ok(2) by (intro hooks_ok_cong [of ?h' h]) simp_all
    ultimately show ?thesis by (auto simp: heap_ok_def)
  next
    case False
    then have "blocks h Shm p = None" using blocks_ok_which [OF ok(1), of Shm p] by (cases "blocks h Shm p") auto
    moreover from this have "p = 0 \<or> blocks h Libc p \<noteq> None" using assms(3) by (metis which.exhaust)
    moreover have "blocks h w 0 = None" for w using blocks_ok_which [OF ok(1), of w 0] by (cases "blocks h w 0") auto
    ultimately have "heap_free A p h = (Inr (), if p = 0 then h else set_block Libc p None h)"
      and "blocks (if p = 0 then h else set_block Libc p None h) w = (blocks h w)(p := None)" for w
      using False assms(2) by (auto simp: heap_free_def release_def ret_def fun_eq_iff, cases w) auto
    moreover have "heap_ok (if p = 0 then h else set_block Libc p None h)"
      using ok blocks_ok_release [OF ok(1)] by (simp add: heap_ok_def hooks_ok_def proc_of_def)
    ultimately show ?thesis by auto
  qed
qed


text \<open>
  \<^verbatim>\<open>realloc_to_shm\<close> of a block of the C library copies as many bytes as the new length says, also when the old block is shorter: the bytes that
  lie behind the private block appear in shared memory, and the old block is not freed.
\<close>

theorem realloc_to_shm_copies_beyond:
  assumes "libs_ok A" and "heap_ok h" and "blocks h Libc p = Some old" and "old < n" and "pick A Shm h n = Some q"
  shows "\<exists>h'. realloc_to_shm A p n h = (Inr q, h') \<and> shm_is_shared_memory_pointer q \<and> blocks h' Shm q = Some n \<and>
    blocks h' Libc p = Some old \<and> (\<forall>i<unat n. mem h' (q + of_nat i) = mem h (p + of_nat i))"
proof -
  have p: "p \<noteq> 0" "\<not> shm_is_shared_memory_pointer p" using blocks_ok_which [of h Libc p old] assms(2,3) by (auto simp: heap_ok_def)
  have q: "placed_block Shm q n" using pick_fresh [OF assms(1,5)] by simp
  obtain m where "memcpy q p n (set_block Shm q (Some n) h) = (Inr (), (set_block Shm q (Some n) h)\<lparr>mem := m\<rparr>)"
      "\<And>i. i < unat n \<Longrightarrow> m (q + of_nat i) = mem h (p + of_nat i)"
    by (rule memcpy_into_block [OF q order.refl p(1), of "set_block Shm q (Some n) h"]) (rule that; simp)
  then show ?thesis using p placed_start [OF q] assms(3,5)
    by (simp add: realloc_to_shm_def allocate_def seq_def ret_def)
qed

section \<open>An example with two small allocators\<close>

definition slot :: "which \<Rightarrow> nat \<Rightarrow> addr" where
  "slot w i = (case w of Shm \<Rightarrow> shm_shared_memory_base | Libc \<Rightarrow> 0x10000) + of_nat i * 16"

definition small_libs :: libs where
  "small_libs = \<lparr>pick = (\<lambda>w h n. if n \<le> 16 \<and> blocks h w = Map.empty then Some (slot w 0)
       else if n \<le> 16 \<and> blocks h w = [slot w 0 \<mapsto> 4] then Some (slot w 1) else None), real_free = True, real_realloc = True\<rparr>"

definition small_heap :: heap where
  "small_heap = \<lparr>shm = register_shared_memory_as_default example_state, memory_mutex = False, blocks = (\<lambda>w. [slot w 0 \<mapsto> 4]), mem = (\<lambda>x. ucast x)\<rparr>"

lemma slot_placed:
  assumes "n \<le> 16" and "i < 4"
  shows "placed_block w (slot w i) n" and "block (slot w i) n \<subseteq> {x. unat (slot w 0) + 16 * i \<le> unat x \<and> unat x < unat (slot w 0) + 16 * i + 16}"
proof -
  have n: "max 1 (unat n) \<le> 16" using assms(1) by (simp add: word_le_nat_alt)
  have i: "i = 0 \<or> i = 1 \<or> i = 2 \<or> i = 3" using assms(2) by auto
  have u: "unat (slot w i) = unat (slot w 0) + 16 * i"
    using i by (cases w) (auto simp: slot_def shm_shared_memory_base_def)
  show sub: "block (slot w i) n \<subseteq> {x. unat (slot w 0) + 16 * i \<le> unat x \<and> unat x < unat (slot w 0) + 16 * i + 16}"
    using n by (auto simp: block_def u)
  show "placed_block w (slot w i) n" unfolding placed_block_def
  proof (intro conjI ballI)
    show "slot w i \<noteq> 0" using u by (cases w) (auto simp: slot_def shm_shared_memory_base_def)
    show "unat (slot w i) + max 1 (unat n) \<le> 2 ^ 64" using u n assms(2) by (cases w) (auto simp: slot_def shm_shared_memory_base_def)
    show "shm_is_shared_memory_pointer x \<longleftrightarrow> w = Shm" if "x \<in> block (slot w i) n" for x
      using subsetD [OF sub that] assms(2) by (cases w) (auto simp: shared_memory_pointer_iff slot_def shm_shared_memory_base_def)
  qed
qed

lemma small_libs_ok: "libs_ok small_libs"
  unfolding libs_ok_def
proof (intro allI impI conjI)
  fix w h n a assume pick: "pick small_libs w h n = Some a"
  then have n: "n \<le> 16" and a: "a = slot w 0 \<and> blocks h w = Map.empty \<or> a = slot w 1 \<and> blocks h w = [slot w 0 \<mapsto> 4]"
    by (auto simp: small_libs_def split: if_splits)
  then show "placed_block w a n" using slot_placed(1) [OF n, of 0 w] slot_placed(1) [OF n, of 1 w] by auto
  show "block a n \<inter> block b m = {}" if "blocks h w b = Some m" for b m
    using a that slot_placed(2) [OF n, of 1 w] slot_placed(2) [of 4 0 w] by (fastforce split: if_splits)
qed

lemma small_heap_ok: "heap_ok small_heap"
  using slot_placed(1) [of 4 0]
  by (auto simp: heap_ok_def blocks_ok_def hooks_ok_def small_heap_def proc_of_def register_shared_memory_as_default_def split: if_splits)

lemma small_facts:
  "blocks small_heap w = [slot w 0 \<mapsto> 4]" "mem small_heap x = ucast x" "real_free small_libs" "real_realloc small_libs"
  "pick small_libs Shm small_heap 8 = Some (slot Shm 1)"
  "\<exists>w'. blocks small_heap w' (slot w 0) \<noteq> None"
  by (auto simp: small_heap_def small_libs_def fun_eq_iff)

theorem heap_free_right_heap_witness:
  "\<exists>h'. heap_free small_libs (slot Shm 0) small_heap = (Inr (), h') \<and> heap_ok h' \<and> blocks h' Shm = Map.empty \<and> blocks h' Libc = [slot Libc 0 \<mapsto> 4]"
proof -
  have "slot Libc 0 \<noteq> slot Shm 0" by (simp add: slot_def shm_shared_memory_base_def)
  then have "([slot Libc 0 \<mapsto> 4] :: addr \<rightharpoonup> u64)(slot Shm 0 := None) = [slot Libc 0 \<mapsto> 4]" by auto
  then show ?thesis using heap_free_right_heap [OF small_heap_ok small_facts(3) disjI2 [OF small_facts(6)], of Shm] small_facts(1) by auto
qed


theorem realloc_to_shm_copies_beyond_witness:
  "\<exists>h'. realloc_to_shm small_libs (slot Libc 0) 8 small_heap = (Inr (slot Shm 1), h') \<and> mem h' (slot Shm 1 + 5) = ucast (slot Libc 0 + 5)"
proof -
  obtain h' where "realloc_to_shm small_libs (slot Libc 0) 8 small_heap = (Inr (slot Shm 1), h')"
      and m: "\<forall>i<unat (8 :: u64). mem h' (slot Shm 1 + of_nat i) = mem small_heap (slot Libc 0 + of_nat i)"
    using realloc_to_shm_copies_beyond [OF small_libs_ok small_heap_ok, of "slot Libc 0" 4 8 "slot Shm 1"] by (auto simp: small_facts)
  then show ?thesis using m [rule_format, of 5] by (simp add: small_facts)
qed

section \<open>The semaphore lives as long as a process needs it\<close>

text \<open>
  In a program that forks, a process removes the semaphore of the shared mutex only when it is the last one, provided that every live process has installed its status lock.
\<close>

theorem shared_memory_terminate_last:
  assumes "status_step\<^sup>*\<^sup>* \<lparr>live = [p0], locks = [p0]\<rparr> u" and "p \<in> set (live u)" and "set (live u) \<subseteq> set (locks u)" and "semaphore (mtx (info s)) \<noteq> - 1"
  shows "shm_sems (shared_memory_terminate True p (locks u) s) (semaphore (mtx (info s))) =
    (if set (live u) = {p} then None else shm_sems s (semaphore (mtx (info s))))"
proof -
  have "set (locks u) = set (live u)" using status_locks_live [OF assms(1)] assms(3) by auto
  then have "statuslock_is_sole_survivor p (locks u) \<longleftrightarrow> set (live u) = {p}"
    using assms(2) by (auto simp: statuslock_is_sole_survivor_def list_all_iff)
  then show ?thesis using assms(4) by (simp add: shared_memory_terminate_def SharedMutex_terminate_def)
qed

end
