(* ===== verification/Ipc_Protocol.thy ===== *)
theory Ipc_Protocol
  imports Shared_Lock
begin

text \<open>
  The call protocol between the program and the isolated library
  (\<^verbatim>\<open>libipc/ipc_communication.cpp\<close>, with the wrappers and call processors of
  \<^verbatim>\<open>cali-linker/snippets/ipc-communication-proto.cpp\<close>). Each process has an
  \<^verbatim>\<open>IpcCommunication\<close> object; a semaphore and a buffer carry calls, callbacks and results in each
  direction. The operations are functions on one endpoint and the shared part; the two
  processes form a step relation, whose reachable states are shown to alternate strictly.
\<close>

section \<open>State\<close>

record communication_t =
  code :: int
  libc_errno :: int
  comm_callback :: addr
  comm_data :: nat

text \<open>
  The fields of \<^verbatim>\<open>IpcCommunication\<close> that the protocol uses. Buffers and call processors are referred to
  by number.
\<close>

record IpcCommunication =
  sending_semaphore :: int
  receiving_semaphore :: int
  ipc_count :: nat
  is_library :: bool
  is_forked :: bool
  processor :: nat
  library_processor :: nat
  sending_data :: nat
  receiving_data :: nat
  sending_is_blocked :: bool

text \<open>
  What both processes share: the semaphores and the two buffers. The warnings the code prints are
  recorded.
\<close>

record ipc_shared =
  ipc_sems :: sems
  bufs :: "nat \<Rightarrow> communication_t"
  warnings :: "string list"

definition warn_if :: "bool \<Rightarrow> string \<Rightarrow> ipc_shared \<Rightarrow> ipc_shared" where
  "warn_if b w sh = (if b then sh\<lparr>warnings := w # warnings sh\<rparr> else sh)"

definition write_buf :: "nat \<Rightarrow> (communication_t \<Rightarrow> communication_t) \<Rightarrow> ipc_shared \<Rightarrow> ipc_shared" where
  "write_buf i f sh = sh\<lparr>bufs := (bufs sh)(i := f (bufs sh i))\<rparr>"

section \<open>Operations of one endpoint\<close>

definition switch_sender_receiver :: "IpcCommunication \<Rightarrow> IpcCommunication" where
  "switch_sender_receiver ep =
     ep\<lparr>sending_semaphore := receiving_semaphore ep, receiving_semaphore := sending_semaphore ep,
        sending_data := receiving_data ep, receiving_data := sending_data ep,
        processor := library_processor ep, library_processor := processor ep,
        is_library := True\<rparr>"

text \<open>
  \<^verbatim>\<open>trigger_ipc_call\<close>: the result of \<^verbatim>\<open>semop\<close> is not looked at.
\<close>

definition trigger_ipc_call :: "int \<Rightarrow> IpcCommunication \<Rightarrow> ipc_shared \<Rightarrow> IpcCommunication \<times> ipc_shared" where
  "trigger_ipc_call err ep sh =
     (let ep = ep\<lparr>ipc_count := Suc (ipc_count ep)\<rparr>;
          sh = write_buf (sending_data ep) (\<lambda>c. c\<lparr>libc_errno := err\<rparr>) sh;
          sh = warn_if (sending_is_blocked ep) ''trigger_ipc_call despite sending being blocked'' sh;
          sh = (case semop False (ipc_sems sh) (sending_semaphore ep) 1 of
                  Sem_done k \<Rightarrow> sh\<lparr>ipc_sems := k\<rparr> | _ \<Rightarrow> sh)
      in (ep\<lparr>sending_is_blocked := True\<rparr>, sh))"

text \<open>
  One round of the loop of \<^verbatim>\<open>wait_for_return\<close>, up to the dispatch on the code: the wait, the
  warning, and what the code asks for. A failed wait is repeated, except that a removed semaphore ends
  the process.
\<close>

datatype received =
    Asleep
  | Ends int
  | Returned
  | Remote_exit
  | Callback addr
  | Call int
  | Invalid_code int

definition classify :: "communication_t \<Rightarrow> received" where
  "classify c =
     (if code c = 1 then Returned
      else if code c = - 1 then Remote_exit
      else if code c = 2 then Callback (comm_callback c)
      else if 2 < code c then Call (code c)
      else Invalid_code (code c))"

definition wait_receive :: "bool \<Rightarrow> IpcCommunication \<Rightarrow> ipc_shared \<Rightarrow> received \<times> IpcCommunication \<times> ipc_shared" where
  "wait_receive interrupted ep sh =
     (case semop interrupted (ipc_sems sh) (receiving_semaphore ep) (- 1) of
        Sem_sleep \<Rightarrow> (Asleep, ep, sh)
      | Sem_failed EIDRM \<Rightarrow> (Ends 0, ep, sh)
      | Sem_failed EINVAL \<Rightarrow> (Ends 1, ep, sh)
      | Sem_failed _ \<Rightarrow> (Asleep, ep, sh)
      | Sem_done k \<Rightarrow>
          (let sh = sh\<lparr>ipc_sems := k\<rparr>;
               sh = warn_if (\<not> sending_is_blocked ep) ''after receive: sending was not properly blocked'' sh
           in (classify (bufs sh (receiving_data ep)), ep\<lparr>sending_is_blocked := False\<rparr>, sh)))"

text \<open>
  The rest of the round, after a callback or a call has been processed: the answer is sent.
\<close>

definition send_response :: "int \<Rightarrow> IpcCommunication \<Rightarrow> ipc_shared \<Rightarrow> IpcCommunication \<times> ipc_shared" where
  "send_response err ep sh =
     (let sh = write_buf (sending_data ep) (\<lambda>c. c\<lparr>libc_errno := err\<rparr>) sh;
          sh = warn_if (sending_is_blocked ep) ''sending response despite sending being blocked'' sh;
          ep = ep\<lparr>sending_is_blocked := True\<rparr>;
          sh = (case semop False (ipc_sems sh) (sending_semaphore ep) 1 of
                  Sem_done k \<Rightarrow> sh\<lparr>ipc_sems := k\<rparr> | _ \<Rightarrow> sh)
      in (ep, sh))"

text \<open>
  What the generated call processors do around the work: they leave the result in the sending buffer
  and set its code to 1.
\<close>

definition process_ipc_call :: "nat \<Rightarrow> IpcCommunication \<Rightarrow> ipc_shared \<Rightarrow> ipc_shared" where
  "process_ipc_call result ep sh = write_buf (sending_data ep) (\<lambda>c. c\<lparr>comm_data := result, code := 1\<rparr>) sh"

text \<open>
  What a generated wrapper does before it triggers the call.
\<close>

definition prepare_call :: "int \<Rightarrow> addr \<Rightarrow> nat \<Rightarrow> IpcCommunication \<Rightarrow> ipc_shared \<Rightarrow> ipc_shared" where
  "prepare_call c cb args ep sh =
     write_buf (sending_data ep) (\<lambda>b. b\<lparr>code := c, comm_callback := cb, comm_data := args\<rparr>) sh"

definition ipc_terminate :: "IpcCommunication \<Rightarrow> ipc_shared \<Rightarrow> ipc_shared" where
  "ipc_terminate ep sh =
     sh\<lparr>ipc_sems := (ipc_sems sh)(sending_semaphore ep := None, receiving_semaphore ep := None)\<rparr>"

section \<open>The two processes\<close>

datatype side = Parent | Library

text \<open>
  The nesting of a process: a frame \<^verbatim>\<open>Wait\<close> for each activation of \<^verbatim>\<open>wait_for_return\<close> and a
  frame \<^verbatim>\<open>Handle\<close> for each call or callback it is working on. The program runs when no frame is left or the
  innermost is a \<^verbatim>\<open>Handle\<close>.
\<close>

datatype frame = Wait | Handle

fun running :: "frame list \<Rightarrow> bool" where
  "running [] = True"
| "running (Wait # fs) = False"
| "running (Handle # fs) = True"

record ipc_sys =
  ep :: "side \<Rightarrow> IpcCommunication"
  frames :: "side \<Rightarrow> frame list"
  shared :: ipc_shared
  dead :: "side \<Rightarrow> bool"

definition new_endpoint :: "int \<Rightarrow> int \<Rightarrow> IpcCommunication" where
  "new_endpoint sem_a sem_b =
     \<lparr>sending_semaphore = sem_a, receiving_semaphore = sem_b, ipc_count = 0, is_library = False,
      is_forked = False, processor = 1, library_processor = 2, sending_data = 0, receiving_data = 1,
      sending_is_blocked = False\<rparr>"

text \<open>
  After \<^verbatim>\<open>fork_receiving_process\<close>: the parent goes on, the child has switched its roles and waits.
\<close>

definition ipc_init :: "int \<Rightarrow> int \<Rightarrow> (nat \<Rightarrow> communication_t) \<Rightarrow> ipc_sys" where
  "ipc_init sem_a sem_b b =
     \<lparr>ep = (\<lambda>x. case x of Parent \<Rightarrow> new_endpoint sem_a sem_b
                | Library \<Rightarrow> (switch_sender_receiver (new_endpoint sem_a sem_b))\<lparr>sending_is_blocked := True\<rparr>),
      frames = (\<lambda>x. case x of Parent \<Rightarrow> [] | Library \<Rightarrow> [Wait]),
      shared = \<lparr>ipc_sems = [sem_a \<mapsto> 0, sem_b \<mapsto> 0], bufs = b, warnings = []\<rparr>,
      dead = (\<lambda>_. False)\<rparr>"

definition set_side :: "side \<Rightarrow> IpcCommunication \<Rightarrow> frame list \<Rightarrow> ipc_shared \<Rightarrow> ipc_sys \<Rightarrow> ipc_sys" where
  "set_side x e fs sh s = s\<lparr>ep := (ep s)(x := e), frames := (frames s)(x := fs), shared := sh\<rparr>"

text \<open>
  Steps: a running process makes a call or a callback, a waiting one receives, a handler answers.
  An exception in a handler of the library sends the code -1 and ends it; \<^verbatim>\<open>terminate\<close> then removes the semaphores.
  The parent that reads -1, or finds its semaphore removed, exits.
\<close>

inductive ipc_step :: "ipc_sys \<Rightarrow> ipc_sys \<Rightarrow> bool" where
  call: "\<lbrakk> \<not> dead s x; running (frames s x); 1 < c;
     trigger_ipc_call err (ep s x) (prepare_call c cb args (ep s x) (shared s)) = (e, sh) \<rbrakk> \<Longrightarrow>
     ipc_step s (set_side x e (Wait # frames s x) sh s)"
| return_: "\<lbrakk> \<not> dead s x; frames s x = Wait # fs;
     wait_receive i (ep s x) (shared s) = (Returned, e, sh) \<rbrakk> \<Longrightarrow>
     ipc_step s (set_side x e fs sh s)"
| accept: "\<lbrakk> \<not> dead s x; frames s x = Wait # fs;
     wait_receive i (ep s x) (shared s) = (r, e, sh); r = Callback cb \<or> r = Call n \<rbrakk> \<Longrightarrow>
     ipc_step s (set_side x e (Handle # Wait # fs) sh s)"
| respond: "\<lbrakk> \<not> dead s x; frames s x = Handle # fs;
     send_response err (ep s x) (process_ipc_call result (ep s x) (shared s)) = (e, sh) \<rbrakk> \<Longrightarrow>
     ipc_step s (set_side x e fs sh s)"
| throw: "\<lbrakk> \<not> dead s Library; frames s Library = Handle # fs;
     sh = (case semop False (ipc_sems (shared s)) (sending_semaphore (ep s Library)) 1 of
        Sem_done k \<Rightarrow> (shared s)\<lparr>ipc_sems := k\<rparr> | _ \<Rightarrow> shared s) \<rbrakk> \<Longrightarrow>
     ipc_step s (s\<lparr>shared := write_buf (sending_data (ep s Library)) (\<lambda>c. c\<lparr>code := - 1\<rparr>) sh,
       dead := (dead s)(Library := True)\<rparr>)"
| cleanup: "dead s Library \<Longrightarrow> ipc_step s (s\<lparr>shared := ipc_terminate (ep s Library) (shared s)\<rparr>)"
| exit: "\<lbrakk> \<not> dead s x; frames s x = Wait # fs;
     wait_receive i (ep s x) (shared s) = (r, e, sh); r = Remote_exit \<or> r = Ends n \<rbrakk> \<Longrightarrow>
     ipc_step s (s\<lparr>shared := (if r = Remote_exit then ipc_terminate e sh else sh),
       dead := (dead s)(x := True)\<rparr>)"

inductive_cases ipc_stepE: "ipc_step s t"

section \<open>The invariant\<close>

text \<open>
  The frames of a process alternate, with a \<^verbatim>\<open>Wait\<close> at the bottom, so that their number
  determines them.
\<close>

fun alt :: "nat \<Rightarrow> frame list" where
  "alt 0 = []"
| "alt (Suc n) = (if even n then Wait else Handle) # alt n"

lemma running_alt [simp]: "running (alt n) \<longleftrightarrow> even n"
  by (cases n) auto

lemma alt_Wait: "alt n = Wait # fs \<longleftrightarrow> odd n \<and> fs = alt (n - 1)"
  by (cases n) auto

lemma alt_Handle: "alt n = Handle # fs \<longleftrightarrow> 0 < n \<and> even n \<and> fs = alt (n - 1)"
  by (cases n) auto

definition wired :: "int \<Rightarrow> int \<Rightarrow> ipc_sys \<Rightarrow> bool" where
  "wired sem_a sem_b s \<longleftrightarrow> sem_a \<noteq> sem_b \<and>
     sending_semaphore (ep s Parent) = sem_a \<and> receiving_semaphore (ep s Parent) = sem_b \<and>
     sending_data (ep s Parent) = 0 \<and> receiving_data (ep s Parent) = 1 \<and>
     sending_semaphore (ep s Library) = sem_b \<and> receiving_semaphore (ep s Library) = sem_a \<and>
     sending_data (ep s Library) = 1 \<and> receiving_data (ep s Library) = 0"

text \<open>
  Where the right to run is: with one of the processes, or on its way to the other one. The
  numbers \<^term>\<open>p\<close> and \<^term>\<open>l\<close> of frames then differ by one, or by none or two while a call or
  an answer is on its way.
\<close>

definition balanced :: "int \<Rightarrow> int \<Rightarrow> ipc_sys \<Rightarrow> nat \<Rightarrow> nat \<Rightarrow> bool" where
  "balanced sem_a sem_b s p l \<longleftrightarrow>
     (let k = ipc_sems (shared s); a = code (bufs (shared s) 0); b = code (bufs (shared s) 1) in
      k sem_a = Some 0 \<and> k sem_b = Some 0 \<and> l = Suc p \<or>
      k sem_a = Some 1 \<and> k sem_b = Some 0 \<and> odd p \<and> (1 < a \<and> l = p \<or> a = 1 \<and> l = p + 2) \<or>
      k sem_a = Some 0 \<and> k sem_b = Some 1 \<and> odd p \<and> (1 < b \<and> l = p + 2 \<or> b = 1 \<and> l = p))"

definition ipc_inv :: "int \<Rightarrow> int \<Rightarrow> ipc_sys \<Rightarrow> bool" where
  "ipc_inv sem_a sem_b s \<longleftrightarrow> wired sem_a sem_b s \<and> warnings (shared s) = [] \<and>
     (if \<not> dead s Library
      then \<not> dead s Parent \<and>
        (\<exists>p l. frames s Parent = alt p \<and> frames s Library = alt l \<and> balanced sem_a sem_b s p l \<and>
           sending_is_blocked (ep s Parent) = odd p \<and> sending_is_blocked (ep s Library) = odd l)
      else \<not> dead s Parent \<longrightarrow>
        (\<exists>p. frames s Parent = alt p \<and> odd p \<and> sending_is_blocked (ep s Parent) \<and>
           code (bufs (shared s) 1) = - 1 \<and>
           (ipc_sems (shared s) sem_b = Some 1 \<or> ipc_sems (shared s) sem_b = None)))"

lemma alt_eq_small [simp]: "[] = alt n \<longleftrightarrow> n = 0" "[Wait] = alt n \<longleftrightarrow> n = 1"
  by (cases n; cases "n - 1"; auto)+

lemma ipc_inv_init: "sem_a \<noteq> sem_b \<Longrightarrow> ipc_inv sem_a sem_b (ipc_init sem_a sem_b b)"
  unfolding ipc_inv_def
  by (auto simp: ipc_init_def wired_def new_endpoint_def switch_sender_receiver_def balanced_def)

lemmas ipc_op_defs = trigger_ipc_call_def prepare_call_def process_ipc_call_def send_response_def
  write_buf_def warn_if_def semop_def SEMVMX_def Let_def set_side_def

text \<open>
  How the invariant is used and re-established while both processes live.
\<close>

lemma ipc_inv_alive:
  assumes "ipc_inv sem_a sem_b s" and "\<not> dead s Library"
  obtains p l where "wired sem_a sem_b s" "warnings (shared s) = []" "\<not> dead s Parent" "frames s Parent = alt p"
    "frames s Library = alt l" "balanced sem_a sem_b s p l"
    "sending_is_blocked (ep s Parent) = odd p" "sending_is_blocked (ep s Library) = odd l"
  using assms unfolding ipc_inv_def by auto

lemma ipc_inv_aliveI:
  assumes "wired sem_a sem_b s" "warnings (shared s) = []" "\<not> dead s Library" "\<not> dead s Parent"
    "frames s Parent = alt p" "frames s Library = alt l" "balanced sem_a sem_b s p l"
    "sending_is_blocked (ep s Parent) = odd p" "sending_is_blocked (ep s Library) = odd l"
  shows "ipc_inv sem_a sem_b s"
  unfolding ipc_inv_def using assms by auto

lemma step_call:
  assumes inv: "ipc_inv sem_a sem_b s" and "\<not> dead s Library" and "running (frames s x)" and "1 < c"
    and run: "trigger_ipc_call err (ep s x) (prepare_call c cb args (ep s x) (shared s)) = (e, sh)"
  shows "ipc_inv sem_a sem_b (set_side x e (Wait # frames s x) sh s)"
  using inv assms(2)
proof (cases rule: ipc_inv_alive)
  case (1 p l)
  show ?thesis
  proof (cases x)
    case Parent
    with 1 assms(3) have even: "even p" and bal: "ipc_sems (shared s) sem_a = Some 0" "ipc_sems (shared s) sem_b = Some 0" "l = Suc p"
      by (auto simp: balanced_def Let_def)
    show ?thesis
      by (rule ipc_inv_aliveI [where p = "Suc p" and l = l])
        (use 1 Parent run even bal assms(2,4) in \<open>auto simp: wired_def balanced_def ipc_op_defs\<close>)
  next
    case Library
    with 1 assms(3) have even: "even l" and bal: "ipc_sems (shared s) sem_a = Some 0" "ipc_sems (shared s) sem_b = Some 0" "l = Suc p"
      by (auto simp: balanced_def Let_def)
    show ?thesis
      by (rule ipc_inv_aliveI [where p = p and l = "Suc l"])
        (use 1 Library run even bal assms(2,4) in \<open>auto simp: wired_def balanced_def ipc_op_defs\<close>)
  qed
qed

lemma step_respond:
  assumes inv: "ipc_inv sem_a sem_b s" and "\<not> dead s Library" and "frames s x = Handle # fs"
    and run: "send_response err (ep s x) (process_ipc_call result (ep s x) (shared s)) = (e, sh)"
  shows "ipc_inv sem_a sem_b (set_side x e fs sh s)"
  using inv assms(2)
proof (cases rule: ipc_inv_alive)
  case (1 p l)
  show ?thesis
  proof (cases x)
    case Parent
    with 1 assms(3) have even: "even p" "0 < p" "fs = alt (p - 1)"
      and bal: "ipc_sems (shared s) sem_a = Some 0" "ipc_sems (shared s) sem_b = Some 0" "l = Suc p"
      by (auto simp: balanced_def Let_def alt_Handle)
    show ?thesis
      by (rule ipc_inv_aliveI [where p = "p - 1" and l = l])
        (use 1 Parent run even bal assms(2) in \<open>auto simp: wired_def balanced_def ipc_op_defs\<close>)
  next
    case Library
    with 1 assms(3) have even: "even l" "0 < l" "fs = alt (l - 1)"
      and bal: "ipc_sems (shared s) sem_a = Some 0" "ipc_sems (shared s) sem_b = Some 0" "l = Suc p"
      by (auto simp: balanced_def Let_def alt_Handle)
    show ?thesis
      by (rule ipc_inv_aliveI [where p = p and l = "l - 1"])
        (use 1 Library run even bal assms(2) in \<open>auto simp: wired_def balanced_def ipc_op_defs\<close>)
  qed
qed

lemma wait_receive_cases:
  assumes "wait_receive i e0 sh0 = (r, e, sh)"
  obtains v where "ipc_sems sh0 (receiving_semaphore e0) = Some (Suc v)"
      "r = classify (bufs sh0 (receiving_data e0))" "e = e0\<lparr>sending_is_blocked := False\<rparr>"
      "sh = warn_if (\<not> sending_is_blocked e0) ''after receive: sending was not properly blocked''
        (sh0\<lparr>ipc_sems := (ipc_sems sh0)(receiving_semaphore e0 \<mapsto> v)\<rparr>)"
    | "r = Asleep" "e = e0" "sh = sh0"
    | "r = Ends 1" "e = e0" "sh = sh0" "ipc_sems sh0 (receiving_semaphore e0) = None"
proof (cases "ipc_sems sh0 (receiving_semaphore e0)")
  case None
  with assms that(3) show thesis by (simp add: wait_receive_def semop_def)
next
  case (Some v)
  show thesis
  proof (cases v)
    case 0
    with Some assms that(2) show thesis by (auto simp: wait_receive_def semop_def split: if_splits)
  next
    case (Suc w)
    show thesis
    proof (cases "int SEMVMX < int w")
      case True
      with Some Suc assms that(2) show thesis by (simp add: wait_receive_def semop_def)
    next
      case False
      with Some Suc assms that(1) [of w] show thesis
        by (auto simp: wait_receive_def semop_def Let_def warn_if_def)
    qed
  qed
qed

lemma classify_iffs:
  "classify c = Returned \<longleftrightarrow> code c = 1" "classify c = Remote_exit \<longleftrightarrow> code c = - 1"
  "classify c = Callback cb \<longleftrightarrow> code c = 2 \<and> comm_callback c = cb"
  "classify c = Call n \<longleftrightarrow> 2 < code c \<and> code c = n" "classify c \<noteq> Asleep" "classify c \<noteq> Ends m"
  by (auto simp: classify_def)

text \<open>
  What a waiting process receives: a call adds a \<^verbatim>\<open>Handle\<close>, an answer ends the wait.
\<close>

lemma step_receive:
  assumes inv: "ipc_inv sem_a sem_b s" and "\<not> dead s Library" and "frames s x = Wait # fs"
    and run: "wait_receive i (ep s x) (shared s) = (r, e, sh)" and "r \<noteq> Asleep"
  shows "r = Returned \<and> ipc_inv sem_a sem_b (set_side x e fs sh s) \<or>
    (\<exists>n cb. r = Callback cb \<or> r = Call n) \<and> ipc_inv sem_a sem_b (set_side x e (Handle # Wait # fs) sh s)"
  using inv assms(2)
proof (cases rule: ipc_inv_alive)
  case (1 p l)
  note W = 1(1) [unfolded wired_def]
  from run show ?thesis
  proof (cases rule: wait_receive_cases)
    case R: (1 v)
    show ?thesis
    proof (cases x)
      case Parent
      with 1 W assms(3) R(1) have odd: "odd p" "fs = alt (p - 1)"
        and bal: "ipc_sems (shared s) sem_a = Some 0" "v = 0"
          "1 < code (bufs (shared s) 1) \<and> l = p + 2 \<or> code (bufs (shared s) 1) = 1 \<and> l = p"
        by (auto simp: balanced_def Let_def alt_Wait)
      have r: "r = classify (bufs (shared s) 1)" using R(2) W Parent by simp
      show ?thesis
      proof (cases "code (bufs (shared s) 1) = 1")
        case True
        have "ipc_inv sem_a sem_b (set_side x e fs sh s)"
          by (rule ipc_inv_aliveI [where p = "p - 1" and l = l])
            (use 1 W Parent R True odd bal assms(2) in \<open>auto simp: wired_def balanced_def ipc_op_defs\<close>)
        with r True show ?thesis by (simp add: classify_iffs)
      next
        case False
        have "ipc_inv sem_a sem_b (set_side x e (Handle # Wait # fs) sh s)"
          by (rule ipc_inv_aliveI [where p = "Suc p" and l = l])
            (use 1 W Parent R False odd bal assms(2,3) in \<open>auto simp: wired_def balanced_def ipc_op_defs\<close>)
        with r False bal(3) show ?thesis by (auto simp: classify_def)
      qed
    next
      case Library
      with 1 W assms(3) R(1) have odd: "odd l" "fs = alt (l - 1)" "odd p"
        and bal: "ipc_sems (shared s) sem_b = Some 0" "v = 0"
          "1 < code (bufs (shared s) 0) \<and> l = p \<or> code (bufs (shared s) 0) = 1 \<and> l = p + 2"
        by (auto simp: balanced_def Let_def alt_Wait)
      have r: "r = classify (bufs (shared s) 0)" using R(2) W Library by simp
      show ?thesis
      proof (cases "code (bufs (shared s) 0) = 1")
        case True
        have "ipc_inv sem_a sem_b (set_side x e fs sh s)"
          by (rule ipc_inv_aliveI [where p = p and l = "l - 1"])
            (use 1 W Library R True odd bal assms(2) in \<open>auto simp: wired_def balanced_def ipc_op_defs\<close>)
        with r True show ?thesis by (simp add: classify_iffs)
      next
        case False
        have "ipc_inv sem_a sem_b (set_side x e (Handle # Wait # fs) sh s)"
          by (rule ipc_inv_aliveI [where p = p and l = "Suc l"])
            (use 1 W Library R False odd bal assms(2,3) in \<open>auto simp: wired_def balanced_def ipc_op_defs\<close>)
        with r False bal(3) show ?thesis by (auto simp: classify_def)
      qed
    qed
  next
    case 3
    with 1 W show ?thesis by (cases x) (auto simp: balanced_def Let_def)
  qed (use assms(5) in simp)
qed

lemma step_throw:
  assumes inv: "ipc_inv sem_a sem_b s" and "\<not> dead s Library" and "frames s Library = Handle # fs"
    and "sh = (case semop False (ipc_sems (shared s)) (sending_semaphore (ep s Library)) 1 of
        Sem_done k \<Rightarrow> (shared s)\<lparr>ipc_sems := k\<rparr> | _ \<Rightarrow> shared s)"
  shows "ipc_inv sem_a sem_b (s\<lparr>shared := write_buf (sending_data (ep s Library)) (\<lambda>c. c\<lparr>code := - 1\<rparr>) sh,
       dead := (dead s)(Library := True)\<rparr>)"
  using inv assms(2)
proof (cases rule: ipc_inv_alive)
  case (1 p l)
  with assms(3) have "ipc_sems (shared s) sem_b = Some 0" "odd p"
    by (auto simp: balanced_def Let_def alt_Handle)
  with 1 assms(4) show ?thesis
    unfolding ipc_inv_def by (auto simp: wired_def write_buf_def semop_def SEMVMX_def)
qed

lemma ipc_inv_widow:
  assumes "ipc_inv sem_a sem_b s" and "dead s Library" and "\<not> dead s Parent"
  obtains p where "wired sem_a sem_b s" "warnings (shared s) = []" "frames s Parent = alt p" "odd p"
    "sending_is_blocked (ep s Parent)" "code (bufs (shared s) 1) = - 1"
    "ipc_sems (shared s) sem_b = Some 1 \<or> ipc_sems (shared s) sem_b = None"
  using assms unfolding ipc_inv_def by auto

lemma widow_receive:
  assumes "ipc_inv sem_a sem_b s" and "dead s Library" and "\<not> dead s Parent"
    and "wait_receive i (ep s Parent) (shared s) = (r, e, sh)"
  shows "(r = Remote_exit \<or> r = Ends 1 \<or> r = Asleep) \<and> warnings sh = []"
  using assms(1-3)
proof (cases rule: ipc_inv_widow)
  case (1 p)
  from assms(4) show ?thesis
    by (cases rule: wait_receive_cases) (use 1 in \<open>auto simp: wired_def classify_def warn_if_def\<close>)
qed

lemma ipc_inv_step:
  assumes "ipc_step s t" and inv: "ipc_inv sem_a sem_b s"
  shows "ipc_inv sem_a sem_b t"
  using assms(1)
proof (cases rule: ipc_step.cases)
  case (call x c err cb args e sh)
  have "\<not> dead s Library"
    using inv call by (cases x) (auto elim: ipc_inv_widow)
  with call inv show ?thesis by (auto intro: step_call)
next
  case (return_ x fs i e sh)
  have "\<not> dead s Library"
    using inv return_ widow_receive [of sem_a sem_b s i Returned] by (cases x) auto
  with return_ inv step_receive [of sem_a sem_b s x fs i Returned e sh] show ?thesis by auto
next
  case (accept x fs i r e sh cb n)
  have "\<not> dead s Library"
    using inv accept widow_receive [of sem_a sem_b s i r] by (cases x) auto
  with accept inv step_receive [of sem_a sem_b s x fs i r e sh] show ?thesis by auto
next
  case (respond x fs err result e sh)
  have "\<not> dead s Library"
    using inv respond by (cases x) (auto elim!: ipc_inv_widow simp: alt_Handle)
  with respond inv show ?thesis by (auto intro: step_respond)
next
  case (throw fs sh)
  with inv show ?thesis by (auto intro: step_throw)
next
  case cleanup
  with inv show ?thesis unfolding ipc_inv_def by (auto simp: ipc_terminate_def wired_def)
next
  case (exit x fs i r e sh n)
  have dead: "dead s Library"
    using inv exit step_receive [of sem_a sem_b s x fs i r e sh] by auto
  with exit have "x = Parent" by (cases x) auto
  with exit dead inv widow_receive [of sem_a sem_b s i r e sh] show ?thesis
    unfolding ipc_inv_def by (auto simp: wired_def ipc_terminate_def)
qed

lemma ipc_inv_reachable: "ipc_step\<^sup>*\<^sup>* s t \<Longrightarrow> ipc_inv sem_a sem_b s \<Longrightarrow> ipc_inv sem_a sem_b t"
  by (induction rule: rtranclp_induct) (auto intro: ipc_inv_step)

section \<open>Properties\<close>

text \<open>
  C2: in every reachable state of the two processes at most one of them is running, neither of the
  warnings about a blocked or unblocked sender has been printed, and as long as the library lives, a
  process has its sender blocked exactly when it is waiting.
\<close>

theorem ipc_alternation:
  assumes "sem_a \<noteq> sem_b" and "ipc_step\<^sup>*\<^sup>* (ipc_init sem_a sem_b b) s"
  shows "warnings (shared s) = [] \<and>
    (\<not> dead s Library \<longrightarrow>
       \<not> dead s Parent \<and> \<not> (running (frames s Parent) \<and> running (frames s Library)) \<and>
       (\<forall>x. sending_is_blocked (ep s x) = (\<not> running (frames s x))))"
proof -
  have inv: "ipc_inv sem_a sem_b s" using assms by (blast intro: ipc_inv_reachable ipc_inv_init)
  moreover have "\<not> dead s Parent \<and> \<not> (running (frames s Parent) \<and> running (frames s Library)) \<and>
       (\<forall>x. sending_is_blocked (ep s x) = (\<not> running (frames s x)))" if "\<not> dead s Library"
    using inv that
  proof (cases rule: ipc_inv_alive)
    case (1 p l)
    have "sending_is_blocked (ep s x) = (\<not> running (frames s x))" for x
      using 1 by (cases x) auto
    with 1 show ?thesis by (auto simp: balanced_def Let_def)
  qed
  ultimately show ?thesis by (auto simp: ipc_inv_def)
qed

text \<open>
  A first call of the parent, as a concrete step.
\<close>

definition empty_bufs :: "nat \<Rightarrow> communication_t" where
  "empty_bufs _ = \<lparr>code = 0, libc_errno = 0, comm_callback = 0, comm_data = 0\<rparr>"

definition after_call :: ipc_sys where
  "after_call =
     (let s = ipc_init 10 11 empty_bufs;
          (e, sh) = trigger_ipc_call 0 (ep s Parent) (prepare_call 3 0 42 (ep s Parent) (shared s))
      in set_side Parent e [Wait] sh s)"

definition after_accept :: ipc_sys where
  "after_accept = (case wait_receive False (ep after_call Library) (shared after_call) of
     (r, e, sh) \<Rightarrow> set_side Library e [Handle, Wait] sh after_call)"

definition after_answer :: ipc_sys where
  "after_answer = (case send_response 0 (ep after_accept Library)
       (process_ipc_call 43 (ep after_accept Library) (shared after_accept)) of
     (e, sh) \<Rightarrow> set_side Library e [Wait] sh after_accept)"

lemmas ipc_example_defs = after_call_def after_accept_def after_answer_def ipc_init_def new_endpoint_def
  switch_sender_receiver_def wait_receive_def classify_def ipc_op_defs

lemma ipc_example_steps:
  "ipc_step (ipc_init 10 11 empty_bufs) after_call" "ipc_step after_call after_accept"
  "ipc_step after_accept after_answer"
proof -
  let ?s = "ipc_init 10 11 empty_bufs"
  obtain e sh where 1: "trigger_ipc_call 0 (ep ?s Parent) (prepare_call 3 0 42 (ep ?s Parent) (shared ?s)) = (e, sh)"
    by fastforce
  have "frames ?s Parent = []" "\<not> dead ?s Parent" by (simp_all add: ipc_init_def)
  with 1 ipc_step.call [of ?s Parent 3 0 0 42 e sh] show "ipc_step ?s after_call"
    by (simp add: after_call_def)
  obtain r e sh where 2: "wait_receive False (ep after_call Library) (shared after_call) = (r, e, sh)"
    using prod_cases3 by blast
  have "r = Call 3" "frames after_call Library = [Wait]" "\<not> dead after_call Library"
    using 2 by (simp_all add: ipc_example_defs)
  with 2 ipc_step.accept [of after_call Library "[]" False r e sh 0 3] show "ipc_step after_call after_accept"
    by (simp add: after_accept_def)
  obtain e sh where 3: "send_response 0 (ep after_accept Library)
       (process_ipc_call 43 (ep after_accept Library) (shared after_accept)) = (e, sh)"
    by fastforce
  have "frames after_accept Library = [Handle, Wait]" "\<not> dead after_accept Library"
    by (simp_all add: ipc_example_defs)
  with 3 ipc_step.respond [of after_accept Library "[Wait]" 0 43 e sh] show "ipc_step after_accept after_answer"
    by (simp add: after_answer_def)
qed

lemma ipc_example_reachable: "ipc_step\<^sup>*\<^sup>* (ipc_init 10 11 empty_bufs) after_answer"
  using ipc_example_steps by (meson converse_rtranclp_into_rtranclp rtranclp.rtrancl_refl)

theorem ipc_alternation_witness:
  "(10::int) \<noteq> 11 \<and> ipc_step\<^sup>*\<^sup>* (ipc_init 10 11 empty_bufs) after_answer \<and>
   warnings (shared after_answer) = [] \<and> frames after_answer Library = [Wait]"
  using ipc_alternation [OF _ ipc_example_reachable] ipc_example_reachable by (simp add: ipc_example_defs)



text \<open>
  C1: while a process runs, nobody else writes the buffer it reads its arguments or results from: a
  step that leaves it running does not change that buffer.
\<close>

theorem ipc_no_race:
  assumes "sem_a \<noteq> sem_b" and "ipc_step\<^sup>*\<^sup>* (ipc_init sem_a sem_b b) s" and "\<not> dead s Library"
    and "running (frames s x)" and "ipc_step s t"
  shows "bufs (shared t) (receiving_data (ep s x)) = bufs (shared s) (receiving_data (ep s x))"
proof -
  have inv: "ipc_inv sem_a sem_b s" using assms by (blast intro: ipc_inv_reachable ipc_inv_init)
  then have W: "wired sem_a sem_b s" by (simp add: ipc_inv_def)
  have other: "\<not> running (frames s y)" if "y \<noteq> x" for y
    using inv assms(3)
  proof (cases rule: ipc_inv_alive)
    case (1 p l)
    with assms(4) that show ?thesis by (cases x; cases y) (auto simp: balanced_def Let_def)
  qed
  have send: "sending_data (ep s x) \<noteq> receiving_data (ep s x)" using W by (cases x) (auto simp: wired_def)
  from assms(5) show ?thesis
  proof (cases rule: ipc_step.cases)
    case (call y c err cb args e sh)
    with other have "y = x" by blast
    with call send show ?thesis by (auto simp: ipc_op_defs split: option.splits)
  next
    case (return_ y fs i e sh)
    from return_(4) show ?thesis
      by (cases rule: wait_receive_cases) (use return_ in \<open>auto simp: set_side_def warn_if_def\<close>)
  next
    case (accept y fs i r e sh cb n)
    from accept(4) show ?thesis
      by (cases rule: wait_receive_cases) (use accept in \<open>auto simp: set_side_def warn_if_def\<close>)
  next
    case (respond y fs err result e sh)
    with other have "y = x" by (metis running.simps(3))
    with respond send show ?thesis by (auto simp: ipc_op_defs split: option.splits)
  next
    case (throw fs sh)
    with other have "x = Library" by (metis running.simps(3))
    with throw send show ?thesis by (auto simp: write_buf_def split: semop_result.splits)
  next
    case cleanup
    with assms(3) show ?thesis by simp
  next
    case (exit y fs i r e sh n)
    from exit(4) show ?thesis
      by (cases rule: wait_receive_cases) (use exit in \<open>auto simp: ipc_terminate_def warn_if_def\<close>)
  qed
qed

theorem ipc_no_race_witness:
  "ipc_step\<^sup>*\<^sup>* (ipc_init 10 11 empty_bufs) after_accept \<and> \<not> dead after_accept Library \<and>
   running (frames after_accept Library) \<and> ipc_step after_accept after_answer \<and>
   comm_data (bufs (shared after_answer) (receiving_data (ep after_accept Library))) = 42"
proof -
  have r: "ipc_step\<^sup>*\<^sup>* (ipc_init 10 11 empty_bufs) after_accept"
    using ipc_example_steps by (meson converse_rtranclp_into_rtranclp rtranclp.rtrancl_refl)
  have f: "\<not> dead after_accept Library" "running (frames after_accept Library)"
    "comm_data (bufs (shared after_accept) (receiving_data (ep after_accept Library))) = 42"
    by (simp_all add: ipc_example_defs)
  from ipc_no_race [OF _ r f(1,2) ipc_example_steps(3)] r f ipc_example_steps(3) show ?thesis by simp
qed

end
