(* ===== verification/Ipc_Liveness.thy ===== *)
theory Ipc_Liveness
  imports Ipc_Protocol
begin

text \<open>
  Calls return. When the processes make no further calls, only answers remain: receiving what is on its way, and answering what has been received. Such steps are
  possible as long as a call is open, and a measure bounds their number, so every open call of the program returns.
\<close>

section \<open>Steps that answer\<close>

inductive ipc_answer :: "ipc_sys \<Rightarrow> ipc_sys \<Rightarrow> bool" where
  return_: "\<lbrakk> \<not> dead s x; frames s x = Wait # fs; wait_receive i (ep s x) (shared s) = (Returned, e, sh) \<rbrakk> \<Longrightarrow>
     ipc_answer s (set_side x e fs sh s)"
| accept: "\<lbrakk> \<not> dead s x; frames s x = Wait # fs; wait_receive i (ep s x) (shared s) = (r, e, sh); r = Callback cb \<or> r = Call n \<rbrakk> \<Longrightarrow>
     ipc_answer s (set_side x e (Handle # Wait # fs) sh s)"
| respond: "\<lbrakk> \<not> dead s x; frames s x = Handle # fs; send_response err (ep s x) (process_ipc_call result (ep s x) (shared s)) = (e, sh) \<rbrakk> \<Longrightarrow>
     ipc_answer s (set_side x e fs sh s)"

inductive_cases ipc_answerE: "ipc_answer s t"

lemma ipc_answer_step: "ipc_answer s t \<Longrightarrow> ipc_step s t"
  by (induction rule: ipc_answer.induct) (auto intro: ipc_step.intros)

lemma ipc_answer_dead: "ipc_answer s t \<Longrightarrow> dead t = dead s"
  by (auto elim!: ipc_answerE simp: set_side_def)

section \<open>The work that is left\<close>

text \<open>
  A message on its way to a process: an answer ends a wait, a call still has to be handled and answered.
\<close>

definition due :: "ipc_sys \<Rightarrow> side \<Rightarrow> nat" where
  "due s x = (if ipc_sems (shared s) (receiving_semaphore (ep s x)) \<in> {None, Some 0} then 0
     else if code (bufs (shared s) (receiving_data (ep s x))) = 1 then 1 else 3)"

definition work :: "ipc_sys \<Rightarrow> nat" where
  "work s = 2 * (length (frames s Parent) + length (frames s Library)) + due s Parent + due s Library"

lemma alt_Nil [simp]: "alt n = [] \<longleftrightarrow> n = 0"
  by (cases n) simp_all

lemma length_alt [simp]: "length (alt n) = n"
  by (induction n) auto

lemma respond_effect:
  assumes "send_response err e0 (process_ipc_call result e0 sh0) = (e, sh)" and "ipc_sems sh0 (sending_semaphore e0) = Some 0"
  shows "ipc_sems sh = (ipc_sems sh0)(sending_semaphore e0 \<mapsto> 1)" "code (bufs sh (sending_data e0)) = 1"
    "receiving_semaphore e = receiving_semaphore e0" "receiving_data e = receiving_data e0"
  using assms by (auto simp: send_response_def process_ipc_call_def write_buf_def warn_if_def semop_def SEMVMX_def Let_def)

lemma work_decreases:
  assumes "ipc_inv sem_a sem_b s" and "\<not> dead s Library" and "ipc_answer s t"
  shows "work t < work s"
  using assms(1,2)
proof (cases rule: ipc_inv_alive)
  case (1 p l)
  note W = 1(1) [unfolded wired_def] and B = 1(6) [unfolded balanced_def Let_def]
  from assms(3) show ?thesis
  proof (cases rule: ipc_answer.cases)
    case (return_ x fs i e sh)
    from return_(4) show ?thesis
    proof (cases rule: wait_receive_cases)
      case R: (1 v)
      from R(2) have "code (bufs (shared s) (receiving_data (ep s x))) = 1" using classify_iffs(1) by metis
      then show ?thesis using return_ R 1 W B by (cases x) (auto simp: work_def due_def set_side_def warn_if_def alt_Wait)
    qed simp_all
  next
    case (accept x fs i r e sh cb n)
    from accept(4) show ?thesis
    proof (cases rule: wait_receive_cases)
      case R: (1 v)
      from R(2) accept(5) have "code (bufs (shared s) (receiving_data (ep s x))) \<noteq> 1" by (auto simp: classify_def)
      then show ?thesis using accept R 1 W B by (cases x) (auto simp: work_def due_def set_side_def warn_if_def alt_Wait)
    qed (use accept(5) in simp_all)
  next
    case (respond x fs err result e sh)
    have z: "ipc_sems (shared s) sem_a = Some 0" "ipc_sems (shared s) sem_b = Some 0"
      using 1(4,5) B respond(3) by (cases x; auto simp: alt_Handle)+
    have z': "ipc_sems (shared s) (sending_semaphore (ep s x)) = Some 0" using z W by (cases x) auto
    note R = respond_effect [OF respond(4) z']
    show ?thesis using respond(1,3) R z W by (cases x) (auto simp: work_def due_def set_side_def)
  qed
qed

section \<open>Progress\<close>

lemma receive_possible:
  assumes "\<not> dead s x" and "frames s x = Wait # fs" and "ipc_sems (shared s) (receiving_semaphore (ep s x)) = Some 1"
    and "1 \<le> code (bufs (shared s) (receiving_data (ep s x)))"
  shows "\<exists>t. ipc_answer s t"
proof -
  obtain r e sh where r: "wait_receive False (ep s x) (shared s) = (r, e, sh)" using prod_cases3 by blast
  then have c: "r = classify (bufs (shared s) (receiving_data (ep s x)))" using assms(3)
    by (auto simp: wait_receive_def semop_def SEMVMX_def Let_def warn_if_def)
  then have "r = Returned \<or> (\<exists>cb n. r = Callback cb \<or> r = Call n)" using assms(4) by (auto simp: classify_def)
  then show ?thesis using assms(1,2) r by (blast intro: ipc_answer.intros)
qed

lemma respond_possible:
  assumes "\<not> dead s x" and "frames s x = Handle # fs"
  shows "\<exists>t. ipc_answer s t"
proof -
  obtain e sh where "send_response 0 (ep s x) (process_ipc_call 0 (ep s x) (shared s)) = (e, sh)" by fastforce
  then show ?thesis using assms by (blast intro: ipc_answer.respond)
qed

lemma open_call_progress:
  assumes "ipc_inv sem_a sem_b s" and "\<not> dead s Library" and "frames s Parent \<noteq> []"
  shows "\<exists>t. ipc_answer s t"
  using assms(1,2)
proof (cases rule: ipc_inv_alive)
  case (1 p l)
  note W = 1(1) [unfolded wired_def]
  have p: "p \<noteq> 0" using 1(4) assms(3) by auto
  consider (run) "l = Suc p"
    | (to_library) "ipc_sems (shared s) sem_a = Some 1" "1 \<le> code (bufs (shared s) 0)" "odd l"
    | (to_parent) "ipc_sems (shared s) sem_b = Some 1" "1 \<le> code (bufs (shared s) 1)" "odd p"
    using 1(6) unfolding balanced_def Let_def by auto
  then show ?thesis
  proof cases
    case run
    show ?thesis
    proof (cases "even p")
      case True
      then show ?thesis using 1(3,4) p by (intro respond_possible [of s Parent "alt (p - 1)"]) (auto simp: alt_Handle)
    next
      case False
      then show ?thesis using run 1(5) assms(2) by (intro respond_possible [of s Library "alt p"]) auto
    qed
  next
    case to_library
    then show ?thesis using 1(5) W assms(2) by (intro receive_possible [of s Library "alt (l - 1)"]) (auto simp: alt_Wait)
  next
    case to_parent
    then show ?thesis using 1(3,4) W by (intro receive_possible [of s Parent "alt (p - 1)"]) (auto simp: alt_Wait)
  qed
qed

lemma answers_bounded:
  assumes "(ipc_answer ^^ n) s t" and "ipc_inv sem_a sem_b s" and "\<not> dead s Library"
  shows "n + work t \<le> work s \<and> ipc_inv sem_a sem_b t \<and> \<not> dead t Library"
  using assms
proof (induction n arbitrary: t)
  case (Suc n)
  from Suc.prems(1) obtain u where u: "(ipc_answer ^^ n) s u" "ipc_answer u t" by auto
  have inv: "n + work u \<le> work s" "ipc_inv sem_a sem_b u" "\<not> dead u Library" using Suc.IH [OF u(1) Suc.prems(2,3)] by simp_all
  then show ?case
    using work_decreases [OF inv(2,3) u(2)] ipc_inv_step [OF ipc_answer_step [OF u(2)]] ipc_answer_dead [OF u(2)] by auto
qed auto

text \<open>
  C4: Every open call of the program returns when no further calls are made. From any reachable state with a living library, a run of steps that receive and answer
  has at most twice as many steps as there are open waits and handlers of both processes, plus three; and when no such step is possible any more, the
  program is outside of every call and the library waits in its event loop.
\<close>

theorem ipc_calls_return:
  assumes "sem_a \<noteq> sem_b" and "ipc_step\<^sup>*\<^sup>* (ipc_init sem_a sem_b b) s" and "\<not> dead s Library" and "(ipc_answer ^^ n) s t"
  shows "n \<le> 2 * (length (frames s Parent) + length (frames s Library)) + 3 \<and> ((\<exists>u. ipc_answer t u) \<or> frames t Parent = [] \<and> frames t Library = [Wait])"
proof -
  have inv: "ipc_inv sem_a sem_b s" using assms by (blast intro: ipc_inv_reachable ipc_inv_init)
  have bound: "n + work t \<le> work s" "ipc_inv sem_a sem_b t" "\<not> dead t Library" using answers_bounded [OF assms(4) inv assms(3)] by simp_all
  from inv assms(3) have "due s Parent + due s Library \<le> 3"
    by (cases rule: ipc_inv_alive) (auto simp: due_def wired_def balanced_def Let_def)
  with bound(1) have "n \<le> 2 * (length (frames s Parent) + length (frames s Library)) + 3" by (simp add: work_def)
  moreover have "frames t Parent = [] \<and> frames t Library = [Wait]" if "\<nexists>u. ipc_answer t u"
  proof -
    have "frames t Parent = []" using open_call_progress [OF bound(2,3)] that by blast
    with bound(2,3) show ?thesis by (cases rule: ipc_inv_alive) (auto simp: balanced_def Let_def)
  qed
  ultimately show ?thesis by blast
qed

theorem ipc_calls_return_witness:
  "\<not> dead after_call Library \<and> (ipc_answer ^^ 2) after_call after_answer \<and>
   ((\<exists>u. ipc_answer after_answer u) \<or> frames after_answer Parent = [] \<and> frames after_answer Library = [Wait])"
proof -
  have r: "ipc_step\<^sup>*\<^sup>* (ipc_init 10 11 empty_bufs) after_call" using ipc_example_steps(1) by blast
  obtain r e sh where 1: "wait_receive False (ep after_call Library) (shared after_call) = (r, e, sh)" using prod_cases3 by blast
  have "r = Call 3" "frames after_call Library = [Wait]" and alive: "\<not> dead after_call Library" using 1 by (simp_all add: ipc_example_defs)
  with 1 ipc_answer.accept [of after_call Library "[]" False r e sh 0 3] have a: "ipc_answer after_call after_accept" by (simp add: after_accept_def)
  obtain e sh where 2: "send_response 0 (ep after_accept Library) (process_ipc_call 43 (ep after_accept Library) (shared after_accept)) = (e, sh)" by fastforce
  have "frames after_accept Library = [Handle, Wait]" "\<not> dead after_accept Library" by (simp_all add: ipc_example_defs)
  with 2 ipc_answer.respond [of after_accept Library "[Wait]" 0 43 e sh] have "ipc_answer after_accept after_answer" by (simp add: after_answer_def)
  with a have n: "(ipc_answer ^^ 2) after_call after_answer" by (auto simp: numeral_2_eq_2)
  then show ?thesis using ipc_calls_return [OF _ r alive n] alive by simp
qed

end
