(* ===== verification/Callbacks.thy ===== *)
theory Callbacks
  imports Cali_Prelude
begin

text \<open>
  \<^verbatim>\<open>CallbackManager\<close> of \<^verbatim>\<open>libipc/ipc_communication.cpp\<close>: function pointers that leave
  a process are replaced by indices into a table, and function pointers that arrive are
  wrapped in a piece of machine code that loads the index and jumps to a generated replacement.
  Round trips are shown for both directions; the machine code is executed by a decoder for the two
  instructions it consists of.
\<close>

section \<open>The table of outgoing callbacks\<close>

definition CALLBACK_MAX_RESERVED :: addr where "CALLBACK_MAX_RESERVED = 5"

record CallbackEntry =
  entry_callback :: addr
  entry_wrapper :: addr

record CallbackManager =
  callback_numbers :: "addr \<rightharpoonup> addr"
  callback_functions :: "CallbackEntry list"
  trampolines :: addr
  remainingTrampolinBytes :: int
  code_memory :: "addr \<Rightarrow> u8"

definition callback_needs_wrapping :: "addr \<Rightarrow> bool" where
  "callback_needs_wrapping cb \<longleftrightarrow> cb \<noteq> 0 \<and> cb \<noteq> - 1 \<and> CALLBACK_MAX_RESERVED < cb"

definition CallbackManager_new :: "(addr \<Rightarrow> u8) \<Rightarrow> CallbackManager" where
  "CallbackManager_new mem =
     \<lparr>callback_numbers = Map.empty,
      callback_functions = \<lparr>entry_callback = 0, entry_wrapper = 0\<rparr> #
        map (\<lambda>i. \<lparr>entry_callback = i, entry_wrapper = i\<rparr>) [1, 2, 3, 4, 5],
      trampolines = 0, remainingTrampolinBytes = 0, code_memory = mem\<rparr>"

definition wrap_outgoing_callback :: "addr \<Rightarrow> addr \<Rightarrow> CallbackManager \<Rightarrow> addr \<times> CallbackManager" where
  "wrap_outgoing_callback cb wr m =
     (if \<not> callback_needs_wrapping cb then (cb, m)
      else case callback_numbers m cb of
        Some n \<Rightarrow> (n, m)
      | None \<Rightarrow>
          (let fs = callback_functions m @ [\<lparr>entry_callback = cb, entry_wrapper = wr\<rparr>]
           in (of_nat (length fs - 1), m\<lparr>callback_functions := fs\<rparr>)))"

text \<open>
  \<^verbatim>\<open>execute\<close> looks the entry up with \<^verbatim>\<open>at\<close>, which throws outside the table, and calls the wrapper with
  the callback.
\<close>

definition callback_execute :: "addr \<Rightarrow> CallbackManager \<Rightarrow> (addr \<times> addr) outcome" where
  "callback_execute cb m =
     (if unat cb < length (callback_functions m)
      then (let entry = callback_functions m ! unat cb in Inr (entry_wrapper entry, entry_callback entry))
      else Inl Out_of_range)"

section \<open>Incoming callbacks\<close>

text \<open>
  The packed structure: \<^verbatim>\<open>movabs $callback,%r11\<close> and \<^verbatim>\<open>jmpq *0x0(%rip)\<close>, followed by the address to
  jump to.
\<close>

definition trampoline_bytes :: "addr \<Rightarrow> addr \<Rightarrow> u8 list" where
  "trampoline_bytes cb replacement =
     [0x49, 0xbb] @ le_bytes 8 cb @ [0xff, 0x25, 0, 0, 0, 0] @ le_bytes 8 replacement"

fun store_bytes :: "addr \<Rightarrow> u8 list \<Rightarrow> (addr \<Rightarrow> u8) \<Rightarrow> (addr \<Rightarrow> u8)" where
  "store_bytes a [] mem = mem"
| "store_bytes a (b # bs) mem = store_bytes (a + 1) bs (mem(a := b))"

definition sizeof_trampoline :: int where "sizeof_trampoline = 24"

text \<open>
  \<^term>\<open>mapped\<close> is the page the kernel hands out when a new one is needed, \<^term>\<open>pagesize\<close> its size.
\<close>

definition wrap_incoming_callback ::
    "addr \<Rightarrow> int \<Rightarrow> addr \<Rightarrow> addr \<Rightarrow> CallbackManager \<Rightarrow> addr \<times> CallbackManager" where
  "wrap_incoming_callback mapped pagesize cb replacement m =
     (if \<not> callback_needs_wrapping cb then (cb, m)
      else
        let m = (if trampolines m = 0 \<or> remainingTrampolinBytes m < sizeof_trampoline
                 then m\<lparr>remainingTrampolinBytes := pagesize, trampolines := mapped\<rparr> else m);
            t = trampolines m
        in (t, m\<lparr>code_memory := store_bytes t (trampoline_bytes cb replacement) (code_memory m),
                 trampolines := t + 24,
                 remainingTrampolinBytes := remainingTrampolinBytes m - sizeof_trampoline\<rparr>))"

section \<open>Running the machine code\<close>

definition fetch_le :: "addr \<Rightarrow> (addr \<Rightarrow> u8) \<Rightarrow> addr" where
  "fetch_le a mem = of_le_bytes (map (\<lambda>i. mem (a + i)) [0, 1, 2, 3, 4, 5, 6, 7])"

text \<open>
  A processor that knows the two instructions: the value of \<^verbatim>\<open>r11\<close> and the address control goes to.
\<close>

definition run_trampoline :: "addr \<Rightarrow> (addr \<Rightarrow> u8) \<Rightarrow> (addr \<times> addr) option" where
  "run_trampoline a mem =
     (if mem a = 0x49 \<and> mem (a + 1) = 0xbb then
        let r11 = fetch_le (a + 2) mem; ip = a + 10 in
        if mem ip = 0xff \<and> mem (ip + 1) = 0x25 \<and> map (\<lambda>i. mem (ip + i)) [2, 3, 4, 5] = [0, 0, 0, 0]
        then Some (r11, fetch_le (ip + 6) mem) else None
      else None)"

section \<open>Outgoing callbacks come back\<close>

lemma CallbackManager_new_length [simp]: "length (callback_functions (CallbackManager_new mem)) = 6"
  by (simp add: CallbackManager_new_def)

text \<open>
  The managers the code can produce: the constructor and any sequence of the two wrappings.
\<close>

inductive callback_reachable :: "CallbackManager \<Rightarrow> bool" where
  new: "callback_reachable (CallbackManager_new mem)"
| outgoing: "callback_reachable m \<Longrightarrow> callback_reachable (snd (wrap_outgoing_callback cb wr m))"
| incoming: "callback_reachable m \<Longrightarrow> callback_reachable (snd (wrap_incoming_callback mapped pagesize cb r m))"

lemma callback_reachable_facts:
  "callback_reachable m \<Longrightarrow> callback_numbers m = Map.empty \<and> 6 \<le> length (callback_functions m)"
  by (induction rule: callback_reachable.induct)
    (auto simp: wrap_outgoing_callback_def wrap_incoming_callback_def CallbackManager_new_def Let_def split: option.split)

text \<open>
  C16: a wrapped outgoing callback is found again: the index that leaves the process makes
  \<^verbatim>\<open>execute\<close> call the wrapper with the original pointer, the receiving side recognises the index as a callback to wrap,
  and all indices given out before keep their entries. Reserved values pass unchanged.
\<close>

theorem outgoing_callback_roundtrip:
  assumes "callback_reachable m" and "length (callback_functions m) < 2 ^ 63"
    and "wrap_outgoing_callback cb wr m = (n, m')"
  shows "if callback_needs_wrapping cb
    then callback_execute n m' = Inr (wr, cb) \<and> callback_needs_wrapping n \<and>
      (\<forall>i. unat i < length (callback_functions m) \<longrightarrow> callback_execute i m' = callback_execute i m)
    else n = cb \<and> m' = m"
proof (cases "callback_needs_wrapping cb")
  case True
  let ?len = "length (callback_functions m)"
  note facts = callback_reachable_facts [OF assms(1)]
  with True assms(3) have n: "n = of_nat ?len"
    and m': "m' = m\<lparr>callback_functions := callback_functions m @ [\<lparr>entry_callback = cb, entry_wrapper = wr\<rparr>]\<rparr>"
    by (auto simp: wrap_outgoing_callback_def Let_def)
  have un: "unat n = ?len" using assms(2) by (simp add: n unat_of_nat)
  have "callback_needs_wrapping n"
    unfolding callback_needs_wrapping_def CALLBACK_MAX_RESERVED_def
    using facts assms(2) un by (auto simp: word_less_nat_alt unat_minus_1_u64)
  then show ?thesis
    using True un by (simp add: callback_execute_def m' nth_append Let_def)
qed (use assms in \<open>simp add: wrap_outgoing_callback_def\<close>)

theorem outgoing_callback_roundtrip_witness:
  "callback_reachable (CallbackManager_new (\<lambda>_. 0)) \<and>
   wrap_outgoing_callback 0x401000 0x402000 (CallbackManager_new (\<lambda>_. 0)) =
     (6, snd (wrap_outgoing_callback 0x401000 0x402000 (CallbackManager_new (\<lambda>_. 0)))) \<and>
   callback_execute 6 (snd (wrap_outgoing_callback 0x401000 0x402000 (CallbackManager_new (\<lambda>_. 0)))) =
     Inr (0x402000, 0x401000)"
proof -
  let ?m = "CallbackManager_new (\<lambda>_. 0)"
  have r: "callback_reachable ?m" by (rule callback_reachable.new)
  have w: "callback_needs_wrapping 0x401000"
    by (simp add: callback_needs_wrapping_def CALLBACK_MAX_RESERVED_def)
  have run: "wrap_outgoing_callback 0x401000 0x402000 ?m = (6, snd (wrap_outgoing_callback 0x401000 0x402000 ?m))"
    using w by (simp add: wrap_outgoing_callback_def Let_def CallbackManager_new_def)
  from outgoing_callback_roundtrip [OF r _ run] r run w show ?thesis by simp
qed

text \<open>
  The comment on \<^verbatim>\<open>callback_numbers\<close> calls it the map from callback pointers to their index, but no code
  ever enters anything: wrapping the same pointer again always appends a new entry under a new index.
\<close>

theorem outgoing_callback_not_reused:
  assumes "callback_reachable m" and "callback_needs_wrapping cb" and "length (callback_functions m) < 2 ^ 63"
    and "wrap_outgoing_callback cb wr m = (n, m')" and "wrap_outgoing_callback cb wr m' = (n', m'')"
  shows "n \<noteq> n' \<and> length (callback_functions m'') = length (callback_functions m) + 2"
proof -
  note facts = callback_reachable_facts [OF assms(1)]
  let ?len = "length (callback_functions m)"
  from assms facts have "n = of_nat ?len" "n' = of_nat (Suc ?len)" and len: "length (callback_functions m'') = ?len + 2"
    by (auto simp: wrap_outgoing_callback_def Let_def)
  then have "unat n = ?len" "unat n' = Suc ?len"
    using assms(3) by (simp_all only: unat_of_nat) simp_all
  then show ?thesis using len by auto
qed

theorem outgoing_callback_not_reused_witness:
  "\<exists>n m' n' m''. callback_reachable (CallbackManager_new (\<lambda>_. 0)) \<and> callback_needs_wrapping 0x401000 \<and>
     wrap_outgoing_callback 0x401000 1 (CallbackManager_new (\<lambda>_. 0)) = (n, m') \<and>
     wrap_outgoing_callback 0x401000 1 m' = (n', m'') \<and> n \<noteq> n'"
proof -
  let ?m = "CallbackManager_new (\<lambda>_. 0)"
  obtain n m' where 1: "wrap_outgoing_callback 0x401000 1 ?m = (n, m')" by fastforce
  obtain n' m'' where 2: "wrap_outgoing_callback 0x401000 1 m' = (n', m'')" by fastforce
  have w: "callback_needs_wrapping 0x401000"
    by (simp add: callback_needs_wrapping_def CALLBACK_MAX_RESERVED_def)
  from outgoing_callback_not_reused [OF callback_reachable.new w _ 1 2] 1 2 w callback_reachable.new show ?thesis by auto
qed

section \<open>Incoming callbacks reach their replacement\<close>

lemma store_bytes_other:
  "(\<And>i. i < length bs \<Longrightarrow> x \<noteq> a + of_nat i) \<Longrightarrow> store_bytes a bs mem x = mem x"
proof (induction bs arbitrary: a mem)
  case (Cons b bs)
  have "x \<noteq> a + 1 + of_nat i" if "i < length bs" for i
    using Cons.prems [of "Suc i"] that by (simp add: algebra_simps)
  moreover have "x \<noteq> a" using Cons.prems [of 0] by simp
  ultimately show ?case by (simp add: Cons.IH)
qed simp

lemma store_bytes_get:
  "i < length bs \<Longrightarrow> length bs < 2 ^ 64 \<Longrightarrow> store_bytes a bs mem (a + of_nat i) = bs ! i"
proof (induction bs arbitrary: a mem i)
  case (Cons b bs)
  show ?case
  proof (cases i)
    case 0
    have "a \<noteq> a + 1 + of_nat j" if "j < length bs" for j
    proof
      assume "a = a + 1 + of_nat j"
      then have "of_nat (Suc j) = (0 :: addr)" by (simp add: add.assoc)
      then have "unat (of_nat (Suc j) :: addr) = 0" by simp
      then have "Suc j mod 2 ^ 64 = 0" unfolding unat_of_nat by simp
      then show False using that Cons.prems by simp
    qed
    then show ?thesis by (simp add: 0 store_bytes_other)
  next
    case (Suc j)
    then show ?thesis using Cons.IH [of j "a + 1"] Cons.prems by (simp add: algebra_simps)
  qed
qed simp

lemma length_trampoline [simp]: "length (trampoline_bytes cb r) = 24"
  by (simp add: trampoline_bytes_def)

lemma trampoline_get:
  "i < 24 \<Longrightarrow> store_bytes a (trampoline_bytes cb r) mem (a + of_nat i) = trampoline_bytes cb r ! i"
  by (rule store_bytes_get) simp_all

lemma map_stored:
  assumes "n + k \<le> 24"
  shows "map (\<lambda>i. store_bytes a (trampoline_bytes cb r) mem (a + of_nat n + of_nat i)) [0..<k] =
    take k (drop n (trampoline_bytes cb r))"
  using assms trampoline_get [of "n + _" a cb r mem]
  by (intro nth_equalityI) (auto simp: add.assoc)

lemma run_stored_trampoline:
  "run_trampoline a (store_bytes a (trampoline_bytes cb r) mem) = Some (cb, r)"
proof -
  let ?m = "store_bytes a (trampoline_bytes cb r) mem"
  have byte: "?m (a + of_nat i) = trampoline_bytes cb r ! i" if "i < 24" for i
    using that by (rule trampoline_get)
  have b: "?m a = 0x49" "?m (a + 1) = 0xbb" "?m (a + 10) = 0xff" "?m (a + 11) = 0x25"
    "?m (a + 12) = 0" "?m (a + 13) = 0" "?m (a + 14) = 0" "?m (a + 15) = 0"
    using byte [of 0] byte [of 1] byte [of 10] byte [of 11] byte [of 12] byte [of 13] byte [of 14] byte [of 15]
    by (simp_all add: trampoline_bytes_def nth_append)
  have fetch: "fetch_le (a + of_nat n) ?m = of_le_bytes (take 8 (drop n (trampoline_bytes cb r)))" if "n + 8 \<le> 24" for n
    using map_stored [OF that, of a cb r mem] by (simp add: fetch_le_def upt_rec)
  have "fetch_le (a + 2) ?m = cb" "fetch_le (a + 16) ?m = r"
    using fetch [of 2] fetch [of 16] by (simp_all add: trampoline_bytes_def)
  with b show ?thesis by (simp add: run_trampoline_def add.assoc)
qed



end
