(* ===== verification/Seccomp_Filter.thy ===== *)
theory Seccomp_Filter
  imports Cali_Prelude
begin

text \<open>
  The system call filters of \<^verbatim>\<open>libipc/seccomp.cpp\<close> and \<^verbatim>\<open>libipc/bpf\<close>: an interpreter for the
  classic BPF instructions the two filter programs use, the programs themselves, and a
  characterisation of the calls each of them lets through. The addresses of the text sections, which
  \<^verbatim>\<open>SeccompFilterBuilder\<close> patches into the program, are parameters.
\<close>

section \<open>Filter programs\<close>

text \<open>
  The data a filter sees, and the 32-bit loads from it.
\<close>

record seccomp_data =
  sd_nr :: u32
  sd_arch :: u32
  sd_ip :: u64
  sd_args :: "u64 list"

definition lower :: "u64 \<Rightarrow> u32" where "lower x = ucast x"

definition higher :: "u64 \<Rightarrow> u32" where "higher x = ucast (drop_bit 32 x)"

definition sd_arg :: "seccomp_data \<Rightarrow> nat \<Rightarrow> u64" where
  "sd_arg d i = (if i < length (sd_args d) then sd_args d ! i else 0)"

definition sd_load :: "seccomp_data \<Rightarrow> nat \<Rightarrow> u32" where
  "sd_load d off =
     (if off = 0 then sd_nr d
      else if off = 4 then sd_arch d
      else if off = 8 then lower (sd_ip d)
      else if off = 12 then higher (sd_ip d)
      else let i = (off - 16) div 8 in
        if (off - 16) mod 8 = 0 then lower (sd_arg d i) else higher (sd_arg d i))"

text \<open>
  Instructions with symbolic jump targets. All jumps go forward; a conditional jump falls through when
  its condition does not hold.
\<close>

datatype bpf_cond = Eq | Ne | Gt | Ge | Lt | Set

datatype bpf_label =
    L_mprotect | L_mprotect_write | L_mprotect_write_2 | L_mprotect_check_privileged
  | L_restrict_fd_arg1 | L_restrict_fd_arg2 | L_restrict_fd_arg3 | L_restrict_fd_arg5 | L_good | L_bad

datatype bpf_instr =
    Label bpf_label
  | Ld nat
  | Tax
  | Add_x
  | And_k u32
  | Jump bpf_cond u32 bpf_label
  | Jmp bpf_label
  | Ret u32

fun bpf_test :: "bpf_cond \<Rightarrow> u32 \<Rightarrow> u32 \<Rightarrow> bool" where
  "bpf_test Eq a k = (a = k)"
| "bpf_test Ne a k = (a \<noteq> k)"
| "bpf_test Gt a k = (k < a)"
| "bpf_test Ge a k = (k \<le> a)"
| "bpf_test Lt a k = (a < k)"
| "bpf_test Set a k = (a AND k \<noteq> 0)"

fun goto :: "bpf_label \<Rightarrow> bpf_instr list \<Rightarrow> bpf_instr list" where
  "goto l [] = []"
| "goto l (Label l' # is) = (if l = l' then is else goto l is)"
| "goto l (i # is) = goto l is"

lemma length_goto [termination_simp]: "length (goto l is) \<le> length is"
  by (induction l "is" rule: goto.induct) auto

lemma length_goto_Suc [termination_simp]: "length (goto l is) < Suc (length is)"
  by (simp add: length_goto le_imp_less_Suc)

fun bpf_run :: "seccomp_data \<Rightarrow> bpf_instr list \<Rightarrow> u32 \<Rightarrow> u32 \<Rightarrow> u32 option" where
  "bpf_run d [] a x = None"
| "bpf_run d (Label l # is) a x = bpf_run d is a x"
| "bpf_run d (Ld off # is) a x = bpf_run d is (sd_load d off) x"
| "bpf_run d (Tax # is) a x = bpf_run d is a a"
| "bpf_run d (Add_x # is) a x = bpf_run d is (a + x) x"
| "bpf_run d (And_k k # is) a x = bpf_run d is (a AND k) x"
| "bpf_run d (Jump c k l # is) a x = bpf_run d (if bpf_test c a k then goto l is else is) a x"
| "bpf_run d (Jmp l # is) a x = bpf_run d (goto l is) a x"
| "bpf_run d (Ret v # is) a x = Some v"

section \<open>The two programs\<close>

definition AUDIT_ARCH_X86_64 :: u32 where "AUDIT_ARCH_X86_64 = 0xc000003e"
definition SECCOMP_RET_ALLOW :: u32 where "SECCOMP_RET_ALLOW = 0x7fff0000"
definition SECCOMP_RET_TRAP :: u32 where "SECCOMP_RET_TRAP = 0x00030000"
definition SECCOMP_RET_KILL :: u32 where "SECCOMP_RET_KILL = 0"

record text_layout =
  start_text_mprotect :: u64
  stop_text_mprotect :: u64
  start_text :: u64
  stop_text :: u64
  fd_shared_memory :: u32

definition syscall_filter_mprotect :: "text_layout \<Rightarrow> bpf_instr list" where
  "syscall_filter_mprotect t =
    [Ld 4, Jump Ne AUDIT_ARCH_X86_64 L_bad,
     Ld 0,
     Jump Eq 10 L_mprotect,
     Jump Eq 32 L_restrict_fd_arg1, Jump Eq 33 L_restrict_fd_arg1, Jump Eq 292 L_restrict_fd_arg1,
     Jump Eq 1 L_restrict_fd_arg1, Jump Eq 20 L_restrict_fd_arg1, Jump Eq 296 L_restrict_fd_arg1,
     Jump Eq 40 L_restrict_fd_arg1,
     Jump Eq 275 L_restrict_fd_arg3, Jump Eq 276 L_restrict_fd_arg2, Jump Eq 9 L_restrict_fd_arg5,
     Jmp L_good,
     Label L_mprotect,
     Ld 32, Jump Set 2 L_mprotect_write, Ret SECCOMP_RET_ALLOW,
     Label L_mprotect_write,
     Ld 20, And_k 0xffffff00, Jump Eq 0x00003f00 L_mprotect_check_privileged,
     Ld 20, Jump Gt (higher (stop_text t)) L_good, Jump Lt (higher (stop_text t)) L_mprotect_write_2,
     Ld 16, Jump Ge (lower (stop_text t)) L_good,
     Label L_mprotect_write_2,
     Ld 20, Tax, Ld 28, Add_x, Jump Lt (higher (start_text t)) L_good,
     Jmp L_bad,
     Label L_mprotect_check_privileged,
     Ld 12, Jump Ne (higher (start_text_mprotect t)) L_bad,
     Ld 8, Jump Lt (lower (start_text_mprotect t)) L_bad, Jump Gt (lower (stop_text_mprotect t)) L_bad,
     Jmp L_good,
     Label L_restrict_fd_arg1, Ld 16, Jump Eq (fd_shared_memory t) L_bad, Jmp L_good,
     Label L_restrict_fd_arg2, Ld 24, Jump Eq (fd_shared_memory t) L_bad, Jmp L_good,
     Label L_restrict_fd_arg3, Ld 32, Jump Eq (fd_shared_memory t) L_bad, Jmp L_good,
     Label L_restrict_fd_arg5, Ld 48, Jump Eq (fd_shared_memory t) L_bad, Jmp L_good,
     Label L_good, Ret SECCOMP_RET_ALLOW,
     Label L_bad, Ret SECCOMP_RET_TRAP, Ret SECCOMP_RET_KILL]"

definition syscall_filter_sequential :: "bpf_instr list" where
  "syscall_filter_sequential =
    [Ld 4, Jump Ne AUDIT_ARCH_X86_64 L_bad,
     Ld 0, Jump Eq 56 L_bad, Jump Eq 57 L_bad, Jump Eq 58 L_bad, Jmp L_good,
     Label L_good, Ret SECCOMP_RET_ALLOW,
     Label L_bad, Ret SECCOMP_RET_TRAP, Ret SECCOMP_RET_KILL]"

text \<open>
  The constructor of \<^verbatim>\<open>SeccompFilterBuilder\<close> refuses a text section that crosses a 32-bit boundary.
\<close>

definition SeccompFilterBuilder_new :: "text_layout \<Rightarrow> bpf_instr list outcome" where
  "SeccompFilterBuilder_new t =
     (if higher (start_text_mprotect t) \<noteq> higher (stop_text_mprotect t) then Inl (Process_exit 1)
      else Inr (syscall_filter_mprotect t))"

section \<open>What the filters let through\<close>

definition allows :: "bpf_instr list \<Rightarrow> seccomp_data \<Rightarrow> bool" where
  "allows prog d \<longleftrightarrow> bpf_run d prog 0 0 = Some SECCOMP_RET_ALLOW"

lemma sd_load_simps [simp]:
  "sd_load d 0 = sd_nr d" "sd_load d 4 = sd_arch d" "sd_load d 8 = lower (sd_ip d)" "sd_load d 12 = higher (sd_ip d)"
  "sd_load d 16 = lower (sd_arg d 0)" "sd_load d 20 = higher (sd_arg d 0)" "sd_load d 24 = lower (sd_arg d 1)"
  "sd_load d 28 = higher (sd_arg d 1)" "sd_load d 32 = lower (sd_arg d 2)" "sd_load d 48 = lower (sd_arg d 4)"
  by (simp_all add: sd_load_def Let_def)

lemma ret_distinct [simp]:
  "SECCOMP_RET_TRAP \<noteq> SECCOMP_RET_ALLOW" "SECCOMP_RET_KILL \<noteq> SECCOMP_RET_ALLOW"
  by (simp_all add: SECCOMP_RET_TRAP_def SECCOMP_RET_ALLOW_def SECCOMP_RET_KILL_def)

text \<open>
  The filter of the sequential mode lets a call through exactly when it is made with the x86-64
  calling convention and is none of clone, fork and vfork.
\<close>

theorem syscall_filter_sequential_allows:
  "allows syscall_filter_sequential d \<longleftrightarrow>
     sd_arch d = AUDIT_ARCH_X86_64 \<and> sd_nr d \<notin> {56, 57, 58}"
  by (auto simp: allows_def syscall_filter_sequential_def)

text \<open>
  What the comments of the program state: a write permission on shared memory only from the
  privileged section, never on the program text, and no way to write through or duplicate the
  descriptor of the segment.
\<close>

definition shm_address :: "u64 \<Rightarrow> bool" where
  "shm_address a \<longleftrightarrow> higher a AND 0xffffff00 = 0x3f00"

definition mprotect_allowed :: "text_layout \<Rightarrow> seccomp_data \<Rightarrow> bool" where
  "mprotect_allowed t d =
     (if lower (sd_arg d 2) AND 2 = 0 then True
      else if shm_address (sd_arg d 0)
      then higher (sd_ip d) = higher (start_text_mprotect t) \<and>
        lower (start_text_mprotect t) \<le> lower (sd_ip d) \<and> lower (sd_ip d) \<le> lower (stop_text_mprotect t)
      else
        higher (stop_text t) < higher (sd_arg d 0) \<or>
        higher (sd_arg d 0) = higher (stop_text t) \<and> lower (stop_text t) \<le> lower (sd_arg d 0) \<or>
        higher (sd_arg d 1) + higher (sd_arg d 0) < higher (start_text t))"

definition fd_arg :: "u32 \<Rightarrow> nat option" where
  "fd_arg nr =
     (if nr \<in> {32, 33, 292, 1, 20, 296, 40} then Some 0
      else if nr = 275 then Some 2 else if nr = 276 then Some 1 else if nr = 9 then Some 4 else None)"

lemma fd_arg_cases:
  obtains "nr = 10" | "nr \<in> {32, 33, 292, 1, 20, 296, 40}" | "nr = 275" | "nr = 276" | "nr = 9"
    | "nr \<noteq> 10" "nr \<noteq> 275" "nr \<noteq> 276" "nr \<noteq> 9" "nr \<notin> {32, 33, 292, 1, 20, 296, 40}" "fd_arg nr = None"
  by (auto simp: fd_arg_def)

text \<open>
  The part of the program that checks an \<^verbatim>\<open>mprotect\<close>.
\<close>

lemma mprotect_part:
  assumes "sd_arch d = AUDIT_ARCH_X86_64" and "sd_nr d = 10"
  shows "allows (syscall_filter_mprotect t) d \<longleftrightarrow> mprotect_allowed t d"
proof (cases "lower (sd_arg d 2) AND 2 = 0")
  case True
  with assms show ?thesis by (simp add: allows_def syscall_filter_mprotect_def mprotect_allowed_def)
next
  case False
  show ?thesis
  proof (cases "shm_address (sd_arg d 0)")
    case True
    with False assms show ?thesis
      by (auto simp: allows_def syscall_filter_mprotect_def mprotect_allowed_def shm_address_def not_less)
  next
    case shm: False
    consider "higher (stop_text t) < higher (sd_arg d 0)" | "higher (sd_arg d 0) < higher (stop_text t)"
      | "higher (sd_arg d 0) = higher (stop_text t)" by fastforce
    then show ?thesis
      by cases (use False shm assms in \<open>auto simp: allows_def syscall_filter_mprotect_def mprotect_allowed_def
          shm_address_def not_less not_le\<close>)
  qed
qed


text \<open>
  The comment restricts a request to make memory writable that covers the shared segment, by its start
  or by its end, to instruction pointers in the half-open privileged section. The program looks only at the start
  address, and admits the address at which the section ends: a request that begins below the shared region and reaches
  into it passes from anywhere when the program text lies below 4 GB.
\<close>

theorem mprotect_below_segment_allowed:
  assumes "sd_arch d = AUDIT_ARCH_X86_64" and "sd_nr d = 10"
    and "sd_arg d 0 = 0x3effffffe000" and "sd_arg d 1 = 0x4000" and "higher (stop_text t) = 0"
  shows "allows (syscall_filter_mprotect t) d \<and> shm_address (sd_arg d 0 + sd_arg d 1 - 1)"
proof -
  have "higher (sd_arg d 0) = 0x3eff" using assms(3) by (simp add: higher_def)
  then have "mprotect_allowed t d" using assms(5) by (simp add: mprotect_allowed_def shm_address_def)
  with mprotect_part [OF assms(1,2)] show ?thesis
    using assms(3,4) by (simp add: shm_address_def higher_def)
qed

definition example_layout :: text_layout where
  "example_layout = \<lparr>start_text_mprotect = 0x401000, stop_text_mprotect = 0x402000, start_text = 0x400000,
     stop_text = 0x500000, fd_shared_memory = 1022\<rparr>"

definition example_mprotect :: seccomp_data where
  "example_mprotect = \<lparr>sd_nr = 10, sd_arch = AUDIT_ARCH_X86_64, sd_ip = 0x480000,
     sd_args = [0x3effffffe000, 0x4000, 3, 0, 0, 0]\<rparr>"

theorem mprotect_below_segment_allowed_witness:
  "allows (syscall_filter_mprotect example_layout) example_mprotect \<and>
   shm_address (sd_arg example_mprotect 0 + sd_arg example_mprotect 1 - 1) \<and>
   \<not> shm_address (sd_arg example_mprotect 0)"
  using mprotect_below_segment_allowed [of example_mprotect example_layout]
  by (simp add: example_mprotect_def example_layout_def sd_arg_def higher_def shm_address_def)

end
