(* ===== verification/Mappings.thy ===== *)
theory Mappings
  imports Shm_Region
begin

text \<open>
  Sharing of the global variables of the library (\<^verbatim>\<open>libipc/mappings.cpp\<close>): the linker
  collects them in one section, whose pages are replaced by a shared mapping before the fork.
  Addresses are 64-bit words; the state is the memory of the process and which of its addresses are backed by a
  shared mapping. The positions of the linker symbols are parameters.
\<close>

section \<open>Definitions\<close>

definition page :: "u64 \<Rightarrow> addr \<Rightarrow> addr" where
  "page pagesize ptr = (NOT (pagesize - 1)) AND ptr"

definition upper_page :: "u64 \<Rightarrow> u64 \<Rightarrow> u64" where
  "upper_page pagesize ptr = ((ptr - 1) AND NOT (pagesize - 1)) + pagesize"

record vm =
  vm_bytes :: "addr \<Rightarrow> u8"
  vm_shared :: "addr \<Rightarrow> bool"

definition in_block :: "addr \<Rightarrow> nat \<Rightarrow> addr \<Rightarrow> bool" where
  "in_block start len a \<longleftrightarrow> unat (a - start) < len"

text \<open>
  \<^verbatim>\<open>my_memcpy\<close> copies whole words of eight bytes; here from a saved copy of the memory.
\<close>

definition my_memcpy :: "addr \<Rightarrow> (addr \<Rightarrow> u8) \<Rightarrow> nat \<Rightarrow> (addr \<Rightarrow> u8) \<Rightarrow> addr \<Rightarrow> u8" where
  "my_memcpy dest src len mem = (\<lambda>a. if in_block dest (len div 8 * 8) a then src a else mem a)"

text \<open>
  \<^verbatim>\<open>remap_data_shared\<close>: the block is saved, replaced by a fresh shared mapping, which reads as zero, and
  restored. \<^verbatim>\<open>MAP_FIXED\<close> at an address inside the program succeeds.
\<close>

definition remap_data_shared :: "addr \<Rightarrow> nat \<Rightarrow> vm \<Rightarrow> vm" where
  "remap_data_shared a len s =
     (let tmp = vm_bytes s;
          s = s\<lparr>vm_bytes := (\<lambda>x. if in_block a len x then 0 else vm_bytes s x),
                vm_shared := (\<lambda>x. in_block a len x \<or> vm_shared s x)\<rparr>
      in s\<lparr>vm_bytes := my_memcpy a tmp len (vm_bytes s)\<rparr>)"

definition assertNotShared :: "addr \<Rightarrow> nat \<Rightarrow> addr \<Rightarrow> unit outcome" where
  "assertNotShared start len ptr =
     (if start \<le> ptr \<and> unat ptr < unat start + len
      then Inl (Runtime_error ''Compiler error: Symbol must not be shared'') else Inr ())"

definition remap_library_segments ::
    "u64 \<Rightarrow> addr \<Rightarrow> addr \<Rightarrow> addr \<Rightarrow> addr \<Rightarrow> addr \<Rightarrow> vm \<Rightarrow> vm outcome" where
  "remap_library_segments pagesize start_shm_data last_shm_data_variable stop_shm_data fd_symbol hook_symbol s =
     (if last_shm_data_variable < stop_shm_data - 1
      then Inl (Runtime_error ''__last_shm_data_variable is not the last symbol in the shared memory section'')
      else if start_shm_data \<noteq> last_shm_data_variable \<and> start_shm_data \<noteq> stop_shm_data then
        let shm_data_page = page pagesize start_shm_data;
            sz = unat (upper_page pagesize (last_shm_data_variable - shm_data_page)) in
        bind_outcome (assertNotShared shm_data_page sz fd_symbol) (\<lambda>_.
        bind_outcome (assertNotShared shm_data_page sz hook_symbol) (\<lambda>_.
          Inr (remap_data_shared shm_data_page sz s)))
      else Inr s)"

section \<open>Rounding to pages\<close>

lemma not_mask_minus_exp: "NOT (2 ^ k - 1 :: 'a::len word) = - (2 ^ k)"
  by (simp add: minus_exp_eq_not_mask mask_eq_exp_minus_1)

lemma unat_page: "unat (page (2 ^ k) ptr) = unat ptr div 2 ^ k * 2 ^ k"
  unfolding page_def not_mask_minus_exp by (subst and.commute) (rule unat_and_minus_exp)

lemma page_le: "page (2 ^ k) ptr \<le> ptr"
  by (simp add: word_le_nat_alt unat_page)

lemma unat_upper_page:
  assumes "k < 64" and "0 < unat p" and "unat p \<le> 2 ^ 64 - 2 ^ k - 1"
  shows "unat (upper_page (2 ^ k) p) = (unat p - 1) div 2 ^ k * 2 ^ k + 2 ^ k"
proof -
  have lt: "(2::nat) ^ k < 2 ^ 64" using assms(1) by (intro power_strict_increasing) auto
  have p1: "unat (p - 1) = unat p - 1" using assms(2) by (simp add: unat_sub word_le_nat_alt)
  have ps: "unat (2 ^ k :: u64) = 2 ^ k"
  proof -
    have "unat (of_nat (2 ^ k) :: u64) = 2 ^ k" unfolding unat_of_nat using lt by simp
    then show ?thesis by simp
  qed
  have "(unat p - 1) div 2 ^ k * 2 ^ k \<le> unat p - 1" by simp
  then have "(unat p - 1) div 2 ^ k * 2 ^ k + 2 ^ k < 2 ^ 64" using assms(2,3) lt by linarith
  then show ?thesis
    unfolding upper_page_def not_mask_minus_exp
    by (simp only: unat_word_ariths(1) unat_and_minus_exp p1 ps) simp
qed

lemma upper_page_bounds:
  assumes "k < 64" and "0 < unat p" and "unat p \<le> 2 ^ 64 - 2 ^ k - 1"
  shows "unat p \<le> unat (upper_page (2 ^ k) p)" and "unat (upper_page (2 ^ k) p) < unat p + 2 ^ k"
    and "2 ^ k dvd unat (upper_page (2 ^ k) p)"
proof -
  let ?q = "unat p - 1"
  have "?q mod 2 ^ k < (2::nat) ^ k" by simp
  moreover have "?q div 2 ^ k * 2 ^ k + ?q mod 2 ^ k = ?q" by (rule div_mult_mod_eq)
  ultimately show "unat p \<le> unat (upper_page (2 ^ k) p)" "unat (upper_page (2 ^ k) p) < unat p + 2 ^ k"
    unfolding unat_upper_page [OF assms] using assms(2) by linarith+
  show "2 ^ k dvd unat (upper_page (2 ^ k) p)" unfolding unat_upper_page [OF assms] by simp
qed

section \<open>Sharing the section\<close>

lemma remap_data_shared_bytes:
  assumes "8 dvd len"
  shows "vm_bytes (remap_data_shared a len s) = vm_bytes s"
    and "vm_shared (remap_data_shared a len s) x \<longleftrightarrow> in_block a len x \<or> vm_shared s x"
  using assms by (auto simp: remap_data_shared_def my_memcpy_def Let_def fun_eq_iff)



end
