(* ===== verification/Base_Graph.thy ===== *)
theory Base_Graph
  imports Cali_Prelude
begin

text \<open>
  The directed multigraph of the linker (\<^verbatim>\<open>cali-linker/graph/unique_vector.h\<close> and
  \<^verbatim>\<open>cali-linker/graph/basegraph.h\<close>): adjacency lists in both directions, a stack of free vertex
  numbers and counters of 64 bits. The abstract graph is the set of edges; every operation is shown to refine its
  set-level counterpart and to keep the two directions consistent.
\<close>

section \<open>Vectors as sets\<close>

definition uv_insert :: "'a \<Rightarrow> 'a list \<Rightarrow> bool \<times> 'a list" where
  "uv_insert x vec = (if x \<in> set vec then (False, vec) else (True, vec @ [x]))"

definition uv_insert_unique :: "'a \<Rightarrow> 'a list \<Rightarrow> bool \<times> 'a list" where
  "uv_insert_unique x vec = (True, vec @ [x])"

fun uv_remove :: "'a \<Rightarrow> 'a list \<Rightarrow> bool \<times> 'a list" where
  "uv_remove x [] = (False, [])"
| "uv_remove x (y # vec) = (if y = x then (True, vec) else (case uv_remove x vec of (b, vec') \<Rightarrow> (b, y # vec')))"

lemma uv_insert_spec:
  "set (snd (uv_insert x vec)) = insert x (set vec)" "fst (uv_insert x vec) \<longleftrightarrow> x \<notin> set vec"
  "distinct vec \<Longrightarrow> distinct (snd (uv_insert x vec))"
  by (auto simp: uv_insert_def)

lemma uv_remove_eq: "uv_remove x vec = (x \<in> set vec, remove1 x vec)"
  by (induction vec) auto

section \<open>Graphs\<close>

record 'e Edge =
  source :: nat
  target :: nat
  edge_property :: 'e

record ('v, 'e) VertexImpl =
  vout_edges :: "'e Edge list"
  vin_edges :: "'e Edge list"
  vertex_property :: 'v
  vempty :: bool

record ('v, 'e) BaseGraph =
  graph_size :: u64
  edge_size :: u64
  max_capacity :: u64
  free_vertices :: "nat list"
  vertices :: "('v, 'e) VertexImpl list"

definition empty_graph :: "('v, 'e) BaseGraph" where
  "empty_graph = \<lparr>graph_size = 0, edge_size = 0, max_capacity = 0, free_vertices = [], vertices = []\<rparr>"

definition capacity :: "('v, 'e) BaseGraph \<Rightarrow> nat" where
  "capacity g = length (vertices g)"

definition out_edges :: "('v, 'e) BaseGraph \<Rightarrow> nat \<Rightarrow> 'e Edge list" where
  "out_edges g v = (if v < capacity g then vout_edges (vertices g ! v) else [])"

definition in_edges :: "('v, 'e) BaseGraph \<Rightarrow> nat \<Rightarrow> 'e Edge list" where
  "in_edges g v = (if v < capacity g then vin_edges (vertices g ! v) else [])"

definition vertex_set :: "('v, 'e) BaseGraph \<Rightarrow> nat list" where
  "vertex_set g = [0..<capacity g]"

definition upd_vertex :: "nat \<Rightarrow> (('v, 'e) VertexImpl \<Rightarrow> ('v, 'e) VertexImpl) \<Rightarrow> ('v, 'e) BaseGraph \<Rightarrow> ('v, 'e) BaseGraph" where
  "upd_vertex v f g = g\<lparr>vertices := (vertices g)[v := f (vertices g ! v)]\<rparr>"

text \<open>
  \<^verbatim>\<open>add_vertex\<close> reuses the free number on top of the stack. Numbers on the stack are compared with
  \<^verbatim>\<open><=\<close>; one that equals the capacity would be written out of bounds.
\<close>

fun pop_free :: "nat \<Rightarrow> nat list \<Rightarrow> (nat option \<times> nat list) outcome" where
  "pop_free n [] = Inr (None, [])"
| "pop_free n (v # st) =
     (if v < n then Inr (Some v, st) else if v = n then Inl Undefined_behaviour else pop_free n st)"

definition add_vertex :: "'v \<Rightarrow> ('v, 'e) BaseGraph \<Rightarrow> (nat \<times> ('v, 'e) BaseGraph) outcome" where
  "add_vertex prop g =
     (let g = g\<lparr>graph_size := graph_size g + 1\<rparr> in
      bind_outcome (pop_free (capacity g) (free_vertices g)) (\<lambda>(r, st).
        let g = g\<lparr>free_vertices := st\<rparr> in
        case r of
          Some v \<Rightarrow> Inr (v, upd_vertex v (\<lambda>x. x\<lparr>vempty := False, vertex_property := prop\<rparr>) g)
        | None \<Rightarrow> Inr (capacity g, g\<lparr>vertices := vertices g @
             [\<lparr>vout_edges = [], vin_edges = [], vertex_property = prop, vempty = False\<rparr>]\<rparr>)))"

definition add_edge :: "nat \<Rightarrow> nat \<Rightarrow> 'e \<Rightarrow> ('v, 'e) BaseGraph \<Rightarrow> ('v, 'e) BaseGraph outcome" where
  "add_edge v1 v2 prop g =
     (if v1 < capacity g \<and> v2 < capacity g then
        let e = \<lparr>source = v1, target = v2, edge_property = prop\<rparr>;
            (new, outs) = uv_insert e (vout_edges (vertices g ! v1));
            g = upd_vertex v1 (\<lambda>x. x\<lparr>vout_edges := outs\<rparr>) g
        in if new then
             let (new2, ins) = uv_insert e (vin_edges (vertices g ! v2));
                 g = upd_vertex v2 (\<lambda>x. x\<lparr>vin_edges := ins\<rparr>) g
             in Inr (if new2 then g\<lparr>edge_size := edge_size g + 1\<rparr> else g)
           else Inr g
      else Inl Undefined_behaviour)"

definition add_edge_unique :: "nat \<Rightarrow> nat \<Rightarrow> 'e \<Rightarrow> ('v, 'e) BaseGraph \<Rightarrow> ('v, 'e) BaseGraph outcome" where
  "add_edge_unique v1 v2 prop g =
     (if v1 < capacity g \<and> v2 < capacity g then
        let e = \<lparr>source = v1, target = v2, edge_property = prop\<rparr>;
            g = upd_vertex v1 (\<lambda>x. x\<lparr>vout_edges := snd (uv_insert_unique e (vout_edges x))\<rparr>) g;
            g = upd_vertex v2 (\<lambda>x. x\<lparr>vin_edges := snd (uv_insert_unique e (vin_edges x))\<rparr>) g
        in Inr (g\<lparr>edge_size := edge_size g + 1\<rparr>)
      else Inl Undefined_behaviour)"

text \<open>
  \<^verbatim>\<open>remove_edge\<close> removes from both lists (\<^verbatim>\<open>&\<close> evaluates both sides).
\<close>

definition drop_out :: "'e Edge \<Rightarrow> ('v, 'e) BaseGraph \<Rightarrow> ('v, 'e) BaseGraph" where
  "drop_out e g = upd_vertex (source e) (\<lambda>x. x\<lparr>vout_edges := snd (uv_remove e (vout_edges x))\<rparr>) g"

definition drop_in :: "'e Edge \<Rightarrow> ('v, 'e) BaseGraph \<Rightarrow> ('v, 'e) BaseGraph" where
  "drop_in e g = upd_vertex (target e) (\<lambda>x. x\<lparr>vin_edges := snd (uv_remove e (vin_edges x))\<rparr>) g"

definition remove_edge :: "'e Edge \<Rightarrow> ('v, 'e) BaseGraph \<Rightarrow> ('v, 'e) BaseGraph outcome" where
  "remove_edge e g =
     (if source e < capacity g \<and> target e < capacity g then
        let both = (fst (uv_remove e (vout_edges (vertices g ! source e))) \<and>
                    fst (uv_remove e (vin_edges (vertices g ! target e))));
            g = drop_in e (drop_out e g)
        in Inr (if both then g\<lparr>edge_size := edge_size g - 1\<rparr> else g)
      else Inl Undefined_behaviour)"

definition remove_vertex :: "nat \<Rightarrow> ('v, 'e) BaseGraph \<Rightarrow> ('v, 'e) BaseGraph outcome" where
  "remove_vertex v g =
     (if v < capacity g then
        let g = g\<lparr>edge_size := edge_size g - of_nat (length (in_edges g v)) - of_nat (length (out_edges g v))\<rparr>;
            g = fold drop_out (in_edges g v) g;
            g = fold drop_in (out_edges g v) g;
            g = upd_vertex v (\<lambda>x. x\<lparr>vin_edges := [], vout_edges := [], vempty := True\<rparr>) g
        in Inr (g\<lparr>graph_size := graph_size g - 1, free_vertices := v # free_vertices g\<rparr>)
      else Inl Undefined_behaviour)"

section \<open>The abstract graph\<close>

text \<open>
  A graph represents a set of edges when its lists hold, without repetition, the edges of the set by
  source and by target.
\<close>

definition repr :: "('v, 'e) BaseGraph \<Rightarrow> 'e Edge set \<Rightarrow> bool" where
  "repr g E \<longleftrightarrow> finite E \<and> (\<forall>e\<in>E. source e < capacity g \<and> target e < capacity g) \<and>
     (\<forall>v. distinct (out_edges g v) \<and> set (out_edges g v) = {e \<in> E. source e = v}) \<and>
     (\<forall>v. distinct (in_edges g v) \<and> set (in_edges g v) = {e \<in> E. target e = v})"

definition edges_ok :: "('v, 'e) BaseGraph \<Rightarrow> bool" where
  "edges_ok g \<longleftrightarrow> (\<forall>v. \<forall>e\<in>set (out_edges g v) \<union> set (in_edges g v). source e < capacity g \<and> target e < capacity g)"

lemma repr_edges_ok: "repr g E \<Longrightarrow> edges_ok g"
  by (auto simp: repr_def edges_ok_def)

definition is_empty :: "('v, 'e) BaseGraph \<Rightarrow> nat \<Rightarrow> bool" where
  "is_empty g v \<longleftrightarrow> v < capacity g \<and> vempty (vertices g ! v)"

definition free_inv :: "('v, 'e) BaseGraph \<Rightarrow> bool" where
  "free_inv g \<longleftrightarrow> distinct (free_vertices g) \<and> set (free_vertices g) = {v. is_empty g v}"

named_theorems graph_simps \<open>adjacency after an update\<close>

lemma capacity_upd [simp]: "capacity (upd_vertex v f g) = capacity g"
  by (simp add: upd_vertex_def capacity_def)

lemma capacity_fields [simp]:
  "capacity (g\<lparr>edge_size := x\<rparr>) = capacity g" "capacity (g\<lparr>graph_size := y\<rparr>) = capacity g"
  "capacity (g\<lparr>free_vertices := z\<rparr>) = capacity g"
  by (simp_all add: capacity_def)

lemma edges_fields [simp]:
  "out_edges (g\<lparr>edge_size := x\<rparr>) = out_edges g" "in_edges (g\<lparr>edge_size := x\<rparr>) = in_edges g"
  "out_edges (g\<lparr>graph_size := y\<rparr>) = out_edges g" "in_edges (g\<lparr>graph_size := y\<rparr>) = in_edges g"
  "out_edges (g\<lparr>free_vertices := z\<rparr>) = out_edges g" "in_edges (g\<lparr>free_vertices := z\<rparr>) = in_edges g"
  by (simp_all add: out_edges_def in_edges_def fun_eq_iff)

lemma repr_fields [simp]:
  "repr (g\<lparr>edge_size := x\<rparr>) E = repr g E" "repr (g\<lparr>graph_size := y\<rparr>) E = repr g E"
  "repr (g\<lparr>free_vertices := z\<rparr>) E = repr g E"
  by (simp_all add: repr_def)

lemma edges_upd [graph_simps]:
  "out_edges (upd_vertex v f g) w = (if v = w \<and> w < capacity g then vout_edges (f (vertices g ! w)) else out_edges g w)"
  "in_edges (upd_vertex v f g) w = (if v = w \<and> w < capacity g then vin_edges (f (vertices g ! w)) else in_edges g w)"
  unfolding out_edges_def in_edges_def upd_vertex_def capacity_def by (simp_all add: nth_list_update)

lemma vout_edges_nth: "v < capacity g \<Longrightarrow> vout_edges (vertices g ! v) = out_edges g v"
  and vin_edges_nth: "v < capacity g \<Longrightarrow> vin_edges (vertices g ! v) = in_edges g v"
  by (simp_all add: out_edges_def in_edges_def)

lemma drop_edges [graph_simps]:
  "out_edges (drop_out e g) w = (if w = source e then remove1 e (out_edges g w) else out_edges g w)"
  "in_edges (drop_out e g) w = in_edges g w"
  "in_edges (drop_in e g) w = (if w = target e then remove1 e (in_edges g w) else in_edges g w)"
  "out_edges (drop_in e g) w = out_edges g w"
  unfolding drop_out_def drop_in_def edges_upd uv_remove_eq by (auto simp: out_edges_def in_edges_def)

lemma drop_capacity [simp]: "capacity (drop_out e g) = capacity g" "capacity (drop_in e g) = capacity g"
  by (simp_all add: drop_out_def drop_in_def)

lemma is_empty_upd:
  "is_empty (upd_vertex v f g) w = (if v = w \<and> w < capacity g then vempty (f (vertices g ! w)) else is_empty g w)"
  by (cases "v = w") (simp_all add: is_empty_def upd_vertex_def capacity_def)

lemma is_empty_upd_keeps: "(\<And>x. vempty (f x) = vempty x) \<Longrightarrow> is_empty (upd_vertex v f g) = is_empty g"
  unfolding fun_eq_iff is_empty_upd by (simp add: is_empty_def)

lemma is_empty_fields [simp]:
  "is_empty (g\<lparr>edge_size := x\<rparr>) = is_empty g" "is_empty (g\<lparr>graph_size := y\<rparr>) = is_empty g"
  "is_empty (g\<lparr>free_vertices := z\<rparr>) = is_empty g"
  by (simp_all add: is_empty_def fun_eq_iff)

lemma vertex_property_upd [simp]:
  assumes "\<And>x. vertex_property (f x) = vertex_property x"
  shows "vertex_property (vertices (upd_vertex v f g) ! w) = vertex_property (vertices g ! w)"
  by (cases "v < length (vertices g)"; cases "v = w") (simp_all add: upd_vertex_def assms not_less list_update_beyond)

lemma add_edge_property: "add_edge v1 v2 l g = Inr g' \<Longrightarrow> vertex_property (vertices g' ! w) = vertex_property (vertices g ! w)"
  by (auto simp: add_edge_def Let_def split: if_splits prod.splits)

lemma fold_drop_property:
  "vertex_property (vertices (fold drop_out es g) ! w) = vertex_property (vertices g ! w)"
  "vertex_property (vertices (fold drop_in es g) ! w) = vertex_property (vertices g ! w)"
  by (induction es arbitrary: g) (simp_all add: drop_out_def drop_in_def)

lemma remove_vertex_property: "remove_vertex v g = Inr g' \<Longrightarrow> vertex_property (vertices g' ! w) = vertex_property (vertices g ! w)"
  by (auto simp: remove_vertex_def Let_def fold_drop_property split: if_splits)

lemma add_edge_step:
  assumes "repr g E" and "v1 < capacity g" and "v2 < capacity g"
    and e: "e = \<lparr>source = v1, target = v2, edge_property = prop\<rparr>"
  obtains g' where "add_edge v1 v2 prop g = Inr g'" "repr g' (insert e E)" "capacity g' = capacity g"
    "edge_size g' = (if e \<in> E then edge_size g else edge_size g + 1)"
    "graph_size g' = graph_size g" "free_vertices g' = free_vertices g" "\<And>v. is_empty g' v = is_empty g v"
proof (cases "e \<in> E")
  case True
  then have "e \<in> set (out_edges g v1)" using assms(1) by (simp add: repr_def e)
  with assms(2,3) have "add_edge v1 v2 prop g = Inr (upd_vertex v1 (\<lambda>x. x\<lparr>vout_edges := vout_edges (vertices g ! v1)\<rparr>) g)"
    by (simp add: add_edge_def uv_insert_def vout_edges_nth Let_def e)
  also have "upd_vertex v1 (\<lambda>x. x\<lparr>vout_edges := vout_edges (vertices g ! v1)\<rparr>) g = g"
    by (simp add: upd_vertex_def)
  finally show thesis using True assms(1) by (intro that [of g]) (simp_all add: insert_absorb)
next
  case False
  then have out: "e \<notin> set (out_edges g v1)" and inn: "e \<notin> set (in_edges g v2)"
    using assms(1) by (simp_all add: repr_def)
  let ?g1 = "upd_vertex v1 (\<lambda>x. x\<lparr>vout_edges := vout_edges (vertices g ! v1) @ [e]\<rparr>) g"
  let ?g = "(upd_vertex v2 (\<lambda>x. x\<lparr>vin_edges := vin_edges (vertices ?g1 ! v2) @ [e]\<rparr>) ?g1)\<lparr>edge_size := edge_size g + 1\<rparr>"
  have in1: "vin_edges (vertices ?g1 ! v2) = in_edges g v2"
    using assms(2,3) vin_edges_nth [of v2 ?g1] by (simp add: edges_upd vin_edges_nth)
  have run: "add_edge v1 v2 prop g = Inr ?g"
    using assms(2,3) out inn in1
    by (simp add: add_edge_def uv_insert_def vout_edges_nth Let_def e upd_vertex_def)
  have o: "out_edges ?g w = (if w = v1 then out_edges g w @ [e] else out_edges g w)" for w
    using assms(2,3) by (auto simp: edges_upd vout_edges_nth)
  have i: "in_edges ?g w = (if w = v2 then in_edges g w @ [e] else in_edges g w)" for w
    using assms(2,3) in1 by (auto simp: edges_upd vin_edges_nth)
  have cap: "capacity ?g = capacity g" by simp
  have re: "repr ?g (insert e E)"
    unfolding repr_def o i cap using assms(1-3) False e by (auto simp: repr_def)
  have ie: "is_empty ?g v = is_empty g v" for v
    by (simp add: is_empty_upd_keeps)
  have "edge_size ?g = (if e \<in> E then edge_size g else edge_size g + 1)" "graph_size ?g = graph_size g"
    "free_vertices ?g = free_vertices g"
    using False by (simp_all add: upd_vertex_def)
  then show thesis by (rule that [OF run re cap _ _ _ ie])
qed

lemma remove_edge_step:
  assumes "repr g E" and "e \<in> E"
  obtains g' where "remove_edge e g = Inr g'" "repr g' (E - {e})" "capacity g' = capacity g"
    "edge_size g' = edge_size g - 1" "graph_size g' = graph_size g" "free_vertices g' = free_vertices g"
    "\<And>v. is_empty g' v = is_empty g v"
proof -
  let ?g = "(drop_in e (drop_out e g))\<lparr>edge_size := edge_size (drop_in e (drop_out e g)) - 1\<rparr>"
  have "remove_edge e g = Inr ?g"
    using assms by (simp add: remove_edge_def uv_remove_eq repr_def vout_edges_nth vin_edges_nth Let_def)
  moreover have "repr ?g (E - {e})"
    using assms by (auto simp: repr_def graph_simps)
  moreover have "is_empty ?g v = is_empty g v" for v
    by (simp add: drop_in_def drop_out_def is_empty_upd_keeps)
  moreover have "edge_size ?g = edge_size g - 1" "graph_size ?g = graph_size g" "free_vertices ?g = free_vertices g"
    by (simp_all add: drop_in_def drop_out_def upd_vertex_def)
  ultimately show thesis by (intro that [of ?g]) (simp_all only: capacity_fields drop_capacity)
qed

text \<open>
  The two loops of \<^verbatim>\<open>remove_vertex\<close>.
\<close>

lemma drop_set:
  "distinct (out_edges g w) \<Longrightarrow> distinct (out_edges (drop_out e g) w)"
  "distinct (out_edges g w) \<Longrightarrow> set (out_edges (drop_out e g) w) = set (out_edges g w) - (if source e = w then {e} else {})"
  "distinct (in_edges g w) \<Longrightarrow> distinct (in_edges (drop_in e g) w)"
  "distinct (in_edges g w) \<Longrightarrow> set (in_edges (drop_in e g) w) = set (in_edges g w) - (if target e = w then {e} else {})"
  by (auto simp: graph_simps)

lemma fold_drop_keeps:
  "capacity (fold drop_out es g) = capacity g" "in_edges (fold drop_out es g) w = in_edges g w"
  "capacity (fold drop_in es g) = capacity g" "out_edges (fold drop_in es g) w = out_edges g w"
  by (induction es arbitrary: g) (simp_all add: graph_simps)

lemma fold_drop_out:
  assumes "distinct (out_edges g w)"
  shows "distinct (out_edges (fold drop_out es g) w)"
    and "set (out_edges (fold drop_out es g) w) = set (out_edges g w) - {e \<in> set es. source e = w}"
  using assms by (induction es arbitrary: g) (auto simp: drop_set)

lemma fold_drop_in:
  assumes "distinct (in_edges g w)"
  shows "distinct (in_edges (fold drop_in es g) w)"
    and "set (in_edges (fold drop_in es g) w) = set (in_edges g w) - {e \<in> set es. target e = w}"
  using assms by (induction es arbitrary: g) (auto simp: drop_set)

lemma fold_drop_fields:
  "edge_size (fold drop_out es g) = edge_size g" "graph_size (fold drop_out es g) = graph_size g"
  "free_vertices (fold drop_out es g) = free_vertices g" "is_empty (fold drop_out es g) w = is_empty g w"
  "edge_size (fold drop_in es g) = edge_size g" "graph_size (fold drop_in es g) = graph_size g"
  "free_vertices (fold drop_in es g) = free_vertices g" "is_empty (fold drop_in es g) w = is_empty g w"
proof -
  have keep: "edge_size (drop_out e g) = edge_size g" "graph_size (drop_out e g) = graph_size g"
    "free_vertices (drop_out e g) = free_vertices g" "is_empty (drop_out e g) w = is_empty g w"
    "edge_size (drop_in e g) = edge_size g" "graph_size (drop_in e g) = graph_size g"
    "free_vertices (drop_in e g) = free_vertices g" "is_empty (drop_in e g) w = is_empty g w" for e g
    by (simp_all add: drop_out_def drop_in_def is_empty_upd) (simp_all add: upd_vertex_def is_empty_def)
  show "edge_size (fold drop_out es g) = edge_size g" "graph_size (fold drop_out es g) = graph_size g"
    "free_vertices (fold drop_out es g) = free_vertices g" "is_empty (fold drop_out es g) w = is_empty g w"
    "edge_size (fold drop_in es g) = edge_size g" "graph_size (fold drop_in es g) = graph_size g"
    "free_vertices (fold drop_in es g) = free_vertices g" "is_empty (fold drop_in es g) w = is_empty g w"
    by (induction es arbitrary: g) (simp_all add: keep)
qed

lemma remove_vertex_step:
  assumes "repr g E" and "v < capacity g"
  obtains g' where "remove_vertex v g = Inr g'" "repr g' {e \<in> E. source e \<noteq> v \<and> target e \<noteq> v}"
    "capacity g' = capacity g" "graph_size g' = graph_size g - 1" "free_vertices g' = v # free_vertices g"
    "\<And>w. is_empty g' w \<longleftrightarrow> w = v \<or> is_empty g w"
    "edge_size g' = edge_size g - of_nat (card {e \<in> E. target e = v}) - of_nat (card {e \<in> E. source e = v})"
proof -
  let ?sz = "edge_size g - of_nat (length (in_edges g v)) - of_nat (length (out_edges g v))"
  let ?g1 = "fold drop_out (in_edges g v) (g\<lparr>edge_size := ?sz\<rparr>)"
  let ?g2 = "fold drop_in (out_edges ?g1 v) ?g1"
  let ?g3 = "upd_vertex v (\<lambda>x. x\<lparr>vin_edges := [], vout_edges := [], vempty := True\<rparr>) ?g2"
  let ?g = "?g3\<lparr>graph_size := graph_size ?g3 - 1, free_vertices := v # free_vertices ?g3\<rparr>"
  have run: "remove_vertex v g = Inr ?g" using assms(2) by (simp add: remove_vertex_def Let_def)
  have R: "distinct (out_edges g w)" "set (out_edges g w) = {e \<in> E. source e = w}"
    "distinct (in_edges g w)" "set (in_edges g w) = {e \<in> E. target e = w}" for w
    using assms(1) by (simp_all add: repr_def)
  note F = fold_drop_out fold_drop_in fold_drop_keeps fold_drop_fields
  have out: "set (out_edges ?g w) = {e \<in> E. source e \<noteq> v \<and> target e \<noteq> v \<and> source e = w}" "distinct (out_edges ?g w)" for w
    using assms(2) by (auto simp: edges_upd F R)
  have inn: "set (in_edges ?g w) = {e \<in> E. source e \<noteq> v \<and> target e \<noteq> v \<and> target e = w}" "distinct (in_edges ?g w)" for w
    using assms(2) by (auto simp: edges_upd F R)
  have cap: "capacity ?g = capacity g" by (simp add: F)
  have re: "repr ?g {e \<in> E. source e \<noteq> v \<and> target e \<noteq> v}"
    unfolding repr_def out(1) inn(1) cap using assms(1) out(2) inn(2) by (auto simp: repr_def)
  have ie: "is_empty ?g w \<longleftrightarrow> w = v \<or> is_empty g w" for w
    using assms(2) by (auto simp: is_empty_upd F)
  have es: "edge_size ?g = edge_size g - of_nat (card {e \<in> E. target e = v}) - of_nat (card {e \<in> E. source e = v})"
    using R [of v] by (simp add: upd_vertex_def F distinct_card [symmetric])
  have "graph_size ?g = graph_size g - 1" "free_vertices ?g = v # free_vertices g"
    by (simp_all add: upd_vertex_def F)
  then show thesis by (rule that [OF run re cap _ _ ie es])
qed

text \<open>
  The number taken from the stack of free vertices: under the invariant the stack holds exactly the empty vertices,
  all below the capacity, so the comparison with \<^verbatim>\<open><=\<close> never lets a bad number through.
\<close>

lemma pop_free_cons: "v < n \<Longrightarrow> pop_free n (v # st) = Inr (Some v, st)"
  by simp

lemma add_vertex_step:
  assumes "repr g E" and "free_inv g" and "\<And>v. is_empty g v \<Longrightarrow> out_edges g v = [] \<and> in_edges g v = []"
  obtains v g' where "add_vertex prop g = Inr (v, g')" "repr g' E" "free_inv g'" "v < capacity g'"
    "\<not> is_empty g' v" "v \<ge> capacity g \<or> is_empty g v" "vertex_property (vertices g' ! v) = prop"
    "out_edges g' v = []" "in_edges g' v = []" "graph_size g' = graph_size g + 1" "edge_size g' = edge_size g"
    "\<And>w. is_empty g' w \<longleftrightarrow> is_empty g w \<and> w \<noteq> v" "\<And>w. w < capacity g' \<longleftrightarrow> w < capacity g \<or> w = v"
proof (cases "free_vertices g")
  case Nil
  let ?g = "g\<lparr>graph_size := graph_size g + 1, free_vertices := [], vertices := vertices g @
    [\<lparr>vout_edges = [], vin_edges = [], vertex_property = prop, vempty = False\<rparr>]\<rparr>"
  have run: "add_vertex prop g = Inr (capacity g, ?g)" using Nil by (simp add: add_vertex_def Let_def capacity_def)
  have cap: "capacity ?g = Suc (capacity g)" by (simp add: capacity_def)
  have edges: "out_edges ?g w = out_edges g w" "in_edges ?g w = in_edges g w" for w
    by (auto simp: out_edges_def in_edges_def capacity_def nth_append less_Suc_eq)
  have ie: "is_empty ?g w = is_empty g w" for w
    by (auto simp: is_empty_def capacity_def nth_append less_Suc_eq)
  have "\<not> is_empty g (capacity g)" by (simp add: is_empty_def)
  then show thesis using assms Nil run cap edges ie
    by (intro that [OF run]) (auto simp: repr_def free_inv_def less_SucI out_edges_def in_edges_def capacity_def)
next
  case (Cons v st)
  let ?g = "upd_vertex v (\<lambda>x. x\<lparr>vempty := False, vertex_property := prop\<rparr>) (g\<lparr>graph_size := graph_size g + 1, free_vertices := st\<rparr>)"
  have v: "is_empty g v" "v < capacity g" using assms(2) Cons by (auto simp: free_inv_def is_empty_def)
  have run: "add_vertex prop g = Inr (v, ?g)" using Cons v by (simp add: add_vertex_def Let_def)
  have edges: "out_edges ?g w = out_edges g w" "in_edges ?g w = in_edges g w" for w
    by (simp_all add: edges_upd vout_edges_nth vin_edges_nth)
  have ie: "is_empty ?g w \<longleftrightarrow> is_empty g w \<and> w \<noteq> v" for w
    using v by (auto simp: is_empty_upd)
  have "free_vertices ?g = st" "graph_size ?g = graph_size g + 1" "edge_size ?g = edge_size g"
    "vertex_property (vertices ?g ! v) = prop"
    using v by (simp_all add: upd_vertex_def capacity_def)
  with assms Cons v edges ie show thesis
    by (intro that [OF run]) (auto simp: repr_def free_inv_def)
qed

section \<open>Histories\<close>

text \<open>
  The graphs a client can build, with the set of vertices and the set of edges it should have: vertices are removed
  and edges are added only for live vertices, and an edge is removed only when it is there.
\<close>

inductive graph_history :: "('v, 'e) BaseGraph \<Rightarrow> nat set \<Rightarrow> 'e Edge set \<Rightarrow> bool" where
  start: "graph_history empty_graph {} {}"
| vertex: "graph_history g V E \<Longrightarrow> add_vertex prop g = Inr (v, g') \<Longrightarrow> graph_history g' (insert v V) E"
| edge: "graph_history g V E \<Longrightarrow> v1 \<in> V \<Longrightarrow> v2 \<in> V \<Longrightarrow> add_edge v1 v2 prop g = Inr g' \<Longrightarrow>
    graph_history g' V (insert \<lparr>source = v1, target = v2, edge_property = prop\<rparr> E)"
| drop_edge: "graph_history g V E \<Longrightarrow> e \<in> E \<Longrightarrow> remove_edge e g = Inr g' \<Longrightarrow> graph_history g' V (E - {e})"
| drop_vertex: "graph_history g V E \<Longrightarrow> v \<in> V \<Longrightarrow> remove_vertex v g = Inr g' \<Longrightarrow>
    graph_history g' (V - {v}) {e \<in> E. source e \<noteq> v \<and> target e \<noteq> v}"

definition live :: "('v, 'e) BaseGraph \<Rightarrow> nat set" where
  "live g = {v. v < capacity g \<and> \<not> is_empty g v}"

definition graph_inv :: "('v, 'e) BaseGraph \<Rightarrow> nat set \<Rightarrow> 'e Edge set \<Rightarrow> bool" where
  "graph_inv g V E \<longleftrightarrow> repr g E \<and> free_inv g \<and> live g = V \<and> source ` E \<subseteq> V \<and> target ` E \<subseteq> V \<and>
     graph_size g = of_nat (card V)"

lemma graph_inv_isolated:
  assumes "graph_inv g V E" and "is_empty g v"
  shows "out_edges g v = [] \<and> in_edges g v = []"
proof -
  have "v \<notin> V" using assms by (auto simp: graph_inv_def live_def)
  then have "{e \<in> E. source e = v} = {}" "{e \<in> E. target e = v} = {}" using assms(1) by (auto simp: graph_inv_def)
  moreover have "set (out_edges g v) = {e \<in> E. source e = v}" "set (in_edges g v) = {e \<in> E. target e = v}"
    using assms(1) by (simp_all add: graph_inv_def repr_def)
  ultimately show ?thesis by (simp only: set_empty simp_thms)
qed

lemma live_finite: "finite (live g)"
  by (simp add: live_def)

lemma graph_inv_add_vertex:
  assumes inv: "graph_inv g V E"
  obtains v g' where "add_vertex prop g = Inr (v, g')" "graph_inv g' (insert v V) E" "v \<notin> V"
    "vertex_property (vertices g' ! v) = prop" "out_edges g' v = []" "in_edges g' v = []" "edge_size g' = edge_size g"
proof -
  from inv have inv': "repr g E" "free_inv g" by (simp_all add: graph_inv_def)
  obtain v g' where run: "add_vertex prop g = Inr (v, g')" and g': "repr g' E" "free_inv g'" "v < capacity g'"
    "\<not> is_empty g' v" "v \<ge> capacity g \<or> is_empty g v" and p: "vertex_property (vertices g' ! v) = prop"
    and o: "out_edges g' v = []" and i: "in_edges g' v = []" and n: "graph_size g' = graph_size g + 1"
    and m: "edge_size g' = edge_size g" and ie: "\<And>w. is_empty g' w \<longleftrightarrow> is_empty g w \<and> w \<noteq> v"
    and cap: "\<And>w. w < capacity g' \<longleftrightarrow> w < capacity g \<or> w = v"
    by (rule add_vertex_step [of g E "prop", OF inv' graph_inv_isolated [OF inv]], assumption) (rule that)
  have fresh: "v \<notin> V" using inv g'(5) by (auto simp: graph_inv_def live_def)
  moreover have "live g' = insert v V" using inv g'(4) ie cap by (auto simp: graph_inv_def live_def)
  moreover have "finite V" using inv live_finite [of g] by (simp add: graph_inv_def)
  ultimately have "graph_inv g' (insert v V) E" using inv g'(1,2) n by (auto simp: graph_inv_def)
  then show thesis by (rule that [OF run _ fresh p o i m])
qed

lemma graph_inv_add_edge:
  assumes inv: "graph_inv g V E" and "v1 \<in> V" "v2 \<in> V" and e: "e = \<lparr>source = v1, target = v2, edge_property = prop\<rparr>"
  obtains g' where "add_edge v1 v2 prop g = Inr g'" "graph_inv g' V (insert e E)"
    "edge_size g' = (if e \<in> E then edge_size g else edge_size g + 1)"
proof -
  have "repr g E" "v1 < capacity g" "v2 < capacity g" using assms by (auto simp: graph_inv_def live_def)
  then obtain g' where "add_edge v1 v2 prop g = Inr g'" "edge_size g' = (if e \<in> E then edge_size g else edge_size g + 1)"
    and g': "repr g' (insert e E)" "capacity g' = capacity g"
    "graph_size g' = graph_size g" "free_vertices g' = free_vertices g" "\<And>v. is_empty g' v = is_empty g v"
    using e by (rule add_edge_step) blast
  moreover have "graph_inv g' V (insert e E)" using assms g' by (simp add: graph_inv_def free_inv_def live_def)
  ultimately show thesis using that by blast
qed

lemma graph_inv_remove_edge:
  assumes inv: "graph_inv g V E" and "e \<in> E"
  obtains g' where "remove_edge e g = Inr g'" "graph_inv g' V (E - {e})" "edge_size g' = edge_size g - 1"
proof -
  have "repr g E" using inv by (simp add: graph_inv_def)
  then obtain g' where "remove_edge e g = Inr g'" "edge_size g' = edge_size g - 1"
    and g': "repr g' (E - {e})" "capacity g' = capacity g"
    "graph_size g' = graph_size g" "free_vertices g' = free_vertices g" "\<And>v. is_empty g' v = is_empty g v"
    using assms(2) by (rule remove_edge_step) blast
  moreover have "graph_inv g' V (E - {e})" using inv g' by (auto simp: graph_inv_def free_inv_def live_def)
  ultimately show thesis using that by blast
qed

lemma graph_inv_remove_vertex:
  assumes inv: "graph_inv g V E" and v: "v \<in> V"
  obtains g' where "remove_vertex v g = Inr g'"
    "graph_inv g' (V - {v}) {e \<in> E. source e \<noteq> v \<and> target e \<noteq> v}"
    "edge_size g' = edge_size g - of_nat (card {e \<in> E. target e = v}) - of_nat (card {e \<in> E. source e = v})"
proof -
  have nv: "\<not> is_empty g v" "v \<notin> set (free_vertices g)"
    using assms by (auto simp: graph_inv_def live_def free_inv_def)
  have "repr g E" "v < capacity g" using assms by (auto simp: graph_inv_def live_def)
  then obtain g' where *: "remove_vertex v g = Inr g'"
    "edge_size g' = edge_size g - of_nat (card {e \<in> E. target e = v}) - of_nat (card {e \<in> E. source e = v})"
    and g': "repr g' {e \<in> E. source e \<noteq> v \<and> target e \<noteq> v}" "capacity g' = capacity g"
      "graph_size g' = graph_size g - 1" "free_vertices g' = v # free_vertices g" "\<And>w. is_empty g' w \<longleftrightarrow> w = v \<or> is_empty g w"
    by (rule remove_vertex_step) blast
  have "live g' = V - {v}" using inv g'(2,5) by (auto simp: graph_inv_def live_def)
  moreover have "free_inv g'" using inv g'(4,5) nv by (auto simp: graph_inv_def free_inv_def)
  moreover have "finite V" "V \<noteq> {}" using inv v live_finite [of g] by (auto simp: graph_inv_def)
  then have "of_nat (card (V - {v})) = (of_nat (card V) - 1 :: u64)"
    using v by (simp add: of_nat_diff Suc_le_eq card_gt_0_iff)
  ultimately have "graph_inv g' (V - {v}) {e \<in> E. source e \<noteq> v \<and> target e \<noteq> v}"
    using inv g'(1,3) by (auto simp: graph_inv_def)
  with * show thesis using that by blast
qed

lemma graph_history_inv: "graph_history g V E \<Longrightarrow> graph_inv g V E"
proof (induction rule: graph_history.induct)
  case start
  show ?case by (simp add: graph_inv_def empty_graph_def repr_def free_inv_def live_def is_empty_def capacity_def out_edges_def in_edges_def)
next
  case (vertex g V E p v g')
  show ?case using vertex.IH by (rule graph_inv_add_vertex [of g V E p]) (use vertex.hyps in simp)
next
  case (edge g V E v1 v2 p g')
  show ?case using edge.IH edge.hyps(2,3) refl by (rule graph_inv_add_edge [of g V E v1 v2 _ p]) (use edge.hyps in simp)
next
  case (drop_edge g V E e g')
  show ?case using drop_edge.IH drop_edge.hyps(2) by (rule graph_inv_remove_edge) (use drop_edge.hyps in simp)
next
  case (drop_vertex g V E v g')
  show ?case using drop_vertex.IH drop_vertex.hyps(2) by (rule graph_inv_remove_vertex) (use drop_vertex.hyps in simp)
qed

section \<open>Properties\<close>


definition two_vertices :: "(char, char) BaseGraph" where
  "two_vertices = \<lparr>graph_size = 2, edge_size = 0, max_capacity = 0, free_vertices = [], vertices =
     [\<lparr>vout_edges = [], vin_edges = [], vertex_property = CHR ''a'', vempty = False\<rparr>,
      \<lparr>vout_edges = [], vin_edges = [], vertex_property = CHR ''b'', vempty = False\<rparr>]\<rparr>"

lemma two_vertices_history: "graph_history two_vertices {0, 1} {}"
proof -
  have "graph_history (snd (projr (add_vertex CHR ''a'' empty_graph))) {0} {}"
    by (rule graph_history.vertex [OF graph_history.start, of "CHR ''a''"]) (simp add: add_vertex_def empty_graph_def capacity_def Let_def)
  then have "graph_history two_vertices (insert 1 {0}) {}"
    by (rule graph_history.vertex [of _ _ _ "CHR ''b''"])
      (simp add: add_vertex_def empty_graph_def capacity_def Let_def two_vertices_def)
  then show ?thesis by (simp add: insert_commute)
qed


text \<open>
  Removing a live vertex never fails and removes exactly the edges at the vertex, but it lowers the edge counter by the
  number of incoming and of outgoing edges, so every self-loop is counted twice: when the counter was exact before,
  it is below the number of remaining edges by the number of self-loops at the vertex.
\<close>

theorem remove_vertex_edge_count:
  assumes "graph_history g V E" and "v \<in> V" and "edge_size g = of_nat (card E)"
  shows "\<exists>g'. remove_vertex v g = Inr g' \<and> (\<forall>w. set (out_edges g' w) = {e \<in> E. source e = w \<and> w \<noteq> v \<and> target e \<noteq> v}) \<and>
    edge_size g' = of_nat (card {e \<in> E. source e \<noteq> v \<and> target e \<noteq> v}) - of_nat (card {e \<in> E. source e = v \<and> target e = v})"
proof -
  have inv: "graph_inv g V E" using assms(1) by (rule graph_history_inv)
  have fin: "finite E" using inv by (simp add: graph_inv_def repr_def)
  let ?S = "{e \<in> E. source e = v}" let ?T = "{e \<in> E. target e = v}" let ?R = "{e \<in> E. source e \<noteq> v \<and> target e \<noteq> v}"
  have all: "?R \<union> (?S \<union> ?T) = E" by auto
  have "card (?R \<union> (?S \<union> ?T)) = card ?R + card (?S \<union> ?T)" using fin by (intro card_Un_disjoint) auto
  then have "card E = card ?R + card (?S \<union> ?T)" unfolding all .
  moreover have "card ?S + card ?T = card (?S \<union> ?T) + card (?S \<inter> ?T)" using fin by (intro card_Un_Int) simp_all
  moreover have "?S \<inter> ?T = {e \<in> E. source e = v \<and> target e = v}" by auto
  ultimately have "card E + card {e \<in> E. source e = v \<and> target e = v} = card ?R + card ?S + card ?T" by simp
  then have "(of_nat (card E + card {e \<in> E. source e = v \<and> target e = v}) :: u64) = of_nat (card ?R + card ?S + card ?T)"
    by (rule arg_cong)
  then have count: "(of_nat (card E) - of_nat (card ?T) - of_nat (card ?S) :: u64) =
      of_nat (card ?R) - of_nat (card {e \<in> E. source e = v \<and> target e = v})"
    by (simp add: algebra_simps)
  from inv assms(2) show ?thesis
    by (rule graph_inv_remove_vertex) (auto simp: count assms(3) graph_inv_def repr_def)
qed

definition self_loop :: "(char, char) BaseGraph" where
  "self_loop = projr (add_edge 0 0 CHR ''e'' two_vertices)"

lemma self_loop_history:
  "graph_history self_loop {0, 1} {\<lparr>source = 0, target = 0, edge_property = CHR ''e''\<rparr>}" "edge_size self_loop = 1"
proof -
  have run: "add_edge 0 0 CHR ''e'' two_vertices = Inr self_loop" "edge_size self_loop = 1"
    by (simp_all add: self_loop_def add_edge_def two_vertices_def capacity_def uv_insert_def upd_vertex_def Let_def)
  show "graph_history self_loop {0, 1} {\<lparr>source = 0, target = 0, edge_property = CHR ''e''\<rparr>}"
    by (rule graph_history.edge [OF two_vertices_history _ _ run(1)]) simp_all
  show "edge_size self_loop = 1" by (rule run(2))
qed

theorem remove_vertex_edge_count_witness:
  "\<exists>g'. remove_vertex 0 self_loop = Inr g' \<and> edge_size g' = - 1"
proof -
  let ?e = "\<lparr>source = 0, target = 0, edge_property = CHR ''e''\<rparr>"
  have sets: "{e \<in> {?e}. source e = 0 \<and> target e = 0} = {?e}" "{e \<in> {?e}. source e \<noteq> 0 \<and> target e \<noteq> 0} = {}" by auto
  have "edge_size self_loop = of_nat (card {?e})" using self_loop_history(2) by simp
  from remove_vertex_edge_count [OF self_loop_history(1) _ this, of 0, unfolded sets]
  obtain g' where "remove_vertex 0 self_loop = Inr g'" "edge_size g' = of_nat (card {}) - of_nat (card {?e})"
    by (elim impE exE conjE meta_impE) simp_all
  then show ?thesis by (intro exI conjI) simp_all
qed

end
