(* ===== verification/Llvm_Ir.thy ===== *)
theory Llvm_Ir
  imports Cali_Prelude
begin

text \<open>
  What the passes of the linker see of an LLVM module. Values, functions and structures are numbers; a record of functions
  answers the questions the passes ask through the LLVM interface. The record is a parameter of every pass: nothing is assumed about
  its answers.
\<close>

section \<open>Types and values\<close>

text \<open>
  LLVM types. A pointer names its target by number, since types may be recursive through pointers; contained
  types are finite trees.
\<close>

datatype llvm_type =
    VoidTy
  | IntTy nat
  | FloatTy
  | DoubleTy
  | OtherFloatTy
  | PtrTy nat
  | StructTy nat "llvm_type list"
  | ArrayTy nat llvm_type
  | FunctionTy llvm_type "llvm_type list" bool
  | OtherTy

type_synonym llvm_value = nat
type_synonym llvm_function = nat

text \<open>
  The classes of values that the passes distinguish. Constant expressions are users as instructions are.
\<close>

datatype value_kind =
    CallInst | InvokeInst | BranchInst | ReturnInst "llvm_value option" | AllocaInst | LoadInst | StoreInst
  | GetElementPtrInst | BitCastInst | ExtractValueInst "nat list" | InsertValueInst "nat list" | ICmpInst | OtherInst
  | GEPConstant | BitCastConstant | ConstantInt nat | ConstantData | OtherConstant
  | GlobalVariable | FunctionValue | BasicBlock | OtherValue

record llvm =
  pointer_element :: "nat \<Rightarrow> llvm_type"
  isEmptyTy :: "llvm_type \<Rightarrow> bool"
  getStructName :: "nat \<Rightarrow> string"
  value_type :: "llvm_value \<Rightarrow> llvm_type"
  value_name :: "llvm_value \<Rightarrow> string"
  kind :: "llvm_value \<Rightarrow> value_kind"
  operands :: "llvm_value \<Rightarrow> llvm_value list"
  users :: "llvm_value \<Rightarrow> llvm_value list"
  num_uses :: "llvm_value \<Rightarrow> nat"
  instruction_function :: "llvm_value \<Rightarrow> llvm_function option"
  as_function :: "llvm_value \<Rightarrow> llvm_function option"
  constant_global :: "llvm_value \<Rightarrow> bool"
  unnamed_addr_global :: "llvm_value \<Rightarrow> bool"
  add_or_sub :: "llvm_value \<Rightarrow> bool"
  call_args :: "llvm_value \<Rightarrow> llvm_value list"
  called_value :: "llvm_value \<Rightarrow> llvm_value"
  direct_callee :: "llvm_value \<Rightarrow> llvm_function option"
  inline_asm :: "llvm_value \<Rightarrow> bool"
  function_value :: "llvm_function \<Rightarrow> llvm_value"
  function_name :: "llvm_function \<Rightarrow> string"
  function_type :: "llvm_function \<Rightarrow> llvm_type \<times> llvm_type list \<times> bool"
  function_args :: "llvm_function \<Rightarrow> llvm_value list"
  function_instructions :: "llvm_function \<Rightarrow> llvm_value list"
  isDeclaration :: "llvm_function \<Rightarrow> bool"
  module_functions :: "llvm_function list"
  module_globals :: "llvm_value list"
  module_structs :: "(nat \<times> llvm_type list) list"

section \<open>Questions about types\<close>

fun isIntegerTy :: "llvm_type \<Rightarrow> bool" where
  "isIntegerTy (IntTy _) = True"
| "isIntegerTy _ = False"

fun isPointerTy :: "llvm_type \<Rightarrow> bool" where
  "isPointerTy (PtrTy _) = True"
| "isPointerTy _ = False"

fun isStructTy :: "llvm_type \<Rightarrow> bool" where
  "isStructTy (StructTy _ _) = True"
| "isStructTy _ = False"

fun isFunctionTy :: "llvm_type \<Rightarrow> bool" where
  "isFunctionTy (FunctionTy _ _ _) = True"
| "isFunctionTy _ = False"

definition isFloatingPointTy :: "llvm_type \<Rightarrow> bool" where
  "isFloatingPointTy t \<longleftrightarrow> t = FloatTy \<or> t = DoubleTy \<or> t = OtherFloatTy"

section \<open>Questions about values\<close>

definition isGEPOperator :: "value_kind \<Rightarrow> bool" where
  "isGEPOperator k \<longleftrightarrow> k = GetElementPtrInst \<or> k = GEPConstant"

definition isBitCastOperator :: "value_kind \<Rightarrow> bool" where
  "isBitCastOperator k \<longleftrightarrow> k = BitCastInst \<or> k = BitCastConstant"

fun isConstantData :: "value_kind \<Rightarrow> bool" where
  "isConstantData (ConstantInt _) = True"
| "isConstantData ConstantData = True"
| "isConstantData _ = False"

fun isConstant :: "value_kind \<Rightarrow> bool" where
  "isConstant (ConstantInt _) = True"
| "isConstant ConstantData = True"
| "isConstant GEPConstant = True"
| "isConstant BitCastConstant = True"
| "isConstant OtherConstant = True"
| "isConstant GlobalVariable = True"
| "isConstant FunctionValue = True"
| "isConstant _ = False"

definition isIgnoredOperand :: "llvm \<Rightarrow> llvm_value \<Rightarrow> bool" where
  "isIgnoredOperand L v = isConstantData (kind L v)"

text \<open>
  The called function, also through a cast of the function.
\<close>

definition getCalledFunction :: "llvm \<Rightarrow> llvm_value \<Rightarrow> llvm_function option" where
  "getCalledFunction L call =
     (case direct_callee L call of
        Some f \<Rightarrow> Some f
      | None \<Rightarrow>
          (let op = called_value L call in
           if isBitCastOperator (kind L op) then
             (case operands L op of op2 # _ \<Rightarrow> as_function L op2 | [] \<Rightarrow> None)
           else None))"

definition isFileDescriptorFunction :: "llvm \<Rightarrow> llvm_function option \<Rightarrow> bool" where
  "isFileDescriptorFunction L f =
     (case f of None \<Rightarrow> False | Some f \<Rightarrow> function_name L f \<in> set [''open'', ''openat'', ''socket'', ''dup''])"

definition isFileDescriptorParamFunction :: "llvm \<Rightarrow> llvm_function option \<Rightarrow> nat option" where
  "isFileDescriptorParamFunction L f =
     (case f of
        None \<Rightarrow> None
      | Some f \<Rightarrow>
          if function_name L f \<in> set [''close'', ''read'', ''write'', ''fstat'', ''dup''] then Some 0
          else if function_name L f = ''__fxstat'' then Some 1
          else None)"

definition isFileDescriptorPtrFunction :: "llvm \<Rightarrow> llvm_function option \<Rightarrow> bool" where
  "isFileDescriptorPtrFunction L f = (case f of None \<Rightarrow> False | Some f \<Rightarrow> function_name L f = ''pipe'')"

definition startswith :: "string \<Rightarrow> string \<Rightarrow> bool" where
  "startswith s p \<longleftrightarrow> take (length p) s = p"

definition endswith :: "string \<Rightarrow> string \<Rightarrow> bool" where
  "endswith s p \<longleftrightarrow> startswith (rev s) (rev p)"

text \<open>
  A module with nothing in it, from which the examples are built.
\<close>

definition empty_llvm :: llvm where
  "empty_llvm = \<lparr>pointer_element = (\<lambda>_. IntTy 8), isEmptyTy = (\<lambda>_. False), getStructName = (\<lambda>_. []), value_type = (\<lambda>_. VoidTy),
     value_name = (\<lambda>_. []), kind = (\<lambda>_. OtherValue), operands = (\<lambda>_. []), users = (\<lambda>_. []), num_uses = (\<lambda>_. 0),
     instruction_function = Map.empty, as_function = Map.empty, constant_global = (\<lambda>_. False), unnamed_addr_global = (\<lambda>_. False),
     add_or_sub = (\<lambda>_. False), call_args = (\<lambda>_. []), called_value = id, direct_callee = Map.empty, inline_asm = (\<lambda>_. False),
     function_value = id, function_name = (\<lambda>_. []), function_type = (\<lambda>_. (VoidTy, [], False)), function_args = (\<lambda>_. []),
     function_instructions = (\<lambda>_. []), isDeclaration = (\<lambda>_. False), module_functions = [], module_globals = [], module_structs = []\<rparr>"

end
