(* ===== verification/Pdg.thy ===== *)
theory Pdg
  imports Base_Graph Llvm_Ir
begin

text \<open>
  The program dependence graph (\<^verbatim>\<open>cali-linker/passes/PDG.h\<close>, \<^verbatim>\<open>PDG.cpp\<close>): nodes for LLVM values and for the parts of
  values reached by field selection and dereference. What the code asks LLVM about values and types is the record
  \<^verbatim>\<open>llvm\<close>; values and functions are numbers. The index from functions to vertices is shown to agree with the
  graph under the operations that maintain it, and to go wrong under \<^verbatim>\<open>removeFunction\<close>.
\<close>

section \<open>Data\<close>

record PDGNode =
  nfunction :: "llvm_function option"
  instruction :: "llvm_value option"
  ntype :: "llvm_type option"
  subnode :: bool
  dummy :: bool
  nsource :: bool
  ipcsink :: bool
  reaches_ipc_sink :: bool
  ipcfunction :: bool
  is_constant :: bool
  filedescriptor :: bool
  influenced_by_shared :: bool
  source_type :: nat

definition PDGNode_new :: PDGNode where
  "PDGNode_new = \<lparr>nfunction = None, instruction = None, ntype = None, subnode = False, dummy = False,
     nsource = False, ipcsink = False, reaches_ipc_sink = False, ipcfunction = False, is_constant = False,
     filedescriptor = False, influenced_by_shared = False, source_type = 0\<rparr>"

datatype PDGEdgeType =
    Control | Data | Equals | Part | Deref | Param | Return | Invocation
  | Summary_Data | Summary_Equals | Summary_Invocation

record PDGEdge =
  etype :: PDGEdgeType
  eindex :: nat

definition pdg_edge :: "PDGEdgeType \<Rightarrow> nat \<Rightarrow> PDGEdge" where
  "pdg_edge t i = \<lparr>etype = t, eindex = i\<rparr>"

record PDG =
  pgraph :: "(PDGNode, PDGEdge) BaseGraph"
  value_to_vertex :: "llvm_value \<rightharpoonup> nat"
  structClusters :: "nat \<rightharpoonup> int"
  structClusterToKnownFDFields :: "int \<Rightarrow> nat set"
  max_parts :: nat
  subnode_limit :: int
  united_nodes :: "(nat \<times> nat) set"
  function_to_vertices :: "llvm_function option \<Rightarrow> nat set"

definition PDG_new :: "(nat \<times> int) option \<Rightarrow> PDG" where
  "PDG_new config =
     \<lparr>pgraph = empty_graph, value_to_vertex = Map.empty, structClusters = Map.empty,
      structClusterToKnownFDFields = (\<lambda>_. {}),
      max_parts = (case config of None \<Rightarrow> 32 | Some (parts, _) \<Rightarrow> parts),
      subnode_limit = (case config of None \<Rightarrow> 5 | Some (_, limit) \<Rightarrow> limit),
      united_nodes = {}, function_to_vertices = (\<lambda>_. {})\<rparr>"

section \<open>Access to nodes and edges\<close>

definition node :: "PDG \<Rightarrow> nat \<Rightarrow> PDGNode" where
  "node p v = vertex_property (vertices (pgraph p) ! v)"

definition get_node :: "nat \<Rightarrow> (PDG, PDGNode) routine" where
  "get_node v p = (if v < capacity (pgraph p) then (Inr (node p v), p) else (Inl Undefined_behaviour, p))"

definition upd_node :: "nat \<Rightarrow> (PDGNode \<Rightarrow> PDGNode) \<Rightarrow> PDG \<Rightarrow> PDG" where
  "upd_node v f p = p\<lparr>pgraph := upd_vertex v (\<lambda>x. x\<lparr>vertex_property := f (vertex_property x)\<rparr>) (pgraph p)\<rparr>"

definition set_node :: "nat \<Rightarrow> (PDGNode \<Rightarrow> PDGNode) \<Rightarrow> (PDG, unit) routine" where
  "set_node v f p = (if v < capacity (pgraph p) then (Inr (), upd_node v f p) else (Inl Undefined_behaviour, p))"

definition on_graph :: "((PDGNode, PDGEdge) BaseGraph \<Rightarrow> (PDGNode, PDGEdge) BaseGraph outcome) \<Rightarrow> (PDG, unit) routine" where
  "on_graph f p = (case f (pgraph p) of Inl e \<Rightarrow> (Inl e, p) | Inr g \<Rightarrow> (Inr (), p\<lparr>pgraph := g\<rparr>))"

definition pdg_add_edge :: "nat \<Rightarrow> nat \<Rightarrow> PDGEdge \<Rightarrow> (PDG, unit) routine" where
  "pdg_add_edge v1 v2 e = on_graph (add_edge v1 v2 e)"

definition index_insert :: "llvm_function option \<Rightarrow> nat \<Rightarrow> PDG \<Rightarrow> PDG" where
  "index_insert f v p = p\<lparr>function_to_vertices := (function_to_vertices p)(f := insert v (function_to_vertices p f))\<rparr>"

definition index_erase :: "llvm_function option \<Rightarrow> nat \<Rightarrow> PDG \<Rightarrow> PDG" where
  "index_erase f v p = p\<lparr>function_to_vertices := (function_to_vertices p)(f := function_to_vertices p f - {v})\<rparr>"

definition pdg_add_vertex :: "PDGNode \<Rightarrow> (PDG, nat) routine" where
  "pdg_add_vertex n p =
     (case add_vertex n (pgraph p) of
        Inl e \<Rightarrow> (Inl e, p)
      | Inr (v, g) \<Rightarrow> (Inr v, index_insert (nfunction n) v (p\<lparr>pgraph := g\<rparr>)))"

definition pdg_remove_vertex :: "nat \<Rightarrow> (PDG, unit) routine" where
  "pdg_remove_vertex v =
     seq (get_node v) (\<lambda>n. seq (modify (index_erase (nfunction n) v)) (\<lambda>_. on_graph (remove_vertex v)))"

definition updateFunction :: "nat \<Rightarrow> llvm_function option \<Rightarrow> (PDG, unit) routine" where
  "updateFunction v f =
     seq (get_node v) (\<lambda>n.
       seq (modify (index_erase (nfunction n) v)) (\<lambda>_.
         seq (set_node v (\<lambda>n. n\<lparr>nfunction := f\<rparr>)) (\<lambda>_.
           modify (index_insert f v))))"

definition getVerticesForFunction :: "PDG \<Rightarrow> llvm_function option \<Rightarrow> nat set" where
  "getVerticesForFunction p f = function_to_vertices p f"

text \<open>
  The first edge of a vertex with a given label.
\<close>

fun first_edge :: "(PDGEdge \<Rightarrow> bool) \<Rightarrow> PDGEdge Edge list \<Rightarrow> PDGEdge Edge option" where
  "first_edge P [] = None"
| "first_edge P (e # es) = (if P (edge_property e) then Some e else first_edge P es)"

definition getDerefOpt :: "PDG \<Rightarrow> nat \<Rightarrow> nat option" where
  "getDerefOpt p v = map_option target (first_edge (\<lambda>l. etype l = Deref) (out_edges (pgraph p) v))"

definition getDeref :: "nat \<Rightarrow> (PDG, nat) routine" where
  "getDeref v p =
     (case getDerefOpt p v of
        Some w \<Rightarrow> (Inr w, p)
      | None \<Rightarrow> (Inl (Runtime_error ''Vertex can't be dereferenced''), p))"

definition getPartOpt :: "PDG \<Rightarrow> nat \<Rightarrow> nat \<Rightarrow> nat option" where
  "getPartOpt p v i =
     (let i = (if max_parts p < i then max_parts p else i)
      in map_option target (first_edge (\<lambda>l. etype l = Part \<and> eindex l = i) (out_edges (pgraph p) v)))"

definition getParamOpt :: "PDG \<Rightarrow> nat \<Rightarrow> nat \<Rightarrow> nat option" where
  "getParamOpt p v i = map_option target (first_edge (\<lambda>l. etype l = Param \<and> eindex l = i) (out_edges (pgraph p) v))"

definition getCallParamOpt :: "PDG \<Rightarrow> nat \<Rightarrow> nat \<Rightarrow> nat option" where
  "getCallParamOpt p v i = map_option source (first_edge (\<lambda>l. etype l = Param \<and> eindex l = i) (in_edges (pgraph p) v))"

definition getReturnOpt :: "PDG \<Rightarrow> nat \<Rightarrow> nat option" where
  "getReturnOpt p v = map_option target (first_edge (\<lambda>l. etype l = Return) (out_edges (pgraph p) v))"

definition getVertexOpt :: "PDG \<Rightarrow> llvm_value \<Rightarrow> nat option" where
  "getVertexOpt p value = value_to_vertex p value"

definition getMemoryForSource :: "PDG \<Rightarrow> nat \<Rightarrow> nat option" where
  "getMemoryForSource p src =
     (if source_type (node p src) = 1 then getDerefOpt p src
      else if source_type (node p src) = 2 then
        (case getCallParamOpt p src 0 of
           None \<Rightarrow> None
         | Some v \<Rightarrow> (case getDerefOpt p v of None \<Rightarrow> None | Some w \<Rightarrow> getDerefOpt p w))
      else None)"

section \<open>Creation of nodes\<close>

text \<open>
  The structural nodes of a value: one node for the target of a pointer, one for every field of a structure, where
  the fields from \<^verbatim>\<open>max_parts\<close> on share one node. An array is treated as its element type, one level only. The
  first argument is the type of \<^term>\<open>parent\<close>, which the code reads from the node.
\<close>

definition element_type :: "llvm_type \<Rightarrow> llvm_type" where
  "element_type t = (case t of ArrayTy _ t' \<Rightarrow> t' | _ \<Rightarrow> t)"

lemma size_element_type: "size (element_type t) \<le> size t"
  by (simp add: element_type_def split: llvm_type.split)

definition child_constant :: "llvm \<Rightarrow> PDGNode \<Rightarrow> bool" where
  "child_constant L n \<longleftrightarrow> is_constant n \<or> (case instruction n of None \<Rightarrow> False | Some i \<Rightarrow> constant_global L i)"

definition child_node :: "llvm \<Rightarrow> PDGNode \<Rightarrow> llvm_type \<Rightarrow> PDGNode" where
  "child_node L n t = PDGNode_new\<lparr>nfunction := nfunction n, ntype := Some t, subnode := True, is_constant := child_constant L n\<rparr>"

function (sequential) createSubnodes :: "llvm \<Rightarrow> llvm_type \<Rightarrow> nat \<Rightarrow> int \<Rightarrow> (PDG, unit) routine"
  and createParts :: "llvm \<Rightarrow> llvm_type list \<Rightarrow> nat \<Rightarrow> nat \<Rightarrow> int \<Rightarrow> (PDG, unit) routine" where
  "createSubnodes L ty parent limit =
     (case element_type ty of
        PtrTy k \<Rightarrow>
          seq (get_node parent) (\<lambda>n.
            seq (pdg_add_vertex (child_node L n (pointer_element L k))) (\<lambda>v.
              seq (pdg_add_edge parent v (pdg_edge Deref 0)) (\<lambda>_.
                if 0 < limit then createSubnodes L (pointer_element L k) v (limit - 1) else ret ())))
      | StructTy _ ts \<Rightarrow> createParts L ts 0 parent limit
      | _ \<Rightarrow> ret ())"
| "createParts L [] i parent limit = ret ()"
| "createParts L (t # ts) i parent limit =
     seq (get_node parent) (\<lambda>n.
       seq (reads max_parts) (\<lambda>m.
         if i < m then
           seq (pdg_add_vertex (child_node L n t)) (\<lambda>v.
             seq (pdg_add_edge parent v (pdg_edge Part i)) (\<lambda>_.
               seq (createSubnodes L t v (limit - 1)) (\<lambda>_. createParts L ts (Suc i) parent limit)))
         else
           seq (reads (\<lambda>p. getPartOpt p parent i)) (\<lambda>opt.
             case opt of
               Some v \<Rightarrow> seq (pdg_add_edge parent v (pdg_edge Part m)) (\<lambda>_. createParts L ts (Suc i) parent limit)
             | None \<Rightarrow>
                 seq (pdg_add_vertex (child_node L n t)) (\<lambda>v.
                   seq (pdg_add_edge parent v (pdg_edge Part m)) (\<lambda>_.
                     seq (createSubnodes L t v (limit - 1)) (\<lambda>_. createParts L ts (Suc i) parent limit))))))"
  by pat_completeness auto

termination
proof (relation "inv_image (less_than <*lex*> less_than) (\<lambda>x. case x of
    Inl (L, ty, parent, limit) \<Rightarrow> (nat limit, size ty) | Inr (L, ts, i, parent, limit) \<Rightarrow> (nat limit, size_list size ts))", goal_cases)
  case 1
  show ?case by (intro wf_inv_image wf_lex_prod wf_less_than)
next
  case (3 L ty parent limit k ts)
  then show ?case using size_element_type [of ty] by simp
qed (auto simp: nat_less_iff)

text \<open>
  The node of a value. A function is contained in itself; any other value belongs to the function given, or to
  the function of the instruction. Functions get no structural nodes.
\<close>

definition value_node :: "llvm \<Rightarrow> llvm_value \<Rightarrow> llvm_function option \<Rightarrow> PDGNode" where
  "value_node L v f =
     (let f = (if f = None then instruction_function L v else f)
      in PDGNode_new\<lparr>instruction := Some v, nfunction := (case as_function L v of Some h \<Rightarrow> Some h | None \<Rightarrow> f),
           ntype := Some (value_type L v), nsource := False, source_type := 0\<rparr>)"

definition createVertex :: "llvm \<Rightarrow> llvm_value \<Rightarrow> llvm_function option \<Rightarrow> (PDG, nat) routine" where
  "createVertex L value f =
     seq (pdg_add_vertex (value_node L value f)) (\<lambda>v.
       seq (modify (\<lambda>p. p\<lparr>value_to_vertex := (value_to_vertex p)(value \<mapsto> v)\<rparr>)) (\<lambda>_.
         seq (reads subnode_limit) (\<lambda>limit.
           seq (if as_function L value = None then createSubnodes L (value_type L value) v limit else ret ()) (\<lambda>_.
             ret v))))"

definition createDummyVertex :: "llvm \<Rightarrow> llvm_value \<Rightarrow> llvm_function option \<Rightarrow> (PDG, nat) routine" where
  "createDummyVertex L value f = pdg_add_vertex ((value_node L value f)\<lparr>dummy := True\<rparr>)"

definition getVertex :: "llvm \<Rightarrow> llvm_value \<Rightarrow> llvm_function option \<Rightarrow> (PDG, nat) routine" where
  "getVertex L value f =
     seq (reads (\<lambda>p. value_to_vertex p value)) (\<lambda>r.
       case r of
         Some v \<Rightarrow>
           seq (get_node v) (\<lambda>n.
             seq (when_do (f \<noteq> None \<and> nfunction n = None) (updateFunction v f)) (\<lambda>_. ret v))
       | None \<Rightarrow> createVertex L value f)"

section \<open>Data flow between structures\<close>

text \<open>
  Joining two nodes. The node with an instruction, or else the one with the lower number, stays.
\<close>

definition swapLowerFirst :: "PDG \<Rightarrow> nat \<Rightarrow> nat \<Rightarrow> nat \<times> nat" where
  "swapLowerFirst p v1 v2 =
     (if instruction (node p v1) = None \<and> (instruction (node p v2) \<noteq> None \<or> v2 < v1) then (v2, v1) else (v1, v2))"

text \<open>
  The attributes of the removed node are joined into the surviving one, by the assignments of the code: that of
  \<^verbatim>\<open>reaches_ipc_sink\<close> assigns the attribute to itself.
\<close>

definition join_attributes :: "PDGNode \<Rightarrow> PDGNode \<Rightarrow> PDGNode" where
  "join_attributes n1 n2 =
     (let n = (if \<not> nsource n1 \<and> nsource n2 then n1\<lparr>nsource := nsource n2, source_type := source_type n2\<rparr> else n1);
          n = (if \<not> ipcsink n \<and> ipcsink n2 then n\<lparr>ipcsink := ipcsink n2\<rparr> else n);
          n = (if \<not> reaches_ipc_sink n \<and> reaches_ipc_sink n2 then n\<lparr>reaches_ipc_sink := reaches_ipc_sink n\<rparr> else n)
      in if \<not> filedescriptor n \<and> filedescriptor n2 then n\<lparr>filedescriptor := filedescriptor n2\<rparr> else n)"

text \<open>
  The search in the map of removed nodes: \<^term>\<open>Inl v\<close> when both nodes have become the same, else the pair to join and
  the map with the new entry.
\<close>

fun resolve_removed :: "nat \<Rightarrow> PDG \<Rightarrow> (nat \<rightharpoonup> nat) \<Rightarrow> nat \<Rightarrow> nat \<Rightarrow> (nat \<times> nat \<times> (nat \<rightharpoonup> nat)) option outcome" where
  "resolve_removed 0 p m v1 v2 = Inl Out_of_fuel"
| "resolve_removed (Suc n) p m v1 v2 =
     (case m v2 of
        None \<Rightarrow> Inr (Some (v1, v2, m(v2 \<mapsto> v1)))
      | Some w \<Rightarrow>
          (if v1 = w then Inr None
           else case swapLowerFirst p v1 w of (v1, v2) \<Rightarrow> resolve_removed n p m v1 v2))"

text \<open>
  What becomes of the edges of the removed node \<^term>\<open>v2\<close>: structural edges that \<^term>\<open>v1\<close> has too are queued for
  joining their targets, all others get \<^term>\<open>v1\<close> as their end. The last structural edge of \<^term>\<open>v1\<close> with an index below
  eight decides, and the first one for the other indices.
\<close>

definition last_edge :: "(PDGEdge \<Rightarrow> bool) \<Rightarrow> PDGEdge Edge list \<Rightarrow> PDGEdge Edge option" where
  "last_edge P es = first_edge P (rev es)"

definition partner :: "PDG \<Rightarrow> nat \<Rightarrow> PDGEdge \<Rightarrow> nat option" where
  "partner p v1 l =
     (if etype l = Deref then map_option target (last_edge (\<lambda>k. etype k = Deref) (out_edges (pgraph p) v1))
      else if etype l = Part then
        (if eindex l < 8
         then map_option target (last_edge (\<lambda>k. etype k = Part \<and> eindex k = eindex l) (out_edges (pgraph p) v1))
         else getPartOpt p v1 (eindex l))
      else None)"

fun redirect_out :: "PDG \<Rightarrow> nat \<Rightarrow> PDGEdge Edge list \<Rightarrow> (nat \<times> nat) list \<times> (nat \<times> nat \<times> PDGEdge) list" where
  "redirect_out p v1 [] = ([], [])"
| "redirect_out p v1 (e # es) =
     (case redirect_out p v1 es of (Q, new) \<Rightarrow>
        (case partner p v1 (edge_property e) of
           Some w \<Rightarrow> ((w, target e) # Q, new)
         | None \<Rightarrow> (Q, (v1, target e, edge_property e) # new)))"

definition redirect_in :: "nat \<Rightarrow> PDGEdge Edge list \<Rightarrow> (nat \<times> nat \<times> PDGEdge) list" where
  "redirect_in v1 es = map (\<lambda>e. (source e, v1, edge_property e)) es"

fun add_edges :: "(nat \<times> nat \<times> PDGEdge) list \<Rightarrow> (PDG, unit) routine" where
  "add_edges [] = ret ()"
| "add_edges ((v, w, l) # es) = seq (pdg_add_edge v w l) (\<lambda>_. add_edges es)"

definition unite_pair :: "nat \<Rightarrow> nat \<Rightarrow> (PDG, (nat \<times> nat) list) routine" where
  "unite_pair v1 v2 =
     seq (get_node v2) (\<lambda>n2.
       seq (set_node v1 (\<lambda>n1. join_attributes n1 n2)) (\<lambda>_.
         if instruction n2 \<noteq> None then throw (Runtime_error ''Can't remove vertices with instruction'')
         else seq (reads (\<lambda>p. redirect_out p v1 (out_edges (pgraph p) v2))) (\<lambda>(Q, new_out).
           seq (reads (\<lambda>p. redirect_in v1 (in_edges (pgraph p) v2))) (\<lambda>new_in.
             seq (add_edges (new_out @ new_in)) (\<lambda>_.
               seq (set_node v2 (\<lambda>n. n\<lparr>ipcsink := False, reaches_ipc_sink := False\<rparr>)) (\<lambda>_.
                 seq (pdg_remove_vertex v2) (\<lambda>_. ret Q)))))))"

fun unite_loop :: "nat \<Rightarrow> (nat \<rightharpoonup> nat) \<Rightarrow> (nat \<times> nat) list \<Rightarrow> (PDG, unit) routine" where
  "unite_loop 0 m Q = throw Out_of_fuel"
| "unite_loop (Suc n) m [] = ret ()"
| "unite_loop (Suc n) m ((v1, v2) # Q) =
     (if v1 = v2 then unite_loop n m Q
      else seq (reads (\<lambda>p. swapLowerFirst p v1 v2)) (\<lambda>(v1, v2).
        seq (\<lambda>p. (resolve_removed n p m v1 v2, p)) (\<lambda>r.
          case r of
            None \<Rightarrow> unite_loop n m Q
          | Some (v1, v2, m) \<Rightarrow> seq (unite_pair v1 v2) (\<lambda>Q'. unite_loop n m (Q @ Q')))))"

definition cannot_unite :: "PDGNode \<Rightarrow> PDGNode \<Rightarrow> bool" where
  "cannot_unite n1 n2 \<longleftrightarrow> instruction n1 \<noteq> None \<and> instruction n2 \<noteq> None \<or> nfunction n1 \<noteq> nfunction n2 \<or>
     is_constant n1 \<or> is_constant n2"

text \<open>
  \<^verbatim>\<open>addSubnodeEdges\<close> and \<^verbatim>\<open>uniteSubnodes\<close> call each other. The fuel bounds the depth of the calls and the
  rounds of the loops; the loop over the edges of \<^term>\<open>v1\<close> looks at the list anew in every round, since the calls
  may change it.
\<close>

fun addSubnodeEdges :: "nat \<Rightarrow> nat \<Rightarrow> nat \<Rightarrow> int \<Rightarrow> (PDG, unit) routine"
  and joinSubnodes :: "nat \<Rightarrow> nat \<Rightarrow> nat \<Rightarrow> nat \<Rightarrow> int \<Rightarrow> (PDG, unit) routine"
  and uniteSubnodes :: "nat \<Rightarrow> nat \<Rightarrow> nat \<Rightarrow> (PDG, unit) routine" where
  "addSubnodeEdges 0 v1 v2 levels = throw Out_of_fuel"
| "addSubnodeEdges (Suc n) v1 v2 levels =
     (if v1 = v2 then ret ()
      else seq (get_node v2) (\<lambda>n2.
        if is_constant n2 then ret ()
        else seq (pdg_add_edge v1 v2 (pdg_edge Data 0)) (\<lambda>_. joinSubnodes n 0 v1 v2 levels)))"
| "joinSubnodes 0 i v1 v2 levels = throw Out_of_fuel"
| "joinSubnodes (Suc n) i v1 v2 levels =
     seq (reads (\<lambda>p. out_edges (pgraph p) v1)) (\<lambda>es.
       if i < length es then
         seq (let v1s = target (es ! i); l = edge_property (es ! i) in
           case etype l of
             Deref \<Rightarrow>
               seq (reads (\<lambda>p. getDerefOpt p v2)) (\<lambda>r.
                 case r of
                   Some v2s \<Rightarrow>
                     if v1s \<noteq> v2s then (if levels \<le> 0 then uniteSubnodes n v1s v2s else addSubnodeEdges n v1s v2s (levels - 1))
                     else ret ()
                 | None \<Rightarrow> ret ())
           | Part \<Rightarrow>
               seq (reads (\<lambda>p. getPartOpt p v2 (eindex l))) (\<lambda>r.
                 case r of
                   Some v2s \<Rightarrow> if v1 \<noteq> v1s \<or> v2 \<noteq> v2s then addSubnodeEdges n v1s v2s levels else ret ()
                 | None \<Rightarrow> ret ())
           | _ \<Rightarrow> ret ())
         (\<lambda>_. joinSubnodes n (Suc i) v1 v2 levels)
       else ret ())"
| "uniteSubnodes 0 v1 v2 = throw Out_of_fuel"
| "uniteSubnodes (Suc n) v1 v2 =
     seq (get_node v1) (\<lambda>n1.
       seq (get_node v2) (\<lambda>n2.
         if cannot_unite n1 n2 then
           (let (v1, v2) = (if v2 < v1 then (v2, v1) else (v1, v2)) in
            seq (reads united_nodes) (\<lambda>united.
              if (v1, v2) \<in> united then ret ()
              else seq (modify (\<lambda>p. p\<lparr>united_nodes := insert (v1, v2) (united_nodes p)\<rparr>)) (\<lambda>_.
                seq (addSubnodeEdges n v1 v2 0) (\<lambda>_. addSubnodeEdges n v2 v1 0))))
         else unite_loop n Map.empty [(v1, v2)]))"

text \<open>
  \<^verbatim>\<open>removeFunction\<close> works on a copy of the set of vertices of the function, so the index keeps them. The vertices are
  visited in ascending order.
\<close>

fun remove_vertices :: "nat list \<Rightarrow> (PDG, unit) routine" where
  "remove_vertices [] = ret ()"
| "remove_vertices (v # vs) =
     seq (get_node v) (\<lambda>n.
       seq (modify (\<lambda>p. case instruction n of
           Some i \<Rightarrow> (if value_to_vertex p i = Some v then p\<lparr>value_to_vertex := (value_to_vertex p)(i := None)\<rparr> else p)
         | None \<Rightarrow> p)) (\<lambda>_.
         seq (on_graph (remove_vertex v)) (\<lambda>_. remove_vertices vs)))"

definition removeFunction :: "llvm_function option \<Rightarrow> (PDG, unit) routine" where
  "removeFunction f = seq (reads (\<lambda>p. sorted_list_of_set (getVerticesForFunction p f))) remove_vertices"

text \<open>
  A field marked as a file descriptor is remembered for all structures of the same cluster.
\<close>

definition fd_field :: "PDGEdge Edge \<Rightarrow> PDG \<Rightarrow> PDG" where
  "fd_field e p =
     (if etype (edge_property e) = Part then
        (case ntype (node p (source e)) of
           Some (StructTy k ts) \<Rightarrow>
             (case structClusters p k of
                Some c \<Rightarrow> p\<lparr>structClusterToKnownFDFields := (structClusterToKnownFDFields p)
                  (c := insert (eindex (edge_property e)) (structClusterToKnownFDFields p c))\<rparr>
              | None \<Rightarrow> p)
         | _ \<Rightarrow> p)
      else p)"

definition checkIfFDMarkerIsInteresting :: "nat \<Rightarrow> PDG \<Rightarrow> PDG" where
  "checkIfFDMarkerIsInteresting v p = fold fd_field (in_edges (pgraph p) v) p"

section \<open>The invariant\<close>

text \<open>
  The adjacency lists of the graph are consistent, the index holds vertex numbers of the graph only, and every live vertex
  is in the index under its function. The index may hold more.
\<close>

definition pdg_inv :: "PDG \<Rightarrow> bool" where
  "pdg_inv p \<longleftrightarrow> (\<exists>E. repr (pgraph p) E) \<and> (\<forall>f. function_to_vertices p f \<subseteq> {..<capacity (pgraph p)}) \<and>
     (\<forall>v<capacity (pgraph p). \<not> is_empty (pgraph p) v \<longrightarrow> v \<in> function_to_vertices p (nfunction (node p v)))"

lemma pdg_inv_finite: "pdg_inv p \<Longrightarrow> finite (function_to_vertices p f)"
  unfolding pdg_inv_def by (blast intro: finite_subset)

lemma pdg_inv_graph:
  assumes "pdg_inv p" and "repr g E" and "capacity g = capacity (pgraph p)"
    and "\<And>v. is_empty (pgraph p) v \<Longrightarrow> is_empty g v" and "\<And>v. vertex_property (vertices g ! v) = vertex_property (vertices (pgraph p) ! v)"
  shows "pdg_inv (p\<lparr>pgraph := g\<rparr>)"
  using assms by (auto simp: pdg_inv_def node_def)

lemma keeps_on_graph:
  assumes "\<And>g E g'. repr g E \<Longrightarrow> f g = Inr g' \<Longrightarrow> (\<exists>E'. repr g' E') \<and> capacity g' = capacity g \<and> (\<forall>v. is_empty g v \<longrightarrow> is_empty g' v) \<and>
    (\<forall>v. vertex_property (vertices g' ! v) = vertex_property (vertices g ! v))"
  shows "keeps pdg_inv (on_graph f)"
proof (rule keepsI)
  fix p assume p: "pdg_inv p"
  then obtain E where "repr (pgraph p) E" by (auto simp: pdg_inv_def)
  then show "pdg_inv (snd (on_graph f p))"
    using p assms [of "pgraph p" E] pdg_inv_graph [OF p]
    by (fastforce simp: on_graph_def split: sum.split)
qed

lemma keeps_pdg_add_edge [keeps_intros]: "keeps pdg_inv (pdg_add_edge v1 v2 l)"
  unfolding pdg_add_edge_def
proof (rule keeps_on_graph)
  fix g :: "(PDGNode, PDGEdge) BaseGraph" and E g'
  assume g: "repr g E" "add_edge v1 v2 l g = Inr g'"
  then have "v1 < capacity g" "v2 < capacity g" by (auto simp: add_edge_def split: if_splits)
  then obtain g'' where "add_edge v1 v2 l g = Inr g''" "repr g'' (insert \<lparr>source = v1, target = v2, edge_property = l\<rparr> E)"
    "capacity g'' = capacity g" "\<And>v. is_empty g'' v = is_empty g v"
    by (rule add_edge_step [OF g(1) _ _ refl]) (rule that)
  then show "(\<exists>E'. repr g' E') \<and> capacity g' = capacity g \<and> (\<forall>v. is_empty g v \<longrightarrow> is_empty g' v) \<and>
    (\<forall>v. vertex_property (vertices g' ! v) = vertex_property (vertices g ! v))"
    using add_edge_property [OF g(2)] g(2) by auto
qed

lemma keeps_remove_vertex [keeps_intros]: "keeps pdg_inv (on_graph (remove_vertex v))"
proof (rule keeps_on_graph)
  fix g :: "(PDGNode, PDGEdge) BaseGraph" and E g'
  assume g: "repr g E" "remove_vertex v g = Inr g'"
  then have "v < capacity g" by (auto simp: remove_vertex_def split: if_splits)
  then obtain g'' where "remove_vertex v g = Inr g''" "repr g'' {e \<in> E. source e \<noteq> v \<and> target e \<noteq> v}"
    "capacity g'' = capacity g" "\<And>w. is_empty g'' w \<longleftrightarrow> w = v \<or> is_empty g w"
    by (rule remove_vertex_step [OF g(1)]) (rule that)
  then show "(\<exists>E'. repr g' E') \<and> capacity g' = capacity g \<and> (\<forall>v. is_empty g v \<longrightarrow> is_empty g' v) \<and>
    (\<forall>v. vertex_property (vertices g' ! v) = vertex_property (vertices g ! v))"
    using remove_vertex_property [OF g(2)] g(2) by auto
qed

lemma keeps_get_node [keeps_intros]: "keeps pdg_inv (get_node v)"
  by (simp add: keeps_def get_node_def)

lemma upd_node_simps [simp]:
  "capacity (pgraph (upd_node v f p)) = capacity (pgraph p)"
  "out_edges (pgraph (upd_node v f p)) w = out_edges (pgraph p) w"
  "in_edges (pgraph (upd_node v f p)) w = in_edges (pgraph p) w"
  "is_empty (pgraph (upd_node v f p)) w = is_empty (pgraph p) w"
  "repr (pgraph (upd_node v f p)) E = repr (pgraph p) E"
  "function_to_vertices (upd_node v f p) = function_to_vertices p"
proof -
  show o: "out_edges (pgraph (upd_node v f p)) w = out_edges (pgraph p) w" for w
    by (simp add: upd_node_def edges_upd vout_edges_nth)
  show i: "in_edges (pgraph (upd_node v f p)) w = in_edges (pgraph p) w" for w
    by (simp add: upd_node_def edges_upd vin_edges_nth)
  show c: "capacity (pgraph (upd_node v f p)) = capacity (pgraph p)" by (simp add: upd_node_def)
  show "is_empty (pgraph (upd_node v f p)) w = is_empty (pgraph p) w" by (simp add: upd_node_def is_empty_upd_keeps)
  show "repr (pgraph (upd_node v f p)) E = repr (pgraph p) E" unfolding repr_def o i c ..
  show "function_to_vertices (upd_node v f p) = function_to_vertices p" by (simp add: upd_node_def)
qed

lemma node_upd_node: "v < capacity (pgraph p) \<Longrightarrow> node (upd_node v f p) w = (if w = v then f (node p v) else node p w)"
  by (simp add: node_def upd_node_def upd_vertex_def capacity_def)

lemma keeps_set_node [keeps_intros]: "(\<And>n. nfunction (f n) = nfunction n) \<Longrightarrow> keeps pdg_inv (set_node v f)"
  by (rule keepsI) (auto simp: set_node_def pdg_inv_def node_upd_node)

lemma pop_free_Some: "pop_free n st = Inr (Some v, st') \<Longrightarrow> v < n"
  by (induction n st rule: pop_free.induct) (auto split: if_splits)

lemma add_vertex_cases:
  assumes "add_vertex n g = Inr (v, g')"
  obtains (reuse) st where "v < capacity g" "g' = upd_vertex v (\<lambda>x. x\<lparr>vempty := False, vertex_property := n\<rparr>)
      (g\<lparr>graph_size := graph_size g + 1, free_vertices := st\<rparr>)"
    | (append) st where "v = capacity g" "g' = g\<lparr>graph_size := graph_size g + 1, free_vertices := st, vertices := vertices g @
        [\<lparr>vout_edges = [], vin_edges = [], vertex_property = n, vempty = False\<rparr>]\<rparr>"
proof -
  from assms obtain r st where pop: "pop_free (capacity g) (free_vertices g) = Inr (r, st)"
    by (auto simp: add_vertex_def Let_def bind_outcome_Inr_iff)
  show thesis
  proof (cases r)
    case None
    then show thesis using assms pop by (intro append) (auto simp: add_vertex_def Let_def capacity_def)
  next
    case (Some w)
    then show thesis using assms pop by (intro reuse) (auto simp: add_vertex_def Let_def dest: pop_free_Some)
  qed
qed

lemma keeps_pdg_add_vertex [keeps_intros]: "keeps pdg_inv (pdg_add_vertex n)"
proof (rule keepsI)
  fix p assume p: "pdg_inv p"
  let ?g = "pgraph p"
  obtain E where E: "repr ?g E" using p by (auto simp: pdg_inv_def)
  show "pdg_inv (snd (pdg_add_vertex n p))"
  proof (cases "add_vertex n ?g")
    case (Inl e)
    then show ?thesis using p by (simp add: pdg_add_vertex_def)
  next
    case (Inr r)
    obtain v g' where r: "r = (v, g')" by fastforce
    have old: "w \<in> function_to_vertices p (nfunction (node p w))" if "w < capacity ?g" "\<not> is_empty ?g w" for w
      using p that by (simp add: pdg_inv_def)
    have g': "repr g' E \<and> v < capacity g' \<and> capacity ?g \<le> capacity g' \<and> (\<forall>w. w < capacity g' \<and> \<not> is_empty g' w \<longrightarrow>
        (if w = v then vertex_property (vertices g' ! w) = n
         else w < capacity ?g \<and> \<not> is_empty ?g w \<and> vertex_property (vertices g' ! w) = vertex_property (vertices ?g ! w)))"
      using Inr [unfolded r]
    proof (cases rule: add_vertex_cases)
      case (reuse st)
      have "out_edges g' = out_edges ?g" "in_edges g' = in_edges ?g"
        by (simp_all add: fun_eq_iff reuse(2) edges_upd vout_edges_nth vin_edges_nth)
      moreover have "capacity g' = capacity ?g" by (simp add: reuse(2))
      ultimately show ?thesis
        using E reuse(1) by (auto simp: repr_def reuse(2) is_empty_upd) (simp_all add: upd_vertex_def capacity_def)
    next
      case (append st)
      have "out_edges g' = out_edges ?g" "in_edges g' = in_edges ?g" "capacity g' = Suc (capacity ?g)"
        by (auto simp: fun_eq_iff append(2) out_edges_def in_edges_def capacity_def nth_append less_Suc_eq)
      then show ?thesis
        using E by (auto simp: repr_def append is_empty_def capacity_def nth_append less_SucI)
    qed
    have "w \<in> ((function_to_vertices p)(nfunction n := insert v (function_to_vertices p (nfunction n)))) (nfunction (vertex_property (vertices g' ! w)))"
      if "w < capacity g'" "\<not> is_empty g' w" for w
      using g' old [of w] that by (cases "w = v") (auto simp: node_def)
    moreover have "((function_to_vertices p)(nfunction n := insert v (function_to_vertices p (nfunction n)))) f \<subseteq> {..<capacity g'}" for f
    proof -
      have "function_to_vertices p f \<subseteq> {..<capacity ?g}" for f using p by (simp add: pdg_inv_def)
      then have "function_to_vertices p f \<subseteq> {..<capacity g'}" for f using g' by (meson lessThan_subset_iff order_trans)
      then show ?thesis using g' by simp
    qed
    ultimately show ?thesis using g'
      by (auto simp: pdg_add_vertex_def Inr r pdg_inv_def index_insert_def node_def simp del: fun_upd_apply)
  qed
qed

lemma keeps_pdg_remove_vertex [keeps_intros]: "keeps pdg_inv (pdg_remove_vertex v)"
proof (rule keepsI)
  fix p assume p: "pdg_inv p"
  let ?g = "pgraph p"
  obtain E where E: "repr ?g E" using p by (auto simp: pdg_inv_def)
  show "pdg_inv (snd (pdg_remove_vertex v p))"
  proof (cases "v < capacity ?g")
    case False
    then show ?thesis using p by (simp add: pdg_remove_vertex_def seq_def get_node_def)
  next
    case True
    with E obtain g' where g': "remove_vertex v ?g = Inr g'" "repr g' {e \<in> E. source e \<noteq> v \<and> target e \<noteq> v}"
      "capacity g' = capacity ?g" "\<And>w. is_empty g' w \<longleftrightarrow> w = v \<or> is_empty ?g w"
      by (rule remove_vertex_step) (rule that)
    have "pdg_inv ((index_erase (nfunction (node p v)) v p)\<lparr>pgraph := g'\<rparr>)"
      using p g'(2-4) remove_vertex_property [OF g'(1)] by (auto simp: pdg_inv_def index_erase_def node_def)
    then show ?thesis using True g'(1)
      by (simp add: pdg_remove_vertex_def seq_def get_node_def modify_def on_graph_def index_erase_def)
  qed
qed

lemma index_simps [simp]:
  "pgraph (index_insert f v p) = pgraph p" "pgraph (index_erase f v p) = pgraph p"
  "node (index_insert f v p) = node p" "node (index_erase f v p) = node p"
  "function_to_vertices (index_insert f v p) = (function_to_vertices p)(f := insert v (function_to_vertices p f))"
  "function_to_vertices (index_erase f v p) = (function_to_vertices p)(f := function_to_vertices p f - {v})"
  by (simp_all add: index_insert_def index_erase_def node_def fun_eq_iff)

lemma keeps_updateFunction [keeps_intros]: "keeps pdg_inv (updateFunction v f)"
proof (rule keepsI)
  fix p assume p: "pdg_inv p"
  show "pdg_inv (snd (updateFunction v f p))"
  proof (cases "v < capacity (pgraph p)")
    case False
    then show ?thesis using p by (simp add: updateFunction_def seq_def get_node_def)
  next
    case True
    let ?q = "index_insert f v (upd_node v (\<lambda>n. n\<lparr>nfunction := f\<rparr>) (index_erase (nfunction (node p v)) v p))"
    have "snd (updateFunction v f p) = ?q"
      using True by (simp add: updateFunction_def seq_def get_node_def modify_def set_node_def index_erase_def)
    moreover have "pdg_inv ?q"
      using p True by (auto simp: pdg_inv_def node_upd_node)
    ultimately show ?thesis by simp
  qed
qed

section \<open>Every operation keeps the invariant\<close>

lemma keeps_case_option [keeps_intros]:
  "keeps I m \<Longrightarrow> (\<And>x. keeps I (f x)) \<Longrightarrow> keeps I (case r of None \<Rightarrow> m | Some x \<Rightarrow> f x)"
  by (cases r) simp_all

lemma keeps_case_prod [keeps_intros]: "(\<And>x y. keeps I (f x y)) \<Longrightarrow> keeps I (case r of (x, y) \<Rightarrow> f x y)"
  by (cases r) simp

lemma keeps_Let [keeps_intros]: "(\<And>x. keeps I (f x)) \<Longrightarrow> keeps I (let x = t in f x)"
  by (simp add: Let_def)

lemma pdg_inv_other_fields:
  "pdg_inv (p\<lparr>value_to_vertex := x\<rparr>) = pdg_inv p" "pdg_inv (p\<lparr>united_nodes := y\<rparr>) = pdg_inv p"
  "pdg_inv (p\<lparr>structClusterToKnownFDFields := z\<rparr>) = pdg_inv p"
  by (simp_all add: pdg_inv_def node_def)

lemma keeps_createSubnodes [keeps_intros]:
  "keeps pdg_inv (createSubnodes L ty parent limit)"
  "keeps pdg_inv (createParts L ts i parent limit)"
proof (induction L ty parent limit and L ts i parent limit rule: createSubnodes_createParts.induct)
  case (1 L ty parent limit)
  then show ?case by (auto split: llvm_type.split intro!: keeps_intros)
next
  case (2 L i parent limit)
  show ?case by (simp add: keeps_intros)
next
  case (3 L t ts i parent limit)
  then show ?case by (auto intro!: keeps_intros)
qed

lemma keeps_createVertex [keeps_intros]: "keeps pdg_inv (createVertex L value f)"
  unfolding createVertex_def by (intro keeps_intros) (simp_all add: pdg_inv_other_fields)

lemma keeps_getVertex [keeps_intros]: "keeps pdg_inv (getVertex L value f)"
  unfolding getVertex_def by (intro keeps_intros)

lemma keeps_createDummyVertex [keeps_intros]: "keeps pdg_inv (createDummyVertex L value f)"
  unfolding createDummyVertex_def by (rule keeps_pdg_add_vertex)

lemma keeps_add_edges [keeps_intros]: "keeps pdg_inv (add_edges es)"
  by (induction es rule: add_edges.induct) (auto intro!: keeps_intros)

lemma join_attributes_function: "nfunction (join_attributes n1 n2) = nfunction n1"
  by (simp add: join_attributes_def Let_def)

lemma keeps_pure: "keeps I (\<lambda>p. (f p, p))"
  by (simp add: keeps_def)

lemma keeps_unite_pair [keeps_intros]: "keeps pdg_inv (unite_pair v1 v2)"
  unfolding unite_pair_def by (intro keeps_intros) (simp_all add: join_attributes_function)

lemma keeps_unite_loop [keeps_intros]: "keeps pdg_inv (unite_loop n m Q)"
  by (induction n m Q rule: unite_loop.induct) (auto intro!: keeps_intros keeps_pure)

lemma keeps_addSubnodeEdges [keeps_intros]:
  "keeps pdg_inv (addSubnodeEdges n v1 v2 levels)"
  "keeps pdg_inv (joinSubnodes n i v1 v2 levels)"
  "keeps pdg_inv (uniteSubnodes n v1 v2)"
proof (induction n arbitrary: v1 v2 levels i)
  case 0
  show "keeps pdg_inv (addSubnodeEdges 0 v1 v2 levels)" "keeps pdg_inv (joinSubnodes 0 i v1 v2 levels)"
    "keeps pdg_inv (uniteSubnodes 0 v1 v2)" for v1 v2 levels i
    by (simp_all add: keeps_intros)
next
  case (Suc n)
  show "keeps pdg_inv (addSubnodeEdges (Suc n) v1 v2 levels)" for v1 v2 levels
    using Suc.IH by (auto intro!: keeps_intros)
  show "keeps pdg_inv (joinSubnodes (Suc n) i v1 v2 levels)" for i v1 v2 levels
    using Suc.IH by (auto split: PDGEdgeType.split intro!: keeps_intros simp: Let_def)
  show "keeps pdg_inv (uniteSubnodes (Suc n) v1 v2)" for v1 v2
    using Suc.IH by (auto intro!: keeps_intros simp: Let_def pdg_inv_other_fields)
qed

lemma keeps_removeFunction [keeps_intros]: "keeps pdg_inv (removeFunction f)"
proof -
  have "keeps pdg_inv (remove_vertices vs)" for vs
    by (induction vs) (auto intro!: keeps_intros simp: pdg_inv_other_fields split: option.split)
  then show ?thesis unfolding removeFunction_def by (intro keeps_intros)
qed

section \<open>Properties\<close>

lemma pdg_inv_new: "pdg_inv (PDG_new config)"
proof -
  have "repr (pgraph (PDG_new config)) {}" "capacity (pgraph (PDG_new config)) = 0"
    by (simp_all add: PDG_new_def empty_graph_def repr_def out_edges_def in_edges_def capacity_def)
  then show ?thesis by (auto simp: pdg_inv_def PDG_new_def)
qed

text \<open>
  Every operation on the program dependence graph keeps, on every path including exceptions, the adjacency lists consistent
  and every live vertex in the index under its function; a new graph satisfies this.
\<close>

theorem pdg_index_complete:
  "pdg_inv (PDG_new config) \<and> keeps pdg_inv (getVertex L value f) \<and> keeps pdg_inv (createDummyVertex L value f) \<and>
   keeps pdg_inv (pdg_add_edge v w l) \<and> keeps pdg_inv (addSubnodeEdges n v w levels) \<and> keeps pdg_inv (uniteSubnodes n v w) \<and>
   keeps pdg_inv (updateFunction v f) \<and> keeps pdg_inv (pdg_remove_vertex v) \<and> keeps pdg_inv (removeFunction f)"
  by (simp add: keeps_intros pdg_inv_new)

text \<open>
  Joining two nodes.
\<close>

definition edge_of :: "nat \<times> nat \<times> PDGEdge \<Rightarrow> PDGEdge Edge" where
  "edge_of t = (case t of (v, w, l) \<Rightarrow> \<lparr>source = v, target = w, edge_property = l\<rparr>)"

lemma add_edges_run:
  assumes "repr (pgraph p) E" and "\<forall>(v, w, l)\<in>set es. v < capacity (pgraph p) \<and> w < capacity (pgraph p)"
  shows "\<exists>p'. add_edges es p = (Inr (), p') \<and> repr (pgraph p') (E \<union> edge_of ` set es) \<and>
    capacity (pgraph p') = capacity (pgraph p) \<and> node p' = node p"
  using assms
proof (induction es arbitrary: p E)
  case Nil
  then show ?case by simp
next
  case (Cons t es)
  obtain v w l where t: "t = (v, w, l)" by (cases t) auto
  with Cons.prems have vw: "v < capacity (pgraph p)" "w < capacity (pgraph p)" by auto
  have e: "edge_of t = \<lparr>source = v, target = w, edge_property = l\<rparr>" by (simp add: t edge_of_def)
  obtain g' where g': "add_edge v w l (pgraph p) = Inr g'" "repr g' (insert (edge_of t) E)" "capacity g' = capacity (pgraph p)"
    by (rule add_edge_step [OF Cons.prems(1) vw e]) (rule that)
  let ?p = "p\<lparr>pgraph := g'\<rparr>"
  have "node ?p = node p" using add_edge_property [OF g'(1)] by (simp add: node_def fun_eq_iff)
  then show ?case
    using Cons.IH [of ?p "insert (edge_of t) E"] g' Cons.prems(2)
    by (simp add: t seq_def pdg_add_edge_def on_graph_def)
qed

lemma redirect_out_sets:
  "set (fst (redirect_out p v1 es)) = {(w, target e) | w e. e \<in> set es \<and> partner p v1 (edge_property e) = Some w}"
  "set (snd (redirect_out p v1 es)) = (\<lambda>e. (v1, target e, edge_property e)) ` {e \<in> set es. partner p v1 (edge_property e) = None}"
  by (induction es) (auto split: prod.splits option.splits)

definition moved_edges :: "PDG \<Rightarrow> nat \<Rightarrow> nat \<Rightarrow> PDGEdge Edge set \<Rightarrow> PDGEdge Edge set" where
  "moved_edges p v1 v2 E =
     (\<lambda>e. e\<lparr>source := v1\<rparr>) ` {e \<in> E. source e = v2 \<and> target e \<noteq> v2 \<and> partner p v1 (edge_property e) = None} \<union>
     (\<lambda>e. e\<lparr>target := v1\<rparr>) ` {e \<in> E. target e = v2 \<and> source e \<noteq> v2}"

lemma edge_of_update:
  "edge_of (v, target e, edge_property e) = e\<lparr>source := v\<rparr>" "edge_of (source e, v, edge_property e) = e\<lparr>target := v\<rparr>"
  by (cases e; simp add: edge_of_def)+

lemma partner_upd_node: "partner (upd_node v f p) = partner p"
  by (simp add: fun_eq_iff partner_def getPartOpt_def upd_node_def [of v f p] edges_upd vout_edges_nth Let_def)

lemma redirect_out_upd_node: "redirect_out (upd_node v f p) v1 es = redirect_out p v1 es"
  by (induction es) (simp_all add: partner_upd_node)

text \<open>
  Joining a node without instruction into another one removes it and moves its edges: an edge of the removed node becomes an edge of
  the surviving node unless it is a structural edge that the survivor has as well, in which case the two targets are queued
  for joining; the other edges of the graph stay, edges between the removed node and itself are dropped. The survivor takes
  over the marks of the removed node except \<^verbatim>\<open>reaches_ipc_sink\<close>, which is lost.
\<close>

theorem unite_pair_moves:
  assumes "repr (pgraph p) E" and "v1 < capacity (pgraph p)" and "v2 < capacity (pgraph p)" and "v1 \<noteq> v2"
    and "instruction (node p v2) = None"
  shows "\<exists>Q p'. unite_pair v1 v2 p = (Inr Q, p') \<and>
    set Q = {(w, target e) | w e. e \<in> E \<and> source e = v2 \<and> partner p v1 (edge_property e) = Some w} \<and>
    repr (pgraph p') ({e \<in> E. source e \<noteq> v2 \<and> target e \<noteq> v2} \<union> moved_edges p v1 v2 E) \<and> is_empty (pgraph p') v2 \<and>
    (ipcsink (node p' v1) \<longleftrightarrow> ipcsink (node p v1) \<or> ipcsink (node p v2)) \<and>
    (filedescriptor (node p' v1) \<longleftrightarrow> filedescriptor (node p v1) \<or> filedescriptor (node p v2)) \<and>
    (nsource (node p' v1) \<longleftrightarrow> nsource (node p v1) \<or> nsource (node p v2)) \<and>
    (reaches_ipc_sink (node p' v1) \<longleftrightarrow> reaches_ipc_sink (node p v1))"
proof -
  let ?p1 = "upd_node v1 (\<lambda>n1. join_attributes n1 (node p v2)) p"
  let ?es = "snd (redirect_out p v1 (out_edges (pgraph p) v2)) @ redirect_in v1 (in_edges (pgraph p) v2)"
  have R: "set (out_edges (pgraph p) v2) = {e \<in> E. source e = v2}" "set (in_edges (pgraph p) v2) = {e \<in> E. target e = v2}"
    "\<forall>e\<in>E. source e < capacity (pgraph p) \<and> target e < capacity (pgraph p)"
    using assms(1) by (simp_all add: repr_def)
  have "repr (pgraph ?p1) E" using assms(1) by simp
  moreover have "\<forall>(v, w, l)\<in>set ?es. v < capacity (pgraph ?p1) \<and> w < capacity (pgraph ?p1)"
    using R assms(2) by (auto simp: redirect_out_sets redirect_in_def)
  ultimately obtain p2 where p2: "add_edges ?es ?p1 = (Inr (), p2)" "repr (pgraph p2) (E \<union> edge_of ` set ?es)"
      "capacity (pgraph p2) = capacity (pgraph p)" "node p2 = node ?p1"
    using add_edges_run [of ?p1 E ?es] by auto
  let ?p3 = "upd_node v2 (\<lambda>n. n\<lparr>ipcsink := False, reaches_ipc_sink := False\<rparr>) p2"
  have "repr (pgraph ?p3) (E \<union> edge_of ` set ?es)" "v2 < capacity (pgraph ?p3)" using p2 assms(3) by simp_all
  then obtain g4 where g4: "remove_vertex v2 (pgraph ?p3) = Inr g4"
      "repr g4 {e \<in> E \<union> edge_of ` set ?es. source e \<noteq> v2 \<and> target e \<noteq> v2}" "\<And>w. is_empty g4 w \<longleftrightarrow> w = v2 \<or> is_empty (pgraph ?p3) w"
    by (rule remove_vertex_step) (rule that)
  let ?p4 = "(index_erase (nfunction (node ?p3 v2)) v2 ?p3)\<lparr>pgraph := g4\<rparr>"
  let ?Q = "fst (redirect_out p v1 (out_edges (pgraph p) v2))"
  have rm: "pdg_remove_vertex v2 ?p3 = (Inr (), ?p4)"
    using assms(3) p2(3) g4(1) by (simp add: pdg_remove_vertex_def seq_def get_node_def modify_def on_graph_def index_erase_def)
  obtain Q new where ro: "redirect_out p v1 (out_edges (pgraph p) v2) = (Q, new)" by fastforce
  have run: "unite_pair v1 v2 p = (Inr ?Q, ?p4)"
    using assms(2,3,5) p2(1,3) rm
    by (simp add: unite_pair_def seq_def get_node_def set_node_def reads_def ret_def redirect_out_upd_node ro)
  have "edge_of ` set ?es = (\<lambda>e. e\<lparr>source := v1\<rparr>) ` {e \<in> {e \<in> E. source e = v2}. partner p v1 (edge_property e) = None} \<union>
      (\<lambda>e. e\<lparr>target := v1\<rparr>) ` {e \<in> E. target e = v2}"
    by (simp add: redirect_out_sets redirect_in_def R image_Un image_image edge_of_update)
  then have edges: "{e \<in> E \<union> edge_of ` set ?es. source e \<noteq> v2 \<and> target e \<noteq> v2} =
      {e \<in> E. source e \<noteq> v2 \<and> target e \<noteq> v2} \<union> moved_edges p v1 v2 E"
    using assms(4) by (auto simp: moved_edges_def)
  have "node ?p4 v1 = node ?p3 v1" using remove_vertex_property [OF g4(1)] by (simp add: node_def)
  then have node: "node ?p4 v1 = join_attributes (node p v1) (node p v2)"
    using assms(2-4) p2(3,4) by (simp add: node_upd_node)
  show ?thesis
    by (intro exI conjI, rule run) (use g4 edges node in \<open>simp_all add: redirect_out_sets R join_attributes_def Let_def\<close>)
qed

definition example_edge :: "PDGEdge Edge" where
  "example_edge = \<lparr>source = 2, target = 1, edge_property = pdg_edge Data 0\<rparr>"

definition example_pdg :: PDG where
  "example_pdg = (PDG_new None)\<lparr>pgraph := \<lparr>graph_size = 3, edge_size = 1, max_capacity = 0, free_vertices = [], vertices =
     [\<lparr>vout_edges = [], vin_edges = [], vertex_property = PDGNode_new, vempty = False\<rparr>,
      \<lparr>vout_edges = [], vin_edges = [example_edge], vertex_property = PDGNode_new\<lparr>reaches_ipc_sink := True, ipcsink := True\<rparr>, vempty = False\<rparr>,
      \<lparr>vout_edges = [example_edge], vin_edges = [], vertex_property = PDGNode_new, vempty = False\<rparr>]\<rparr>,
     function_to_vertices := (\<lambda>_. {})(None := {0, 1, 2})\<rparr>"

lemma example_pdg_capacity: "capacity (pgraph example_pdg) = 3"
  by (simp add: example_pdg_def capacity_def)

lemma example_pdg_edges:
  "out_edges (pgraph example_pdg) v = (if v = 2 then [example_edge] else [])"
  "in_edges (pgraph example_pdg) v = (if v = 1 then [example_edge] else [])"
  by (auto simp: out_edges_def in_edges_def example_pdg_capacity numeral_3_eq_3 less_Suc_eq) (simp_all add: example_pdg_def)

lemma example_pdg_repr: "repr (pgraph example_pdg) {example_edge}"
  unfolding repr_def by (auto simp: example_pdg_edges example_pdg_capacity) (simp_all add: example_edge_def)

theorem unite_pair_moves_witness:
  "\<exists>Q p'. reaches_ipc_sink (node example_pdg 1) \<and> unite_pair 0 1 example_pdg = (Inr Q, p') \<and>
     ipcsink (node p' 0) \<and> \<not> reaches_ipc_sink (node p' 0) \<and> is_empty (pgraph p') 1"
proof -
  have nodes: "node example_pdg 0 = PDGNode_new" "node example_pdg 1 = PDGNode_new\<lparr>reaches_ipc_sink := True, ipcsink := True\<rparr>"
    by (simp_all add: node_def example_pdg_def)
  have "0 < capacity (pgraph example_pdg)" "1 < capacity (pgraph example_pdg)" "(0::nat) \<noteq> 1"
    "instruction (node example_pdg 1) = None"
    unfolding nodes by (simp_all add: example_pdg_capacity PDGNode_new_def)
  from unite_pair_moves [OF example_pdg_repr this] nodes show ?thesis
    by (auto simp: PDGNode_new_def)
qed

end
