(* ===== verification/Color_Map.thy ===== *)
theory Color_Map
  imports Cali_Prelude
begin

text \<open>
  The vertex colours of the graph searches (\<^verbatim>\<open>cali-linker/graph/color_map.h\<close>): two bits per
  vertex, four vertices per byte. The search algorithms use \<^verbatim>\<open>init\<close>, \<^verbatim>\<open>put_fast\<close> and \<^verbatim>\<open>get\<close>, whose laws are
  the interface proved here; \<^verbatim>\<open>put\<close> is shown not to satisfy them.
\<close>

section \<open>Definitions\<close>

datatype Color = WHITE | GRAY | GREEN | BLACK

fun color_code :: "Color \<Rightarrow> u8" where
  "color_code WHITE = 0"
| "color_code GRAY = 1"
| "color_code GREEN = 2"
| "color_code BLACK = 3"

definition color_of :: "u8 \<Rightarrow> Color" where
  "color_of b = (if b = 0 then WHITE else if b = 1 then GRAY else if b = 2 then GREEN else BLACK)"

record ColorMap =
  colors :: "u8 list"

definition ColorMap_new :: "nat \<Rightarrow> ColorMap" where
  "ColorMap_new capacity = \<lparr>colors = replicate (capacity div 4 + 512) 0\<rparr>"

definition color_init :: "ColorMap \<Rightarrow> ColorMap" where
  "color_init m = m\<lparr>colors := replicate (length (colors m)) 0\<rparr>"

definition color_shift :: "nat \<Rightarrow> u8 \<Rightarrow> u8" where
  "color_shift v c = push_bit (v mod 4) (push_bit (v mod 4) c)"

text \<open>
  \<^verbatim>\<open>put\<close> computes the byte with the old colour cleared, and then stores the new colour alone.
\<close>

definition color_put :: "nat \<Rightarrow> Color \<Rightarrow> ColorMap \<Rightarrow> ColorMap outcome" where
  "color_put v c m =
     (if v div 4 < length (colors m)
      then Inr (m\<lparr>colors := (colors m)[v div 4 := color_shift v (color_code c)]\<rparr>)
      else Inl Undefined_behaviour)"

definition color_put_fast :: "nat \<Rightarrow> Color \<Rightarrow> ColorMap \<Rightarrow> ColorMap outcome" where
  "color_put_fast v c m =
     (if v div 4 < length (colors m)
      then Inr (m\<lparr>colors := (colors m)[v div 4 := (colors m ! (v div 4)) OR color_shift v (color_code c)]\<rparr>)
      else Inl Undefined_behaviour)"

definition color_get :: "nat \<Rightarrow> ColorMap \<Rightarrow> Color outcome" where
  "color_get v m =
     (if v div 4 < length (colors m)
      then Inr (color_of (drop_bit (v mod 4) (drop_bit (v mod 4) (colors m ! (v div 4))) AND 3))
      else Inl Out_of_range)"

text \<open>
  The join of two colours, as \<^verbatim>\<open>put_fast\<close> computes it.
\<close>

definition color_join :: "Color \<Rightarrow> Color \<Rightarrow> Color" where
  "color_join a b = color_of (color_code a OR color_code b)"

definition color_cap :: "ColorMap \<Rightarrow> nat" where
  "color_cap m = 4 * length (colors m)"

section \<open>The interface\<close>

text \<open>
  What a search relies on: after \<^verbatim>\<open>init\<close> every vertex is white, and colouring one vertex
  joins the new colour to its old one and changes no other vertex.
\<close>

locale color_table =
  fixes cap :: "'m \<Rightarrow> nat"
    and get :: "'m \<Rightarrow> nat \<Rightarrow> Color"
    and put :: "'m \<Rightarrow> nat \<Rightarrow> Color \<Rightarrow> 'm"
    and init :: "'m \<Rightarrow> 'm"
  assumes get_put: "v < cap m \<Longrightarrow> get (put m v c) w = (if v = w then color_join (get m v) c else get m w)"
    and cap_put: "cap (put m v c) = cap m"
    and get_init: "get (init m) v = WHITE"
    and cap_init: "cap (init m) = cap m"
begin

definition whites :: "'m \<Rightarrow> nat set" where
  "whites m = {v. v < cap m \<and> get m v = WHITE}"

lemma finite_whites: "finite (whites m)"
  by (rule finite_subset [of _ "{..<cap m}"]) (auto simp: whites_def)

lemma whites_put: "v < cap m \<Longrightarrow> c \<noteq> WHITE \<Longrightarrow> whites (put m v c) = whites m - {v}"
  by (cases "get m v"; cases c)
    (auto simp: whites_def get_put cap_put color_join_def color_of_def split: if_splits)

lemma card_whites_put:
  "v \<in> whites m \<Longrightarrow> c \<noteq> WHITE \<Longrightarrow> Suc (card (whites (put m v c))) = card (whites m)"
  using card_Suc_Diff1 [OF finite_whites, of v m] whites_put [of v m c] by (simp add: whites_def)

lemma whites_init: "whites (init m) = {..<cap m}"
  by (auto simp: whites_def get_init cap_init)

end

section \<open>The packed bytes implement it\<close>

lemma color_of_code [simp]: "color_of (color_code c) = c"
  by (cases c) (simp_all add: color_of_def)

definition color_at :: "ColorMap \<Rightarrow> nat \<Rightarrow> Color" where
  "color_at m v = (case color_get v m of Inr c \<Rightarrow> c | Inl _ \<Rightarrow> WHITE)"

definition color_mark :: "ColorMap \<Rightarrow> nat \<Rightarrow> Color \<Rightarrow> ColorMap" where
  "color_mark m v c = (case color_put_fast v c m of Inr m' \<Rightarrow> m' | Inl _ \<Rightarrow> m)"

lemma color_get_Inr: "v < color_cap m \<Longrightarrow> color_get v m = Inr (color_at m v)"
  unfolding color_cap_def by (simp add: color_at_def color_get_def less_mult_imp_div_less mult.commute)

lemma color_get_Inl: "color_cap m \<le> v \<Longrightarrow> color_get v m = Inl Out_of_range"
  unfolding color_cap_def by (simp add: color_get_def not_less)

lemma color_put_fast_Inr: "v < color_cap m \<Longrightarrow> color_put_fast v c m = Inr (color_mark m v c)"
  unfolding color_cap_def by (simp add: color_mark_def color_put_fast_def less_mult_imp_div_less mult.commute)

lemma color_put_fast_Inl: "color_cap m \<le> v \<Longrightarrow> color_put_fast v c m = Inl Undefined_behaviour"
  unfolding color_cap_def by (simp add: color_put_fast_def not_less)

lemma color_put_fast_iff: "color_put_fast v c m = Inr m' \<longleftrightarrow> v < color_cap m \<and> m' = color_mark m v c"
  using color_put_fast_Inr [of v m c] color_put_fast_Inl [of m v c] by (cases "v < color_cap m") (auto simp: not_less)

lemma color_get_iff: "color_get v m = Inr c \<longleftrightarrow> v < color_cap m \<and> c = color_at m v"
  using color_get_Inr [of v m] color_get_Inl [of m v] by (cases "v < color_cap m") (auto simp: not_less)

text \<open>
  Two bits of a byte, read after two bits were or-ed in.
\<close>

lemma field_or:
  fixes b c :: u8
  assumes "i < 4" and "j < 4" and c: "take_bit 2 c = c"
  shows "drop_bit j (drop_bit j (b OR push_bit i (push_bit i c))) AND 3 =
    (if i = j then (drop_bit j (drop_bit j b) AND 3) OR c else drop_bit j (drop_bit j b) AND 3)"
proof -
  have m: "(3 :: u8) = mask 2" by (simp add: mask_eq_exp_minus_1)
  have cb: "bit c n \<Longrightarrow> n < 2" for n using c by (metis bit_take_bit_iff)
  have "bit (push_bit i (push_bit i c)) (j + (j + n)) \<longleftrightarrow> i = j \<and> bit c n" if "n < 2" for n
    using that assms(1,2) cb by (cases "i = j") (auto simp: bit_simps dest!: cb)
  moreover have "j + j + n < 8" if "n < 2" for n using that assms(2) by simp
  ultimately show ?thesis
    unfolding m by (intro bit_word_eqI) (auto simp: bit_simps c dest: cb)
qed

lemma color_code_take [simp]: "take_bit 2 (color_code c) = color_code c"
  by (cases c) simp_all

lemma color_code_and_3:
  "color_code (color_of (x AND 3)) = x AND 3"
proof -
  have "x AND 3 = 0 \<or> x AND 3 = 1 \<or> x AND 3 = 2 \<or> x AND 3 = (3 :: u8)"
  proof -
    have "x AND 3 = take_bit 2 x" by (simp add: take_bit_eq_mask mask_eq_exp_minus_1)
    then have "unat (x AND 3) = unat x mod 4" by (simp only: unsigned_take_bit_eq) (simp add: take_bit_eq_mod)
    then have "unat (x AND 3) \<in> {0, 1, 2, 3}" by auto
    then show ?thesis by (auto simp: word_unat_eq_iff)
  qed
  then show ?thesis by (auto simp: color_of_def)
qed

interpretation cm: color_table color_cap color_at color_mark color_init
proof (unfold_locales, goal_cases)
  case (1 v m c w)
  then have v: "v div 4 < length (colors m)" by (simp add: color_cap_def less_mult_imp_div_less mult.commute)
  let ?f = "\<lambda>b. drop_bit (w mod 4) (drop_bit (w mod 4) b) AND 3 :: u8"
  have at: "color_at m' x = (if x div 4 < length (colors m')
      then color_of (drop_bit (x mod 4) (drop_bit (x mod 4) (colors m' ! (x div 4))) AND 3) else WHITE)" for m' x
    by (simp add: color_at_def color_get_def)
  have mark: "colors (color_mark m v c) = (colors m)[v div 4 := colors m ! (v div 4) OR color_shift v (color_code c)]"
    using v by (simp add: color_mark_def color_put_fast_def)
  show ?case
  proof (cases "v div 4 = w div 4")
    case False
    then show ?thesis by (auto simp: at mark)
  next
    case True
    then have vw: "v = w \<longleftrightarrow> v mod 4 = w mod 4" by (metis div_mult_mod_eq)
    have "?f (colors m ! (w div 4) OR color_shift v (color_code c)) =
      (if v mod 4 = w mod 4 then ?f (colors m ! (w div 4)) OR color_code c else ?f (colors m ! (w div 4)))"
      unfolding color_shift_def by (rule field_or) simp_all
    with True v vw show ?thesis by (simp add: at mark color_join_def color_code_and_3)
  qed
next
  case (2 m v c)
  show ?case by (auto simp: color_mark_def color_put_fast_def color_cap_def)
next
  case (3 m v)
  show ?case by (simp add: color_at_def color_get_def color_init_def color_of_def)
next
  case (4 m)
  show ?case by (simp add: color_init_def color_cap_def)
qed

text \<open>
  The transitions the comment on \<^verbatim>\<open>put_fast\<close> allows.
\<close>

lemma color_join_table [simp]:
  "color_join WHITE c = c" "color_join c WHITE = c" "color_join GRAY BLACK = BLACK" "color_join GRAY GRAY = GRAY"
  "color_join BLACK c = BLACK" "color_join c BLACK = BLACK"
  by (cases c; simp add: color_join_def color_of_def)+

text \<open>
  On a map with room for both vertices, \<^verbatim>\<open>put_fast\<close> followed by \<^verbatim>\<open>get\<close> returns the join of the old
  and the new colour for the vertex itself, and the old colour for every other vertex; the transitions from white to gray
  or black and from gray to black reach exactly the new colour.
\<close>

theorem put_fast_get:
  assumes "v < color_cap m" and "w < color_cap m"
  shows "\<exists>m' old. color_put_fast v c m = Inr m' \<and> color_get v m = Inr old \<and>
    color_get w m' = (if v = w then Inr (color_join old c) else color_get w m) \<and>
    ((old, c) \<in> {(WHITE, GRAY), (WHITE, BLACK), (GRAY, BLACK)} \<longrightarrow> color_join old c = c)"
proof -
  have "color_get w (color_mark m v c) = Inr (color_at (color_mark m v c) w)"
    using assms by (intro color_get_Inr) (simp add: cm.cap_put)
  with assms show ?thesis
    by (auto simp: color_put_fast_Inr color_get_Inr cm.get_put)
qed

theorem put_fast_get_witness:
  "\<exists>m' old. 5 < color_cap (ColorMap_new 8) \<and> color_put_fast 5 GRAY (ColorMap_new 8) = Inr m' \<and>
     color_get 5 (ColorMap_new 8) = Inr old \<and> color_get 5 m' = Inr (color_join old GRAY)"
proof -
  have "5 < color_cap (ColorMap_new 8)" by (simp add: color_cap_def ColorMap_new_def)
  with put_fast_get [OF this this, of GRAY] show ?thesis by auto
qed

text \<open>
  \<^verbatim>\<open>put\<close> stores the colour of one vertex and erases those of the other three vertices that share its
  byte, because it discards the byte it has prepared.
\<close>

theorem put_erases_neighbours:
  assumes "v < color_cap m" and "v \<noteq> w" and "v div 4 = w div 4"
  shows "\<exists>m'. color_put v c m = Inr m' \<and> color_get v m' = Inr c \<and> color_get w m' = Inr WHITE"
proof -
  have v: "v div 4 < length (colors m)" using assms(1) by (simp add: color_cap_def less_mult_imp_div_less mult.commute)
  have ne: "v mod 4 \<noteq> w mod 4" using assms(2,3) by (metis div_mult_mod_eq)
  have f: "drop_bit (x mod 4) (drop_bit (x mod 4) (color_shift v (color_code c))) AND 3 =
      (if v mod 4 = x mod 4 then color_code c else 0)" for x
    using field_or [of "v mod 4" "x mod 4" "color_code c" 0] by (simp add: color_shift_def)
  show ?thesis
    using v ne assms(3) f [of v] f [of w] by (simp add: color_put_def color_get_def color_of_def [of 0])
qed

theorem put_erases_neighbours_witness:
  "\<exists>m m'. color_get 4 m = Inr BLACK \<and> color_put 5 GRAY m = Inr m' \<and> color_get 4 m' = Inr WHITE"
proof -
  let ?m = "\<lparr>colors = [0, 3]\<rparr>"
  have "color_get 4 ?m = Inr BLACK" by (simp add: color_get_def color_of_def)
  moreover have "\<exists>m'. color_put 5 GRAY ?m = Inr m' \<and> color_get 5 m' = Inr GRAY \<and> color_get 4 m' = Inr WHITE"
    by (rule put_erases_neighbours) (simp_all add: color_cap_def)
  ultimately show ?thesis by blast
qed

end
