(* ===== verification/Graph_Search.thy ===== *)
theory Graph_Search
  imports Base_Graph Color_Map
begin

text \<open>
  Breadth-first search of the linker (\<^verbatim>\<open>cali-linker/graph/algorithms.h\<close>). A visitor is a record of
  callbacks on a state that contains the graph, since the passes of the linker change vertex properties while they
  search. The searches terminate for every visitor; for a visitor that keeps the adjacency of the graph and
  whose answers do not depend on the progress of the search, they visit exactly the reachable vertices.
\<close>

section \<open>Visitors\<close>

record ('s, 'v, 'e) bfs_visitor =
  the_graph :: "'s \<Rightarrow> ('v, 'e) BaseGraph"
  discover_vertex :: "nat \<Rightarrow> 's \<Rightarrow> bool \<times> 's"
  is_wanted_vertex :: "nat \<Rightarrow> 's \<Rightarrow> bool \<times> 's"
  examine_vertex :: "nat \<Rightarrow> 's \<Rightarrow> 's"
  finish_vertex :: "nat \<Rightarrow> 's \<Rightarrow> 's"
  examine_backwards_edge :: "'e Edge \<Rightarrow> 's \<Rightarrow> bool \<times> 's"
  examine_forwards_edge :: "'e Edge \<Rightarrow> 's \<Rightarrow> bool \<times> 's"
  tree_edge :: "'e Edge \<Rightarrow> 's \<Rightarrow> 's"
  finished :: "'s \<Rightarrow> 's"

definition default_bfs_visitor :: "('s \<Rightarrow> ('v, 'e) BaseGraph) \<Rightarrow> ('s, 'v, 'e) bfs_visitor" where
  "default_bfs_visitor graph =
     \<lparr>the_graph = graph,
      discover_vertex = (\<lambda>_ s. (True, s)),
      is_wanted_vertex = (\<lambda>_ s. (False, s)),
      examine_vertex = (\<lambda>_ s. s),
      finish_vertex = (\<lambda>_ s. s),
      examine_backwards_edge = (\<lambda>_ s. (True, s)),
      examine_forwards_edge = (\<lambda>_ s. (True, s)),
      tree_edge = (\<lambda>_ s. s),
      finished = (\<lambda>s. s)\<rparr>"

record 's search =
  s_colors :: ColorMap
  s_queue :: "nat list"
  s_state :: 's

section \<open>The searches\<close>

text \<open>
  A vertex that is coloured gray: the search ends when it is wanted, and it enters the queue when the visitor
  says so. The forward search never asks whether a vertex is wanted.
\<close>

definition bfs_enter :: "(nat \<Rightarrow> 's \<Rightarrow> bool \<times> 's) \<Rightarrow> ('s, 'v, 'e) bfs_visitor \<Rightarrow> nat \<Rightarrow> 's search \<Rightarrow> (bool \<times> 's search) outcome" where
  "bfs_enter want vis v st =
     bind_outcome (color_put_fast v GRAY (s_colors st)) (\<lambda>cs.
       let (w, s) = want v (s_state st) in
       if w then Inr (True, st\<lparr>s_colors := cs, s_state := s\<rparr>)
       else let (d, s) = discover_vertex vis v s in
            Inr (False, \<lparr>s_colors = cs, s_queue = (if d then s_queue st @ [v] else s_queue st), s_state = s\<rparr>))"

fun bfs_sources :: "(nat \<Rightarrow> 's \<Rightarrow> bool \<times> 's) \<Rightarrow> ('s, 'v, 'e) bfs_visitor \<Rightarrow> nat list \<Rightarrow> 's search \<Rightarrow> (bool \<times> 's search) outcome" where
  "bfs_sources want vis [] st = Inr (False, st)"
| "bfs_sources want vis (s # ss) st =
     bind_outcome (bfs_enter want vis s st) (\<lambda>(found, st).
       if found then Inr (True, st) else bfs_sources want vis ss st)"

text \<open>
  The loop over the edges of one vertex, in one direction.
\<close>

fun bfs_edges :: "(nat \<Rightarrow> 's \<Rightarrow> bool \<times> 's) \<Rightarrow> ('s, 'v, 'e) bfs_visitor \<Rightarrow> ('e Edge \<Rightarrow> 's \<Rightarrow> bool \<times> 's) \<Rightarrow> ('e Edge \<Rightarrow> nat) \<Rightarrow>
    'e Edge list \<Rightarrow> 's search \<Rightarrow> (bool \<times> 's search) outcome" where
  "bfs_edges want vis examine far [] st = Inr (False, st)"
| "bfs_edges want vis examine far (e # es) st =
     (let (follow, s) = examine e (s_state st); st = st\<lparr>s_state := s\<rparr> in
      if \<not> follow then bfs_edges want vis examine far es st
      else bind_outcome (color_get (far e) (s_colors st)) (\<lambda>c.
        if c = WHITE
        then bind_outcome (bfs_enter want vis (far e) (st\<lparr>s_state := tree_edge vis e (s_state st)\<rparr>)) (\<lambda>(found, st).
          if found then Inr (True, st) else bfs_edges want vis examine far es st)
        else bfs_edges want vis examine far es st))"

definition bfs_backward :: "(nat \<Rightarrow> 's \<Rightarrow> bool \<times> 's) \<Rightarrow> ('s, 'v, 'e) bfs_visitor \<Rightarrow> nat \<Rightarrow> 's search \<Rightarrow> (bool \<times> 's search) outcome" where
  "bfs_backward want vis u st =
     bfs_edges want vis (examine_backwards_edge vis) source (in_edges (the_graph vis (s_state st)) u) st"

definition bfs_forward :: "(nat \<Rightarrow> 's \<Rightarrow> bool \<times> 's) \<Rightarrow> ('s, 'v, 'e) bfs_visitor \<Rightarrow> nat \<Rightarrow> 's search \<Rightarrow> (bool \<times> 's search) outcome" where
  "bfs_forward want vis u st =
     bfs_edges want vis (examine_forwards_edge vis) target (out_edges (the_graph vis (s_state st)) u) st"

definition bfs_finish :: "('s, 'v, 'e) bfs_visitor \<Rightarrow> nat \<Rightarrow> 's search \<Rightarrow> 's search outcome" where
  "bfs_finish vis u st =
     bind_outcome (color_put_fast u BLACK (s_colors st)) (\<lambda>cs.
       Inr (st\<lparr>s_colors := cs, s_state := finish_vertex vis u (s_state st)\<rparr>))"

definition bfs_pop :: "('s, 'v, 'e) bfs_visitor \<Rightarrow> nat \<Rightarrow> nat list \<Rightarrow> 's search \<Rightarrow> 's search" where
  "bfs_pop vis u Q st = st\<lparr>s_queue := Q, s_state := examine_vertex vis u (s_state st)\<rparr>"

definition bfs_visit_twoway :: "('s, 'v, 'e) bfs_visitor \<Rightarrow> nat \<Rightarrow> 's search \<Rightarrow> (bool \<times> 's search) outcome" where
  "bfs_visit_twoway vis u st =
     bind_outcome (bfs_backward (is_wanted_vertex vis) vis u st) (\<lambda>(found, st).
       if found then Inr (True, st)
       else bind_outcome (bfs_forward (is_wanted_vertex vis) vis u st) (\<lambda>(found, st).
         if found then Inr (True, st)
         else bind_outcome (bfs_finish vis u st) (\<lambda>st. Inr (False, st))))"

definition never :: "nat \<Rightarrow> 's \<Rightarrow> bool \<times> 's" where
  "never v s = (False, s)"

definition bfs_visit_forward :: "('s, 'v, 'e) bfs_visitor \<Rightarrow> nat \<Rightarrow> 's search \<Rightarrow> (bool \<times> 's search) outcome" where
  "bfs_visit_forward vis u st =
     bind_outcome (bfs_forward never vis u st) (\<lambda>(found, st).
       bind_outcome (bfs_finish vis u st) (\<lambda>st. Inr (False, st)))"

section \<open>Termination\<close>

text \<open>
  Every vertex that enters the queue has been white before, so twice the number of white vertices plus the length of the
  queue never grows, and shrinks when a vertex is taken from the queue.
\<close>

definition work :: "'s search \<Rightarrow> nat" where
  "work st = 2 * card (cm.whites (s_colors st)) + length (s_queue st)"

lemma bfs_enter_work:
  assumes "bfs_enter want vis v st = Inr (b, st')" and "color_at (s_colors st) v = WHITE"
  shows "work st' < work st"
proof -
  from assms(1) have v: "v < color_cap (s_colors st)" and cs: "s_colors st' = color_mark (s_colors st) v GRAY"
    and q: "length (s_queue st') \<le> Suc (length (s_queue st))"
    by (auto simp: bfs_enter_def bind_outcome_Inr_iff color_put_fast_iff Let_def split: prod.splits if_splits)
  from v assms(2) have "v \<in> cm.whites (s_colors st)" by (simp add: cm.whites_def)
  then have "Suc (card (cm.whites (s_colors st'))) = card (cm.whites (s_colors st))"
    unfolding cs by (rule cm.card_whites_put) simp
  with q show ?thesis by (simp add: work_def)
qed

lemma work_state [simp]: "work (st\<lparr>s_state := s\<rparr>) = work st"
  by (simp add: work_def)

lemma bfs_edges_work:
  "bfs_edges want vis examine far es st = Inr (b, st') \<Longrightarrow> work st' \<le> work st"
proof (induction es arbitrary: st)
  case Nil
  then show ?case by simp
next
  case (Cons e es)
  obtain follow s where ex: "examine e (s_state st) = (follow, s)" by fastforce
  let ?st = "st\<lparr>s_state := s\<rparr>" let ?t = "?st\<lparr>s_state := tree_edge vis e s\<rparr>"
  show ?case
  proof (cases "follow \<and> color_at (s_colors st) (far e) = WHITE")
    case False
    with Cons.prems ex have "bfs_edges want vis examine far es ?st = Inr (b, st')"
      by (auto simp: Let_def bind_outcome_Inr_iff color_get_iff split: if_splits)
    then have "work st' \<le> work ?st" by (rule Cons.IH)
    then show ?thesis by simp
  next
    case True
    with Cons.prems ex obtain f st2 where e: "bfs_enter want vis (far e) ?t = Inr (f, st2)"
      and r: "if f then b \<and> st' = st2 else bfs_edges want vis examine far es st2 = Inr (b, st')"
      by (auto simp: Let_def bind_outcome_Inr_iff color_get_iff split: if_splits)
    have "work st2 < work ?t" using e by (rule bfs_enter_work) (use True in simp)
    moreover have "work st' \<le> work st2" using r Cons.IH [of st2] by (cases f) auto
    ultimately show ?thesis by simp
  qed
qed

lemma bfs_finish_work: "bfs_finish vis u st = Inr st' \<Longrightarrow> work st' \<le> work st"
proof -
  assume "bfs_finish vis u st = Inr st'"
  then have u: "u < color_cap (s_colors st)" "s_colors st' = color_mark (s_colors st) u BLACK" "s_queue st' = s_queue st"
    by (auto simp: bfs_finish_def bind_outcome_Inr_iff color_put_fast_iff)
  then have "cm.whites (s_colors st') \<subseteq> cm.whites (s_colors st)" using cm.whites_put [of u "s_colors st" BLACK] by auto
  then have "card (cm.whites (s_colors st')) \<le> card (cm.whites (s_colors st))"
    by (intro card_mono cm.finite_whites)
  with u(3) show ?thesis by (simp add: work_def)
qed

lemma bfs_visit_work:
  "bfs_visit_twoway vis u st = Inr (b, st') \<Longrightarrow> work st' \<le> work st"
  "bfs_visit_forward vis u st = Inr (b, st') \<Longrightarrow> work st' \<le> work st"
  unfolding bfs_visit_twoway_def bfs_visit_forward_def bfs_backward_def bfs_forward_def
  by (fastforce simp: bind_outcome_Inr_iff split: if_splits prod.splits dest: bfs_edges_work bfs_finish_work)+

section \<open>The loops\<close>

function bfs_twoway_loop :: "('s, 'v, 'e) bfs_visitor \<Rightarrow> 's search \<Rightarrow> (bool \<times> 's search) outcome" where
  "bfs_twoway_loop vis st =
     (case s_queue st of
        [] \<Rightarrow> Inr (False, st\<lparr>s_state := finished vis (s_state st)\<rparr>)
      | u # Q \<Rightarrow>
          (case bfs_visit_twoway vis u (bfs_pop vis u Q st) of
             Inl e \<Rightarrow> Inl e
           | Inr (found, st') \<Rightarrow> if found then Inr (True, st') else bfs_twoway_loop vis st'))"
  by pat_completeness auto

termination
proof (relation "measure (\<lambda>(vis, st). work st)", simp, goal_cases)
  case (1 vis st u Q r found st')
  then have "work st' \<le> work (bfs_pop vis u Q st)" by (auto dest: bfs_visit_work)
  also have "\<dots> < work st" using 1(1) by (simp add: bfs_pop_def work_def)
  finally show ?case by simp
qed

function bfs_forward_loop :: "('s, 'v, 'e) bfs_visitor \<Rightarrow> 's search \<Rightarrow> 's search outcome" where
  "bfs_forward_loop vis st =
     (case s_queue st of
        [] \<Rightarrow> Inr (st\<lparr>s_state := finished vis (s_state st)\<rparr>)
      | u # Q \<Rightarrow>
          (case bfs_visit_forward vis u (bfs_pop vis u Q st) of
             Inl e \<Rightarrow> Inl e
           | Inr (found, st') \<Rightarrow> bfs_forward_loop vis st'))"
  by pat_completeness auto

termination
proof (relation "measure (\<lambda>(vis, st). work st)", simp, goal_cases)
  case (1 vis st u Q r found st')
  then have "work st' \<le> work (bfs_pop vis u Q st)" by (auto dest: bfs_visit_work)
  also have "\<dots> < work st" using 1(1) by (simp add: bfs_pop_def work_def)
  finally show ?case by simp
qed

declare bfs_twoway_loop.simps [simp del] bfs_forward_loop.simps [simp del]

definition breadth_first_search_twoway ::
    "('s, 'v, 'e) bfs_visitor \<Rightarrow> nat list \<Rightarrow> ColorMap \<Rightarrow> 's \<Rightarrow> (bool \<times> ColorMap \<times> 's) outcome" where
  "breadth_first_search_twoway vis sources cs s =
     (if sources = [] then Inr (False, cs, s)
      else bind_outcome (bfs_sources (is_wanted_vertex vis) vis sources \<lparr>s_colors = color_init cs, s_queue = [], s_state = s\<rparr>)
        (\<lambda>(found, st). if found then Inr (True, s_colors st, s_state st)
           else bind_outcome (bfs_twoway_loop vis st) (\<lambda>(found, st). Inr (found, s_colors st, s_state st))))"

definition breadth_first_search_forward ::
    "('s, 'v, 'e) bfs_visitor \<Rightarrow> nat list \<Rightarrow> ColorMap \<Rightarrow> 's \<Rightarrow> (ColorMap \<times> 's) outcome" where
  "breadth_first_search_forward vis sources cs s =
     (if sources = [] then Inr (cs, s)
      else bind_outcome (bfs_sources never vis sources \<lparr>s_colors = color_init cs, s_queue = [], s_state = s\<rparr>)
        (\<lambda>(found, st). bind_outcome (bfs_forward_loop vis st) (\<lambda>st. Inr (s_colors st, s_state st))))"

section \<open>Reachability\<close>

text \<open>
  The vertices a search has to find: the sources, and the neighbours along followed edges of found vertices
  that the visitor wants explored.
\<close>

definition bfs_succ :: "('v, 'e) BaseGraph \<Rightarrow> ('e Edge \<Rightarrow> bool) \<Rightarrow> ('e Edge \<Rightarrow> bool) \<Rightarrow> nat \<Rightarrow> nat set" where
  "bfs_succ g bwd fwd u =
     source ` {e \<in> set (in_edges g u). bwd e} \<union> target ` {e \<in> set (out_edges g u). fwd e}"

inductive_set bfs_found :: "('v, 'e) BaseGraph \<Rightarrow> ('e Edge \<Rightarrow> bool) \<Rightarrow> ('e Edge \<Rightarrow> bool) \<Rightarrow> (nat \<Rightarrow> bool) \<Rightarrow> nat list \<Rightarrow> nat set"
  for g :: "('v, 'e) BaseGraph" and bwd :: "'e Edge \<Rightarrow> bool" and fwd :: "'e Edge \<Rightarrow> bool"
    and explore :: "nat \<Rightarrow> bool" and sources :: "nat list" where
  source_found: "v \<in> set sources \<Longrightarrow> v \<in> bfs_found g bwd fwd explore sources"
| succ_found: "u \<in> bfs_found g bwd fwd explore sources \<Longrightarrow> explore u \<Longrightarrow> v \<in> bfs_succ g bwd fwd u \<Longrightarrow>
    v \<in> bfs_found g bwd fwd explore sources"

lemma bfs_found_Nil [simp]: "bfs_found g bwd fwd explore [] = {}"
proof -
  have "v \<notin> bfs_found g bwd fwd explore []" for v
    by (rule notI, erule bfs_found.induct) simp_all
  then show ?thesis by blast
qed

text \<open>
  The contract of a visitor: its callbacks keep an invariant under which the adjacency is that of a fixed graph, its answers are
  given by predicates on vertices and edges, and discovering a vertex adds the marks of the vertex. The callbacks need to behave on the
  vertices \<^term>\<open>U\<close> only, among which are all that the search finds.
\<close>

locale bfs_visiting =
  fixes vis :: "('s, 'v, 'e) bfs_visitor"
    and g :: "('v, 'e) BaseGraph"
    and inv :: "'s \<Rightarrow> bool"
    and bwd fwd :: "'e Edge \<Rightarrow> bool"
    and explore wanted :: "nat \<Rightarrow> bool"
    and mark :: "'s \<Rightarrow> 'm set"
    and marks :: "nat \<Rightarrow> 'm set"
    and U :: "nat set"
  assumes adjacency: "inv s \<Longrightarrow> out_edges (the_graph vis s) = out_edges g \<and> in_edges (the_graph vis s) = in_edges g"
    and discover: "inv s \<Longrightarrow> v < capacity g \<Longrightarrow> v \<in> U \<Longrightarrow> discover_vertex vis v s = (d, s') \<Longrightarrow>
        inv s' \<and> d = explore v \<and> mark s' = mark s \<union> marks v"
    and want: "inv s \<Longrightarrow> v < capacity g \<Longrightarrow> v \<in> U \<Longrightarrow> is_wanted_vertex vis v s = (w, s') \<Longrightarrow> inv s' \<and> w = wanted v \<and> mark s' = mark s"
    and examine: "inv s \<Longrightarrow> v < capacity g \<Longrightarrow> v \<in> U \<Longrightarrow> explore v \<Longrightarrow> inv (examine_vertex vis v s) \<and> mark (examine_vertex vis v s) = mark s"
    and finish: "inv s \<Longrightarrow> inv (finish_vertex vis v s) \<and> mark (finish_vertex vis v s) = mark s"
    and backwards: "inv s \<Longrightarrow> examine_backwards_edge vis e s = (b, s') \<Longrightarrow> inv s' \<and> b = bwd e \<and> mark s' = mark s"
    and forwards: "inv s \<Longrightarrow> examine_forwards_edge vis e s = (b, s') \<Longrightarrow> inv s' \<and> b = fwd e \<and> mark s' = mark s"
    and tree: "inv s \<Longrightarrow> inv (tree_edge vis e s) \<and> mark (tree_edge vis e s) = mark s"
begin

text \<open>
  The state of a search: \<^term>\<open>N\<close> is the set of vertices that are not white, \<^term>\<open>P\<close> those whose edges are still to be
  looked at besides the queue.
\<close>

definition nonwhite :: "'s search \<Rightarrow> nat set" where
  "nonwhite st = {v. v < capacity g \<and> color_at (s_colors st) v \<noteq> WHITE}"

definition sound :: "nat list \<Rightarrow> (nat \<Rightarrow> bool) \<Rightarrow> 'm set \<Rightarrow> 's search \<Rightarrow> bool" where
  "sound srcs w m0 st \<longleftrightarrow> inv (s_state st) \<and> capacity g \<le> color_cap (s_colors st) \<and>
     nonwhite st \<subseteq> bfs_found g bwd fwd explore srcs \<and> bfs_found g bwd fwd explore srcs \<subseteq> U \<and> (\<forall>v\<in>nonwhite st. \<not> w v) \<and>
     set (s_queue st) \<subseteq> {v \<in> nonwhite st. explore v} \<and> mark (s_state st) = m0 \<union> (\<Union>v\<in>nonwhite st. marks v)"

definition closed :: "nat set \<Rightarrow> 's search \<Rightarrow> bool" where
  "closed X st \<longleftrightarrow> (\<forall>u\<in>nonwhite st. explore u \<and> u \<notin> set (s_queue st) \<and> u \<notin> X \<longrightarrow> bfs_succ g bwd fwd u \<subseteq> nonwhite st)"

definition want_ok :: "(nat \<Rightarrow> 's \<Rightarrow> bool \<times> 's) \<Rightarrow> (nat \<Rightarrow> bool) \<Rightarrow> bool" where
  "want_ok f w \<longleftrightarrow> (\<forall>s v. inv s \<and> v < capacity g \<and> v \<in> U \<longrightarrow>
     inv (snd (f v s)) \<and> fst (f v s) = w v \<and> mark (snd (f v s)) = mark s)"

lemma want_ok_vis: "want_ok (is_wanted_vertex vis) wanted"
  unfolding want_ok_def using want by (metis prod.collapse)

lemma want_okD: "want_ok f w \<Longrightarrow> inv s \<Longrightarrow> v < capacity g \<Longrightarrow> v \<in> U \<Longrightarrow> f v s = (x, s') \<Longrightarrow> inv s' \<and> x = w v \<and> mark s' = mark s"
  unfolding want_ok_def by (metis fst_conv snd_conv)

lemma want_ok_never: "want_ok never (\<lambda>_. False)"
  by (simp add: want_ok_def never_def)

lemma nonwhite_mark:
  assumes "v < capacity g" and "capacity g \<le> color_cap (s_colors st)" and "c \<noteq> WHITE" and "s_colors st' = color_mark (s_colors st) v c"
  shows "nonwhite st' = insert v (nonwhite st)" "color_cap (s_colors st') = color_cap (s_colors st)"
proof -
  have v: "v < color_cap (s_colors st)" using assms(1,2) by simp
  have "color_join a c \<noteq> WHITE" for a using assms(3) by (cases a; cases c) (simp_all add: color_join_def color_of_def)
  then show "nonwhite st' = insert v (nonwhite st)"
    using assms(1) by (auto simp: nonwhite_def assms(4) cm.get_put [OF v])
  show "color_cap (s_colors st') = color_cap (s_colors st)" by (simp add: assms(4) cm.cap_put)
qed

lemma nonwhite_state [simp]: "nonwhite (st\<lparr>s_state := s\<rparr>) = nonwhite st" "nonwhite (st\<lparr>s_queue := q\<rparr>) = nonwhite st"
  by (simp_all add: nonwhite_def)

text \<open>
  Progress of a search from \<^term>\<open>st\<close> to \<^term>\<open>st'\<close> that has coloured \<^term>\<open>V\<close>.
\<close>

definition advances :: "nat list \<Rightarrow> (nat \<Rightarrow> bool) \<Rightarrow> 'm set \<Rightarrow> 's search \<Rightarrow> nat set \<Rightarrow> 's search \<Rightarrow> bool" where
  "advances srcs w m0 st V st' \<longleftrightarrow> sound srcs w m0 st' \<and> nonwhite st' = nonwhite st \<union> V \<and>
     set (s_queue st) \<union> {v \<in> nonwhite st' - nonwhite st. explore v} \<subseteq> set (s_queue st')"

lemma advances_trans:
  "advances srcs w m0 st V st' \<Longrightarrow> advances srcs w m0 st' V' st'' \<Longrightarrow> advances srcs w m0 st (V \<union> V') st''"
  unfolding advances_def by blast

lemma advances_closed:
  "advances srcs w m0 st V st' \<Longrightarrow> closed X st \<Longrightarrow> closed X st'"
  unfolding advances_def closed_def by blast

lemma bfs_enter_correct:
  assumes "sound srcs w m0 st" and "want_ok f w" and "v < capacity g" and "v \<in> bfs_found g bwd fwd explore srcs"
  shows "\<exists>b st'. bfs_enter f vis v st = Inr (b, st') \<and> inv (s_state st') \<and> (if b then w v else advances srcs w m0 st {v} st')"
proof -
  obtain x s where f: "f v (s_state st) = (x, s)" by fastforce
  obtain d s' where d: "discover_vertex vis v s = (d, s')" by fastforce
  have S: "inv (s_state st)" "capacity g \<le> color_cap (s_colors st)" using assms(1) by (simp_all add: sound_def)
  have U: "v \<in> U" using assms(1,4) by (auto simp: sound_def)
  have s: "inv s" "x = w v" "mark s = mark (s_state st)" using want_okD [OF assms(2) S(1) assms(3) U f] by simp_all
  have s': "inv s'" "d = explore v" "mark s' = mark s \<union> marks v" using discover [OF s(1) assms(3) U d] by simp_all
  have put: "color_put_fast v GRAY (s_colors st) = Inr (color_mark (s_colors st) v GRAY)"
    using assms(3) S(2) by (intro color_put_fast_Inr) simp
  show ?thesis
  proof (cases x)
    case True
    then show ?thesis using put f s by (auto simp: bfs_enter_def)
  next
    case False
    define st' where "st' = \<lparr>s_colors = color_mark (s_colors st) v GRAY,
      s_queue = (if d then s_queue st @ [v] else s_queue st), s_state = s'\<rparr>"
    have run: "bfs_enter f vis v st = Inr (False, st')" using put f d False by (simp add: bfs_enter_def st'_def)
    have nw: "nonwhite st' = insert v (nonwhite st)" "color_cap (s_colors st') = color_cap (s_colors st)"
      using nonwhite_mark [OF assms(3) S(2), of GRAY st'] by (simp_all add: st'_def)
    have "sound srcs w m0 st'"
      using assms(1,4) s s' False S(2) unfolding sound_def nw by (auto simp: st'_def)
    then have "advances srcs w m0 st {v} st'"
      using s'(2) unfolding advances_def nw by (auto simp: st'_def)
    moreover have "inv (s_state st')" using s'(1) by (simp add: st'_def)
    ultimately show ?thesis using run by auto
  qed
qed

lemma bfs_sources_correct:
  assumes "sound srcs w m0 st" and "want_ok f w" and "set ss \<subseteq> set srcs" and "\<forall>v\<in>set ss. v < capacity g"
  shows "\<exists>b st'. bfs_sources f vis ss st = Inr (b, st') \<and> inv (s_state st') \<and>
    (if b then \<exists>v\<in>bfs_found g bwd fwd explore srcs. w v else advances srcs w m0 st (set ss) st')"
  using assms(1,3,4)
proof (induction ss arbitrary: st)
  case Nil
  then show ?case by (auto simp: advances_def sound_def)
next
  case (Cons v ss)
  have v: "v \<in> bfs_found g bwd fwd explore srcs" "v < capacity g" using Cons.prems by (auto intro: source_found)
  obtain b st1 where e: "bfs_enter f vis v st = Inr (b, st1)" "inv (s_state st1)" "if b then w v else advances srcs w m0 st {v} st1"
    using bfs_enter_correct [OF Cons.prems(1) assms(2) v(2,1)] by blast
  show ?case
  proof (cases b)
    case True
    then show ?thesis using e v by auto
  next
    case False
    then have "sound srcs w m0 st1" using e by (simp add: advances_def)
    from Cons.IH [OF this] Cons.prems obtain b' st2 where
      r: "bfs_sources f vis ss st1 = Inr (b', st2)" "inv (s_state st2)" "if b' then \<exists>v\<in>bfs_found g bwd fwd explore srcs. w v else advances srcs w m0 st1 (set ss) st2"
      by auto
    then show ?thesis using e False advances_trans [of srcs w m0 st "{v}" st1 "set ss" st2] by (cases b') auto
  qed
qed

lemma bfs_edges_correct:
  assumes "sound srcs w m0 st" and "want_ok f w"
    and ex: "\<And>s e b s'. inv s \<Longrightarrow> examine e s = (b, s') \<Longrightarrow> inv s' \<and> b = follow e \<and> mark s' = mark s"
    and es: "\<forall>e\<in>set es. far e < capacity g \<and> (follow e \<longrightarrow> far e \<in> bfs_found g bwd fwd explore srcs)"
  shows "\<exists>b st'. bfs_edges f vis examine far es st = Inr (b, st') \<and> inv (s_state st') \<and>
    (if b then \<exists>v\<in>bfs_found g bwd fwd explore srcs. w v else advances srcs w m0 st (far ` {e \<in> set es. follow e}) st')"
  using assms(1) es
proof (induction es arbitrary: st)
  case Nil
  then show ?case by (auto simp: advances_def sound_def)
next
  case (Cons e es)
  obtain b s where b: "examine e (s_state st) = (b, s)" by fastforce
  have s: "inv s" "b = follow e" "mark s = mark (s_state st)" using ex [OF _ b] Cons.prems(1) by (auto simp: sound_def)
  let ?st = "st\<lparr>s_state := s\<rparr>" and ?t = "st\<lparr>s_state := tree_edge vis e s\<rparr>"
  have st: "sound srcs w m0 ?st" using Cons.prems(1) s by (simp add: sound_def)
  have t: "sound srcs w m0 ?t" using Cons.prems(1) s tree [OF s(1)] by (simp add: sound_def)
  have cap: "capacity g \<le> color_cap (s_colors st)" using Cons.prems(1) by (simp add: sound_def)
  have get: "color_get (far e) (s_colors st) = Inr (color_at (s_colors st) (far e))"
    using Cons.prems(2) cap by (intro color_get_Inr) auto
  have same: "advances srcs w m0 st V st' \<longleftrightarrow> advances srcs w m0 (st\<lparr>s_state := x\<rparr>) V st'" for V st' x
    by (simp add: advances_def)
  consider (skip) "\<not> follow e \<or> color_at (s_colors st) (far e) \<noteq> WHITE" | (enter) "follow e" "color_at (s_colors st) (far e) = WHITE"
    by blast
  then show ?case
  proof cases
    case skip
    have run: "bfs_edges f vis examine far (e # es) st = bfs_edges f vis examine far es ?st"
      using skip b s get by (auto simp: Let_def)
    have "follow e \<Longrightarrow> far e \<in> nonwhite st" using skip Cons.prems(2) by (auto simp: nonwhite_def)
    then have eq: "advances srcs w m0 st (far ` {x \<in> set (e # es). follow x}) st' \<longleftrightarrow> advances srcs w m0 ?st (far ` {x \<in> set es. follow x}) st'" for st'
      by (auto simp: advances_def)
    have "\<forall>e\<in>set es. far e < capacity g \<and> (follow e \<longrightarrow> far e \<in> bfs_found g bwd fwd explore srcs)" using Cons.prems(2) by simp
    from Cons.IH [OF st this] show ?thesis unfolding run eq .
  next
    case enter
    obtain d st1 where e: "bfs_enter f vis (far e) ?t = Inr (d, st1)" "inv (s_state st1)" "if d then w (far e) else advances srcs w m0 ?t {far e} st1"
      using bfs_enter_correct [OF t assms(2), of "far e"] Cons.prems(2) enter by auto
    have run: "bfs_edges f vis examine far (e # es) st = (if d then Inr (True, st1) else bfs_edges f vis examine far es st1)"
      using enter b s get e(1) by (simp add: Let_def)
    show ?thesis
    proof (cases d)
      case True
      then show ?thesis using e run enter Cons.prems(2) by auto
    next
      case False
      then have "sound srcs w m0 st1" using e by (simp add: advances_def)
      from Cons.IH [OF this] Cons.prems(2) obtain b' st2 where r: "bfs_edges f vis examine far es st1 = Inr (b', st2)" "inv (s_state st2)"
        "if b' then \<exists>v\<in>bfs_found g bwd fwd explore srcs. w v else advances srcs w m0 st1 (far ` {e \<in> set es. follow e}) st2"
        by auto
      have "far ` {x \<in> set (e # es). follow x} = {far e} \<union> far ` {e \<in> set es. follow e}" using enter by auto
      then have "\<not> b' \<Longrightarrow> advances srcs w m0 st (far ` {x \<in> set (e # es). follow x}) st2"
        using advances_trans [of srcs w m0 st "{far e}" st1 _ st2] e(3) r(3) False same [of "{far e}" st1] by simp
      then show ?thesis using r run False by (cases b') auto
    qed
  qed
qed

lemma bfs_finish_correct:
  assumes "sound srcs w m0 st" and "u \<in> nonwhite st"
  shows "\<exists>st'. bfs_finish vis u st = Inr st' \<and> advances srcs w m0 st {} st'"
proof -
  let ?st = "st\<lparr>s_colors := color_mark (s_colors st) u BLACK, s_state := finish_vertex vis u (s_state st)\<rparr>"
  have S: "inv (s_state st)" "capacity g \<le> color_cap (s_colors st)" "u < capacity g"
    using assms by (simp_all add: sound_def nonwhite_def)
  then have "bfs_finish vis u st = Inr ?st" by (simp add: bfs_finish_def color_put_fast_Inr)
  moreover have nw: "nonwhite ?st = nonwhite st" "color_cap (s_colors ?st) = color_cap (s_colors st)"
    using nonwhite_mark [OF S(3,2), of BLACK ?st] assms(2) by auto
  have "advances srcs w m0 st {} ?st"
    using assms(1) finish [OF S(1), of u] unfolding advances_def sound_def nw by simp
  ultimately show ?thesis by blast
qed

lemma neighbours:
  assumes "edges_ok g" and "u \<in> bfs_found g bwd fwd explore srcs" and "explore u"
  shows "\<forall>e\<in>set (in_edges g u). source e < capacity g \<and> (bwd e \<longrightarrow> source e \<in> bfs_found g bwd fwd explore srcs)"
    and "\<forall>e\<in>set (out_edges g u). target e < capacity g \<and> (fwd e \<longrightarrow> target e \<in> bfs_found g bwd fwd explore srcs)"
  using assms(1) succ_found [OF assms(2,3)] by (auto simp: bfs_succ_def edges_ok_def)

lemma bfs_pop_correct:
  assumes "sound srcs w m0 st" and "closed {} st" and "s_queue st = u # Q"
  shows "sound srcs w m0 (bfs_pop vis u Q st)" "closed {u} (bfs_pop vis u Q st)" "nonwhite (bfs_pop vis u Q st) = nonwhite st"
    "u \<in> nonwhite st" "explore u"
  using assms examine [of "s_state st" u] by (auto simp: sound_def closed_def bfs_pop_def nonwhite_def)

lemma bfs_visit_twoway_correct:
  assumes "sound srcs wanted m0 st" and "closed {u} st" and ok: "edges_ok g" and u: "u \<in> nonwhite st" "explore u"
  shows "\<exists>b st'. bfs_visit_twoway vis u st = Inr (b, st') \<and> inv (s_state st') \<and>
    (if b then \<exists>v\<in>bfs_found g bwd fwd explore srcs. wanted v else advances srcs wanted m0 st (bfs_succ g bwd fwd u) st' \<and> closed {} st')"
proof -
  have f: "u \<in> bfs_found g bwd fwd explore srcs" using assms(1) u by (auto simp: sound_def)
  have adj: "in_edges (the_graph vis (s_state st)) u = in_edges g u" using assms(1) adjacency by (simp add: sound_def)
  obtain b1 st1 where 1: "bfs_backward (is_wanted_vertex vis) vis u st = Inr (b1, st1)" "inv (s_state st1)"
    "if b1 then \<exists>v\<in>bfs_found g bwd fwd explore srcs. wanted v else advances srcs wanted m0 st (source ` {e \<in> set (in_edges g u). bwd e}) st1"
    unfolding bfs_backward_def adj
    using bfs_edges_correct [OF assms(1) want_ok_vis backwards neighbours(1) [OF ok f u(2)]] by blast
  show ?thesis
  proof (cases b1)
    case True
    then show ?thesis using 1 by (auto simp: bfs_visit_twoway_def)
  next
    case False
    then have A: "advances srcs wanted m0 st (source ` {e \<in> set (in_edges g u). bwd e}) st1" using 1 by simp
    then have s1: "sound srcs wanted m0 st1" by (simp add: advances_def)
    have adj1: "out_edges (the_graph vis (s_state st1)) u = out_edges g u" using s1 adjacency by (simp add: sound_def)
    obtain b2 st2 where 2: "bfs_forward (is_wanted_vertex vis) vis u st1 = Inr (b2, st2)" "inv (s_state st2)"
      "if b2 then \<exists>v\<in>bfs_found g bwd fwd explore srcs. wanted v else advances srcs wanted m0 st1 (target ` {e \<in> set (out_edges g u). fwd e}) st2"
      unfolding bfs_forward_def adj1
      using bfs_edges_correct [OF s1 want_ok_vis forwards neighbours(2) [OF ok f u(2)]] by blast
    show ?thesis
    proof (cases b2)
      case True
      then show ?thesis using 1 2 False by (auto simp: bfs_visit_twoway_def)
    next
      case b2: False
      then have B: "advances srcs wanted m0 st (bfs_succ g bwd fwd u) st2"
        using advances_trans [OF A] 2 by (simp add: bfs_succ_def)
      then have s2: "sound srcs wanted m0 st2" "u \<in> nonwhite st2" using u by (auto simp: advances_def)
      then obtain st3 where 3: "bfs_finish vis u st2 = Inr st3" "advances srcs wanted m0 st2 {} st3"
        using bfs_finish_correct by blast
      have C: "advances srcs wanted m0 st (bfs_succ g bwd fwd u) st3" using advances_trans [OF B 3(2)] by simp
      have "closed {u} st3" using advances_closed [OF C assms(2)] .
      then have "closed {} st3" using C by (auto simp: closed_def advances_def)
      with C have "advances srcs wanted m0 st (bfs_succ g bwd fwd u) st3 \<and> closed {} st3" by simp
      moreover have "inv (s_state st3)" using C by (simp add: advances_def sound_def)
      ultimately show ?thesis using 1 2 3 False b2 by (auto simp: bfs_visit_twoway_def)
    qed
  qed
qed

lemma bfs_visit_forward_correct:
  assumes "sound srcs (\<lambda>_. False) m0 st" and "closed {u} st" and ok: "edges_ok g" and u: "u \<in> nonwhite st" "explore u" and nb: "\<And>e. \<not> bwd e"
  shows "\<exists>st'. bfs_visit_forward vis u st = Inr (False, st') \<and> sound srcs (\<lambda>_. False) m0 st' \<and> closed {} st' \<and> nonwhite st \<subseteq> nonwhite st'"
proof -
  have f: "u \<in> bfs_found g bwd fwd explore srcs" using assms(1) u by (auto simp: sound_def)
  have adj: "out_edges (the_graph vis (s_state st)) u = out_edges g u" using assms(1) adjacency by (simp add: sound_def)
  obtain b st2 where 2: "bfs_forward never vis u st = Inr (b, st2)"
    "if b then \<exists>v\<in>bfs_found g bwd fwd explore srcs. False else advances srcs (\<lambda>_. False) m0 st (target ` {e \<in> set (out_edges g u). fwd e}) st2"
    unfolding bfs_forward_def adj
    using bfs_edges_correct [OF assms(1) want_ok_never forwards neighbours(2) [OF ok f u(2)]] by blast
  then have B: "advances srcs (\<lambda>_. False) m0 st (bfs_succ g bwd fwd u) st2" "\<not> b"
    using nb by (auto simp: bfs_succ_def split: if_splits)
  then have s2: "sound srcs (\<lambda>_. False) m0 st2" "u \<in> nonwhite st2" using u by (auto simp: advances_def)
  then obtain st3 where 3: "bfs_finish vis u st2 = Inr st3" "advances srcs (\<lambda>_. False) m0 st2 {} st3"
    using bfs_finish_correct by blast
  have C: "advances srcs (\<lambda>_. False) m0 st (bfs_succ g bwd fwd u) st3" using advances_trans [OF B(1) 3(2)] by simp
  have "closed {u} st3" using advances_closed [OF C assms(2)] .
  then have "closed {} st3" using C by (auto simp: closed_def advances_def)
  then show ?thesis using C 2 3 by (auto simp: bfs_visit_forward_def advances_def)
qed

text \<open>
  When the queue is empty the vertices that are not white are closed under followed edges and contain the sources, so
  they are all that can be found.
\<close>

lemma found_all:
  assumes "sound srcs w m0 st" and "closed {} st" and "s_queue st = []" and "set srcs \<subseteq> nonwhite st"
  shows "nonwhite st = bfs_found g bwd fwd explore srcs"
proof
  show "nonwhite st \<subseteq> bfs_found g bwd fwd explore srcs" using assms(1) by (simp add: sound_def)
  show "bfs_found g bwd fwd explore srcs \<subseteq> nonwhite st"
  proof
    fix v assume "v \<in> bfs_found g bwd fwd explore srcs"
    then show "v \<in> nonwhite st"
      by induction (use assms in \<open>auto simp: closed_def\<close>)
  qed
qed

lemma bfs_twoway_loop_correct:
  assumes "sound srcs wanted m0 st" and "closed {} st" and "set srcs \<subseteq> nonwhite st" and ok: "edges_ok g"
  shows "\<exists>b st'. bfs_twoway_loop vis st = Inr (b, st') \<and>
    (if b then inv (s_state st') \<and> (\<exists>v\<in>bfs_found g bwd fwd explore srcs. wanted v)
     else nonwhite st' = bfs_found g bwd fwd explore srcs \<and> (\<forall>v\<in>nonwhite st'. \<not> wanted v) \<and>
       (\<exists>s. inv s \<and> s_state st' = finished vis s \<and> mark s = m0 \<union> (\<Union>v\<in>nonwhite st'. marks v)))"
  using assms(1-3)
proof (induction "work st" arbitrary: st rule: less_induct)
  case less
  show ?case
  proof (cases "s_queue st")
    case Nil
    then show ?thesis
      using less.prems found_all [OF less.prems(1,2) Nil less.prems(3)]
      by (auto simp: bfs_twoway_loop.simps [of vis st] sound_def)
  next
    case (Cons u Q)
    let ?p = "bfs_pop vis u Q st"
    note pop = bfs_pop_correct [OF less.prems(1,2) Cons]
    obtain b st1 where 1: "bfs_visit_twoway vis u ?p = Inr (b, st1)" "inv (s_state st1)"
      "if b then \<exists>v\<in>bfs_found g bwd fwd explore srcs. wanted v else advances srcs wanted m0 ?p (bfs_succ g bwd fwd u) st1 \<and> closed {} st1"
      using bfs_visit_twoway_correct [OF pop(1,2) ok _ pop(5)] pop(3,4) by auto
    have run: "bfs_twoway_loop vis st = (if b then Inr (True, st1) else bfs_twoway_loop vis st1)"
      using Cons 1(1) by (simp add: bfs_twoway_loop.simps [of vis st])
    show ?thesis
    proof (cases b)
      case True
      then show ?thesis using 1 run by auto
    next
      case False
      have "work st1 < work st"
        using bfs_visit_work(1) [OF 1(1)] Cons by (simp add: bfs_pop_def work_def)
      moreover have "sound srcs wanted m0 st1" "closed {} st1" "set srcs \<subseteq> nonwhite st1"
        using 1 False less.prems(3) pop(3) by (auto simp: advances_def)
      ultimately have "\<exists>b st'. bfs_twoway_loop vis st1 = Inr (b, st') \<and>
        (if b then inv (s_state st') \<and> (\<exists>v\<in>bfs_found g bwd fwd explore srcs. wanted v)
         else nonwhite st' = bfs_found g bwd fwd explore srcs \<and> (\<forall>v\<in>nonwhite st'. \<not> wanted v) \<and>
           (\<exists>s. inv s \<and> s_state st' = finished vis s \<and> mark s = m0 \<union> (\<Union>v\<in>nonwhite st'. marks v)))"
        by (rule less.hyps)
      then show ?thesis using run False by simp
    qed
  qed
qed

lemma bfs_forward_loop_correct:
  assumes "sound srcs (\<lambda>_. False) m0 st" and "closed {} st" and "set srcs \<subseteq> nonwhite st" and ok: "edges_ok g" and nb: "\<And>e. \<not> bwd e"
  shows "\<exists>st'. bfs_forward_loop vis st = Inr st' \<and> nonwhite st' = bfs_found g bwd fwd explore srcs \<and>
    (\<exists>s. inv s \<and> s_state st' = finished vis s \<and> mark s = m0 \<union> (\<Union>v\<in>nonwhite st'. marks v))"
  using assms(1-3)
proof (induction "work st" arbitrary: st rule: less_induct)
  case less
  show ?case
  proof (cases "s_queue st")
    case Nil
    then show ?thesis
      using less.prems found_all [OF less.prems(1,2) Nil less.prems(3)]
      by (auto simp: bfs_forward_loop.simps [of vis st] sound_def)
  next
    case (Cons u Q)
    let ?p = "bfs_pop vis u Q st"
    note pop = bfs_pop_correct [OF less.prems(1,2) Cons]
    obtain st1 where 1: "bfs_visit_forward vis u ?p = Inr (False, st1)" "sound srcs (\<lambda>_. False) m0 st1" "closed {} st1"
      "nonwhite ?p \<subseteq> nonwhite st1"
      using bfs_visit_forward_correct [OF pop(1,2) ok _ pop(5) nb] pop(3,4) by auto
    have "work st1 < work st"
      using bfs_visit_work(2) [OF 1(1)] Cons by (simp add: bfs_pop_def work_def)
    moreover have "set srcs \<subseteq> nonwhite st1" using 1 less.prems(3) pop(3) by auto
    ultimately show ?thesis
      using less.hyps [OF _ 1(2,3)] Cons 1(1) by (simp add: bfs_forward_loop.simps [of vis st])
  qed
qed

lemma sound_init:
  assumes "inv s" and "capacity g \<le> color_cap cs" and "bfs_found g bwd fwd explore srcs \<subseteq> U"
  shows "sound srcs w (mark s) \<lparr>s_colors = color_init cs, s_queue = [], s_state = s\<rparr>"
    and "nonwhite \<lparr>s_colors = color_init cs, s_queue = [], s_state = s\<rparr> = {}"
proof -
  show "nonwhite \<lparr>s_colors = color_init cs, s_queue = [], s_state = s\<rparr> = {}"
    by (simp add: nonwhite_def cm.get_init)
  then show "sound srcs w (mark s) \<lparr>s_colors = color_init cs, s_queue = [], s_state = s\<rparr>"
    using assms by (simp add: sound_def cm.cap_init)
qed

lemma twoway_visits:
  assumes "inv s" and "capacity g \<le> color_cap cs" and "\<forall>v\<in>set srcs. v < capacity g" and "srcs \<noteq> []" and ok: "edges_ok g"
    and within: "bfs_found g bwd fwd explore srcs \<subseteq> U"
  shows "\<exists>b cs' s'. breadth_first_search_twoway vis srcs cs s = Inr (b, cs', s') \<and>
    (if b then inv s' \<and> (\<exists>v\<in>bfs_found g bwd fwd explore srcs. wanted v)
     else (\<forall>v\<in>bfs_found g bwd fwd explore srcs. \<not> wanted v) \<and>
       {v. v < capacity g \<and> color_at cs' v \<noteq> WHITE} = bfs_found g bwd fwd explore srcs \<and>
       (\<exists>t. inv t \<and> s' = finished vis t \<and> mark t = mark s \<union> (\<Union>v\<in>bfs_found g bwd fwd explore srcs. marks v)))"
proof -
  let ?st = "\<lparr>s_colors = color_init cs, s_queue = [], s_state = s\<rparr>"
  note init = sound_init [OF assms(1,2) within]
  obtain b st1 where 1: "bfs_sources (is_wanted_vertex vis) vis srcs ?st = Inr (b, st1)" "inv (s_state st1)"
    "if b then \<exists>v\<in>bfs_found g bwd fwd explore srcs. wanted v else advances srcs wanted (mark s) ?st (set srcs) st1"
    using bfs_sources_correct [OF init(1) want_ok_vis subset_refl assms(3)] by blast
  show ?thesis
  proof (cases b)
    case True
    then show ?thesis using 1 assms(4) by (auto simp: breadth_first_search_twoway_def)
  next
    case False
    then have A: "advances srcs wanted (mark s) ?st (set srcs) st1" using 1 by simp
    have "closed {} ?st" by (simp add: closed_def init(2))
    with A have "closed {} st1" by (rule advances_closed)
    moreover have "sound srcs wanted (mark s) st1" "set srcs \<subseteq> nonwhite st1" using A by (auto simp: advances_def)
    ultimately obtain b' st2 where 2: "bfs_twoway_loop vis st1 = Inr (b', st2)"
      "if b' then inv (s_state st2) \<and> (\<exists>v\<in>bfs_found g bwd fwd explore srcs. wanted v)
       else nonwhite st2 = bfs_found g bwd fwd explore srcs \<and> (\<forall>v\<in>nonwhite st2. \<not> wanted v) \<and>
       (\<exists>t. inv t \<and> s_state st2 = finished vis t \<and> mark t = mark s \<union> (\<Union>v\<in>nonwhite st2. marks v))"
      using bfs_twoway_loop_correct [OF _ _ _ ok] by blast
    have nw: "{v. v < capacity g \<and> color_at (s_colors st2) v \<noteq> WHITE} = nonwhite st2" by (simp add: nonwhite_def)
    have run: "breadth_first_search_twoway vis srcs cs s = Inr (b', s_colors st2, s_state st2)"
      using 1 2(1) False assms(4) by (simp add: breadth_first_search_twoway_def)
    show ?thesis
      by (intro exI [of _ b'] exI [of _ "s_colors st2"] exI [of _ "s_state st2"] conjI run)
        (unfold nw, cases b', use 2(2) in simp, use 2(2) in auto)
  qed
qed

lemma forward_visits:
  assumes "inv s" and "capacity g \<le> color_cap cs" and "\<forall>v\<in>set srcs. v < capacity g" and "srcs \<noteq> []" and ok: "edges_ok g"
    and within: "bfs_found g bwd fwd explore srcs \<subseteq> U" and nb: "\<And>e. \<not> bwd e"
  shows "\<exists>cs' s' t. breadth_first_search_forward vis srcs cs s = Inr (cs', s') \<and>
    {v. v < capacity g \<and> color_at cs' v \<noteq> WHITE} = bfs_found g bwd fwd explore srcs \<and>
    inv t \<and> s' = finished vis t \<and> mark t = mark s \<union> (\<Union>v\<in>bfs_found g bwd fwd explore srcs. marks v)"
proof -
  let ?st = "\<lparr>s_colors = color_init cs, s_queue = [], s_state = s\<rparr>"
  note init = sound_init [OF assms(1,2) within]
  obtain b st1 where 1: "bfs_sources never vis srcs ?st = Inr (b, st1)"
    "if b then \<exists>v\<in>bfs_found g bwd fwd explore srcs. False else advances srcs (\<lambda>_. False) (mark s) ?st (set srcs) st1"
    using bfs_sources_correct [OF init(1) want_ok_never subset_refl assms(3)] by blast
  then have A: "advances srcs (\<lambda>_. False) (mark s) ?st (set srcs) st1" "\<not> b" by (auto split: if_splits)
  have "closed {} ?st" by (simp add: closed_def init(2))
  with A(1) have "closed {} st1" by (rule advances_closed)
  moreover have "sound srcs (\<lambda>_. False) (mark s) st1" "set srcs \<subseteq> nonwhite st1" using A by (auto simp: advances_def)
  ultimately obtain st2 t where "bfs_forward_loop vis st1 = Inr st2" "nonwhite st2 = bfs_found g bwd fwd explore srcs"
    "inv t" "s_state st2 = finished vis t" "mark t = mark s \<union> (\<Union>v\<in>nonwhite st2. marks v)"
    using bfs_forward_loop_correct [OF _ _ _ ok nb] by blast
  then show ?thesis using 1 assms(4)
    by (intro exI [of _ "s_colors st2"] exI [of _ "s_state st2"] exI [of _ t])
      (auto simp: breadth_first_search_forward_def nonwhite_def)
qed

lemma twoway_visits_all:
  assumes "inv s" and "capacity g \<le> color_cap cs" and "\<forall>v\<in>set srcs. v < capacity g" and "srcs \<noteq> []" and "edges_ok g"
    and "bfs_found g bwd fwd explore srcs \<subseteq> U"
    and "\<And>v. \<not> wanted v"
  obtains cs' t where "breadth_first_search_twoway vis srcs cs s = Inr (False, cs', finished vis t)"
    "inv t" "mark t = mark s \<union> (\<Union>v\<in>bfs_found g bwd fwd explore srcs. marks v)"
proof -
  obtain b cs' s' where run: "breadth_first_search_twoway vis srcs cs s = Inr (b, cs', s')"
    and post: "if b then inv s' \<and> (\<exists>v\<in>bfs_found g bwd fwd explore srcs. wanted v)
     else (\<forall>v\<in>bfs_found g bwd fwd explore srcs. \<not> wanted v) \<and>
       {v. v < capacity g \<and> color_at cs' v \<noteq> WHITE} = bfs_found g bwd fwd explore srcs \<and>
       (\<exists>t. inv t \<and> s' = finished vis t \<and> mark t = mark s \<union> (\<Union>v\<in>bfs_found g bwd fwd explore srcs. marks v))"
    using twoway_visits [OF assms(1-6)] by (elim exE conjE)
  have "\<not> b" using post assms(7) by (auto split: if_splits)
  with post obtain t where "inv t" "s' = finished vis t" "mark t = mark s \<union> (\<Union>v\<in>bfs_found g bwd fwd explore srcs. marks v)"
    by auto
  with run \<open>\<not> b\<close> show thesis by (intro that) simp_all
qed

lemma forward_visits_all:
  assumes "inv s" and "capacity g \<le> color_cap cs" and "\<forall>v\<in>set srcs. v < capacity g" and "srcs \<noteq> []" and "edges_ok g"
    and "bfs_found g bwd fwd explore srcs \<subseteq> U"
    and "\<And>e. \<not> bwd e"
  obtains cs' t where "breadth_first_search_forward vis srcs cs s = Inr (cs', finished vis t)"
    "inv t" "mark t = mark s \<union> (\<Union>v\<in>bfs_found g bwd fwd explore srcs. marks v)"
  using forward_visits [OF assms] that by (elim exE conjE) simp

end

text \<open>
  A visitor that behaves on all vertices.
\<close>

locale bfs_client = bfs_visiting vis g inv bwd fwd explore wanted mark marks UNIV
  for vis :: "('s, 'v, 'e) bfs_visitor"
    and g :: "('v, 'e) BaseGraph"
    and inv :: "'s \<Rightarrow> bool"
    and bwd fwd :: "'e Edge \<Rightarrow> bool"
    and explore wanted :: "nat \<Rightarrow> bool"
    and mark :: "'s \<Rightarrow> 'm set"
    and marks :: "nat \<Rightarrow> 'm set"
begin

lemmas twoway_correct = twoway_visits [OF _ _ _ _ _ subset_UNIV]
lemmas twoway_all = twoway_visits_all [OF _ _ _ _ _ subset_UNIV]
lemmas forward_all = forward_visits_all [OF _ _ _ _ _ subset_UNIV]

end

end
