(* ===== verification/Pdg_Reach.thy ===== *)
theory Pdg_Reach
  imports Pdg Graph_Search
begin

text \<open>
  The reachability computations of the linker on the program dependence graph (\<^verbatim>\<open>cali-linker/passes/PDGUtilities.cpp\<close>,
  \<^verbatim>\<open>PDGSharedReachabilityPass.cpp\<close>, \<^verbatim>\<open>PDGReachabilityPass.cpp\<close>). Each is a breadth-first search whose visitor marks the
  vertices it discovers; the marks are shown to be exactly the reachable vertices.
\<close>

section \<open>Visitors\<close>

definition in_functions :: "llvm_function option list \<Rightarrow> PDG \<Rightarrow> nat \<Rightarrow> bool" where
  "in_functions fs p v \<longleftrightarrow> nfunction (node p v) = None \<or> nfunction (node p v) \<in> set fs"

definition label_in :: "PDGEdgeType list \<Rightarrow> PDGEdge Edge \<Rightarrow> bool" where
  "label_in ts e \<longleftrightarrow> etype (edge_property e) \<in> set ts"

text \<open>
  The visitor \<^verbatim>\<open>FullDataReachability\<close> of \<^verbatim>\<open>calculateSinkReachability\<close>.
\<close>

definition FullDataReachability :: "llvm_function option list \<Rightarrow> (PDG, PDGNode, PDGEdge) bfs_visitor" where
  "FullDataReachability fs = (default_bfs_visitor pgraph)\<lparr>
     examine_forwards_edge := (\<lambda>e p. (False, p)),
     examine_backwards_edge := (\<lambda>e p. (label_in [Data, Part] e, p)),
     discover_vertex := (\<lambda>v p. let p = upd_node v (\<lambda>n. n\<lparr>reaches_ipc_sink := True\<rparr>) p in (in_functions fs p v, p))\<rparr>"

text \<open>
  The visitor \<^verbatim>\<open>ForwardDataReachability\<close> of the shared reachability pass.
\<close>

definition InfluenceReachability :: "llvm_function option list \<Rightarrow> (PDG, PDGNode, PDGEdge) bfs_visitor" where
  "InfluenceReachability fs = (default_bfs_visitor pgraph)\<lparr>
     examine_forwards_edge := (\<lambda>e p. (label_in [Data, Part, Deref, Summary_Data] e, p)),
     examine_backwards_edge := (\<lambda>e p. (False, p)),
     discover_vertex := (\<lambda>v p. let p = upd_node v (\<lambda>n. n\<lparr>influenced_by_shared := True\<rparr>) p in (in_functions fs p v, p))\<rparr>"

text \<open>
  The visitor \<^verbatim>\<open>ForwardDataReachability\<close> of \<^verbatim>\<open>calculateFDReachability\<close>.
\<close>

definition isFileDescriptorType :: "llvm_type option \<Rightarrow> bool" where
  "isFileDescriptorType t = (case t of Some (IntTy w) \<Rightarrow> 16 \<le> w | _ \<Rightarrow> False)"

definition arithmetic_node :: "llvm \<Rightarrow> PDGNode \<Rightarrow> bool" where
  "arithmetic_node L n = (case instruction n of Some i \<Rightarrow> add_or_sub L i | None \<Rightarrow> False)"

definition FdReachability :: "llvm \<Rightarrow> llvm_function option list \<Rightarrow> bool \<Rightarrow> (PDG, PDGNode, PDGEdge) bfs_visitor" where
  "FdReachability L fs heuristic = (default_bfs_visitor pgraph)\<lparr>
     examine_forwards_edge := (\<lambda>e p. (label_in [Data] e, p)),
     examine_backwards_edge := (\<lambda>e p. (False, p)),
     discover_vertex := (\<lambda>v p.
       if arithmetic_node L (node p v) then (False, p)
       else if isFileDescriptorType (ntype (node p v)) then
         (let p = upd_node v (\<lambda>n. n\<lparr>filedescriptor := True\<rparr>) p;
              p = (if heuristic \<and> subnode (node p v) then checkIfFDMarkerIsInteresting v p else p)
          in (in_functions fs p v, p))
       else (False, p))\<rparr>"

text \<open>
  The visitor \<^verbatim>\<open>IpcFunctionReachability\<close> of \<^verbatim>\<open>calculateIpcFunctionCalls\<close>, which only searches.
\<close>

definition IpcFunctionReachability :: "(PDG, PDGNode, PDGEdge) bfs_visitor" where
  "IpcFunctionReachability = (default_bfs_visitor pgraph)\<lparr>
     examine_forwards_edge := (\<lambda>e p. (label_in [Deref] e, p)),
     examine_backwards_edge := (\<lambda>e p. (label_in [Data, Part] e, p)),
     is_wanted_vertex := (\<lambda>v p. (ipcfunction (node p v), p))\<rparr>"

section \<open>The computations\<close>

text \<open>
  The vertices a computation starts from: those of the given functions that carry a mark, looked up in the index. Entries of
  the index whose vertex belongs to another function are skipped.
\<close>

definition marked_sources :: "(PDGNode \<Rightarrow> bool) \<Rightarrow> llvm_function option list \<Rightarrow> PDG \<Rightarrow> nat list" where
  "marked_sources marked fs p =
     concat (map (\<lambda>f. filter (\<lambda>v. nfunction (node p v) = f \<and> marked (node p v))
       (sorted_list_of_set (getVerticesForFunction p f))) fs)"

definition calculateSinkReachability :: "llvm_function option list \<Rightarrow> ColorMap \<Rightarrow> PDG \<Rightarrow> (nat \<times> ColorMap \<times> PDG) outcome" where
  "calculateSinkReachability fs cs p =
     (let srcs = marked_sources (\<lambda>n. ipcsink n \<or> reaches_ipc_sink n) fs p in
      bind_outcome (breadth_first_search_twoway (FullDataReachability fs) srcs cs p) (\<lambda>(_, cs, p).
        Inr (length srcs, cs, p)))"

definition calculateReachability :: "llvm_function option list \<Rightarrow> ColorMap \<Rightarrow> PDG \<Rightarrow> (nat \<times> ColorMap \<times> PDG) outcome" where
  "calculateReachability fs cs p =
     (let srcs = marked_sources (\<lambda>n. ipcsink n \<or> reaches_ipc_sink n \<or> influenced_by_shared n) fs p in
      bind_outcome (breadth_first_search_forward (InfluenceReachability fs) srcs cs p) (\<lambda>(cs, p).
        Inr (length srcs, cs, p)))"

text \<open>
  The heuristic of \<^verbatim>\<open>calculateFDReachability\<close>: fields that are known to hold descriptors are marked in every
  structure of the cluster.
\<close>

definition mark_field :: "nat \<Rightarrow> nat \<Rightarrow> PDG \<Rightarrow> PDG" where
  "mark_field v i p =
     (case getPartOpt p v i of Some w \<Rightarrow> upd_node w (\<lambda>n. n\<lparr>filedescriptor := True\<rparr>) p | None \<Rightarrow> p)"

definition mark_known_fields :: "nat \<Rightarrow> PDG \<Rightarrow> PDG" where
  "mark_known_fields v p =
     (case ntype (node p v) of
        Some (StructTy k ts) \<Rightarrow>
          (case structClusters p k of
             Some c \<Rightarrow> fold (mark_field v) (sorted_list_of_set (structClusterToKnownFDFields p c)) p
           | None \<Rightarrow> p)
      | _ \<Rightarrow> p)"

definition calculateFDReachability :: "llvm \<Rightarrow> llvm_function option list \<Rightarrow> ColorMap \<Rightarrow> bool \<Rightarrow> PDG \<Rightarrow> (nat \<times> ColorMap \<times> PDG) outcome" where
  "calculateFDReachability L fs cs heuristic p =
     (let p = (if heuristic then fold mark_known_fields (vertex_set (pgraph p)) p else p);
          srcs = marked_sources filedescriptor fs p in
      bind_outcome (breadth_first_search_forward (FdReachability L fs heuristic) srcs cs p) (\<lambda>(cs, p).
        Inr (length srcs, cs, p)))"

definition reachesIpcFunction :: "nat \<Rightarrow> ColorMap \<Rightarrow> PDG \<Rightarrow> (bool \<times> ColorMap \<times> PDG) outcome" where
  "reachesIpcFunction v cs p = breadth_first_search_twoway IpcFunctionReachability [v] cs p"

section \<open>The visitors keep the contract of the search\<close>

text \<open>
  Two states that differ only in what \<^term>\<open>clear\<close> removes from the nodes, and in the known descriptor fields.
\<close>

definition differ_in :: "(PDGNode \<Rightarrow> PDGNode) \<Rightarrow> PDG \<Rightarrow> PDG \<Rightarrow> bool" where
  "differ_in clear p0 p \<longleftrightarrow>
     p\<lparr>structClusterToKnownFDFields := structClusterToKnownFDFields p0, pgraph := pgraph p0\<rparr> = p0 \<and>
     out_edges (pgraph p) = out_edges (pgraph p0) \<and> in_edges (pgraph p) = in_edges (pgraph p0) \<and>
     capacity (pgraph p) = capacity (pgraph p0) \<and> is_empty (pgraph p) = is_empty (pgraph p0) \<and>
     (\<forall>v<capacity (pgraph p0). clear (node p v) = clear (node p0 v))"

lemma differ_in_refl: "differ_in clear p p"
  by (simp add: differ_in_def)

lemma differ_in_upd:
  assumes "differ_in clear p0 p" and "\<And>n. clear (f n) = clear n" and "v < capacity (pgraph p0)"
  shows "differ_in clear p0 (upd_node v f p)"
proof -
  have "v < capacity (pgraph p)" using assms by (simp add: differ_in_def)
  then show ?thesis
    using assms(1,2) by (simp add: differ_in_def node_upd_node fun_eq_iff) (simp add: upd_node_def)
qed

definition node_marks :: "(PDGNode \<Rightarrow> bool) \<Rightarrow> PDG \<Rightarrow> nat set" where
  "node_marks get p = {v. v < capacity (pgraph p) \<and> get (node p v)}"

lemma node_marks_upd:
  assumes "v < capacity (pgraph p)" and "\<And>n. get (f n)"
  shows "node_marks get (upd_node v f p) = insert v (node_marks get p)"
  using assms by (auto simp: node_marks_def node_upd_node)

abbreviation clear_sink :: "PDGNode \<Rightarrow> PDGNode" where
  "clear_sink n \<equiv> n\<lparr>reaches_ipc_sink := False\<rparr>"

abbreviation clear_influence :: "PDGNode \<Rightarrow> PDGNode" where
  "clear_influence n \<equiv> n\<lparr>influenced_by_shared := False\<rparr>"

abbreviation clear_fd :: "PDGNode \<Rightarrow> PDGNode" where
  "clear_fd n \<equiv> n\<lparr>filedescriptor := False\<rparr>"

lemma clear_sinkD:
  assumes "clear_sink n = clear_sink m"
  shows "nfunction n = nfunction m \<and> ipcsink n = ipcsink m"
  using arg_cong [OF assms, of nfunction] arg_cong [OF assms, of ipcsink] by simp

lemma clear_influenceD:
  assumes "clear_influence n = clear_influence m"
  shows "nfunction n = nfunction m"
  using arg_cong [OF assms, of nfunction] by simp

lemma clear_fdD:
  assumes "clear_fd n = clear_fd m"
  shows "nfunction n = nfunction m \<and> instruction n = instruction m \<and> ntype n = ntype m \<and> subnode n = subnode m"
  using arg_cong [OF assms, of nfunction] arg_cong [OF assms, of instruction] arg_cong [OF assms, of ntype]
    arg_cong [OF assms, of subnode] by simp

lemma differ_in_function:
  assumes "differ_in clear p0 p" and "v < capacity (pgraph p0)" and "\<And>n m. clear n = clear m \<Longrightarrow> nfunction n = nfunction m"
  shows "in_functions fs p v = in_functions fs p0 v"
proof -
  have "clear (node p v) = clear (node p0 v)" using assms(1,2) by (simp add: differ_in_def)
  from assms(3) [OF this] show ?thesis by (simp add: in_functions_def)
qed

interpretation sink: bfs_client "FullDataReachability fs" "pgraph p0" "differ_in clear_sink p0" "label_in [Data, Part]" "\<lambda>_. False"
  "in_functions fs p0" "\<lambda>_. False" "node_marks reaches_ipc_sink" "\<lambda>v. {v}" for fs p0
proof (unfold_locales, goal_cases)
  case (2 p v d p')
  let ?q = "upd_node v (\<lambda>n. n\<lparr>reaches_ipc_sink := True\<rparr>) p"
  have p': "p' = ?q" "d = in_functions fs ?q v"
    using 2(4) by (auto simp: FullDataReachability_def Let_def)
  have q: "differ_in clear_sink p0 ?q" using 2(1) _ 2(2) by (rule differ_in_upd) simp
  moreover have "v < capacity (pgraph p)" using 2(1,2) by (simp add: differ_in_def)
  ultimately show ?case
    using differ_in_function [OF q 2(2) conjunct1 [OF clear_sinkD], of fs] by (simp add: p' node_marks_upd)
qed (auto simp: FullDataReachability_def default_bfs_visitor_def differ_in_def)

interpretation influence: bfs_client "InfluenceReachability fs" "pgraph p0" "differ_in clear_influence p0" "\<lambda>_. False"
  "label_in [Data, Part, Deref, Summary_Data]" "in_functions fs p0" "\<lambda>_. False" "node_marks influenced_by_shared" "\<lambda>v. {v}" for fs p0
proof (unfold_locales, goal_cases)
  case (2 p v d p')
  let ?q = "upd_node v (\<lambda>n. n\<lparr>influenced_by_shared := True\<rparr>) p"
  have p': "p' = ?q" "d = in_functions fs ?q v"
    using 2(4) by (auto simp: InfluenceReachability_def Let_def)
  have q: "differ_in clear_influence p0 ?q" using 2(1) _ 2(2) by (rule differ_in_upd) simp
  moreover have "v < capacity (pgraph p)" using 2(1,2) by (simp add: differ_in_def)
  ultimately show ?case
    using differ_in_function [OF q 2(2) clear_influenceD, of fs] by (simp add: p' node_marks_upd)
qed (auto simp: InfluenceReachability_def default_bfs_visitor_def differ_in_def)

interpretation ipcfun: bfs_client IpcFunctionReachability "pgraph p0" "\<lambda>p. p = p0" "label_in [Data, Part]" "label_in [Deref]"
  "\<lambda>_. True" "\<lambda>v. ipcfunction (node p0 v)" "\<lambda>_. {} :: nat set" "\<lambda>_. {}" for p0
  by unfold_locales (auto simp: IpcFunctionReachability_def default_bfs_visitor_def)

lemma checkIfFDMarker_graph:
  "pgraph (checkIfFDMarkerIsInteresting v p) = pgraph p"
  "(checkIfFDMarkerIsInteresting v p)\<lparr>structClusterToKnownFDFields := x\<rparr> = p\<lparr>structClusterToKnownFDFields := x\<rparr>"
proof -
  have step: "pgraph (fd_field e p) = pgraph p" "(fd_field e p)\<lparr>structClusterToKnownFDFields := x\<rparr> = p\<lparr>structClusterToKnownFDFields := x\<rparr>" for e p
    by (simp_all add: fd_field_def split: option.split llvm_type.split)
  have "pgraph (fold fd_field es p) = pgraph p" "(fold fd_field es p)\<lparr>structClusterToKnownFDFields := x\<rparr> = p\<lparr>structClusterToKnownFDFields := x\<rparr>" for es
    by (induction es arbitrary: p) (simp_all add: step)
  then show "pgraph (checkIfFDMarkerIsInteresting v p) = pgraph p"
    "(checkIfFDMarkerIsInteresting v p)\<lparr>structClusterToKnownFDFields := x\<rparr> = p\<lparr>structClusterToKnownFDFields := x\<rparr>"
    by (simp_all add: checkIfFDMarkerIsInteresting_def)
qed

lemma differ_in_check: "differ_in clear p0 p \<Longrightarrow> differ_in clear p0 (checkIfFDMarkerIsInteresting v p)"
proof -
  assume p: "differ_in clear p0 p"
  have "(checkIfFDMarkerIsInteresting v p)\<lparr>structClusterToKnownFDFields := structClusterToKnownFDFields p0, pgraph := pgraph p0\<rparr> =
      p\<lparr>structClusterToKnownFDFields := structClusterToKnownFDFields p0, pgraph := pgraph p0\<rparr>"
    using arg_cong [OF checkIfFDMarker_graph(2) [where v = v and p = p and x = "structClusterToKnownFDFields p0"], of "pgraph_update (\<lambda>_. pgraph p0)"] by simp
  with p show ?thesis by (simp add: differ_in_def checkIfFDMarker_graph(1) node_def)
qed

definition fd_carrier :: "llvm \<Rightarrow> PDG \<Rightarrow> nat \<Rightarrow> bool" where
  "fd_carrier L p v \<longleftrightarrow> \<not> arithmetic_node L (node p v) \<and> isFileDescriptorType (ntype (node p v))"

lemma differ_in_carrier:
  assumes "differ_in clear_fd p0 p" and "v < capacity (pgraph p0)"
  shows "fd_carrier L p v = fd_carrier L p0 v"
proof -
  have "clear_fd (node p v) = clear_fd (node p0 v)" using assms by (simp add: differ_in_def)
  from clear_fdD [OF this] show ?thesis by (simp add: fd_carrier_def arithmetic_node_def)
qed

interpretation fd: bfs_client "FdReachability L fs heuristic" "pgraph p0" "differ_in clear_fd p0" "\<lambda>_. False"
  "label_in [Data]" "\<lambda>v. fd_carrier L p0 v \<and> in_functions fs p0 v" "\<lambda>_. False" "node_marks filedescriptor"
  "\<lambda>v. if fd_carrier L p0 v then {v} else {}" for L fs heuristic p0
proof (unfold_locales, goal_cases)
  case (2 p v d p')
  note carrier = differ_in_carrier [OF 2(1,2), of L]
  show ?case
  proof (cases "fd_carrier L p v")
    case False
    then have "p' = p" "\<not> d" using 2(4) by (auto simp: FdReachability_def fd_carrier_def Let_def split: if_splits)
    then show ?thesis using 2(1) False carrier by simp
  next
    case True
    let ?q = "upd_node v (\<lambda>n. n\<lparr>filedescriptor := True\<rparr>) p"
    have p': "p' = ?q \<or> p' = checkIfFDMarkerIsInteresting v ?q" "d = in_functions fs p' v"
      using 2(4) True by (auto simp: FdReachability_def fd_carrier_def Let_def split: if_splits)
    have q: "differ_in clear_fd p0 ?q" using 2(1) _ 2(2) by (rule differ_in_upd) simp
    then have r: "differ_in clear_fd p0 p'" using p' differ_in_check by blast
    have "v < capacity (pgraph p)" using 2(1,2) by (simp add: differ_in_def)
    moreover have "node_marks filedescriptor p' = node_marks filedescriptor ?q"
      using p' by (auto simp: node_marks_def node_def checkIfFDMarker_graph(1))
    ultimately show ?thesis
      using r True carrier p'(2) differ_in_function [OF r 2(2) conjunct1 [OF clear_fdD], of fs] by (simp add: node_marks_upd)
  qed
qed (auto simp: FdReachability_def default_bfs_visitor_def differ_in_def)

section \<open>Properties\<close>

lemma marked_sources_set:
  assumes "pdg_inv p" and "v < capacity (pgraph p)" and "\<not> is_empty (pgraph p) v" and "nfunction (node p v) \<in> set fs" and "marked (node p v)"
  shows "v \<in> set (marked_sources marked fs p)"
  using assms pdg_inv_finite [OF assms(1)] by (auto simp: marked_sources_def getVerticesForFunction_def pdg_inv_def)

lemma marked_sources_range:
  assumes "pdg_inv p"
  shows "\<forall>v\<in>set (marked_sources marked fs p). v < capacity (pgraph p)"
  using assms pdg_inv_finite [OF assms] by (auto simp: marked_sources_def getVerticesForFunction_def pdg_inv_def)

text \<open>
  What a state that differs only in marks keeps.
\<close>

lemma differ_in_inv:
  assumes "pdg_inv p" and "differ_in clear p p'" and "\<And>n m. clear n = clear m \<Longrightarrow> nfunction n = nfunction m"
  shows "pdg_inv p'"
proof -
  have D: "out_edges (pgraph p') = out_edges (pgraph p)" "in_edges (pgraph p') = in_edges (pgraph p)"
    "capacity (pgraph p') = capacity (pgraph p)" "is_empty (pgraph p') = is_empty (pgraph p)"
    using assms(2) by (simp_all add: differ_in_def)
  have F: "nfunction (node p' v) = nfunction (node p v)" if "v < capacity (pgraph p)" for v
    by (rule assms(3)) (use assms(2) that in \<open>simp add: differ_in_def\<close>)
  have "function_to_vertices p' = function_to_vertices p"
    using arg_cong [OF conjunct1 [OF assms(2) [unfolded differ_in_def]], of function_to_vertices] by simp
  moreover obtain E where "repr (pgraph p) E" using assms(1) by (auto simp: pdg_inv_def)
  then have "repr (pgraph p') E" unfolding repr_def D .
  ultimately show ?thesis using assms(1) D F unfolding pdg_inv_def by auto
qed

lemma pdg_inv_edges_ok: "pdg_inv p \<Longrightarrow> edges_ok (pgraph p)"
  unfolding pdg_inv_def using repr_edges_ok by blast

text \<open>
  The sink computation, with its result as a function of the sources.
\<close>

abbreviation sink_sources :: "llvm_function option list \<Rightarrow> PDG \<Rightarrow> nat list" where
  "sink_sources \<equiv> marked_sources (\<lambda>n. ipcsink n \<or> reaches_ipc_sink n)"

abbreviation sink_found :: "llvm_function option list \<Rightarrow> PDG \<Rightarrow> nat set" where
  "sink_found fs p \<equiv> bfs_found (pgraph p) (label_in [Data, Part]) (\<lambda>_. False) (in_functions fs p) (sink_sources fs p)"

lemma calculateSinkReachability_run:
  assumes "pdg_inv p" and "capacity (pgraph p) \<le> color_cap cs"
  obtains cs' p' where "calculateSinkReachability fs cs p = Inr (length (sink_sources fs p), cs', p')"
    "differ_in clear_sink p p'" "pdg_inv p'"
    "node_marks reaches_ipc_sink p' = node_marks reaches_ipc_sink p \<union> sink_found fs p"
proof -
  have fin: "finished (FullDataReachability fs) = (\<lambda>p. p)" by (simp add: FullDataReachability_def default_bfs_visitor_def)
  have "\<exists>cs' p'. calculateSinkReachability fs cs p = Inr (length (sink_sources fs p), cs', p') \<and> differ_in clear_sink p p' \<and>
    node_marks reaches_ipc_sink p' = node_marks reaches_ipc_sink p \<union> sink_found fs p"
  proof (cases "sink_sources fs p = []")
    case True
    then show ?thesis using differ_in_refl
      by (simp add: calculateSinkReachability_def breadth_first_search_twoway_def)
  next
    case False
    obtain cs' t where "breadth_first_search_twoway (FullDataReachability fs) (sink_sources fs p) cs p =
        Inr (False, cs', finished (FullDataReachability fs) t)"
      "differ_in clear_sink p t" "node_marks reaches_ipc_sink t = node_marks reaches_ipc_sink p \<union> (\<Union>v\<in>sink_found fs p. {v})"
      by (rule sink.twoway_all [OF differ_in_refl assms(2) marked_sources_range [OF assms(1)] False pdg_inv_edges_ok [OF assms(1)]]) simp
    then show ?thesis by (simp add: calculateSinkReachability_def fin)
  qed
  then obtain cs' p' where R: "calculateSinkReachability fs cs p = Inr (length (sink_sources fs p), cs', p')" "differ_in clear_sink p p'"
    "node_marks reaches_ipc_sink p' = node_marks reaches_ipc_sink p \<union> sink_found fs p"
    by (elim exE conjE)
  have "pdg_inv p'" using assms(1) R(2) by (rule differ_in_inv) (rule conjunct1 [OF clear_sinkD])
  with R show thesis by (intro that)
qed

text \<open>
  \<^verbatim>\<open>calculateSinkReachability\<close> on a well-formed graph ends without error and marks exactly the vertices from which a
  marked vertex of the given functions is reached along data and part edges, where the search goes on from vertices of these
  functions and from global ones; all else in the graph is unchanged.
\<close>

theorem calculateSinkReachability_exact:
  assumes "pdg_inv p" and "capacity (pgraph p) \<le> color_cap cs"
  shows "\<exists>cs' p'. calculateSinkReachability fs cs p = Inr (length (sink_sources fs p), cs', p') \<and>
    differ_in clear_sink p p' \<and> pdg_inv p' \<and>
    node_marks reaches_ipc_sink p' = node_marks reaches_ipc_sink p \<union> sink_found fs p"
  by (rule calculateSinkReachability_run [OF assms, of fs]) (intro exI conjI)

text \<open>
  After \<^verbatim>\<open>calculateSinkReachability\<close> the marks are closed: whenever a live vertex of the given functions is a sink or
  is marked, every vertex with a data or part edge to it is marked too. So no memory that flows into a shared vertex inside
  the functions is missed.
\<close>

theorem calculateSinkReachability_closed:
  assumes "pdg_inv p" and "capacity (pgraph p) \<le> color_cap cs" and "calculateSinkReachability fs cs p = Inr (n, cs', p')"
    and "v < capacity (pgraph p)" and "\<not> is_empty (pgraph p) v" and "nfunction (node p v) \<in> set fs"
    and "ipcsink (node p' v) \<or> reaches_ipc_sink (node p' v)" and "e \<in> set (in_edges (pgraph p) v)" and "label_in [Data, Part] e"
  shows "reaches_ipc_sink (node p' (source e))"
proof -
  have D: "differ_in clear_sink p p'" and M: "node_marks reaches_ipc_sink p' = node_marks reaches_ipc_sink p \<union> sink_found fs p"
    by (rule calculateSinkReachability_run [OF assms(1,2), of fs]; use assms(3) in simp)+
  have cap: "capacity (pgraph p') = capacity (pgraph p)" and c: "clear_sink (node p' v) = clear_sink (node p v)"
    using D assms(4) by (simp_all add: differ_in_def)
  have "v \<in> sink_found fs p"
  proof (cases "ipcsink (node p v) \<or> reaches_ipc_sink (node p v)")
    case True
    then show ?thesis using marked_sources_set [OF assms(1,4-6)] by (intro source_found) simp
  next
    case False
    then have "v \<in> node_marks reaches_ipc_sink p'" "v \<notin> node_marks reaches_ipc_sink p"
      using assms(4,7) clear_sinkD [OF c] cap by (auto simp: node_marks_def)
    with M show ?thesis by blast
  qed
  moreover have "in_functions fs p v" using assms(6) by (simp add: in_functions_def)
  moreover have "source e \<in> bfs_succ (pgraph p) (label_in [Data, Part]) (\<lambda>_. False) v"
    using assms(8,9) by (simp add: bfs_succ_def)
  ultimately have "source e \<in> sink_found fs p" by (rule succ_found)
  with M have "source e \<in> node_marks reaches_ipc_sink p'" by blast
  then show ?thesis by (simp add: node_marks_def)
qed

lemma example_nodes:
  "node example_pdg 0 = PDGNode_new" "node example_pdg 1 = PDGNode_new\<lparr>reaches_ipc_sink := True, ipcsink := True\<rparr>"
  "node example_pdg 2 = PDGNode_new"
  by (simp_all add: node_def example_pdg_def)

lemma example_index:
  "function_to_vertices example_pdg f = (if f = None then {0, 1, 2} else {})" "\<not> is_empty (pgraph example_pdg) v"
proof -
  show "function_to_vertices example_pdg f = (if f = None then {0, 1, 2} else {})"
    by (simp add: example_pdg_def)
  have "v < 3 \<Longrightarrow> v = 0 \<or> v = 1 \<or> v = 2" by arith
  then show "\<not> is_empty (pgraph example_pdg) v"
    by (auto simp: is_empty_def example_pdg_capacity) (auto simp: example_pdg_def)
qed

lemma example_functions: "v < 3 \<Longrightarrow> nfunction (node example_pdg v) = None"
  using example_nodes by (auto simp: numeral_3_eq_3 less_Suc_eq numeral_2_eq_2 PDGNode_new_def)

lemma example_pdg_inv: "pdg_inv example_pdg"
proof -
  have "v \<in> function_to_vertices example_pdg (nfunction (node example_pdg v))" if "v < 3" for v
    using that example_functions [OF that] by (auto simp: example_index)
  then show ?thesis
    unfolding pdg_inv_def using example_pdg_repr by (auto simp: example_pdg_capacity example_index split: if_splits)
qed

definition example_colors :: ColorMap where
  "example_colors = ColorMap_new 3"

lemma example_colors_cap: "capacity (pgraph example_pdg) \<le> color_cap example_colors"
  by (simp add: example_pdg_capacity example_colors_def color_cap_def ColorMap_new_def)

lemma example_sources: "1 \<in> set (sink_sources [None] example_pdg)"
  unfolding One_nat_def [symmetric]
  by (rule marked_sources_set [OF example_pdg_inv], unfold example_nodes)
    (simp_all add: example_pdg_capacity example_index PDGNode_new_def)

theorem calculateSinkReachability_exact_witness:
  "\<exists>n cs' p'. calculateSinkReachability [None] example_colors example_pdg = Inr (n, cs', p') \<and>
     1 \<in> node_marks reaches_ipc_sink p' \<and> 2 \<in> node_marks reaches_ipc_sink p'"
proof -
  have 1: "1 \<in> sink_found [None] example_pdg" by (rule source_found) (rule example_sources)
  moreover have "in_functions [None] example_pdg 1" by (simp add: in_functions_def example_functions)
  moreover have "2 \<in> bfs_succ (pgraph example_pdg) (label_in [Data, Part]) (\<lambda>_. False) 1"
  proof -
    have "example_edge \<in> set (in_edges (pgraph example_pdg) 1)" by (simp add: example_pdg_edges)
    moreover have "label_in [Data, Part] example_edge" "source example_edge = 2"
      by (simp_all add: label_in_def example_edge_def pdg_edge_def)
    ultimately show ?thesis unfolding bfs_succ_def by force
  qed
  ultimately have "2 \<in> sink_found [None] example_pdg" by (rule succ_found)
  with 1 calculateSinkReachability_exact [OF example_pdg_inv example_colors_cap, of "[None]"] show ?thesis by blast
qed

theorem calculateSinkReachability_closed_witness:
  "\<exists>n cs' p'. calculateSinkReachability [None] example_colors example_pdg = Inr (n, cs', p') \<and> reaches_ipc_sink (node p' 2)"
proof -
  obtain cs' p' where run: "calculateSinkReachability [None] example_colors example_pdg = Inr (length (sink_sources [None] example_pdg), cs', p')"
    and D: "differ_in clear_sink example_pdg p'"
    by (rule calculateSinkReachability_run [OF example_pdg_inv example_colors_cap])
  have "clear_sink (node p' 1) = clear_sink (node example_pdg 1)" using D by (simp add: differ_in_def example_pdg_capacity)
  then have "ipcsink (node p' 1) = ipcsink (node example_pdg 1)" by (rule conjunct2 [OF clear_sinkD])
  then have "ipcsink (node p' 1)" unfolding example_nodes by simp
  then have "reaches_ipc_sink (node p' (source example_edge))"
    by (intro calculateSinkReachability_closed [OF example_pdg_inv example_colors_cap run, of 1])
      (simp_all add: example_pdg_capacity example_pdg_edges example_index example_functions label_in_def example_edge_def pdg_edge_def)
  then show ?thesis using run by (auto simp: example_edge_def)
qed

section \<open>Influence, descriptors and IPC functions\<close>

abbreviation influence_sources :: "llvm_function option list \<Rightarrow> PDG \<Rightarrow> nat list" where
  "influence_sources \<equiv> marked_sources (\<lambda>n. ipcsink n \<or> reaches_ipc_sink n \<or> influenced_by_shared n)"

lemma calculateReachability_run:
  assumes "pdg_inv p" and "capacity (pgraph p) \<le> color_cap cs"
  obtains cs' p' where "calculateReachability fs cs p = Inr (length (influence_sources fs p), cs', p')"
    "differ_in clear_influence p p'" "pdg_inv p'"
    "node_marks influenced_by_shared p' = node_marks influenced_by_shared p \<union>
      bfs_found (pgraph p) (\<lambda>_. False) (label_in [Data, Part, Deref, Summary_Data]) (in_functions fs p) (influence_sources fs p)"
proof -
  let ?found = "bfs_found (pgraph p) (\<lambda>_. False) (label_in [Data, Part, Deref, Summary_Data]) (in_functions fs p) (influence_sources fs p)"
  have fin: "finished (InfluenceReachability fs) = (\<lambda>p. p)" by (simp add: InfluenceReachability_def default_bfs_visitor_def)
  have "\<exists>cs' p'. calculateReachability fs cs p = Inr (length (influence_sources fs p), cs', p') \<and> differ_in clear_influence p p' \<and>
    node_marks influenced_by_shared p' = node_marks influenced_by_shared p \<union> ?found"
  proof (cases "influence_sources fs p = []")
    case True
    then show ?thesis using differ_in_refl
      by (simp add: calculateReachability_def breadth_first_search_forward_def)
  next
    case False
    obtain cs' t where "breadth_first_search_forward (InfluenceReachability fs) (influence_sources fs p) cs p =
        Inr (cs', finished (InfluenceReachability fs) t)"
      "differ_in clear_influence p t" "node_marks influenced_by_shared t = node_marks influenced_by_shared p \<union> (\<Union>v\<in>?found. {v})"
      by (rule influence.forward_all [OF differ_in_refl assms(2) marked_sources_range [OF assms(1)] False pdg_inv_edges_ok [OF assms(1)]]) simp
    then show ?thesis by (simp add: calculateReachability_def fin)
  qed
  then obtain cs' p' where R: "calculateReachability fs cs p = Inr (length (influence_sources fs p), cs', p')" "differ_in clear_influence p p'"
    "node_marks influenced_by_shared p' = node_marks influenced_by_shared p \<union> ?found"
    by (elim exE conjE)
  have "pdg_inv p'" using assms(1) R(2) by (rule differ_in_inv) (rule clear_influenceD)
  with R show thesis by (intro that)
qed

text \<open>
  Without the heuristic for structures, the descriptor computation marks the integers of at least 16 bits that a
  descriptor flows to, and does not go through additions and subtractions.
\<close>

lemma calculateFDReachability_run:
  assumes "pdg_inv p" and "capacity (pgraph p) \<le> color_cap cs"
  obtains cs' p' where "calculateFDReachability L fs cs False p = Inr (length (marked_sources filedescriptor fs p), cs', p')"
    "differ_in clear_fd p p'" "pdg_inv p'"
    "node_marks filedescriptor p' = node_marks filedescriptor p \<union>
      {v \<in> bfs_found (pgraph p) (\<lambda>_. False) (label_in [Data]) (\<lambda>v. fd_carrier L p v \<and> in_functions fs p v)
         (marked_sources filedescriptor fs p). fd_carrier L p v}"
proof -
  let ?srcs = "marked_sources filedescriptor fs p"
  let ?found = "bfs_found (pgraph p) (\<lambda>_. False) (label_in [Data]) (\<lambda>v. fd_carrier L p v \<and> in_functions fs p v) ?srcs"
  have fin: "finished (FdReachability L fs False) = (\<lambda>p. p)" by (simp add: FdReachability_def default_bfs_visitor_def)
  have sets: "(\<Union>v\<in>?found. if fd_carrier L p v then {v} else {}) = {v \<in> ?found. fd_carrier L p v}" by auto
  have "\<exists>cs' p'. calculateFDReachability L fs cs False p = Inr (length ?srcs, cs', p') \<and> differ_in clear_fd p p' \<and>
    node_marks filedescriptor p' = node_marks filedescriptor p \<union> {v \<in> ?found. fd_carrier L p v}"
  proof (cases "?srcs = []")
    case True
    then show ?thesis using differ_in_refl
      by (simp add: calculateFDReachability_def breadth_first_search_forward_def)
  next
    case False
    obtain cs' t where "breadth_first_search_forward (FdReachability L fs False) ?srcs cs p = Inr (cs', finished (FdReachability L fs False) t)"
      "differ_in clear_fd p t" "node_marks filedescriptor t = node_marks filedescriptor p \<union> (\<Union>v\<in>?found. if fd_carrier L p v then {v} else {})"
      by (rule fd.forward_all [OF differ_in_refl assms(2) marked_sources_range [OF assms(1)] False pdg_inv_edges_ok [OF assms(1)]]) simp
    then show ?thesis unfolding sets by (simp add: calculateFDReachability_def fin)
  qed
  then obtain cs' p' where R: "calculateFDReachability L fs cs False p = Inr (length ?srcs, cs', p')" "differ_in clear_fd p p'"
    "node_marks filedescriptor p' = node_marks filedescriptor p \<union> {v \<in> ?found. fd_carrier L p v}"
    by (elim exE conjE)
  have "pdg_inv p'" using assms(1) R(2) by (rule differ_in_inv) (rule conjunct1 [OF clear_fdD])
  with R show thesis by (intro that)
qed

text \<open>
  The search of \<^verbatim>\<open>calculateIpcFunctionCalls\<close> answers yes exactly when a function of another context is reached from the
  called value against data and part edges and along dereferences; it leaves the graph unchanged.
\<close>

theorem reachesIpcFunction_iff:
  assumes "pdg_inv p" and "capacity (pgraph p) \<le> color_cap cs" and "v < capacity (pgraph p)"
  shows "\<exists>b cs'. reachesIpcFunction v cs p = Inr (b, cs', p) \<and>
    (b \<longleftrightarrow> (\<exists>w\<in>bfs_found (pgraph p) (label_in [Data, Part]) (label_in [Deref]) (\<lambda>_. True) [v]. ipcfunction (node p w)))"
proof -
  have fin: "finished IpcFunctionReachability = (\<lambda>p. p)" by (simp add: IpcFunctionReachability_def default_bfs_visitor_def)
  have "\<forall>w\<in>set [v]. w < capacity (pgraph p)" using assms(3) by simp
  from ipcfun.twoway_correct [OF refl assms(2) this _ pdg_inv_edges_ok [OF assms(1)]] show ?thesis
    by (auto simp: reachesIpcFunction_def fin split: if_splits)
qed

theorem reachesIpcFunction_iff_witness:
  "\<exists>b cs'. reachesIpcFunction 2 example_colors example_pdg = Inr (b, cs', example_pdg) \<and>
    (b \<longleftrightarrow> (\<exists>w\<in>bfs_found (pgraph example_pdg) (label_in [Data, Part]) (label_in [Deref]) (\<lambda>_. True) [2]. ipcfunction (node example_pdg w)))"
  by (rule reachesIpcFunction_iff [OF example_pdg_inv example_colors_cap]) (simp add: example_pdg_capacity)

end
