(* ===== verification/Pdg_Vertex.thy ===== *)
theory Pdg_Vertex
  imports Pdg
begin

text \<open>
  The vertices of values. Looking up the vertex of a value never fails on a graph that is in order, creates the vertex with the structure of
  its type where it is missing, and keeps all that was there. The structural edges respect the types: a dereference edge leads from a pointer to its
  target type, a part edge from a structure to the type of the field.
\<close>

section \<open>Graphs in order\<close>

definition live :: "PDG \<Rightarrow> nat \<Rightarrow> bool" where
  "live p v \<longleftrightarrow> v < capacity (pgraph p) \<and> \<not> is_empty (pgraph p) v"

definition pedges :: "PDG \<Rightarrow> PDGEdge Edge set" where
  "pedges p = {e. e \<in> set (out_edges (pgraph p) (source e))}"

text \<open>
  Edges connect live vertices, the list of free vertices has exactly the removed ones, and the index of values leads to live vertices of
  these values.
\<close>

definition good :: "PDG \<Rightarrow> bool" where
  "good p \<longleftrightarrow> repr (pgraph p) (pedges p) \<and> (\<forall>e\<in>pedges p. live p (source e) \<and> live p (target e)) \<and> free_inv (pgraph p) \<and>
     (\<forall>a v. value_to_vertex p a = Some v \<longrightarrow> live p v \<and> instruction (node p v) = Some a)"

text \<open>
  The types that the ends of a structural edge have.
\<close>

definition edge_typed :: "llvm \<Rightarrow> nat \<Rightarrow> llvm_type option \<Rightarrow> llvm_type option \<Rightarrow> PDGEdge \<Rightarrow> bool" where
  "edge_typed L m s t l =
     (case etype l of
        Deref \<Rightarrow> (case map_option element_type s of Some (PtrTy k) \<Rightarrow> t = Some (pointer_element L k) | _ \<Rightarrow> False)
      | Part \<Rightarrow> (case map_option element_type s of
          Some (StructTy k ts) \<Rightarrow> eindex l \<le> m \<and> eindex l < length ts \<and> t = Some (ts ! eindex l) | _ \<Rightarrow> False)
      | _ \<Rightarrow> True)"

definition typed :: "llvm \<Rightarrow> PDG \<Rightarrow> bool" where
  "typed L p \<longleftrightarrow> (\<forall>e\<in>pedges p. edge_typed L (max_parts p) (ntype (node p (source e))) (ntype (node p (target e))) (edge_property e))"

text \<open>
  What later states keep of a state: entries of the index, live vertices with their values and types, edges, marks of file descriptors, and typing.
\<close>

definition keeps_vertex :: "PDGNode \<Rightarrow> PDGNode \<Rightarrow> bool" where
  "keeps_vertex n n' \<longleftrightarrow> ntype n' = ntype n \<and> instruction n' = instruction n \<and> (filedescriptor n \<longrightarrow> filedescriptor n')"

definition ext :: "llvm \<Rightarrow> PDG \<Rightarrow> PDG \<Rightarrow> bool" where
  "ext L p0 p \<longleftrightarrow> good p \<and> max_parts p = max_parts p0 \<and> (\<forall>a v. value_to_vertex p0 a = Some v \<longrightarrow> value_to_vertex p a = Some v) \<and>
     (\<forall>v. live p0 v \<longrightarrow> live p v \<and> keeps_vertex (node p0 v) (node p v)) \<and> pedges p0 \<subseteq> pedges p \<and> (typed L p0 \<longrightarrow> typed L p)"

lemma keeps_vertex_refl: "keeps_vertex n n"
  by (simp add: keeps_vertex_def)

lemma keeps_vertex_trans: "keeps_vertex n n' \<Longrightarrow> keeps_vertex n' n'' \<Longrightarrow> keeps_vertex n n''"
  by (simp add: keeps_vertex_def)

lemma ext_refl: "good p \<Longrightarrow> ext L p p"
  by (simp add: ext_def keeps_vertex_refl)

lemma ext_trans: "ext L p0 p1 \<Longrightarrow> ext L p1 p2 \<Longrightarrow> ext L p0 p2"
  unfolding ext_def using keeps_vertex_trans by (metis order_trans)

lemma ext_good: "ext L p0 p \<Longrightarrow> good p"
  by (simp add: ext_def)

lemma ext_live: "ext L p0 p \<Longrightarrow> live p0 v \<Longrightarrow> live p v \<and> keeps_vertex (node p0 v) (node p v)"
  by (simp add: ext_def)

lemma ext_index: "ext L p0 p \<Longrightarrow> value_to_vertex p0 a = Some v \<Longrightarrow> value_to_vertex p a = Some v"
  by (simp add: ext_def)

lemma repr_pedges: "repr (pgraph p) E \<Longrightarrow> pedges p = E"
  by (auto simp: repr_def pedges_def)

text \<open>
  How a graph grows when the vertices \<^term>\<open>A\<close> get structure: other vertices keep their structural edges, the marks of the analyses and of sources of
  memory stay, and new vertices have no marks.
\<close>

definition marks_of :: "PDGNode \<Rightarrow> bool \<times> bool \<times> bool" where
  "marks_of n = (ipcsink n, reaches_ipc_sink n, influenced_by_shared n)"

definition origin_of :: "PDGNode \<Rightarrow> bool \<times> nat" where
  "origin_of n = (nsource n, source_type n)"

definition unmarked :: "PDGNode \<Rightarrow> bool" where
  "unmarked n \<longleftrightarrow> marks_of n = (False, False, False) \<and> \<not> nsource n"

definition structural :: "PDGEdge Edge \<Rightarrow> bool" where
  "structural e \<longleftrightarrow> etype (edge_property e) = Deref \<or> etype (edge_property e) = Part"

definition grown :: "nat set \<Rightarrow> PDG \<Rightarrow> PDG \<Rightarrow> bool" where
  "grown A p p' \<longleftrightarrow> (\<forall>v. live p v \<longrightarrow> marks_of (node p' v) = marks_of (node p v) \<and> origin_of (node p' v) = origin_of (node p v)) \<and>
     (\<forall>v. live p' v \<longrightarrow> \<not> live p v \<longrightarrow> unmarked (node p' v)) \<and>
     (\<forall>e\<in>pedges p'. structural e \<longrightarrow> live p (source e) \<longrightarrow> source e \<notin> A \<longrightarrow> e \<in> pedges p)"

definition pdg_grows :: "llvm \<Rightarrow> nat set \<Rightarrow> PDG \<Rightarrow> PDG \<Rightarrow> bool" where
  "pdg_grows L A p p' \<longleftrightarrow> ext L p p' \<and> grown A p p'"

lemma pdg_grows_ext: "pdg_grows L A p p' \<Longrightarrow> ext L p p'"
  by (simp add: pdg_grows_def)

lemma pdg_grows_refl: "good p \<Longrightarrow> pdg_grows L A p p"
  by (simp add: pdg_grows_def grown_def ext_refl)

lemma pdg_grows_trans:
  assumes "pdg_grows L A p p1" and "pdg_grows L B p1 p2" and "\<And>b. b \<in> B \<Longrightarrow> b \<in> A \<or> \<not> live p b"
  shows "pdg_grows L A p p2"
proof -
  have 1: "ext L p p1" "grown A p p1" and 2: "ext L p1 p2" "grown B p1 p2" using assms(1,2) by (simp_all add: pdg_grows_def)
  have live: "live p1 v" if "live p v" for v using ext_live [OF 1(1) that] by simp
  have "marks_of (node p2 v) = marks_of (node p v) \<and> origin_of (node p2 v) = origin_of (node p v)" if "live p v" for v using that live [OF that] 1(2) 2(2) by (simp add: grown_def)
  moreover have "unmarked (node p2 v)" if "live p2 v" "\<not> live p v" for v
    using that 1(2) 2(2) by (cases "live p1 v") (auto simp: grown_def unmarked_def origin_of_def)
  moreover have "e \<in> pedges p" if "e \<in> pedges p2" "structural e" "live p (source e)" "source e \<notin> A" for e
  proof -
    have "source e \<notin> B" using assms(3) that(3,4) by blast
    then have "e \<in> pedges p1" using that live 2(2) by (simp add: grown_def)
    then show ?thesis using that 1(2) by (simp add: grown_def)
  qed
  ultimately show ?thesis using ext_trans [OF 1(1) 2(1)] by (simp add: pdg_grows_def grown_def)
qed

section \<open>The operations on the graph\<close>

lemma add_vertex_other:
  assumes "add_vertex n g = Inr (v, g')" and "w \<noteq> v" and "w < capacity g"
  shows "vertex_property (vertices g' ! w) = vertex_property (vertices g ! w)"
  using assms(1)
proof (cases rule: add_vertex_cases)
  case (reuse st)
  then show ?thesis using assms(2) by (simp add: upd_vertex_def)
next
  case (append st)
  then show ?thesis using assms(3) by (simp add: nth_append capacity_def)
qed

lemma pdg_add_vertex_ext:
  assumes "good p"
  obtains v p' where "pdg_add_vertex n p = (Inr v, p')" "ext L p p'" "live p' v" "node p' v = n" "pedges p' = pedges p" "\<not> live p v"
    "value_to_vertex p' = value_to_vertex p" "max_parts p' = max_parts p" "\<forall>w. live p' w \<longleftrightarrow> live p w \<or> w = v" "\<forall>w. live p w \<longrightarrow> node p' w = node p w"
    "subnode_limit p' = subnode_limit p"
proof -
  let ?g = "pgraph p"
  have g: "repr ?g (pedges p)" "free_inv ?g" and ends: "\<And>e. e \<in> pedges p \<Longrightarrow> live p (source e) \<and> live p (target e)"
    using assms by (simp_all add: good_def)
  have clean: "out_edges ?g v = [] \<and> in_edges ?g v = []" if "is_empty ?g v" for v
  proof -
    have "set (out_edges ?g v) = {e \<in> pedges p. source e = v}" "set (in_edges ?g v) = {e \<in> pedges p. target e = v}"
      using g(1) unfolding repr_def by simp_all
    moreover have "\<not> live p v" using that by (simp add: live_def)
    ultimately have "set (out_edges ?g v) = {}" "set (in_edges ?g v) = {}" using ends by auto
    then show ?thesis by simp
  qed
  have "\<exists>v g'. add_vertex n ?g = Inr (v, g') \<and> repr g' (pedges p) \<and> free_inv g' \<and> v < capacity g' \<and> \<not> is_empty g' v \<and>
      (v \<ge> capacity ?g \<or> is_empty ?g v) \<and> vertex_property (vertices g' ! v) = n \<and>
      (\<forall>w. is_empty g' w \<longleftrightarrow> is_empty ?g w \<and> w \<noteq> v) \<and> (\<forall>w. w < capacity g' \<longleftrightarrow> w < capacity ?g \<or> w = v)"
    by (rule add_vertex_step [OF g, of n], erule clean) blast
  then obtain v g' where v: "add_vertex n ?g = Inr (v, g')" "repr g' (pedges p)" "free_inv g'" "v < capacity g'" "\<not> is_empty g' v"
      "v \<ge> capacity ?g \<or> is_empty ?g v" "vertex_property (vertices g' ! v) = n"
      "\<forall>w. is_empty g' w \<longleftrightarrow> is_empty ?g w \<and> w \<noteq> v" "\<forall>w. w < capacity g' \<longleftrightarrow> w < capacity ?g \<or> w = v"
    by blast
  let ?p = "index_insert (nfunction n) v (p\<lparr>pgraph := g'\<rparr>)"
  have g': "pgraph ?p = g'" by simp
  have E: "pedges ?p = pedges p" using v(2) repr_pedges [of ?p] g' by simp
  have live: "live ?p w \<longleftrightarrow> live p w \<or> w = v" for w using v(4,5,8,9) by (auto simp: live_def)
  have new: "\<not> live p v" using v(6) by (auto simp: live_def)
  have other: "node ?p w = node p w" if "live p w" for w
    using add_vertex_other [OF v(1), of w] that new by (auto simp: node_def live_def)
  have fields: "value_to_vertex ?p = value_to_vertex p" "max_parts ?p = max_parts p" "subnode_limit ?p = subnode_limit p"
    by (simp_all add: index_insert_def)
  have good: "good ?p" using assms v(2,3) live other by (auto simp: good_def E g' fields)
  have "typed L ?p" if "typed L p" using that ends other by (auto simp: typed_def E fields)
  then have "ext L p ?p" using good live other by (simp add: ext_def E fields keeps_vertex_refl)
  moreover have "pdg_add_vertex n p = (Inr v, ?p)" using v(1) by (simp add: pdg_add_vertex_def)
  moreover have "node ?p v = n" using v(7) by (simp add: node_def)
  ultimately show thesis using that live E new fields other by blast
qed

lemma pdg_grows_mono: "pdg_grows L A p p' \<Longrightarrow> A \<subseteq> B \<Longrightarrow> pdg_grows L B p p'"
  by (auto simp: pdg_grows_def grown_def)

lemma pdg_add_vertex_grows:
  assumes "good p" and "unmarked n"
  obtains v p' where "pdg_add_vertex n p = (Inr v, p')" "ext L p p'" "live p' v" "node p' v = n" "max_parts p' = max_parts p"
    "pdg_grows L {} p p'" "\<not> live p v" "value_to_vertex p' = value_to_vertex p" "subnode_limit p' = subnode_limit p"
proof -
  obtain v p' where v: "pdg_add_vertex n p = (Inr v, p')" "ext L p p'" "live p' v" "node p' v = n" "pedges p' = pedges p" "\<not> live p v"
      "value_to_vertex p' = value_to_vertex p" "max_parts p' = max_parts p" "\<forall>w. live p' w \<longleftrightarrow> live p w \<or> w = v" "\<forall>w. live p w \<longrightarrow> node p' w = node p w"
      "subnode_limit p' = subnode_limit p"
    by (rule pdg_add_vertex_ext [OF assms(1)])
  then have "pdg_grows L {} p p'" using assms(2) by (auto simp: pdg_grows_def grown_def)
  then show thesis using that v by blast
qed

lemma pdg_add_edge_ext:
  assumes "good p" and "live p v" and "live p w"
    and "\<lparr>source = v, target = w, edge_property = l\<rparr> \<in> pedges p \<or> edge_typed L (max_parts p) (ntype (node p v)) (ntype (node p w)) l"
  obtains p' where "pdg_add_edge v w l p = (Inr (), p')" "ext L p p'" "pedges p' = insert \<lparr>source = v, target = w, edge_property = l\<rparr> (pedges p)"
    "node p' = node p" "live p' = live p" "value_to_vertex p' = value_to_vertex p" "max_parts p' = max_parts p" "subnode_limit p' = subnode_limit p"
proof -
  let ?g = "pgraph p"
  let ?e = "\<lparr>source = v, target = w, edge_property = l\<rparr>"
  have g: "repr ?g (pedges p)" "free_inv ?g" using assms(1) by (simp_all add: good_def)
  obtain g' where g': "add_edge v w l ?g = Inr g'" "repr g' (insert ?e (pedges p))" "capacity g' = capacity ?g" "free_vertices g' = free_vertices ?g"
      "\<And>v. is_empty g' v = is_empty ?g v"
    using assms(2,3) by (auto simp: live_def intro: add_edge_step [OF g(1), of v w _ l])
  let ?p = "p\<lparr>pgraph := g'\<rparr>"
  have E: "pedges ?p = insert ?e (pedges p)" using g'(2) repr_pedges [of ?p] by simp
  have live: "live ?p = live p" using g'(3,5) by (auto simp: live_def fun_eq_iff)
  have node: "node ?p = node p" using add_edge_property [OF g'(1)] by (simp add: node_def fun_eq_iff)
  have "good ?p" using assms(1-3) g'(2-5) by (auto simp: good_def E live node free_inv_def)
  moreover have "typed L ?p" if "typed L p" using that assms(4) by (auto simp: typed_def E node)
  ultimately have "ext L p ?p" by (auto simp: ext_def E live node keeps_vertex_refl)
  moreover have "pdg_add_edge v w l p = (Inr (), ?p)" using g'(1) by (simp add: pdg_add_edge_def on_graph_def)
  ultimately show thesis using that [of ?p] E live node by simp
qed

lemma set_node_ext:
  assumes "good p" and "live p v" and "\<And>n. keeps_vertex n (f n)"
  obtains p' where "set_node v f p = (Inr (), p')" "ext L p p'" "p' = upd_node v f p"
proof -
  have v: "v < capacity (pgraph p)" using assms(2) by (simp add: live_def)
  let ?p = "upd_node v f p"
  have fields: "value_to_vertex ?p = value_to_vertex p" "max_parts ?p = max_parts p" by (simp_all add: upd_node_def)
  have E: "pedges ?p = pedges p" by (simp add: pedges_def)
  have live: "live ?p = live p" by (simp add: live_def fun_eq_iff)
  have node: "keeps_vertex (node p w) (node ?p w)" for w using assms(3) v by (simp add: node_upd_node keeps_vertex_refl)
  have same: "ntype (node ?p w) = ntype (node p w)" "instruction (node ?p w) = instruction (node p w)" for w
    using node [of w] by (simp_all add: keeps_vertex_def)
  have "free_vertices (pgraph ?p) = free_vertices (pgraph p)" by (simp add: upd_node_def upd_vertex_def)
  then have "free_inv (pgraph ?p) = free_inv (pgraph p)" by (simp add: free_inv_def)
  then have "good ?p" using assms(1) by (simp add: good_def E live same fields)
  then have "ext L p ?p" using node by (simp add: ext_def E live fields typed_def same)
  then show thesis using that v by (simp add: set_node_def)
qed

section \<open>Looking for structural edges\<close>

lemma first_edge_Some: "first_edge P es = Some e \<Longrightarrow> e \<in> set es \<and> P (edge_property e)"
  by (induction es) (auto split: if_splits)

lemma first_edge_None: "first_edge P es = None \<longleftrightarrow> (\<forall>e\<in>set es. \<not> P (edge_property e))"
  by (induction es) auto

lemma out_edges_pedges: "good p \<Longrightarrow> set (out_edges (pgraph p) v) = {e \<in> pedges p. source e = v}"
  by (simp add: good_def repr_def)

lemma getPartOpt_clamped:
  assumes "good p" and "max_parts p \<le> i" and "getPartOpt p v i = Some w"
  shows "\<lparr>source = v, target = w, edge_property = pdg_edge Part (max_parts p)\<rparr> \<in> pedges p"
proof -
  have i: "(if max_parts p < i then max_parts p else i) = max_parts p" using assms(2) by simp
  from assms(3) obtain e where e: "first_edge (\<lambda>l. etype l = Part \<and> eindex l = max_parts p) (out_edges (pgraph p) v) = Some e" "w = target e"
    unfolding getPartOpt_def Let_def i by auto
  then have "e \<in> pedges p" "source e = v" "edge_property e = pdg_edge Part (max_parts p)"
    using first_edge_Some [OF e(1)] out_edges_pedges [OF assms(1), of v] by (auto simp: pdg_edge_def)
  moreover from this have "e = \<lparr>source = v, target = w, edge_property = pdg_edge Part (max_parts p)\<rparr>" using e(2) by simp
  ultimately show ?thesis by simp
qed

lemma getPartOpt_found:
  assumes "good p" and "max_parts p \<le> i" and "\<lparr>source = v, target = w, edge_property = pdg_edge Part (max_parts p)\<rparr> \<in> pedges p"
  shows "getPartOpt p v i \<noteq> None"
proof -
  have "\<lparr>source = v, target = w, edge_property = pdg_edge Part (max_parts p)\<rparr> \<in> set (out_edges (pgraph p) v)"
    using assms(3) out_edges_pedges [OF assms(1), of v] by simp
  then have "first_edge (\<lambda>l. etype l = Part \<and> eindex l = max_parts p) (out_edges (pgraph p) v) \<noteq> None"
    unfolding first_edge_None by (force simp: pdg_edge_def)
  moreover have "(if max_parts p < i then max_parts p else i) = max_parts p" using assms(2) by simp
  ultimately show ?thesis by (simp add: getPartOpt_def Let_def)
qed

section \<open>Creation of the structure of a value\<close>

lemma edge_typed_deref: "s = Some ty \<Longrightarrow> element_type ty = PtrTy k \<Longrightarrow> edge_typed L m s (Some (pointer_element L k)) (pdg_edge Deref 0)"
  by (simp add: edge_typed_def pdg_edge_def)

lemma edge_typed_part:
  "s = Some ty \<Longrightarrow> element_type ty = StructTy k ts \<Longrightarrow> i \<le> m \<Longrightarrow> i < length ts \<Longrightarrow> edge_typed L m s (Some (ts ! i)) (pdg_edge Part i)"
  by (simp add: edge_typed_def pdg_edge_def)

text \<open>
  A new vertex with a structural edge to it.
\<close>

lemma add_child:
  assumes "good p" and "live p parent" and "edge_typed L (max_parts p) (ntype (node p parent)) (Some t) l"
  shows "\<exists>v p'. (\<forall>k. seq (pdg_add_vertex (child_node L (node p parent) t)) (\<lambda>v. seq (pdg_add_edge parent v l) (\<lambda>_. k v)) p = k v p') \<and>
    pdg_grows L {parent} p p' \<and> \<not> live p v \<and> live p' v \<and> ntype (node p' v) = Some t \<and> \<lparr>source = parent, target = v, edge_property = l\<rparr> \<in> pedges p'"
proof -
  have new: "unmarked (child_node L (node p parent) t)" by (simp add: unmarked_def marks_of_def child_node_def PDGNode_new_def)
  obtain v p1 where v: "pdg_add_vertex (child_node L (node p parent) t) p = (Inr v, p1)" "ext L p p1" "live p1 v"
      "node p1 v = child_node L (node p parent) t" "max_parts p1 = max_parts p" "pdg_grows L {} p p1" "\<not> live p v"
    by (rule pdg_add_vertex_grows [OF assms(1) new])
  have t: "ntype (node p1 v) = Some t" using v(4) by (simp add: child_node_def)
  have parent: "live p1 parent" "ntype (node p1 parent) = ntype (node p parent)" using ext_live [OF v(2) assms(2)] by (simp_all add: keeps_vertex_def)
  obtain p2 where p2: "pdg_add_edge parent v l p1 = (Inr (), p2)" "ext L p1 p2" "pedges p2 = insert \<lparr>source = parent, target = v, edge_property = l\<rparr> (pedges p1)"
      "node p2 = node p1" "live p2 = live p1"
    using assms(3) by (rule_tac pdg_add_edge_ext [OF ext_good [OF v(2)] parent(1) v(3), of l L]) (simp_all add: parent(2) t v(5))
  have "seq (pdg_add_vertex (child_node L (node p parent) t)) (\<lambda>v. seq (pdg_add_edge parent v l) (\<lambda>_. k v)) p = k v p2" for k :: "nat \<Rightarrow> (PDG, 'a) routine"
    using v(1) p2(1) by (simp add: seq_def)
  moreover have "pdg_grows L {parent} p1 p2" using p2 by (auto simp: pdg_grows_def grown_def)
  then have "pdg_grows L {parent} p p2" using pdg_grows_trans [OF pdg_grows_mono [OF v(6)]] by blast
  ultimately show ?thesis using v(3,7) t p2 by (intro exI [of _ v] exI [of _ p2]) simp
qed

lemma createSubnodes_grows:
  "good p \<Longrightarrow> live p parent \<Longrightarrow> ntype (node p parent) = Some ty \<Longrightarrow> \<exists>p'. createSubnodes L ty parent limit p = (Inr (), p') \<and> pdg_grows L {parent} p p'"
  "good p \<Longrightarrow> live p parent \<Longrightarrow> ntype (node p parent) = Some ty' \<Longrightarrow> element_type ty' = StructTy k all \<Longrightarrow> ts = drop i all \<Longrightarrow>
    (i \<le> max_parts p \<or> (\<exists>w. \<lparr>source = parent, target = w, edge_property = pdg_edge Part (max_parts p)\<rparr> \<in> pedges p)) \<Longrightarrow>
    \<exists>p'. createParts L ts i parent limit p = (Inr (), p') \<and> pdg_grows L {parent} p p'"
proof (induction L ty parent limit and L ts i parent limit arbitrary: p and p ty' k all rule: createSubnodes_createParts.induct)
  case (1 L ty parent limit)
  show ?case
  proof (cases "\<exists>k. element_type ty = PtrTy k")
    case True
    then obtain k where k: "element_type ty = PtrTy k" by blast
    obtain v p1 where v: "\<And>k'. seq (pdg_add_vertex (child_node L (node p parent) (pointer_element L k))) (\<lambda>v.
          seq (pdg_add_edge parent v (pdg_edge Deref 0)) (\<lambda>_. k' v)) p = (k' v p1 :: unit outcome \<times> PDG)"
        "pdg_grows L {parent} p p1" "live p1 v" "ntype (node p1 v) = Some (pointer_element L k)" "\<not> live p v"
      using add_child [OF 1(3,4) edge_typed_deref [OF 1(5) k], where ?'a = unit] by blast
    have run: "createSubnodes L ty parent limit p = (if 0 < limit then createSubnodes L (pointer_element L k) v (limit - 1) else ret ()) p1"
      using 1(4) v(1) by (simp add: k seq_def [of "get_node parent"] get_node_def live_def)
    show ?thesis
    proof (cases "0 < limit")
      case True
      obtain p2 where "createSubnodes L (pointer_element L k) v (limit - 1) p1 = (Inr (), p2)" "pdg_grows L {v} p1 p2"
        using 1(1) [OF k True ext_good [OF pdg_grows_ext [OF v(2)]] v(3,4)] by blast
      with run True show ?thesis using pdg_grows_trans [OF v(2), of "{v}" p2] v(5) by auto
    next
      case False
      with run v(2) show ?thesis by (simp add: ret_def)
    qed
  next
    case False
    show ?thesis
    proof (cases "\<exists>k ts. element_type ty = StructTy k ts")
      case True
      then obtain k ts where ts: "element_type ty = StructTy k ts" by blast
      show ?thesis using 1(2) [OF ts 1(3-5) ts] by (simp add: ts)
    next
      case no: False
      have "createSubnodes L ty parent limit p = ret () p" using False no by (cases "element_type ty") simp_all
      then show ?thesis using 1(3) pdg_grows_refl by (auto simp: ret_def)
    qed
  qed
next
  case (2 L i parent limit)
  then show ?case using pdg_grows_refl by (auto simp: ret_def)
next
  case (3 L t ts i parent limit)
  have ilt: "i < length all"
    using "3.prems"(5) by (cases "i < length all") simp_all
  then have "t # ts = all ! i # drop (Suc i) all" using "3.prems"(5) Cons_nth_drop_Suc by metis
  then have i: "i < length all" "all ! i = t" "ts = drop (Suc i) all" using ilt by simp_all
  have rest: "\<exists>p'. createParts L ts (Suc i) parent limit q = (Inr (), p') \<and> pdg_grows L {parent} p p'"
    if q: "pdg_grows L {parent} p q" "Suc i \<le> max_parts p \<or> (\<exists>w. \<lparr>source = parent, target = w, edge_property = pdg_edge Part (max_parts p)\<rparr> \<in> pedges q)" for q
  proof -
    have "live q parent" "ntype (node q parent) = Some ty'" "max_parts q = max_parts p"
      using ext_live [OF pdg_grows_ext [OF q(1)] "3.prems"(2)] pdg_grows_ext [OF q(1)] "3.prems"(3) by (simp_all add: keeps_vertex_def ext_def)
    then show ?thesis using "3.IH"(2) [OF lessI ext_good [OF pdg_grows_ext [OF q(1)]] _ _ "3.prems"(4) i(3)] q pdg_grows_trans [OF q(1)] by metis
  qed
  have parts: "createParts L (t # ts) i parent limit p =
      (if i < max_parts p then
         seq (pdg_add_vertex (child_node L (node p parent) t)) (\<lambda>v. seq (pdg_add_edge parent v (pdg_edge Part i)) (\<lambda>_.
           seq (createSubnodes L t v (limit - 1)) (\<lambda>_. createParts L ts (Suc i) parent limit))) p
       else case getPartOpt p parent i of
         Some v \<Rightarrow> seq (pdg_add_edge parent v (pdg_edge Part (max_parts p))) (\<lambda>_. createParts L ts (Suc i) parent limit) p
       | None \<Rightarrow> seq (pdg_add_vertex (child_node L (node p parent) t)) (\<lambda>v. seq (pdg_add_edge parent v (pdg_edge Part (max_parts p))) (\<lambda>_.
           seq (createSubnodes L t v (limit - 1)) (\<lambda>_. createParts L ts (Suc i) parent limit))) p)"
    using "3.prems"(2) by (simp add: seq_def [of "get_node parent"] seq_def [of "reads _"] get_node_def live_def reads_def split: option.split)
  have child: "\<exists>p'. seq (pdg_add_vertex (child_node L (node p parent) t)) (\<lambda>v. seq (pdg_add_edge parent v (pdg_edge Part j)) (\<lambda>_.
         seq (createSubnodes L t v (limit - 1)) (\<lambda>_. createParts L ts (Suc i) parent limit))) p = (Inr (), p') \<and> pdg_grows L {parent} p p'"
    if j: "j \<le> max_parts p" "all ! j = t" "j < length all" "Suc i \<le> max_parts p \<or> j = max_parts p" for j
  proof -
    obtain v p1 where v: "\<And>k'. seq (pdg_add_vertex (child_node L (node p parent) t)) (\<lambda>v. seq (pdg_add_edge parent v (pdg_edge Part j)) (\<lambda>_. k' v)) p =
          (k' v p1 :: unit outcome \<times> PDG)"
        "pdg_grows L {parent} p p1" "live p1 v" "ntype (node p1 v) = Some t" "\<lparr>source = parent, target = v, edge_property = pdg_edge Part j\<rparr> \<in> pedges p1" "\<not> live p v"
      using add_child [OF "3.prems"(1,2) edge_typed_part [OF "3.prems"(3,4) j(1,3)], where ?'a = unit] j(2) by blast
    obtain p2 where p2: "createSubnodes L t v (limit - 1) p1 = (Inr (), p2)" "pdg_grows L {v} p1 p2"
      using "3.IH"(1) [OF lessI ext_good [OF pdg_grows_ext [OF v(2)]] v(3,4)] by blast
    have "pedges p1 \<subseteq> pedges p2" using pdg_grows_ext [OF p2(2)] by (simp add: ext_def)
    moreover have "pdg_grows L {parent} p p2" using pdg_grows_trans [OF v(2) p2(2)] v(6) by blast
    ultimately have "\<exists>p'. createParts L ts (Suc i) parent limit p2 = (Inr (), p') \<and> pdg_grows L {parent} p p'"
      using rest [of p2] j(4) v(5) by blast
    moreover have "seq (createSubnodes L t v (limit - 1)) (\<lambda>_. createParts L ts (Suc i) parent limit) p1 = createParts L ts (Suc i) parent limit p2"
      by (simp add: seq_def p2(1) del: createSubnodes.simps)
    ultimately show ?thesis by (simp only: v(1))
  qed
  show ?case
  proof (cases "i < max_parts p")
    case True
    then show ?thesis using child [of i] i parts by simp
  next
    case False
    then have m: "max_parts p \<le> i" by simp
    show ?thesis
    proof (cases "getPartOpt p parent i")
      case None
      have "i = max_parts p" using "3.prems"(6) getPartOpt_found [OF "3.prems"(1) m, of parent] None m by (meson le_antisym)
      then show ?thesis using child [of i] i parts None by simp
    next
      case (Some w)
      note e = getPartOpt_clamped [OF "3.prems"(1) m Some]
      then have "live p w" using "3.prems"(1) by (force simp: good_def)
      then obtain p1 where "pdg_add_edge parent w (pdg_edge Part (max_parts p)) p = (Inr (), p1)" "ext L p p1" "pedges p1 = insert \<lparr>source = parent, target = w, edge_property = pdg_edge Part (max_parts p)\<rparr> (pedges p)"
          "node p1 = node p" "live p1 = live p"
        using e by (rule_tac pdg_add_edge_ext [OF "3.prems"(1,2), of w _ L]) auto
      moreover from this e have "\<lparr>source = parent, target = w, edge_property = pdg_edge Part (max_parts p)\<rparr> \<in> pedges p1" by (auto simp: ext_def)
      moreover from calculation e have "pdg_grows L {parent} p p1" by (simp add: pdg_grows_def grown_def)
      ultimately show ?thesis using rest [of p1] parts Some False by (auto simp: seq_def)
    qed
  qed
qed

section \<open>The vertex of a value\<close>

lemma ext_same_graph:
  assumes "good p" and "pgraph p' = pgraph p" and "max_parts p' = max_parts p"
    and "\<And>b w. value_to_vertex p b = Some w \<Longrightarrow> value_to_vertex p' b = Some w"
    and "\<And>b w. value_to_vertex p' b = Some w \<Longrightarrow> live p w \<and> instruction (node p w) = Some b"
  shows "ext L p p'"
proof -
  have same: "live p' = live p" "node p' = node p" "pedges p' = pedges p" using assms(2) by (simp_all add: live_def node_def pedges_def fun_eq_iff)
  then show ?thesis using assms by (auto simp: ext_def good_def typed_def keeps_vertex_refl)
qed

lemma updateFunction_ext:
  assumes "good p" and "live p v"
  obtains p' where "updateFunction v f p = (Inr (), p')" "pdg_grows L {} p p'" "value_to_vertex p' = value_to_vertex p"
proof -
  let ?p1 = "index_erase (nfunction (node p v)) v p"
  have 1: "ext L p ?p1" using assms(1) by (intro ext_same_graph) (auto simp: index_erase_def good_def)
  have v1: "live ?p1 v" using ext_live [OF 1 assms(2)] by simp
  obtain p2 where 2: "set_node v (\<lambda>n. n\<lparr>nfunction := f\<rparr>) ?p1 = (Inr (), p2)" "ext L ?p1 p2" "p2 = upd_node v (\<lambda>n. n\<lparr>nfunction := f\<rparr>) ?p1"
    by (rule set_node_ext [OF ext_good [OF 1] v1, of "\<lambda>n. n\<lparr>nfunction := f\<rparr>"]) (simp add: keeps_vertex_def)
  have 3: "ext L p2 (index_insert f v p2)" using ext_good [OF 2(2)] by (intro ext_same_graph) (auto simp: index_insert_def good_def)
  have "updateFunction v f p = (Inr (), index_insert f v p2)"
    using assms(2) 2(1) by (simp add: updateFunction_def seq_def get_node_def modify_def live_def)
  moreover have "value_to_vertex (index_insert f v p2) = value_to_vertex p" by (simp add: 2(3) index_insert_def index_erase_def upd_node_def)
  moreover have "grown {} p (index_insert f v p2)"
  proof -
    let ?q = "index_insert f v p2"
    have "pedges ?q = pedges p" "live ?q = live p"
      by (simp_all add: 2(3) pedges_def live_def fun_eq_iff)
    moreover have "marks_of (node ?q w) = marks_of (node p w)" "origin_of (node ?q w) = origin_of (node p w)" for w
      using assms(2) by (simp_all add: 2(3) node_upd_node marks_of_def origin_of_def live_def)
    ultimately show ?thesis by (simp add: grown_def)
  qed
  ultimately show thesis using that ext_trans [OF ext_trans [OF 1 2(2)] 3] by (simp add: pdg_grows_def)
qed

lemma createVertex_ext:
  assumes "good p" and "value_to_vertex p a = None"
  shows "\<exists>v p'. createVertex L a f p = (Inr v, p') \<and> pdg_grows L {} p p' \<and> value_to_vertex p' a = Some v \<and> ntype (node p' v) = Some (value_type L a)"
proof -
  have new: "unmarked (value_node L a f)" by (simp add: unmarked_def marks_of_def value_node_def PDGNode_new_def Let_def)
  obtain v p1 where v: "pdg_add_vertex (value_node L a f) p = (Inr v, p1)" "ext L p p1" "live p1 v" "node p1 v = value_node L a f"
      "value_to_vertex p1 = value_to_vertex p" "pdg_grows L {} p p1" "\<not> live p v"
    by (rule pdg_add_vertex_grows [OF assms(1) new])
  let ?p2 = "p1\<lparr>value_to_vertex := (value_to_vertex p1)(a \<mapsto> v)\<rparr>"
  have n: "instruction (node p1 v) = Some a" "ntype (node p1 v) = Some (value_type L a)" using v(4) by (simp_all add: value_node_def Let_def)
  have 2: "ext L p1 ?p2" using ext_good [OF v(2)] v(3,5) n(1) assms(2) by (intro ext_same_graph) (auto simp: good_def split: if_splits)
  note p2 = ext_trans [OF v(2) 2]
  have "pdg_grows L {} p1 ?p2" using 2 by (simp add: pdg_grows_def grown_def pedges_def live_def node_def)
  then have g2: "pdg_grows L {} p ?p2" by (rule pdg_grows_trans [OF v(6)]) simp
  have v2: "live ?p2 v" "ntype (node ?p2 v) = Some (value_type L a)" using ext_live [OF 2 v(3)] n(2) by (simp_all add: keeps_vertex_def)
  let ?sub = "if as_function L a = None then createSubnodes L (value_type L a) v (subnode_limit ?p2) else ret ()"
  have "\<exists>p3. ?sub ?p2 = (Inr (), p3) \<and> pdg_grows L {v} ?p2 p3"
  proof (cases "as_function L a = None")
    case True
    then show ?thesis using createSubnodes_grows(1) [OF ext_good [OF p2] v2, of L "subnode_limit ?p2"] by (simp only: simp_thms if_True)
  next
    case False
    then show ?thesis using pdg_grows_refl [OF ext_good [OF p2]] by (auto simp: ret_def)
  qed
  then obtain p3 where p3: "?sub ?p2 = (Inr (), p3)" "pdg_grows L {v} ?p2 p3" by blast
  have "createVertex L a f p = (Inr v, p3)"
    using v(1) p3(1) by (simp add: createVertex_def seq_def modify_def reads_def ret_def del: createSubnodes.simps)
  moreover have "value_to_vertex p3 a = Some v" by (rule ext_index [OF pdg_grows_ext [OF p3(2)]]) simp
  moreover have "ntype (node p3 v) = Some (value_type L a)" using ext_live [OF pdg_grows_ext [OF p3(2)] v2(1)] v2(2) by (simp add: keeps_vertex_def)
  moreover have "pdg_grows L {} p p3" using pdg_grows_trans [OF g2 p3(2)] v(7) by blast
  ultimately show ?thesis by blast
qed

lemma getVertex_grows:
  assumes "good p"
  shows "\<exists>v p'. getVertex L a f p = (Inr v, p') \<and> pdg_grows L {} p p' \<and> value_to_vertex p' a = Some v \<and>
    (value_to_vertex p a = None \<longrightarrow> ntype (node p' v) = Some (value_type L a))"
proof (cases "value_to_vertex p a")
  case None
  then show ?thesis using createVertex_ext [OF assms None, of L f] by (simp add: getVertex_def seq_def reads_def)
next
  case (Some v)
  then have v: "live p v" using assms by (simp add: good_def)
  have run: "getVertex L a f p = seq (when_do (f \<noteq> None \<and> nfunction (node p v) = None) (updateFunction v f)) (\<lambda>_. ret v) p"
    using Some v by (simp add: getVertex_def seq_def reads_def get_node_def live_def)
  obtain p' where p': "updateFunction v f p = (Inr (), p')" "pdg_grows L {} p p'" "value_to_vertex p' = value_to_vertex p"
    by (rule updateFunction_ext [OF assms v])
  show ?thesis
  proof (cases "f \<noteq> None \<and> nfunction (node p v) = None")
    case True
    then show ?thesis using run p' Some by (auto simp: seq_def when_do_def ret_def)
  next
    case False
    then show ?thesis using run Some pdg_grows_refl [OF assms] by (auto simp: seq_def when_do_def ret_def)
  qed
qed

lemma getVertex_ext:
  assumes "good p"
  shows "\<exists>v p'. getVertex L a f p = (Inr v, p') \<and> ext L p p' \<and> value_to_vertex p' a = Some v \<and>
    (value_to_vertex p a = None \<longrightarrow> ntype (node p' v) = Some (value_type L a))"
  using getVertex_grows [OF assms, of L a f] by (auto simp: pdg_grows_def)

text \<open>
  C38: Looking up the vertex of a value in a graph in order always succeeds. The graph stays in order and well typed: every dereference edge leads from a
  pointer (or an array of pointers) to a node of the target type and every part edge with index i from a structure (or an array of structures) to a node of the
  type of field i. The index of values has the vertex, a new vertex has the type of the value, and all values, vertices and edges that were there are kept.
\<close>

theorem getVertex_typed:
  assumes "good p" and "typed L p"
  shows "\<exists>v p'. getVertex L a f p = (Inr v, p') \<and> good p' \<and> typed L p' \<and> value_to_vertex p' a = Some v \<and>
    (value_to_vertex p a = None \<longrightarrow> ntype (node p' v) = Some (value_type L a)) \<and> (\<forall>b w. value_to_vertex p b = Some w \<longrightarrow> value_to_vertex p' b = Some w) \<and>
    (\<forall>w. live p w \<longrightarrow> live p' w \<and> keeps_vertex (node p w) (node p' w)) \<and> pedges p \<subseteq> pedges p'"
  using getVertex_ext [OF assms(1), of L a f] assms(2) by (auto simp: ext_def)

lemma good_new: "good (PDG_new config)" "typed L (PDG_new config)"
proof -
  have "pedges (PDG_new config) = {}" by (simp add: pedges_def PDG_new_def empty_graph_def out_edges_def capacity_def)
  then show "good (PDG_new config)" "typed L (PDG_new config)"
    by (auto simp: good_def typed_def repr_def free_inv_def PDG_new_def empty_graph_def out_edges_def in_edges_def capacity_def is_empty_def)
qed

theorem getVertex_typed_witness:
  "\<exists>v p'. getVertex (empty_llvm\<lparr>value_type := (\<lambda>_. PtrTy 0)\<rparr>) 7 None (PDG_new None) = (Inr v, p') \<and> typed (empty_llvm\<lparr>value_type := (\<lambda>_. PtrTy 0)\<rparr>) p' \<and>
     ntype (node p' v) = Some (PtrTy 0)"
  using getVertex_typed [OF good_new, of "empty_llvm\<lparr>value_type := (\<lambda>_. PtrTy 0)\<rparr>" 7 None None] by (auto simp: PDG_new_def)

section \<open>Joining can attach edges to a removed vertex\<close>

text \<open>
  A structure at vertex 0 whose parts 0 and 1 are one vertex, and a structure at vertex 1 with two parts. A value at vertex 5 flows into the second part.
\<close>

definition shared_parts :: "(PDG, unit) routine" where
  "shared_parts =
     seq (pdg_add_vertex PDGNode_new) (\<lambda>_. seq (pdg_add_vertex PDGNode_new) (\<lambda>_. seq (pdg_add_vertex PDGNode_new) (\<lambda>_.
     seq (pdg_add_vertex PDGNode_new) (\<lambda>_. seq (pdg_add_vertex PDGNode_new) (\<lambda>_. seq (pdg_add_vertex PDGNode_new) (\<lambda>_.
       add_edges [(0, 3, pdg_edge Part 0), (0, 3, pdg_edge Part 1), (1, 2, pdg_edge Part 0), (1, 4, pdg_edge Part 1), (5, 4, pdg_edge Data 0)]))))))"

text \<open>
  Joining two structures can move edges to a vertex that it has removed. The loop looks only the second vertex of a pair up among the removed ones: with
  the pairs (3, 2) and (3, 4) it removes vertex 3 in favour of vertex 2 and then vertex 4 in favour of vertex 3. The flow into vertex 4 ends at the removed vertex 3,
  which is in the list of free vertices, and no longer reaches the parts of the joined structure.
\<close>

theorem uniteSubnodes_removed_target:
  "case seq shared_parts (\<lambda>_. uniteSubnodes 9 0 1) (PDG_new None) of (r, p) \<Rightarrow>
     r = Inr () \<and> is_empty (pgraph p) 3 \<and> 3 \<in> set (free_vertices (pgraph p)) \<and> map target (out_edges (pgraph p) 5) = [3] \<and>
     map target (out_edges (pgraph p) 0) = [2, 2]"
  by code_simp

end
