(* ===== verification/Pdg_Marks.thy ===== *)
theory Pdg_Marks
  imports Pdg_Reach Pdg_Vertex
begin

text \<open>
  Marking along the structure of values (\<^verbatim>\<open>markAsShared\<close>, \<^verbatim>\<open>markAsPointerToShared\<close> of \<^verbatim>\<open>cali-linker/passes/PDGUtilities.cpp\<close> and
  \<^verbatim>\<open>markSubnodesReachingIpc\<close>, \<^verbatim>\<open>markIpcCall\<close> of \<^verbatim>\<open>PDGReachabilityPass.cpp\<close>). The memory that the arguments of a call of another context lead to is marked;
  the fuel bounds the depth of the recursion.
\<close>

section \<open>The routines\<close>

text \<open>
  Two routines of the code differ only in the mark: a vertex without the mark gets it and the targets of its structural edges are visited in order.
\<close>

fun mark_structure :: "(PDGNode \<Rightarrow> bool) \<Rightarrow> (PDGNode \<Rightarrow> PDGNode) \<Rightarrow> nat \<Rightarrow> nat \<Rightarrow> (PDG, unit) routine"
  and mark_targets :: "(PDGNode \<Rightarrow> bool) \<Rightarrow> (PDGNode \<Rightarrow> PDGNode) \<Rightarrow> nat \<Rightarrow> PDGEdge Edge list \<Rightarrow> (PDG, unit) routine" where
  "mark_structure marked mark 0 v = throw Out_of_fuel"
| "mark_structure marked mark (Suc n) v =
     seq (get_node v) (\<lambda>x.
       if marked x then ret ()
       else seq (set_node v mark) (\<lambda>_. seq (reads (\<lambda>p. out_edges (pgraph p) v)) (\<lambda>es. mark_targets marked mark n es)))"
| "mark_targets marked mark n [] = ret ()"
| "mark_targets marked mark n (e # es) =
     seq (if structural e then mark_structure marked mark n (target e) else ret ()) (\<lambda>_. mark_targets marked mark n es)"

definition markAsShared :: "nat \<Rightarrow> nat \<Rightarrow> (PDG, unit) routine" where
  "markAsShared n v = mark_structure ipcsink (\<lambda>x. x\<lparr>ipcsink := True\<rparr>) n v"

definition markSubnodesReachingIpc :: "nat \<Rightarrow> nat \<Rightarrow> (PDG, unit) routine" where
  "markSubnodesReachingIpc n v = mark_structure reaches_ipc_sink (\<lambda>x. x\<lparr>reaches_ipc_sink := True\<rparr>) n v"

fun markAsPointerToShared :: "nat \<Rightarrow> nat \<Rightarrow> (PDG, unit) routine"
  and pointer_targets :: "nat \<Rightarrow> PDGEdge Edge list \<Rightarrow> (PDG, unit) routine" where
  "markAsPointerToShared 0 v = throw Out_of_fuel"
| "markAsPointerToShared (Suc n) v = seq (reads (\<lambda>p. out_edges (pgraph p) v)) (\<lambda>es. pointer_targets n es)"
| "pointer_targets n [] = ret ()"
| "pointer_targets n (e # es) =
     seq (if etype (edge_property e) = Deref then markAsShared n (target e)
          else if etype (edge_property e) = Part then markAsPointerToShared n (target e)
          else ret ())
       (\<lambda>_. pointer_targets n es)"

fun ipc_args :: "nat \<Rightarrow> llvm \<Rightarrow> nat \<Rightarrow> nat \<Rightarrow> llvm_value list \<Rightarrow> (PDG, unit) routine" where
  "ipc_args n L v i [] = ret ()"
| "ipc_args n L v i (a # as) =
     seq (if isIgnoredOperand L a then ret ()
          else seq (getVertex L a None) (\<lambda>v2. seq (pdg_add_edge v2 v (pdg_edge Param i)) (\<lambda>_. markAsPointerToShared n v2)))
       (\<lambda>_. ipc_args n L v (Suc i) as)"

definition markIpcCall :: "nat \<Rightarrow> llvm \<Rightarrow> llvm_value \<Rightarrow> (PDG, unit) routine" where
  "markIpcCall n L call = seq (getVertex L call None) (\<lambda>v. ipc_args n L v 0 (call_args L call))"

section \<open>More fuel\<close>

lemma mark_structure_more:
  "mark_structure marked mark n v p = (Inr (), q) \<Longrightarrow> n \<le> m \<Longrightarrow> mark_structure marked mark m v p = (Inr (), q)"
  "mark_targets marked mark n es p = (Inr (), q) \<Longrightarrow> n \<le> m \<Longrightarrow> mark_targets marked mark m es p = (Inr (), q)"
proof (induction marked mark n v and marked mark n es arbitrary: p q m and p q m rule: mark_structure_mark_targets.induct)
  case (2 marked mark n v)
  from "2.prems"(2) obtain m' where m: "m = Suc m'" "n \<le> m'" by (cases m) auto
  obtain x p1 where x: "get_node v p = (Inr x, p1)" using "2.prems"(1) by (auto simp: seq_Inr_iff)
  show ?case
  proof (cases "marked x")
    case True
    then show ?thesis using "2.prems"(1) x m(1) by (simp add: seq_def)
  next
    case False
    with "2.prems"(1) x obtain p2 where p2: "set_node v mark p1 = (Inr (), p2)" "mark_targets marked mark n (out_edges (pgraph p2) v) p2 = (Inr (), q)"
      by (auto simp: seq_Inr_iff)
    then show ?thesis using "2.IH" [OF False p2(2) m(2)] False x m(1) by (simp add: seq_def reads_def)
  qed
next
  case (4 marked mark n e es)
  obtain p1 where p1: "(if structural e then mark_structure marked mark n (target e) else ret ()) p = (Inr (), p1)"
      "mark_targets marked mark n es p1 = (Inr (), q)"
    using "4.prems"(1) by (auto simp: seq_Inr_iff)
  then have "(if structural e then mark_structure marked mark m (target e) else ret ()) p = (Inr (), p1)"
    using "4.IH"(1) [of p p1 m] "4.prems"(2) by (simp split: if_splits)
  then show ?case using "4.IH"(2) [OF p1(2) "4.prems"(2)] by (auto simp: seq_Inr_iff)
qed simp_all

lemma markAsPointerToShared_more:
  "markAsPointerToShared n v p = (Inr (), q) \<Longrightarrow> n \<le> m \<Longrightarrow> markAsPointerToShared m v p = (Inr (), q)"
  "pointer_targets n es p = (Inr (), q) \<Longrightarrow> n \<le> m \<Longrightarrow> pointer_targets m es p = (Inr (), q)"
proof (induction n v and n es arbitrary: p q m and p q m rule: markAsPointerToShared_pointer_targets.induct)
  case (2 n v)
  from "2.prems"(2) obtain m' where m: "m = Suc m'" "n \<le> m'" by (cases m) auto
  have "pointer_targets n (out_edges (pgraph p) v) p = (Inr (), q)" using "2.prems"(1) by (simp add: seq_def reads_def)
  from "2.IH" [OF this m(2)] show ?case by (simp add: seq_def reads_def m(1))
next
  case (4 n e es)
  let ?step = "\<lambda>n. if etype (edge_property e) = Deref then markAsShared n (target e)
    else if etype (edge_property e) = Part then markAsPointerToShared n (target e) else ret ()"
  obtain p1 where p1: "?step n p = (Inr (), p1)" "pointer_targets n es p1 = (Inr (), q)" using "4.prems"(1) by (auto simp: seq_Inr_iff)
  then have "?step m p = (Inr (), p1)"
    using "4.IH"(1) [of p p1 m] "4.prems"(2) mark_structure_more(1) [of _ _ n "target e" p p1 m] by (simp add: markAsShared_def split: if_splits)
  then show ?case using "4.IH"(2) [OF p1(2) "4.prems"(2)] by (auto simp: seq_Inr_iff)
qed simp_all

section \<open>What marking does\<close>

definition struct_succ :: "PDG \<Rightarrow> (nat \<times> nat) set" where
  "struct_succ p = {(source e, target e) | e. e \<in> pedges p \<and> structural e}"

text \<open>
  The vertices reached from \<^term>\<open>A\<close> by structural edges through unmarked vertices only.
\<close>

definition unmarked_reach :: "(PDGNode \<Rightarrow> bool) \<Rightarrow> PDG \<Rightarrow> nat set \<Rightarrow> nat set" where
  "unmarked_reach marked p A =
     {w. \<exists>v\<in>A. v \<notin> node_marks marked p \<and> (v, w) \<in> (Restr (struct_succ p) (- node_marks marked p))\<^sup>*}"

text \<open>
  A step of marking from \<^term>\<open>A\<close>: nothing but marks changes, \<^term>\<open>A\<close> is marked, new marks are reached from \<^term>\<open>A\<close>, and their structural successors
  are marked.
\<close>

definition marks_step :: "(PDGNode \<Rightarrow> bool) \<Rightarrow> (PDGNode \<Rightarrow> PDGNode) \<Rightarrow> llvm \<Rightarrow> nat set \<Rightarrow> PDG \<Rightarrow> PDG \<Rightarrow> bool" where
  "marks_step marked clear L A p q \<longleftrightarrow> ext L p q \<and> differ_in clear p q \<and> node_marks marked p \<union> A \<subseteq> node_marks marked q \<and>
     node_marks marked q \<subseteq> node_marks marked p \<union> unmarked_reach marked p A \<and>
     (\<forall>x\<in>node_marks marked q - node_marks marked p. struct_succ p `` {x} \<subseteq> node_marks marked q)"

lemma differ_in_structure:
  assumes "differ_in clear p q"
  shows "pedges q = pedges p" "live q = live p" "struct_succ q = struct_succ p" "capacity (pgraph q) = capacity (pgraph p)"
proof -
  show e: "pedges q = pedges p" using assms by (simp add: differ_in_def pedges_def)
  show "live q = live p" using assms by (auto simp: differ_in_def live_def)
  show "struct_succ q = struct_succ p" by (simp add: struct_succ_def e)
  show "capacity (pgraph q) = capacity (pgraph p)" using assms by (simp add: differ_in_def)
qed

lemma differ_in_trans: "differ_in clear p q \<Longrightarrow> differ_in clear q r \<Longrightarrow> differ_in clear p r"
proof -
  assume 1: "differ_in clear p q" and 2: "differ_in clear q r"
  have "r\<lparr>structClusterToKnownFDFields := structClusterToKnownFDFields q, pgraph := pgraph q\<rparr> = q" using 2 by (simp add: differ_in_def)
  then have "q\<lparr>structClusterToKnownFDFields := structClusterToKnownFDFields p, pgraph := pgraph p\<rparr> =
      r\<lparr>structClusterToKnownFDFields := structClusterToKnownFDFields q, pgraph := pgraph q, structClusterToKnownFDFields := structClusterToKnownFDFields p,
        pgraph := pgraph p\<rparr>" by simp
  then have "r\<lparr>structClusterToKnownFDFields := structClusterToKnownFDFields p, pgraph := pgraph p\<rparr> = p" using 1 by (simp add: differ_in_def)
  then show "differ_in clear p r" using 1 2 by (simp add: differ_in_def)
qed

lemma unmarked_reach_mono:
  assumes "node_marks marked p \<subseteq> node_marks marked q" and "struct_succ q = struct_succ p" and "A \<subseteq> B"
  shows "unmarked_reach marked q A \<subseteq> unmarked_reach marked p B"
proof -
  have "(Restr (struct_succ q) (- node_marks marked q))\<^sup>* \<subseteq> (Restr (struct_succ p) (- node_marks marked p))\<^sup>*"
    using assms by (intro rtrancl_mono) auto
  then show ?thesis using assms unfolding unmarked_reach_def by blast
qed

lemma marks_step_refl: "good p \<Longrightarrow> A \<subseteq> node_marks marked p \<Longrightarrow> marks_step marked clear L A p p"
  by (auto simp: marks_step_def ext_refl differ_in_refl)

lemma marks_step_trans:
  assumes "marks_step marked clear L A p q" and "marks_step marked clear L B q r"
  shows "marks_step marked clear L (A \<union> B) p r"
proof -
  have 1: "ext L p q" "differ_in clear p q" "node_marks marked p \<union> A \<subseteq> node_marks marked q"
      "node_marks marked q \<subseteq> node_marks marked p \<union> unmarked_reach marked p A"
      "\<And>x. x \<in> node_marks marked q - node_marks marked p \<Longrightarrow> struct_succ p `` {x} \<subseteq> node_marks marked q"
    and 2: "ext L q r" "differ_in clear q r" "node_marks marked q \<union> B \<subseteq> node_marks marked r"
      "node_marks marked r \<subseteq> node_marks marked q \<union> unmarked_reach marked q B"
      "\<And>x. x \<in> node_marks marked r - node_marks marked q \<Longrightarrow> struct_succ q `` {x} \<subseteq> node_marks marked r"
    using assms unfolding marks_step_def by blast+
  have succ: "struct_succ q = struct_succ p" using differ_in_structure(3) [OF 1(2)] .
  have A: "unmarked_reach marked p A \<subseteq> unmarked_reach marked p (A \<union> B)" by (rule unmarked_reach_mono) auto
  have B: "unmarked_reach marked q B \<subseteq> unmarked_reach marked p (A \<union> B)" using 1(3) succ by (intro unmarked_reach_mono) auto
  have "struct_succ p `` {x} \<subseteq> node_marks marked r" if "x \<in> node_marks marked r - node_marks marked p" for x
    using that 1(5) [of x] 2(5) [of x] 2(3) succ by blast
  then show ?thesis unfolding marks_step_def
    using ext_trans [OF 1(1) 2(1)] differ_in_trans [OF 1(2) 2(2)] 1(3,4) 2(3,4) A B by blast
qed

text \<open>
  What the marking needs of a mark: setting it sets it, changes nothing that the analysis relies on, and leaves what \<^term>\<open>clear\<close> keeps.
\<close>

locale node_marking =
  fixes marked :: "PDGNode \<Rightarrow> bool" and mark :: "PDGNode \<Rightarrow> PDGNode" and clear :: "PDGNode \<Rightarrow> PDGNode"
  assumes marked_mark: "marked (mark x)"
    and clear_mark: "clear (mark x) = clear x"
    and keeps_mark: "keeps_vertex x (mark x)"
begin

lemma mark_one:
  assumes "good p" and "live p v" and "v \<notin> node_marks marked p"
  shows "set_node v mark p = (Inr (), upd_node v mark p)" and "ext L p (upd_node v mark p)" and "differ_in clear p (upd_node v mark p)"
    and "node_marks marked (upd_node v mark p) = insert v (node_marks marked p)"
proof -
  obtain q where q: "set_node v mark p = (Inr (), q)" "ext L p q" "q = upd_node v mark p" by (rule set_node_ext [OF assms(1,2) keeps_mark])
  then show "set_node v mark p = (Inr (), upd_node v mark p)" "ext L p (upd_node v mark p)" by simp_all
  have v: "v < capacity (pgraph p)" using assms(2) by (simp add: live_def)
  show "differ_in clear p (upd_node v mark p)" using differ_in_refl clear_mark v by (rule differ_in_upd)
  show "node_marks marked (upd_node v mark p) = insert v (node_marks marked p)" using v marked_mark by (rule node_marks_upd)
qed

lemma mark_first:
  assumes "good p" and "live p v" and "v \<notin> node_marks marked p"
    and "marks_step marked clear L (struct_succ p `` {v}) (upd_node v mark p) q"
  shows "marks_step marked clear L {v} p q"
proof -
  let ?p = "upd_node v mark p"
  let ?R = "(Restr (struct_succ p) (- node_marks marked p))\<^sup>*"
  note one = mark_one [OF assms(1-3)]
  have succ: "struct_succ ?p = struct_succ p" using differ_in_structure(3) [OF one(3)] .
  have q: "ext L ?p q" "differ_in clear ?p q" "insert v (node_marks marked p) \<union> struct_succ p `` {v} \<subseteq> node_marks marked q"
      "node_marks marked q \<subseteq> insert v (node_marks marked p) \<union> unmarked_reach marked ?p (struct_succ p `` {v})"
      "\<And>x. x \<in> node_marks marked q - insert v (node_marks marked p) \<Longrightarrow> struct_succ p `` {x} \<subseteq> node_marks marked q"
    using assms(4) unfolding marks_step_def succ one(4) by blast+
  have self: "v \<in> unmarked_reach marked p {v}" using assms(3) by (simp add: unmarked_reach_def)
  have "unmarked_reach marked ?p (struct_succ p `` {v}) \<subseteq> unmarked_reach marked p {v}"
  proof
    fix w assume "w \<in> unmarked_reach marked ?p (struct_succ p `` {v})"
    then have "w \<in> unmarked_reach marked p (struct_succ p `` {v})"
      using unmarked_reach_mono [of marked p ?p "struct_succ p `` {v}"] one(4) succ by blast
    then obtain t where t: "(v, t) \<in> struct_succ p" "t \<notin> node_marks marked p" "(t, w) \<in> ?R" unfolding unmarked_reach_def by blast
    then have "(v, w) \<in> ?R" using assms(3) by (intro converse_rtrancl_into_rtrancl [of v t]) auto
    then show "w \<in> unmarked_reach marked p {v}" using assms(3) by (simp add: unmarked_reach_def)
  qed
  moreover have "struct_succ p `` {x} \<subseteq> node_marks marked q" if "x \<in> node_marks marked q - node_marks marked p" for x
    using that q(3,5) by (cases "x = v") auto
  ultimately show ?thesis
    unfolding marks_step_def using ext_trans [OF one(2) q(1)] differ_in_trans [OF one(3) q(2)] q(3,4) self by blast
qed

lemma mark_targets_run:
  assumes "\<And>p v. good p \<Longrightarrow> live p v \<Longrightarrow> card ({..<capacity (pgraph p)} - node_marks marked p) < n \<Longrightarrow>
    \<exists>q. mark_structure marked mark n v p = (Inr (), q) \<and> marks_step marked clear L {v} p q"
  shows "good p \<Longrightarrow> set es \<subseteq> pedges p \<Longrightarrow> card ({..<capacity (pgraph p)} - node_marks marked p) < n \<Longrightarrow>
    \<exists>q. mark_targets marked mark n es p = (Inr (), q) \<and> marks_step marked clear L {target e | e. e \<in> set es \<and> structural e} p q"
proof (induction es arbitrary: p)
  case Nil
  then show ?case using marks_step_refl by (simp add: ret_def)
next
  case (Cons e es)
  show ?case
  proof (cases "structural e")
    case False
    then have "{target e' | e'. e' \<in> set (e # es) \<and> structural e'} = {target e | e. e \<in> set es \<and> structural e}" by auto
    with Cons False show ?thesis by (simp add: seq_def ret_def)
  next
    case True
    have "live p (target e)" using Cons.prems(1,2) by (simp add: good_def)
    then obtain p1 where p1: "mark_structure marked mark n (target e) p = (Inr (), p1)" "marks_step marked clear L {target e} p p1"
      using assms Cons.prems by blast
    then have d: "differ_in clear p p1" "good p1" "node_marks marked p \<subseteq> node_marks marked p1" by (auto simp: marks_step_def ext_good)
    have "card ({..<capacity (pgraph p1)} - node_marks marked p1) \<le> card ({..<capacity (pgraph p)} - node_marks marked p)"
      using differ_in_structure(4) [OF d(1)] d(3) by (intro card_mono) auto
    then obtain q where q: "mark_targets marked mark n es p1 = (Inr (), q)"
        "marks_step marked clear L {target e | e. e \<in> set es \<and> structural e} p1 q"
      using Cons.IH [OF d(2)] Cons.prems(2,3) differ_in_structure(1) [OF d(1)] by auto
    have "{target e' | e'. e' \<in> set (e # es) \<and> structural e'} = {target e} \<union> {target e | e. e \<in> set es \<and> structural e}" using True by auto
    then show ?thesis using marks_step_trans [OF p1(2) q(2)] True p1(1) q(1) by (simp add: seq_def)
  qed
qed

lemma mark_run:
  "good p \<Longrightarrow> live p v \<Longrightarrow> card ({..<capacity (pgraph p)} - node_marks marked p) < n \<Longrightarrow>
    \<exists>q. mark_structure marked mark n v p = (Inr (), q) \<and> marks_step marked clear L {v} p q"
proof (induction n arbitrary: p v)
  case (Suc n)
  show ?case
  proof (cases "marked (node p v)")
    case True
    then have "v \<in> node_marks marked p" using Suc.prems(2) by (simp add: node_marks_def live_def)
    then show ?thesis
      using True Suc.prems marks_step_refl [of p "{v}" marked clear L] by (simp add: seq_def get_node_def live_def ret_def)
  next
    case False
    then have v: "v \<notin> node_marks marked p" by (simp add: node_marks_def)
    let ?p = "upd_node v mark p"
    note one = mark_one [OF Suc.prems(1,2) v]
    note same = differ_in_structure [OF one(3)]
    have "{..<capacity (pgraph ?p)} - node_marks marked ?p \<subset> {..<capacity (pgraph p)} - node_marks marked p"
      using v Suc.prems(2) by (auto simp: one(4) same(4) live_def)
    then have "card ({..<capacity (pgraph ?p)} - node_marks marked ?p) < card ({..<capacity (pgraph p)} - node_marks marked p)"
      by (intro psubset_card_mono) simp_all
    then have card: "card ({..<capacity (pgraph ?p)} - node_marks marked ?p) < n" using Suc.prems(3) by simp
    have out: "set (out_edges (pgraph ?p) v) = {e \<in> pedges p. source e = v}"
      using out_edges_pedges [OF ext_good [OF one(2)], of v] same(1) by simp
    then have "set (out_edges (pgraph ?p) v) \<subseteq> pedges ?p" by (auto simp: same(1))
    from mark_targets_run [OF Suc.IH ext_good [OF one(2)] this card]
    obtain q where q: "mark_targets marked mark n (out_edges (pgraph ?p) v) ?p = (Inr (), q)"
        "marks_step marked clear L {target e | e. e \<in> set (out_edges (pgraph ?p) v) \<and> structural e} ?p q"
      by blast
    have "{target e | e. e \<in> set (out_edges (pgraph ?p) v) \<and> structural e} = struct_succ p `` {v}"
      unfolding out struct_succ_def by blast
    then have "marks_step marked clear L {v} p q" using mark_first [OF Suc.prems(1,2) v] q(2) by simp
    moreover have "mark_structure marked mark (Suc n) v p = (Inr (), q)"
      using False one(1) q(1) Suc.prems(2) by (simp add: seq_def get_node_def live_def reads_def)
    ultimately show ?thesis by blast
  qed
qed simp

end

abbreviation clear_ipcsink :: "PDGNode \<Rightarrow> PDGNode" where
  "clear_ipcsink n \<equiv> n\<lparr>ipcsink := False\<rparr>"

interpretation shared: node_marking ipcsink "\<lambda>x. x\<lparr>ipcsink := True\<rparr>" clear_ipcsink
  by unfold_locales (simp_all add: keeps_vertex_def)

interpretation reaching: node_marking reaches_ipc_sink "\<lambda>x. x\<lparr>reaches_ipc_sink := True\<rparr>" clear_sink
  by unfold_locales (simp_all add: keeps_vertex_def)

section \<open>Closed marks\<close>

definition marks_closed :: "(PDGNode \<Rightarrow> bool) \<Rightarrow> PDG \<Rightarrow> bool" where
  "marks_closed marked p \<longleftrightarrow> struct_succ p `` node_marks marked p \<subseteq> node_marks marked p"

lemma marks_step_closed:
  assumes "marks_step marked clear L A p q" and "marks_closed marked p"
  shows "marks_closed marked q" and "node_marks marked q = node_marks marked p \<union> (struct_succ p)\<^sup>* `` A"
proof -
  have q: "differ_in clear p q" "node_marks marked p \<union> A \<subseteq> node_marks marked q" "node_marks marked q \<subseteq> node_marks marked p \<union> unmarked_reach marked p A"
      "\<And>x. x \<in> node_marks marked q - node_marks marked p \<Longrightarrow> struct_succ p `` {x} \<subseteq> node_marks marked q"
    using assms(1) unfolding marks_step_def by blast+
  have closed: "struct_succ p `` node_marks marked q \<subseteq> node_marks marked q"
    using assms(2) q(2,4) unfolding marks_closed_def by blast
  then show "marks_closed marked q" unfolding marks_closed_def differ_in_structure(3) [OF q(1)] .
  have "unmarked_reach marked p A \<subseteq> (struct_succ p)\<^sup>* `` A"
    unfolding unmarked_reach_def using rtrancl_mono [of "Restr (struct_succ p) (- node_marks marked p)" "struct_succ p"] by blast
  moreover have "(struct_succ p)\<^sup>* `` A \<subseteq> node_marks marked q" using Image_closed_trancl [OF closed] q(2) by blast
  ultimately show "node_marks marked q = node_marks marked p \<union> (struct_succ p)\<^sup>* `` A" using q(2,3) by blast
qed

lemma marks_closed_grows:
  assumes "pdg_grows L {} p q" and "marks_closed ipcsink p" and "good p"
  shows "marks_closed ipcsink q"
proof -
  have e: "ext L p q" and g: "grown {} p q" using assms(1) by (simp_all add: pdg_grows_def)
  have "target a \<in> node_marks ipcsink q" if a: "a \<in> pedges q" "structural a" "source a \<in> node_marks ipcsink q" for a
  proof -
    have "live q (source a)" using a(1) ext_good [OF e] by (simp add: good_def)
    then have s: "live p (source a)" using g a(3) by (auto simp: grown_def node_marks_def unmarked_def marks_of_def)
    then have p: "a \<in> pedges p" using g a(1,2) by (simp add: grown_def)
    have "source a \<in> node_marks ipcsink p" using g s a(3) by (auto simp: grown_def node_marks_def marks_of_def live_def)
    then have "target a \<in> node_marks ipcsink p" using assms(2) p a(2) by (force simp: marks_closed_def struct_succ_def)
    moreover have "live p (target a)" using p assms(3) by (simp add: good_def)
    moreover have "live q (target a)" using ext_live [OF e calculation(2)] by simp
    ultimately show ?thesis using g by (simp add: grown_def node_marks_def marks_of_def live_def)
  qed
  then show ?thesis by (auto simp: marks_closed_def struct_succ_def)
qed

section \<open>Memory of a pointer\<close>

definition part_succ :: "PDG \<Rightarrow> (nat \<times> nat) set" where
  "part_succ p = {(source e, target e) | e. e \<in> pedges p \<and> etype (edge_property e) = Part}"

text \<open>
  The vertices that the pointers in the parts of a value point to.
\<close>

definition memory_of :: "PDG \<Rightarrow> nat \<Rightarrow> nat set" where
  "memory_of p v = {target e | e. e \<in> pedges p \<and> etype (edge_property e) = Deref \<and> (v, source e) \<in> (part_succ p)\<^sup>*}"

definition edge_memory :: "PDG \<Rightarrow> PDGEdge Edge \<Rightarrow> nat set" where
  "edge_memory p e =
     (if etype (edge_property e) = Deref then {target e} else if etype (edge_property e) = Part then memory_of p (target e) else {})"

lemma memory_of_edges: "memory_of p v = \<Union> (edge_memory p ` {e \<in> pedges p. source e = v})"
proof (intro equalityI subsetI)
  fix w assume "w \<in> memory_of p v"
  then obtain e where e: "w = target e" "e \<in> pedges p" "etype (edge_property e) = Deref" "(v, source e) \<in> (part_succ p)\<^sup>*" by (auto simp: memory_of_def)
  from e(4) show "w \<in> \<Union> (edge_memory p ` {e \<in> pedges p. source e = v})"
  proof (cases rule: converse_rtranclE)
    case base
    then show ?thesis using e by (force simp: edge_memory_def)
  next
    case (step y)
    then obtain e' where "e' \<in> pedges p" "etype (edge_property e') = Part" "source e' = v" "target e' = y" by (auto simp: part_succ_def)
    moreover have "w \<in> memory_of p y" using e step(2) by (auto simp: memory_of_def)
    ultimately show ?thesis by (force simp: edge_memory_def)
  qed
next
  fix w assume "w \<in> \<Union> (edge_memory p ` {e \<in> pedges p. source e = v})"
  then obtain e where e: "e \<in> pedges p" "source e = v" "w \<in> edge_memory p e" by blast
  show "w \<in> memory_of p v"
  proof (cases "etype (edge_property e) = Deref")
    case True
    then show ?thesis using e by (auto simp: edge_memory_def memory_of_def)
  next
    case False
    then have part: "etype (edge_property e) = Part" "w \<in> memory_of p (target e)" using e(3) by (auto simp: edge_memory_def split: if_splits)
    have "(v, target e) \<in> part_succ p" using e(1,2) part(1) by (auto simp: part_succ_def)
    then show ?thesis using part(2) by (auto simp: memory_of_def intro: converse_rtrancl_into_rtrancl)
  qed
qed

lemma memory_of_same: "pedges q = pedges p \<Longrightarrow> memory_of q = memory_of p" "pedges q = pedges p \<Longrightarrow> edge_memory q = edge_memory p"
  by (simp_all add: memory_of_def edge_memory_def part_succ_def fun_eq_iff)

definition type_size :: "PDG \<Rightarrow> nat \<Rightarrow> nat" where
  "type_size p v = (case ntype (node p v) of Some t \<Rightarrow> size t | None \<Rightarrow> 0)"

lemma part_type_size:
  assumes "typed L p" and "e \<in> pedges p" and "etype (edge_property e) = Part"
  shows "type_size p (target e) < type_size p (source e)"
proof -
  have t: "edge_typed L (max_parts p) (ntype (node p (source e))) (ntype (node p (target e))) (edge_property e)" using assms(1,2) by (simp add: typed_def)
  then obtain ty where ty: "ntype (node p (source e)) = Some ty"
    using assms(3) by (cases "ntype (node p (source e))") (simp_all add: edge_typed_def)
  then obtain k ts where ts: "element_type ty = StructTy k ts" "eindex (edge_property e) < length ts" "ntype (node p (target e)) = Some (ts ! eindex (edge_property e))"
    using t assms(3) by (auto simp: edge_typed_def split: llvm_type.splits)
  have "size (ts ! eindex (edge_property e)) \<le> size_list size ts" by (rule size_list_estimation' [OF nth_mem [OF ts(2)] order_refl])
  then have "size (ts ! eindex (edge_property e)) < size (StructTy k ts)" by simp
  then show ?thesis using size_element_type [of ty] by (simp add: type_size_def ty ts)
qed

section \<open>Marking what a pointer leads to\<close>

abbreviation shared_step :: "llvm \<Rightarrow> nat set \<Rightarrow> PDG \<Rightarrow> PDG \<Rightarrow> bool" where
  "shared_step \<equiv> marks_step ipcsink clear_ipcsink"

lemma markAsShared_run:
  assumes "good p" and "live p v" and "capacity (pgraph p) < n"
  shows "\<exists>q. markAsShared n v p = (Inr (), q) \<and> shared_step L {v} p q"
proof -
  have "card ({..<capacity (pgraph p)} - node_marks ipcsink p) \<le> card {..<capacity (pgraph p)}" by (intro card_mono) auto
  then show ?thesis unfolding markAsShared_def using assms by (intro shared.mark_run) simp_all
qed

lemma marks_stepD:
  assumes "marks_step marked clear L A p q"
  shows "ext L p q" "good q" "typed L p \<Longrightarrow> typed L q" "pedges q = pedges p" "live q = live p" "capacity (pgraph q) = capacity (pgraph p)"
    "live p v \<Longrightarrow> type_size q v = type_size p v"
proof -
  show e: "ext L p q" using assms by (simp add: marks_step_def)
  have d: "differ_in clear p q" using assms by (simp add: marks_step_def)
  show "good q" "typed L p \<Longrightarrow> typed L q" using e by (simp_all add: ext_def)
  show "pedges q = pedges p" "live q = live p" "capacity (pgraph q) = capacity (pgraph p)" using differ_in_structure [OF d] by simp_all
  show "live p v \<Longrightarrow> type_size q v = type_size p v" using ext_live [OF e, of v] by (simp add: type_size_def keeps_vertex_def)
qed

lemma pointer_targets_run:
  assumes "\<And>p v. good p \<Longrightarrow> typed L p \<Longrightarrow> live p v \<Longrightarrow> type_size p v + capacity (pgraph p) + 1 < n \<Longrightarrow>
    \<exists>q. markAsPointerToShared n v p = (Inr (), q) \<and> shared_step L (memory_of p v) p q"
  shows "good p \<Longrightarrow> typed L p \<Longrightarrow> set es \<subseteq> pedges p \<Longrightarrow> capacity (pgraph p) < n \<Longrightarrow>
    (\<forall>e\<in>set es. etype (edge_property e) = Part \<longrightarrow> type_size p (target e) + capacity (pgraph p) + 1 < n) \<Longrightarrow>
    \<exists>q. pointer_targets n es p = (Inr (), q) \<and> shared_step L (\<Union> (edge_memory p ` set es)) p q"
proof (induction es arbitrary: p)
  case Nil
  then show ?case using marks_step_refl by (simp add: ret_def)
next
  case (Cons e es)
  let ?step = "if etype (edge_property e) = Deref then markAsShared n (target e)
    else if etype (edge_property e) = Part then markAsPointerToShared n (target e) else ret ()"
  have "live p (target e)" using Cons.prems(1,3) by (simp add: good_def)
  then have "\<exists>p1. ?step p = (Inr (), p1) \<and> shared_step L (edge_memory p e) p p1"
    using markAsShared_run [of p "target e" n L] assms [of p "target e"] marks_step_refl [of p "{}" ipcsink clear_ipcsink L] Cons.prems
    by (simp add: edge_memory_def ret_def)
  then obtain p1 where p1: "?step p = (Inr (), p1)" "shared_step L (edge_memory p e) p p1" by blast
  note same = marks_stepD [OF p1(2)]
  have "\<forall>e\<in>set es. live p (target e)" using Cons.prems(1,3) by (auto simp: good_def)
  then have small: "\<forall>e\<in>set es. etype (edge_property e) = Part \<longrightarrow> type_size p1 (target e) + capacity (pgraph p1) + 1 < n"
    using Cons.prems(5) same(6,7) by simp
  have es: "set es \<subseteq> pedges p1" "capacity (pgraph p1) < n" using Cons.prems(3,4) same(4,6) by simp_all
  from Cons.IH [OF same(2) same(3) [OF Cons.prems(2)] es small]
  obtain q where q: "pointer_targets n es p1 = (Inr (), q)" "shared_step L (\<Union> (edge_memory p ` set es)) p1 q"
    using memory_of_same(2) [OF same(4)] by auto
  then show ?case using p1(1) marks_step_trans [OF p1(2) q(2)] by (simp add: seq_def)
qed

lemma markAsPointerToShared_run:
  "good p \<Longrightarrow> typed L p \<Longrightarrow> live p v \<Longrightarrow> type_size p v + capacity (pgraph p) + 1 < n \<Longrightarrow>
    \<exists>q. markAsPointerToShared n v p = (Inr (), q) \<and> shared_step L (memory_of p v) p q"
proof (induction n arbitrary: p v)
  case (Suc n)
  let ?es = "out_edges (pgraph p) v"
  have out: "set ?es = {e \<in> pedges p. source e = v}" by (rule out_edges_pedges [OF Suc.prems(1)])
  have "\<forall>e\<in>set ?es. etype (edge_property e) = Part \<longrightarrow> type_size p (target e) + capacity (pgraph p) + 1 < n"
    using part_type_size [OF Suc.prems(2)] Suc.prems(4) out by fastforce
  then have "\<exists>q. pointer_targets n ?es p = (Inr (), q) \<and> shared_step L (\<Union> (edge_memory p ` set ?es)) p q"
    using Suc.prems out by (intro pointer_targets_run [OF Suc.IH]) auto
  then show ?case unfolding out memory_of_edges [of p v] by (auto simp: seq_def reads_def)
qed simp

section \<open>Calls of other contexts\<close>

text \<open>
  A value whose memory is shared: whatever the pointers in it lead to, over any number of dereferences and parts, is marked.
\<close>

definition shares_memory :: "PDG \<Rightarrow> llvm_value \<Rightarrow> bool" where
  "shares_memory p a \<longleftrightarrow> (\<exists>v. value_to_vertex p a = Some v \<and> (struct_succ p)\<^sup>* `` memory_of p v \<subseteq> node_marks ipcsink p)"

lemma memory_of_grows:
  assumes "pdg_grows L {} p q" and "live p v" and "good p"
  shows "memory_of q v \<subseteq> memory_of p v"
proof
  have kept: "e \<in> pedges p" if "e \<in> pedges q" "structural e" "live p (source e)" for e
    using assms(1) that by (simp add: pdg_grows_def grown_def)
  have path: "live p x \<and> (v, x) \<in> (part_succ p)\<^sup>*" if "(v, x) \<in> (part_succ q)\<^sup>*" for x
    using that
  proof induction
    case (step y z)
    then obtain e where e: "e \<in> pedges q" "etype (edge_property e) = Part" "source e = y" "target e = z" by (auto simp: part_succ_def)
    then have "e \<in> pedges p" using kept [of e] step.IH by (simp add: structural_def)
    moreover from this have "live p z" using assms(3) e(4) by (auto simp: good_def)
    moreover have "(y, z) \<in> part_succ p" using calculation(1) e by (auto simp: part_succ_def)
    ultimately show ?case using step.IH by (auto intro: rtrancl_into_rtrancl)
  qed (simp add: assms(2))
  fix w assume "w \<in> memory_of q v"
  then obtain e where e: "w = target e" "e \<in> pedges q" "etype (edge_property e) = Deref" "(v, source e) \<in> (part_succ q)\<^sup>*" by (auto simp: memory_of_def)
  then show "w \<in> memory_of p v" using path [OF e(4)] kept [of e] by (auto simp: memory_of_def structural_def)
qed

text \<open>
  What later steps keep of a state whose marks are closed.
\<close>

definition sharing_kept :: "llvm \<Rightarrow> PDG \<Rightarrow> PDG \<Rightarrow> bool" where
  "sharing_kept L p q \<longleftrightarrow> ext L p q \<and> marks_closed ipcsink q \<and> (\<forall>a. shares_memory p a \<longrightarrow> shares_memory q a) \<and>
     (\<forall>v. live p v \<longrightarrow> origin_of (node q v) = origin_of (node p v)) \<and> (\<forall>v. live q v \<longrightarrow> nsource (node q v) \<longrightarrow> live p v)"

lemma sharing_kept_refl: "good p \<Longrightarrow> marks_closed ipcsink p \<Longrightarrow> sharing_kept L p p"
  by (simp add: sharing_kept_def ext_refl)

lemma sharing_kept_trans: "sharing_kept L p q \<Longrightarrow> sharing_kept L q r \<Longrightarrow> sharing_kept L p r"
  using ext_trans [of L p q r] ext_live [of L p q] unfolding sharing_kept_def origin_of_def by (metis prod.inject)

lemma closed_shares:
  assumes "marks_closed ipcsink p" and "value_to_vertex p a = Some v" and "memory_of p v \<subseteq> node_marks ipcsink p"
  shows "shares_memory p a"
proof -
  have "struct_succ p `` node_marks ipcsink p \<subseteq> node_marks ipcsink p" using assms(1) by (simp add: marks_closed_def)
  from Image_closed_trancl [OF this] have "(struct_succ p)\<^sup>* `` memory_of p v \<subseteq> node_marks ipcsink p" using assms(3) by blast
  then show ?thesis using assms(2) by (auto simp: shares_memory_def)
qed

lemma shares_memoryD: "shares_memory p a \<Longrightarrow> \<exists>v. value_to_vertex p a = Some v \<and> memory_of p v \<subseteq> node_marks ipcsink p"
  unfolding shares_memory_def by blast

lemma sharing_kept_grows:
  assumes "pdg_grows L {} p q" and "good p" and "marks_closed ipcsink p"
  shows "sharing_kept L p q"
proof -
  note e = pdg_grows_ext [OF assms(1)]
  note closed = marks_closed_grows [OF assms(1,3,2)]
  have "shares_memory q a" if a: "shares_memory p a" for a
  proof -
    obtain v where v: "value_to_vertex p a = Some v" "memory_of p v \<subseteq> node_marks ipcsink p" using shares_memoryD [OF a] by blast
    then have live: "live p v" using assms(2) by (simp add: good_def)
    have "memory_of q v \<subseteq> node_marks ipcsink q"
    proof
      fix w assume "w \<in> memory_of q v"
      then have w: "w \<in> memory_of p v" using memory_of_grows [OF assms(1) live assms(2)] by blast
      then have "live p w" using assms(2) by (auto simp: memory_of_def good_def)
      moreover from this have "live q w" using ext_live [OF e] by blast
      ultimately show "w \<in> node_marks ipcsink q" using w v(2) assms(1) by (auto simp: pdg_grows_def grown_def node_marks_def marks_of_def live_def)
    qed
    then show ?thesis using closed_shares [OF closed ext_index [OF e v(1)]] by blast
  qed
  then show ?thesis using e closed assms(1) by (auto simp: sharing_kept_def pdg_grows_def grown_def unmarked_def)
qed

lemma shared_step_origin:
  assumes "shared_step L A p q" and "live p v"
  shows "origin_of (node q v) = origin_of (node p v)"
proof -
  have "clear_ipcsink (node q v) = clear_ipcsink (node p v)" using assms by (simp add: marks_step_def differ_in_def live_def)
  then have "origin_of (clear_ipcsink (node q v)) = origin_of (clear_ipcsink (node p v))" by simp
  then show ?thesis by (simp add: origin_of_def)
qed

lemma sharing_kept_step:
  assumes "shared_step L A p q" and "marks_closed ipcsink p"
  shows "sharing_kept L p q"
proof -
  note same = marks_stepD [OF assms(1)]
  note closed = marks_step_closed [OF assms]
  have "shares_memory q a" if a: "shares_memory p a" for a
    using shares_memoryD [OF a] closed_shares [OF closed(1)] ext_index [OF same(1)] memory_of_same(1) [OF same(4)] closed(2) by (metis le_supI1)
  then show ?thesis using same(1) closed(1) same(5) shared_step_origin [OF assms(1)] by (simp add: sharing_kept_def)
qed

lemma plain_edge_grows:
  assumes "good p" and "live p v" and "live p w" and "etype l \<noteq> Deref" and "etype l \<noteq> Part"
  shows "\<exists>q. pdg_add_edge v w l p = (Inr (), q) \<and> pdg_grows L {} p q \<and> value_to_vertex q = value_to_vertex p"
proof -
  have "edge_typed L (max_parts p) (ntype (node p v)) (ntype (node p w)) l" using assms(4,5) by (simp add: edge_typed_def split: PDGEdgeType.split)
  then obtain q where q: "pdg_add_edge v w l p = (Inr (), q)" "ext L p q" "pedges q = insert \<lparr>source = v, target = w, edge_property = l\<rparr> (pedges p)"
      "node q = node p" "live q = live p" "value_to_vertex q = value_to_vertex p"
    by (rule_tac pdg_add_edge_ext [OF assms(1-3), of l L]) auto
  then have "pdg_grows L {} p q" using assms(4,5) by (auto simp: pdg_grows_def grown_def structural_def)
  with q show ?thesis by blast
qed

lemma ipc_arg_run:
  assumes "good p" and "typed L p" and "marks_closed ipcsink p" and "live p v"
  shows "\<exists>q n0. sharing_kept L p q \<and> shares_memory q a \<and>
    (\<forall>n\<ge>n0. seq (getVertex L a None) (\<lambda>v2. seq (pdg_add_edge v2 v (pdg_edge Param i)) (\<lambda>_. markAsPointerToShared n v2)) p = (Inr (), q))"
proof -
  obtain w p1 where p1: "getVertex L a None p = (Inr w, p1)" "pdg_grows L {} p p1" "value_to_vertex p1 a = Some w"
    using getVertex_grows [OF assms(1), of L a None] by blast
  note g1 = ext_good [OF pdg_grows_ext [OF p1(2)]]
  note k1 = sharing_kept_grows [OF p1(2) assms(1,3)]
  have live: "live p1 w" "live p1 v" using g1 p1(3) ext_live [OF pdg_grows_ext [OF p1(2)] assms(4)] by (simp_all add: good_def)
  obtain p2 where p2: "pdg_add_edge w v (pdg_edge Param i) p1 = (Inr (), p2)" "pdg_grows L {} p1 p2" "value_to_vertex p2 = value_to_vertex p1"
    using plain_edge_grows [OF g1 live, of "pdg_edge Param i" L] by (auto simp: pdg_edge_def)
  note g2 = ext_good [OF pdg_grows_ext [OF p2(2)]]
  have "marks_closed ipcsink p1" using k1 by (simp add: sharing_kept_def)
  note k2 = sharing_kept_trans [OF k1 sharing_kept_grows [OF p2(2) g1 this]]
  have t2: "typed L p2" "marks_closed ipcsink p2" "live p2 w"
    using k2 assms(2) ext_live [OF pdg_grows_ext [OF p2(2)] live(1)] by (simp_all add: sharing_kept_def ext_def)
  let ?n = "type_size p2 w + capacity (pgraph p2) + 2"
  obtain q where q: "markAsPointerToShared ?n w p2 = (Inr (), q)" "shared_step L (memory_of p2 w) p2 q"
    using markAsPointerToShared_run [OF g2 t2(1,3), of ?n] by auto
  note same = marks_stepD [OF q(2)]
  have "memory_of q w \<subseteq> node_marks ipcsink q"
    using memory_of_same(1) [OF same(4)] q(2) by (simp add: marks_step_def)
  moreover have "value_to_vertex q a = Some w" using ext_index [OF same(1)] p1(3) p2(3) by simp
  ultimately have "shares_memory q a" using closed_shares [OF marks_step_closed(1) [OF q(2) t2(2)]] by blast
  moreover have "sharing_kept L p q" using sharing_kept_trans [OF k2 sharing_kept_step [OF q(2) t2(2)]] .
  moreover have "seq (getVertex L a None) (\<lambda>v2. seq (pdg_add_edge v2 v (pdg_edge Param i)) (\<lambda>_. markAsPointerToShared n v2)) p = (Inr (), q)" if "?n \<le> n" for n
    using p1(1) p2(1) markAsPointerToShared_more(1) [OF q(1) that] by (simp add: seq_def)
  ultimately show ?thesis by blast
qed

lemma ipc_args_run:
  "good p \<Longrightarrow> typed L p \<Longrightarrow> marks_closed ipcsink p \<Longrightarrow> live p v \<Longrightarrow>
    \<exists>q n0. sharing_kept L p q \<and> (\<forall>a\<in>set as. isIgnoredOperand L a \<or> shares_memory q a) \<and> (\<forall>n\<ge>n0. ipc_args n L v i as p = (Inr (), q))"
proof (induction as arbitrary: p i)
  case Nil
  then show ?case using sharing_kept_refl by (auto simp: ret_def)
next
  case (Cons a as)
  let ?arg = "\<lambda>n. if isIgnoredOperand L a then ret () else
    seq (getVertex L a None) (\<lambda>v2. seq (pdg_add_edge v2 v (pdg_edge Param i)) (\<lambda>_. markAsPointerToShared n v2))"
  have "\<exists>p1 n1. sharing_kept L p p1 \<and> (isIgnoredOperand L a \<or> shares_memory p1 a) \<and> (\<forall>n\<ge>n1. ?arg n p = (Inr (), p1))"
    using ipc_arg_run [OF Cons.prems, of a i] sharing_kept_refl [OF Cons.prems(1,3)] by (cases "isIgnoredOperand L a") (auto simp: ret_def)
  then obtain p1 n1 where p1: "sharing_kept L p p1" "isIgnoredOperand L a \<or> shares_memory p1 a" "\<And>n. n1 \<le> n \<Longrightarrow> ?arg n p = (Inr (), p1)" by blast
  have "good p1" "typed L p1" "marks_closed ipcsink p1" "live p1 v"
    using p1(1) Cons.prems(2,4) by (auto simp: sharing_kept_def ext_def)
  from Cons.IH [OF this] obtain q n2 where q: "sharing_kept L p1 q" "\<forall>a\<in>set as. isIgnoredOperand L a \<or> shares_memory q a"
    "\<And>n. n2 \<le> n \<Longrightarrow> ipc_args n L v (Suc i) as p1 = (Inr (), q)" by blast
  have "isIgnoredOperand L a \<or> shares_memory q a" using p1(2) q(1) by (auto simp: sharing_kept_def)
  moreover have "ipc_args n L v i (a # as) p = (Inr (), q)" if "max n1 n2 \<le> n" for n
    using p1(3) [of n] q(3) [of n] that by (simp add: seq_def)
  ultimately show ?case using sharing_kept_trans [OF p1(1) q(1)] q(2) by (intro exI [of _ q] exI [of _ "max n1 n2"]) auto
qed

lemma markIpcCall_run:
  assumes "good p" and "typed L p" and "marks_closed ipcsink p"
  shows "\<exists>q n0. (\<forall>n\<ge>n0. markIpcCall n L call p = (Inr (), q)) \<and> sharing_kept L p q \<and>
    (\<forall>a\<in>set (call_args L call). isIgnoredOperand L a \<or> shares_memory q a)"
proof -
  obtain v p1 where p1: "getVertex L call None p = (Inr v, p1)" "pdg_grows L {} p p1" "value_to_vertex p1 call = Some v"
    using getVertex_grows [OF assms(1), of L call None] by blast
  note k1 = sharing_kept_grows [OF p1(2) assms(1,3)]
  have "good p1" "typed L p1" "marks_closed ipcsink p1" using k1 assms(2) by (auto simp: sharing_kept_def ext_def)
  moreover from this have "live p1 v" using p1(3) by (simp add: good_def)
  ultimately obtain q n0 where q: "sharing_kept L p1 q" "\<forall>a\<in>set (call_args L call). isIgnoredOperand L a \<or> shares_memory q a"
      "\<forall>n\<ge>n0. ipc_args n L v 0 (call_args L call) p1 = (Inr (), q)"
    using ipc_args_run by blast
  then have "\<forall>n\<ge>n0. markIpcCall n L call p = (Inr (), q)" using p1(1) by (simp add: markIpcCall_def seq_def)
  with sharing_kept_trans [OF k1 q(1)] q(2) show ?thesis by blast
qed

text \<open>
  C32: A call that may enter another context shares its arguments. On a well-typed graph whose shared marks are closed under the structure of values, marking the
  call succeeds with enough fuel, whatever the arguments are. Afterwards everything that an argument leads to is marked as shared: the targets of the pointers in
  its parts and whatever these lead to over parts and dereferences. The marks are still closed and the graph is still well typed and keeps what it had.
\<close>

theorem markIpcCall_shares:
  assumes "good p" and "typed L p" and "marks_closed ipcsink p"
  shows "\<exists>q n0. (\<forall>n\<ge>n0. markIpcCall n L call p = (Inr (), q)) \<and> ext L p q \<and> typed L q \<and> marks_closed ipcsink q \<and>
    (\<forall>a\<in>set (call_args L call). \<not> isIgnoredOperand L a \<longrightarrow> shares_memory q a) \<and> (\<forall>a. shares_memory p a \<longrightarrow> shares_memory q a)"
proof -
  obtain q n0 where q: "\<forall>n\<ge>n0. markIpcCall n L call p = (Inr (), q)" "sharing_kept L p q"
      "\<forall>a\<in>set (call_args L call). isIgnoredOperand L a \<or> shares_memory q a"
    using markIpcCall_run [OF assms] by blast
  then show ?thesis using assms(2) by (intro exI [of _ q] exI [of _ n0]) (auto simp: sharing_kept_def ext_def)
qed

lemma marks_closed_new: "marks_closed marked (PDG_new config)"
  by (simp add: marks_closed_def node_marks_def PDG_new_def empty_graph_def capacity_def)

text \<open>
  A call with one argument, a pointer to a structure with a pointer in it.
\<close>

definition example_call :: llvm where
  "example_call = empty_llvm\<lparr>value_type := (\<lambda>a. if a = 1 then PtrTy 0 else VoidTy),
     pointer_element := (\<lambda>k. if k = 0 then StructTy 0 [IntTy 32, PtrTy 1] else IntTy 8), call_args := (\<lambda>_. [1])\<rparr>"

theorem markIpcCall_shares_witness:
  "\<exists>q n0. (\<forall>n\<ge>n0. markIpcCall n example_call 0 (PDG_new None) = (Inr (), q)) \<and> typed example_call q \<and> shares_memory q 1"
proof -
  have "1 \<in> set (call_args example_call 0)" "\<not> isIgnoredOperand example_call 1"
    by (simp_all add: example_call_def empty_llvm_def isIgnoredOperand_def)
  then show ?thesis using markIpcCall_shares [OF good_new marks_closed_new, of example_call 0 None] by blast
qed

end
