(* ===== verification/Linker_Config.thy ===== *)
theory Linker_Config
  imports Cali_Prelude
begin

text \<open>
  The configuration of the linker (\<^verbatim>\<open>cali-linker/cali_linker/configfile.h\<close> and \<^verbatim>\<open>configfile.cpp\<close>): its
  records, the default configuration, and the selection of object files by wildcard patterns. The table of \<^verbatim>\<open>strmatch\<close> is shown to
  decide the language of a pattern.
\<close>

section \<open>Records\<close>

record RlimitConfig =
  rl_as :: string
  rl_core :: string
  rl_cpu :: string
  rl_fsize :: string
  rl_nofile :: string
  rl_nproc :: string
  rl_stack :: string

record PermissionConfig =
  readonly :: "string list"
  readwrite :: "string list"
  tmpfs :: "string list"
  user :: string
  group :: string
  network :: string
  seccomp :: string
  capabilities :: "string list"
  max_cpus :: int
  p_silent :: bool
  rlimit :: RlimitConfig
  cgroup_mem_max :: int
  cgroup_pids_max :: int
  cgroup_cpu_ms_per_sec :: int

record ContextConfig =
  cname :: string
  selectors :: "string list"
  ignoredFunctions :: "string list"
  permissions :: PermissionConfig
  instrument :: bool
  instrument_coverage :: bool
  instrument_user :: string
  warnings :: bool
  mprotect_mode :: bool
  sequential_mode :: bool
  programIsForking :: bool
  silent :: int
  concurrentLibraryCommunication :: bool
  functionBehavior :: "string \<rightharpoonup> string"

record YamlConfig =
  contexts :: "string \<rightharpoonup> ContextConfig"
  writeGraphs :: bool
  writeGraphsDot :: bool
  linkerOverride :: bool
  addLibstdcxx :: bool
  replaceArguments :: "string \<rightharpoonup> string list"
  ignoreOutputs :: "string list"
  limit_subnode_depth :: int
  limit_struct_parts :: int
  filedescriptors :: "string \<rightharpoonup> int list"
  strongFDAnalysis :: bool
  strongFPAnalysis :: bool

definition RlimitConfig_new :: RlimitConfig where
  "RlimitConfig_new = \<lparr>rl_as = [], rl_core = [], rl_cpu = [], rl_fsize = [], rl_nofile = [], rl_nproc = [], rl_stack = []\<rparr>"

definition PermissionConfig_new :: PermissionConfig where
  "PermissionConfig_new = \<lparr>readonly = [], readwrite = [], tmpfs = [], user = [], group = [], network = [], seccomp = [],
     capabilities = [], max_cpus = 0, p_silent = False, rlimit = RlimitConfig_new, cgroup_mem_max = 0, cgroup_pids_max = 0,
     cgroup_cpu_ms_per_sec = 0\<rparr>"

definition ContextConfig_new :: ContextConfig where
  "ContextConfig_new = \<lparr>cname = [], selectors = [], ignoredFunctions = [], permissions = PermissionConfig_new, instrument = False,
     instrument_coverage = False, instrument_user = [], warnings = False, mprotect_mode = False, sequential_mode = False,
     programIsForking = False, silent = 0, concurrentLibraryCommunication = False, functionBehavior = Map.empty\<rparr>"

definition YamlConfig_new :: YamlConfig where
  "YamlConfig_new = \<lparr>contexts = Map.empty, writeGraphs = False, writeGraphsDot = False, linkerOverride = False, addLibstdcxx = False,
     replaceArguments = Map.empty, ignoreOutputs = [], limit_subnode_depth = 3, limit_struct_parts = 32, filedescriptors = Map.empty,
     strongFDAnalysis = False, strongFPAnalysis = False\<rparr>"

definition YamlConfig_empty :: YamlConfig where
  "YamlConfig_empty = YamlConfig_new\<lparr>contexts :=
     [''main'' \<mapsto> ContextConfig_new\<lparr>cname := ''main'', selectors := [''*.o'']\<rparr>,
      ''library'' \<mapsto> ContextConfig_new\<lparr>cname := ''library''\<rparr>]\<rparr>"

section \<open>Wildcard patterns\<close>

text \<open>
  The table of \<^verbatim>\<open>strmatch\<close>: the entry in row \<^term>\<open>i\<close> and column \<^term>\<open>j\<close> says whether the first \<^term>\<open>j\<close> characters of the pattern match the
  first \<^term>\<open>i\<close> characters of the string.
\<close>

type_synonym table = "bool list list"

definition cell :: "table \<Rightarrow> nat \<Rightarrow> nat \<Rightarrow> bool" where
  "cell t i j = t ! i ! j"

definition set_cell :: "nat \<Rightarrow> nat \<Rightarrow> bool \<Rightarrow> table \<Rightarrow> table" where
  "set_cell i j b t = t[i := (t ! i)[j := b]]"

definition first_cell :: "string \<Rightarrow> nat \<Rightarrow> table \<Rightarrow> table" where
  "first_cell pattern j t = (if pattern ! (j - 1) = CHR ''*'' then set_cell 0 j (cell t 0 (j - 1)) t else t)"

definition next_cell :: "string \<Rightarrow> string \<Rightarrow> nat \<Rightarrow> nat \<Rightarrow> table \<Rightarrow> table" where
  "next_cell str pattern i j t =
     set_cell i j
       (if pattern ! (j - 1) = CHR ''*'' then cell t i (j - 1) \<or> cell t (i - 1) j
        else if pattern ! (j - 1) = CHR ''?'' \<or> str ! (i - 1) = pattern ! (j - 1) then cell t (i - 1) (j - 1)
        else False) t"

definition strmatch :: "string \<Rightarrow> string \<Rightarrow> bool" where
  "strmatch str pattern =
     (let n = length str; m = length pattern in
      if m = 0 then n = 0
      else
        let lookup = replicate (n + 1) (replicate (m + 1) False);
            lookup = set_cell 0 0 True lookup;
            lookup = fold (first_cell pattern) [1..<m + 1] lookup;
            lookup = fold (\<lambda>i. fold (next_cell str pattern i) [1..<m + 1]) [1..<n + 1] lookup
        in cell lookup n m)"

definition ContextConfig_matches :: "ContextConfig \<Rightarrow> string \<Rightarrow> bool" where
  "ContextConfig_matches c filename =
     list_ex (\<lambda>pattern. if pattern \<noteq> [] \<and> hd pattern = CHR ''^'' then strmatch filename (tl pattern)
                        else strmatch filename (CHR ''*'' # pattern)) (selectors c)"

section \<open>The language of a pattern\<close>

text \<open>
  A star stands for any string, a question mark for any character, and every other character for itself.
\<close>

definition symbol :: "char \<Rightarrow> string set" where
  "symbol x = (if x = CHR ''*'' then UNIV else if x = CHR ''?'' then {[c] | c. True} else {[x]})"

definition glob :: "string \<Rightarrow> string set" where
  "glob pattern = {concat parts | parts. list_all2 (\<lambda>x w. w \<in> symbol x) pattern parts}"

lemma glob_Nil: "glob [] = {[]}"
  by (auto simp: glob_def)

lemma glob_snoc: "glob (p @ [x]) = {s @ w | s w. s \<in> glob p \<and> w \<in> symbol x}"
proof -
  have snoc: "list_all2 (\<lambda>x w. w \<in> symbol x) (p @ [x]) parts \<longleftrightarrow>
      (\<exists>q w. parts = q @ [w] \<and> list_all2 (\<lambda>x w. w \<in> symbol x) p q \<and> w \<in> symbol x)" for parts
  proof
    assume "list_all2 (\<lambda>x w. w \<in> symbol x) (p @ [x]) parts"
    then show "\<exists>q w. parts = q @ [w] \<and> list_all2 (\<lambda>x w. w \<in> symbol x) p q \<and> w \<in> symbol x"
      by (auto simp: list_all2_append1 list_all2_Cons1)
  qed (auto intro: list_all2_appendI)
  have "glob (p @ [x]) = {concat (q @ [w]) | q w. list_all2 (\<lambda>x w. w \<in> symbol x) p q \<and> w \<in> symbol x}"
    unfolding glob_def snoc by blast
  then show ?thesis by (auto simp: glob_def)
qed

lemma glob_Cons: "glob (x # p) = {w @ s | w s. w \<in> symbol x \<and> s \<in> glob p}"
proof -
  have "glob (x # p) = {concat (w # q) | w q. w \<in> symbol x \<and> list_all2 (\<lambda>x w. w \<in> symbol x) p q}"
    unfolding glob_def list_all2_Cons1 by blast
  then show ?thesis by (auto simp: glob_def)
qed

lemma glob_star_snoc: "s @ [c] \<in> glob (p @ ''*'') \<longleftrightarrow> s @ [c] \<in> glob p \<or> s \<in> glob (p @ ''*'')"
proof
  assume "s @ [c] \<in> glob (p @ ''*'')"
  then obtain u w where u: "u \<in> glob p" "s @ [c] = u @ w" by (auto simp: glob_snoc)
  show "s @ [c] \<in> glob p \<or> s \<in> glob (p @ ''*'')"
  proof (cases w rule: rev_cases)
    case (snoc w' d)
    with u have "s = u @ w'" by simp
    with u(1) show ?thesis by (auto simp: glob_snoc symbol_def)
  qed (use u in simp)
next
  assume "s @ [c] \<in> glob p \<or> s \<in> glob (p @ ''*'')"
  then show "s @ [c] \<in> glob (p @ ''*'')"
    by (auto simp: glob_snoc symbol_def) (metis append.right_neutral append.assoc)+
qed

lemma glob_star_Nil: "[] \<in> glob (p @ ''*'') \<longleftrightarrow> [] \<in> glob p"
  by (auto simp: glob_snoc symbol_def)

lemma glob_char_snoc: "x \<noteq> CHR ''*'' \<Longrightarrow> s @ [c] \<in> glob (p @ [x]) \<longleftrightarrow> (x = CHR ''?'' \<or> c = x) \<and> s \<in> glob p"
  by (auto simp: glob_snoc symbol_def)

lemma glob_char_Nil: "x \<noteq> CHR ''*'' \<Longrightarrow> [] \<notin> glob (p @ [x])"
  by (auto simp: glob_snoc symbol_def)

lemma glob_empty_pattern: "s \<in> glob [] \<longleftrightarrow> s = []"
  by (simp add: glob_Nil)

section \<open>The table decides the language\<close>

text \<open>
  A table of the right size in which the cells in \<^term>\<open>D\<close> hold the right answer and the others are still false.
\<close>

definition filled :: "string \<Rightarrow> string \<Rightarrow> (nat \<times> nat) set \<Rightarrow> table \<Rightarrow> bool" where
  "filled str pattern D t \<longleftrightarrow> length t = length str + 1 \<and> (\<forall>row\<in>set t. length row = length pattern + 1) \<and>
     (\<forall>i\<le>length str. \<forall>j\<le>length pattern. cell t i j \<longleftrightarrow> (i, j) \<in> D \<and> take i str \<in> glob (take j pattern))"

lemma filled_set_cell:
  assumes "filled str pattern D t" and "i \<le> length str" and "j \<le> length pattern" and "b \<longleftrightarrow> take i str \<in> glob (take j pattern)"
  shows "filled str pattern (insert (i, j) D) (set_cell i j b t)"
proof -
  have len: "length t = length str + 1" "\<forall>row\<in>set t. length row = length pattern + 1" using assms(1) by (simp_all add: filled_def)
  then have row: "length (t ! k) = length pattern + 1" if "k \<le> length str" for k using that by auto
  have "cell (set_cell i j b t) i' j' = (if i' = i \<and> j' = j then b else cell t i' j')" if "i' \<le> length str" "j' \<le> length pattern" for i' j'
    using that assms(2,3) len(1) row by (auto simp: cell_def set_cell_def nth_list_update)
  moreover have "\<forall>row\<in>set (set_cell i j b t). length row = length pattern + 1"
    using len row [OF assms(2)] by (auto simp: set_cell_def dest!: set_update_subset_insert [THEN subsetD])
  ultimately show ?thesis using assms by (auto simp: filled_def set_cell_def)
qed

lemma filled_false:
  assumes "filled str pattern D t" and "i \<le> length str" and "j \<le> length pattern" and "take i str \<notin> glob (take j pattern)"
  shows "filled str pattern (insert (i, j) D) t"
  using assms by (auto simp: filled_def)

lemma first_cell_filled:
  assumes "filled str pattern D t" and "0 < j" and "j \<le> length pattern" and "(0, j - 1) \<in> D"
  shows "filled str pattern (insert (0, j) D) (first_cell pattern j t)"
proof -
  have snoc: "take j pattern = take (j - 1) pattern @ [pattern ! (j - 1)]"
    using assms(2,3) by (cases j) (simp_all add: take_Suc_conv_app_nth)
  have prev: "cell t 0 (j - 1) \<longleftrightarrow> [] \<in> glob (take (j - 1) pattern)" using assms by (simp add: filled_def)
  show ?thesis
  proof (cases "pattern ! (j - 1) = CHR ''*''")
    case True
    with assms(3) snoc prev show ?thesis unfolding first_cell_def
      by (simp, intro filled_set_cell [OF assms(1)]) (simp_all add: glob_star_Nil)
  next
    case False
    with assms(3) snoc show ?thesis unfolding first_cell_def
      by (simp, intro filled_false [OF assms(1)]) (simp_all add: glob_char_Nil)
  qed
qed

lemma next_cell_filled:
  assumes "filled str pattern D t" and "0 < i" and "i \<le> length str" and "0 < j" and "j \<le> length pattern"
    and "{(i, j - 1), (i - 1, j), (i - 1, j - 1)} \<subseteq> D"
  shows "filled str pattern (insert (i, j) D) (next_cell str pattern i j t)"
proof -
  have snoc: "take j pattern = take (j - 1) pattern @ [pattern ! (j - 1)]" "take i str = take (i - 1) str @ [str ! (i - 1)]"
    using assms(2-5) by (cases i; cases j; simp add: take_Suc_conv_app_nth)+
  have prev: "cell t i (j - 1) \<longleftrightarrow> take i str \<in> glob (take (j - 1) pattern)" "cell t (i - 1) j \<longleftrightarrow> take (i - 1) str \<in> glob (take j pattern)"
    "cell t (i - 1) (j - 1) \<longleftrightarrow> take (i - 1) str \<in> glob (take (j - 1) pattern)"
    using assms by (simp_all add: filled_def)
  show ?thesis unfolding next_cell_def
    by (rule filled_set_cell [OF assms(1,3,5)], unfold prev)
      (cases "pattern ! (j - 1) = CHR ''*''"; simp add: snoc glob_star_snoc glob_char_snoc)
qed

lemma fold_upt_Suc: "fold f [1..<Suc m + 1] t = f (Suc m) (fold f [1..<m + 1] t)"
  by simp

lemma first_row_filled:
  assumes "filled str pattern {(0, 0)} t" and "m \<le> length pattern"
  shows "filled str pattern ({0} \<times> {..m}) (fold (first_cell pattern) [1..<m + 1] t)"
  using assms(2)
proof (induction m)
  case 0
  then show ?case using assms(1) by simp
next
  case (Suc m)
  then have "filled str pattern (insert (0, Suc m) ({0} \<times> {..m})) (first_cell pattern (Suc m) (fold (first_cell pattern) [1..<m + 1] t))"
    by (intro first_cell_filled) simp_all
  moreover have "insert (0 :: nat, Suc m) ({0} \<times> {..m}) = {0} \<times> {..Suc m}" by auto
  ultimately show ?case unfolding fold_upt_Suc by (simp only:)
qed

lemma row_filled:
  assumes "filled str pattern ({..<i} \<times> {..length pattern} \<union> {i} \<times> {0}) t" and "0 < i" and "i \<le> length str" and "m \<le> length pattern"
  shows "filled str pattern ({..<i} \<times> {..length pattern} \<union> {i} \<times> {..m}) (fold (next_cell str pattern i) [1..<m + 1] t)"
  using assms(4)
proof (induction m)
  case 0
  then show ?case using assms(1) by (simp add: atMost_0)
next
  case (Suc m)
  let ?D = "{..<i} \<times> {..length pattern} \<union> {i} \<times> {..m}"
  have "filled str pattern (insert (i, Suc m) ?D) (next_cell str pattern i (Suc m) (fold (next_cell str pattern i) [1..<m + 1] t))"
    using Suc assms(2,3) by (intro next_cell_filled) auto
  moreover have "insert (i, Suc m) ?D = {..<i} \<times> {..length pattern} \<union> {i} \<times> {..Suc m}" by auto
  ultimately show ?case unfolding fold_upt_Suc by (simp only:)
qed

lemma filled_first_column:
  assumes "filled str pattern D t" and "i \<le> length str" and "0 < i"
  shows "filled str pattern (insert (i, 0) D) t"
  using assms by (intro filled_false) (auto simp: glob_Nil)

lemma table_filled:
  assumes "filled str pattern ({0} \<times> {..length pattern}) t" and "n \<le> length str"
  shows "filled str pattern ({..n} \<times> {..length pattern}) (fold (\<lambda>i. fold (next_cell str pattern i) [1..<length pattern + 1]) [1..<n + 1] t)"
  using assms(2)
proof (induction n)
  case 0
  then show ?case using assms(1) by (simp add: atMost_0)
next
  case (Suc n)
  let ?t = "fold (\<lambda>i. fold (next_cell str pattern i) [1..<length pattern + 1]) [1..<n + 1] t"
  have "filled str pattern (insert (Suc n, 0) ({..n} \<times> {..length pattern})) ?t" using Suc by (intro filled_first_column) simp_all
  moreover have "insert (Suc n, 0) ({..n} \<times> {..length pattern}) = {..<Suc n} \<times> {..length pattern} \<union> {Suc n} \<times> {0}" by auto
  ultimately have "filled str pattern ({..<Suc n} \<times> {..length pattern} \<union> {Suc n} \<times> {..length pattern})
      (fold (next_cell str pattern (Suc n)) [1..<length pattern + 1] ?t)"
    using Suc.prems by (intro row_filled) simp_all
  moreover have "{..<Suc n} \<times> {..length pattern} \<union> {Suc n} \<times> {..length pattern} = {..Suc n} \<times> {..length pattern}" by auto
  ultimately show ?case unfolding fold_upt_Suc by (simp only:)
qed

lemma strmatch_glob: "strmatch str pattern \<longleftrightarrow> str \<in> glob pattern"
proof (cases "pattern = []")
  case True
  then show ?thesis by (simp add: strmatch_def glob_Nil)
next
  case False
  let ?n = "length str" and ?m = "length pattern"
  let ?z = "replicate (?n + 1) (replicate (?m + 1) False)"
  have "filled str pattern {} ?z" by (simp add: filled_def cell_def del: replicate_Suc)
  then have "filled str pattern {(0, 0)} (set_cell 0 0 True ?z)" by (rule filled_set_cell) (simp_all add: glob_Nil)
  then have "filled str pattern ({0} \<times> {..?m}) (fold (first_cell pattern) [1..<?m + 1] (set_cell 0 0 True ?z))"
    by (rule first_row_filled) simp
  then have "filled str pattern ({..?n} \<times> {..?m}) (fold (\<lambda>i. fold (next_cell str pattern i) [1..<?m + 1]) [1..<?n + 1]
      (fold (first_cell pattern) [1..<?m + 1] (set_cell 0 0 True ?z)))"
    by (rule table_filled) simp
  then show ?thesis using False unfolding filled_def by (simp add: strmatch_def Let_def)
qed

text \<open>
  C24: A context selects exactly the files that a selector describes: a selector that starts with \<^verbatim>\<open>^\<close> has to match the whole name, any other one an
  ending of it, where a star stands for any string and a question mark for any character.
\<close>

theorem ContextConfig_matches_iff:
  "ContextConfig_matches c filename \<longleftrightarrow>
     (\<exists>p\<in>set (selectors c). case p of
        [] \<Rightarrow> True
      | x # q \<Rightarrow> if x = CHR ''^'' then filename \<in> glob q else (\<exists>u v. filename = u @ v \<and> v \<in> glob p))"
proof -
  have star: "strmatch filename (CHR ''*'' # p) \<longleftrightarrow> (\<exists>u v. filename = u @ v \<and> v \<in> glob p)" for p
    by (auto simp: strmatch_glob glob_Cons symbol_def)
  have "(if p \<noteq> [] \<and> hd p = CHR ''^'' then strmatch filename (tl p) else strmatch filename (CHR ''*'' # p)) \<longleftrightarrow>
      (case p of [] \<Rightarrow> True | x # q \<Rightarrow> if x = CHR ''^'' then filename \<in> glob q else (\<exists>u v. filename = u @ v \<and> v \<in> glob p))" for p
    unfolding star unfolding strmatch_glob by (cases p) (auto simp: glob_Nil)
  then show ?thesis unfolding ContextConfig_matches_def list_ex_iff by simp
qed

theorem ContextConfig_matches_iff_witness:
  "ContextConfig_matches (ContextConfig_new\<lparr>selectors := [''^main.?'', ''.a'']\<rparr>) ''main.o''"
proof -
  have "''main.o'' \<in> glob ''main.?''" unfolding strmatch_glob [symmetric] by code_simp
  then show ?thesis unfolding ContextConfig_matches_iff by simp
qed

end
