(* ===== verification/Pdg_Creation.thy ===== *)
theory Pdg_Creation
  imports Pdg_Vertex Linker_Config
begin

text \<open>
  The pass that builds the program dependence graph of a module (\<^verbatim>\<open>cali-linker/passes/PDGCreationPass.cpp\<close>): vertices for globals,
  functions, arguments and instructions, and the edges of every kind of instruction. The fuel of the routines bounds the depth of nested operators and
  is passed on to the joining of structures.
\<close>

section \<open>Ignored instructions and sources of memory\<close>

definition ascii_lower :: "char \<Rightarrow> char" where
  "ascii_lower c = (if 65 \<le> (of_char c :: nat) \<and> (of_char c :: nat) \<le> 90 then char_of ((of_char c :: nat) + 32) else c)"

definition startswith_lower :: "string \<Rightarrow> string \<Rightarrow> bool" where
  "startswith_lower s p = startswith (map ascii_lower s) (map ascii_lower p)"

definition isIgnoredInstruction :: "llvm \<Rightarrow> llvm_value \<Rightarrow> bool" where
  "isIgnoredInstruction L v =
     (case kind L v of
        CallInst \<Rightarrow>
          (case direct_callee L v of
             Some f \<Rightarrow> startswith (function_name L f) ''llvm.dbg.'' \<or> startswith (function_name L f) ''llvm.lifetime.''
           | None \<Rightarrow> False)
      | InvokeInst \<Rightarrow>
          (case direct_callee L v of
             Some f \<Rightarrow> startswith (function_name L f) ''llvm.dbg.'' \<or> startswith (function_name L f) ''llvm.lifetime.''
           | None \<Rightarrow> False)
      | BranchInst \<Rightarrow> True
      | GlobalVariable \<Rightarrow>
          constant_global L v \<and> unnamed_addr_global L v \<or> value_name L v \<noteq> [] \<and> startswith_lower (value_name L v) ''llvm.''
      | _ \<Rightarrow> False)"

definition isMemorySource :: "llvm \<Rightarrow> llvm_value \<Rightarrow> (string \<rightharpoonup> string) \<Rightarrow> nat" where
  "isMemorySource L v behavior =
     (case kind L v of
        AllocaInst \<Rightarrow> 1
      | GlobalVariable \<Rightarrow> 1
      | CallInst \<Rightarrow>
          (case direct_callee L v of
             None \<Rightarrow> 0
           | Some f \<Rightarrow>
               let name = (case behavior (function_name L f) of Some b \<Rightarrow> b | None \<Rightarrow> function_name L f) in
               if name \<in> set [''malloc'', ''calloc'', ''mmap'', ''mmap64'', ''realloc'', ''getenv'', ''strdup''] then 1
               else if name \<in> set [''posix_memalign'', ''vasprintf'', ''asprintf''] then 2
               else 0)
      | _ \<Rightarrow> 0)"

section \<open>Edges of one instruction\<close>

definition operand :: "llvm \<Rightarrow> llvm_value \<Rightarrow> nat \<Rightarrow> (PDG, llvm_value) routine" where
  "operand L ins i = (if i < length (operands L ins) then ret (operands L ins ! i) else throw Undefined_behaviour)"

definition is_operator :: "llvm \<Rightarrow> llvm_value \<Rightarrow> bool" where
  "is_operator L v \<longleftrightarrow> isGEPOperator (kind L v) \<or> isBitCastOperator (kind L v)"

definition store_edges :: "nat \<Rightarrow> llvm \<Rightarrow> llvm_value \<Rightarrow> (PDG, unit) routine" where
  "store_edges n L ins =
     seq (operand L ins 0) (\<lambda>op0.
       if isIgnoredOperand L op0 then ret ()
       else seq (operand L ins 1) (\<lambda>op1.
         seq (getVertex L op0 None) (\<lambda>val. seq (getVertex L op1 None) (\<lambda>ptr.
           seq (getDeref ptr) (\<lambda>mem. addSubnodeEdges n val mem 0)))))"

text \<open>
  The marks of file descriptors at a call.
\<close>

definition fd_call :: "llvm \<Rightarrow> nat \<Rightarrow> llvm_value \<Rightarrow> (PDG, unit) routine" where
  "fd_call L v call =
     (let cf = getCalledFunction L call in
      if isFileDescriptorFunction L cf then set_node v (\<lambda>n. n\<lparr>filedescriptor := True\<rparr>)
      else case isFileDescriptorParamFunction L cf of
        Some i \<Rightarrow>
          if i < length (call_args L call) then
            (if isIgnoredOperand L (call_args L call ! i) then ret ()
             else seq (getVertex L (call_args L call ! i) None) (\<lambda>v2. set_node v2 (\<lambda>n. n\<lparr>filedescriptor := True\<rparr>)))
          else throw Undefined_behaviour
      | None \<Rightarrow>
          if isFileDescriptorPtrFunction L cf then
            (case call_args L call of
               [] \<Rightarrow> throw Undefined_behaviour
             | a # _ \<Rightarrow>
                 seq (getVertex L a None) (\<lambda>v2. seq (reads (\<lambda>p. getDerefOpt p v2)) (\<lambda>op.
                   case op of Some w \<Rightarrow> set_node w (\<lambda>n. n\<lparr>filedescriptor := True\<rparr>) | None \<Rightarrow> ret ())))
          else ret ())"

fun arg_edges :: "llvm \<Rightarrow> nat \<Rightarrow> nat \<Rightarrow> llvm_value list \<Rightarrow> (PDG, unit) routine" where
  "arg_edges L v i [] = ret ()"
| "arg_edges L v i (a # as) =
     seq (if isIgnoredOperand L a then ret ()
          else seq (getVertex L a None) (\<lambda>v2. pdg_add_edge v2 v (pdg_edge Param i)))
       (\<lambda>_. arg_edges L v (Suc i) as)"

definition invocation_edge :: "llvm \<Rightarrow> nat \<Rightarrow> llvm_value \<Rightarrow> (PDG, unit) routine" where
  "invocation_edge L v call =
     (let callee = called_value L call in
      if as_function L callee = None \<and> \<not> isIgnoredOperand L callee then
        seq (getVertex L callee None) (\<lambda>v2. pdg_add_edge v2 v (pdg_edge Invocation 0))
      else ret ())"

definition call_edges :: "llvm \<Rightarrow> nat \<Rightarrow> llvm_value \<Rightarrow> (PDG, unit) routine" where
  "call_edges L v call = seq (fd_call L v call) (\<lambda>_. seq (arg_edges L v 0 (call_args L call)) (\<lambda>_. invocation_edge L v call))"

definition invoke_edges :: "llvm \<Rightarrow> nat \<Rightarrow> llvm_value \<Rightarrow> (PDG, unit) routine" where
  "invoke_edges L v call = seq (arg_edges L v 0 (call_args L call)) (\<lambda>_. invocation_edge L v call)"

text \<open>
  \<^verbatim>\<open>c_str\<close> of the string class of the C++ library: the memory behind the pointer and the buffer inside the object are joined.
\<close>

definition is_null_constant :: "llvm \<Rightarrow> llvm_value \<Rightarrow> bool" where
  "is_null_constant L v \<longleftrightarrow> kind L v = ConstantInt 0"

definition contains :: "string \<Rightarrow> string \<Rightarrow> bool" where
  "contains s t \<longleftrightarrow> list_ex (\<lambda>i. startswith (drop i s) t) [0..<Suc (length s)]"

definition pointee :: "llvm \<Rightarrow> llvm_type \<Rightarrow> llvm_type option" where
  "pointee L t = (case t of PtrTy k \<Rightarrow> Some (pointer_element L k) | _ \<Rightarrow> None)"

definition is_basic_string :: "llvm \<Rightarrow> llvm_type \<Rightarrow> bool" where
  "is_basic_string L t =
     (case t of StructTy k _ \<Rightarrow> startswith (getStructName L k) ''class.std::'' \<and> contains (getStructName L k) ''::basic_string'' | _ \<Rightarrow> False)"

definition bind_opt :: "'a option \<Rightarrow> ('a \<Rightarrow> 'b option) \<Rightarrow> 'b option" where
  "bind_opt r f = (case r of None \<Rightarrow> None | Some x \<Rightarrow> f x)"

definition c_str_nodes :: "nat \<Rightarrow> PDG \<Rightarrow> (nat \<times> nat) option" where
  "c_str_nodes memVertex p =
     bind_opt (getPartOpt p memVertex 2) (\<lambda>some_union.
       bind_opt (getPartOpt p some_union 1) (\<lambda>data_from_union.
         bind_opt (getPartOpt p memVertex 0) (\<lambda>v1.
           bind_opt (getPartOpt p v1 0) (\<lambda>v2.
             bind_opt (getDerefOpt p v2) (\<lambda>mem. if mem \<noteq> data_from_union then Some (mem, data_from_union) else None)))))"

definition specialGEPHandling :: "nat \<Rightarrow> llvm \<Rightarrow> llvm_value \<Rightarrow> nat \<Rightarrow> (PDG, unit) routine" where
  "specialGEPHandling n L ins memVertex =
     (case operands L ins of
        [op0, op1, op2, op3] \<Rightarrow>
          if is_null_constant L op1 \<and> is_null_constant L op2 \<and> is_null_constant L op3 then
            (case pointee L (value_type L op0) of
               None \<Rightarrow> throw Undefined_behaviour
             | Some t \<Rightarrow>
                 if is_basic_string L t then
                   seq (reads (c_str_nodes memVertex)) (\<lambda>r. case r of Some (mem, d) \<Rightarrow> uniteSubnodes n mem d | None \<Rightarrow> ret ())
                 else ret ())
          else ret ()
      | _ \<Rightarrow> ret ())"

text \<open>
  The walk along the indices of an element pointer, from the memory vertex to the selected part. Index values are cut to 32 bits.
\<close>

fun gep_walk :: "llvm \<Rightarrow> PDG \<Rightarrow> llvm_value list \<Rightarrow> nat \<Rightarrow> llvm_type option \<Rightarrow> nat outcome" where
  "gep_walk L p [] v t = Inr v"
| "gep_walk L p (op # ops) v t =
     (case t of
        None \<Rightarrow> Inl Undefined_behaviour
      | Some (ArrayTy _ e) \<Rightarrow> gep_walk L p ops v (Some e)
      | Some _ \<Rightarrow>
          (case kind L op of
             ConstantInt i \<Rightarrow>
               (case getPartOpt p v (i mod 2 ^ 32) of
                  Some w \<Rightarrow> gep_walk L p ops w (ntype (node p w))
                | None \<Rightarrow> Inr v)
           | _ \<Rightarrow> Inr v))"

definition gep_edges :: "nat \<Rightarrow> llvm \<Rightarrow> nat \<Rightarrow> llvm_value \<Rightarrow> (PDG, unit) routine" where
  "gep_edges n L v ins =
     seq (operand L ins 0) (\<lambda>op0. seq (getVertex L op0 None) (\<lambda>sourceVertex.
       if length (operands L ins) < 3 then addSubnodeEdges n sourceVertex v 0
       else
         seq (pdg_add_edge sourceVertex v (pdg_edge Data 0)) (\<lambda>_.
         seq (reads (\<lambda>p. getDerefOpt p sourceVertex)) (\<lambda>sourceMem.
         seq (reads (\<lambda>p. getDerefOpt p v)) (\<lambda>memV.
           case (sourceMem, memV) of
             (Some sourceMemVertex, Some memV) \<Rightarrow>
               seq (specialGEPHandling n L ins sourceMemVertex) (\<lambda>_.
               seq (\<lambda>p. (gep_walk L p (drop 2 (operands L ins)) sourceMemVertex (ntype (node p sourceMemVertex)), p)) (\<lambda>t.
                 if t \<noteq> sourceMemVertex then uniteSubnodes n t memV else uniteSubnodes n sourceVertex v))
           | _ \<Rightarrow> ret ())))))"

text \<open>
  A cast. A pointer to a structure may be cast to a pointer to its first member.
\<close>

definition first_member_cast :: "llvm \<Rightarrow> llvm_type \<Rightarrow> llvm_type \<Rightarrow> bool" where
  "first_member_cast L src dst =
     (case (pointee L src, pointee L dst) of
        (Some (StructTy _ (t # _)), Some t') \<Rightarrow> t = t'
      | _ \<Rightarrow> False)"

definition bitcast_edges :: "nat \<Rightarrow> llvm \<Rightarrow> nat \<Rightarrow> llvm_value \<Rightarrow> (PDG, unit) routine" where
  "bitcast_edges n L v ins =
     seq (operand L ins 0) (\<lambda>op0. seq (getVertex L op0 None) (\<lambda>sourceVertex.
       seq (reads (\<lambda>p. if first_member_cast L (value_type L op0) (value_type L ins)
            then bind_opt (getDerefOpt p sourceVertex) (\<lambda>sourceMem. bind_opt (getDerefOpt p v) (\<lambda>memV.
              bind_opt (getPartOpt p sourceMem 0) (\<lambda>part. Some (memV, part))))
            else None)) (\<lambda>r.
         case r of
           Some (memV, part) \<Rightarrow> seq (pdg_add_edge sourceVertex v (pdg_edge Data 0)) (\<lambda>_. uniteSubnodes n memV part)
         | None \<Rightarrow> uniteSubnodes n sourceVertex v)))"

fun select_part :: "PDG \<Rightarrow> nat \<Rightarrow> nat list \<Rightarrow> nat option" where
  "select_part p v [] = Some v"
| "select_part p v (i # is) = bind_opt (getPartOpt p v i) (\<lambda>w. select_part p w is)"

fun flow_edges :: "nat \<Rightarrow> llvm \<Rightarrow> nat \<Rightarrow> llvm_value list \<Rightarrow> (PDG, unit) routine" where
  "flow_edges n L v [] = ret ()"
| "flow_edges n L v (op # ops) =
     seq (if kind L op \<noteq> BasicBlock \<and> \<not> isConstant (kind L op) then seq (getVertex L op None) (\<lambda>v2. addSubnodeEdges n v2 v 0) else ret ())
       (\<lambda>_. flow_edges n L v ops)"

definition extract_edges :: "nat \<Rightarrow> llvm \<Rightarrow> nat \<Rightarrow> llvm_value \<Rightarrow> nat list \<Rightarrow> (PDG, unit) routine" where
  "extract_edges n L v ins is =
     seq (operand L ins 0) (\<lambda>op0. seq (getVertex L op0 None) (\<lambda>opVertex.
       seq (reads (\<lambda>p. select_part p opVertex is)) (\<lambda>r.
         case r of Some v2 \<Rightarrow> addSubnodeEdges n v2 v 0 | None \<Rightarrow> flow_edges n L v (operands L ins))))"

definition insert_edges :: "nat \<Rightarrow> llvm \<Rightarrow> nat \<Rightarrow> llvm_value \<Rightarrow> nat list \<Rightarrow> (PDG, unit) routine" where
  "insert_edges n L v ins is =
     seq (operand L ins 0) (\<lambda>op0. seq (getVertex L op0 None) (\<lambda>v0. seq (addSubnodeEdges n v0 v 0) (\<lambda>_.
       seq (reads (\<lambda>p. select_part p v is)) (\<lambda>r.
         case r of
           Some v2 \<Rightarrow> seq (operand L ins 1) (\<lambda>op1. seq (getVertex L op1 None) (\<lambda>v1. addSubnodeEdges n v1 v2 0))
         | None \<Rightarrow> flow_edges n L v (operands L ins)))))"

text \<open>
  The edges towards the vertex \<^term>\<open>v\<close> of an instruction or operator. Operands that are operators are treated first.
\<close>

fun addEdges :: "nat \<Rightarrow> llvm \<Rightarrow> nat \<Rightarrow> llvm_value \<Rightarrow> (PDG, unit) routine"
  and operator_edges :: "nat \<Rightarrow> llvm \<Rightarrow> llvm_value list \<Rightarrow> (PDG, unit) routine" where
  "addEdges 0 L v ins = throw Out_of_fuel"
| "addEdges (Suc n) L v ins =
     seq (operator_edges n L (operands L ins)) (\<lambda>_.
       case kind L ins of
         LoadInst \<Rightarrow>
           seq (operand L ins 0) (\<lambda>op0. seq (getVertex L op0 None) (\<lambda>ptr. seq (getDeref ptr) (\<lambda>mem.
             seq (addSubnodeEdges n mem v 0) (\<lambda>_. if is_operator L op0 then addEdges n L ptr op0 else ret ()))))
       | StoreInst \<Rightarrow> store_edges n L ins
       | CallInst \<Rightarrow> call_edges L v ins
       | InvokeInst \<Rightarrow> invoke_edges L v ins
       | GetElementPtrInst \<Rightarrow> gep_edges n L v ins
       | GEPConstant \<Rightarrow> gep_edges n L v ins
       | BitCastInst \<Rightarrow> bitcast_edges n L v ins
       | BitCastConstant \<Rightarrow> bitcast_edges n L v ins
       | ExtractValueInst is \<Rightarrow> extract_edges n L v ins is
       | InsertValueInst is \<Rightarrow> insert_edges n L v ins is
       | _ \<Rightarrow> flow_edges n L v (operands L ins))"
| "operator_edges 0 L ops = throw Out_of_fuel"
| "operator_edges (Suc n) L [] = ret ()"
| "operator_edges (Suc n) L (op # ops) =
     seq (if is_operator L op then seq (getVertex L op None) (\<lambda>w. addEdges n L w op) else ret ()) (\<lambda>_. operator_edges n L ops)"

section \<open>The pass\<close>

fun global_vertices :: "llvm \<Rightarrow> (string \<rightharpoonup> string) \<Rightarrow> llvm_value list \<Rightarrow> (PDG, unit) routine" where
  "global_vertices L behavior [] = ret ()"
| "global_vertices L behavior (g # gs) =
     seq (if \<not> isIgnoredInstruction L g \<and> isMemorySource L g behavior \<noteq> 0 then
            seq (getVertex L g None) (\<lambda>v. set_node v (\<lambda>n. n\<lparr>nsource := True, source_type := 1\<rparr>))
          else ret ())
       (\<lambda>_. global_vertices L behavior gs)"

fun param_edges :: "llvm \<Rightarrow> llvm_function \<Rightarrow> nat \<Rightarrow> nat \<Rightarrow> llvm_value list \<Rightarrow> (PDG, unit) routine" where
  "param_edges L f vFunc i [] = ret ()"
| "param_edges L f vFunc i (a # as) =
     seq (getVertex L a (Some f)) (\<lambda>v. seq (pdg_add_edge vFunc v (pdg_edge Param i)) (\<lambda>_. param_edges L f vFunc (Suc i) as))"

definition instruction_edges :: "nat \<Rightarrow> llvm \<Rightarrow> (string \<rightharpoonup> string) \<Rightarrow> llvm_function \<Rightarrow> nat \<Rightarrow> llvm_value \<Rightarrow> (PDG, unit) routine" where
  "instruction_edges n L behavior f vFunc ins =
     (if isIgnoredInstruction L ins then ret ()
      else case kind L ins of
        ReturnInst r \<Rightarrow>
          (case r of
             Some a \<Rightarrow> seq (getVertex L a (Some f)) (\<lambda>v. pdg_add_edge vFunc v (pdg_edge Return 0))
           | None \<Rightarrow> ret ())
      | _ \<Rightarrow>
          seq (getVertex L ins (Some f)) (\<lambda>v.
            let t = isMemorySource L ins behavior in
            seq (set_node v (\<lambda>n. n\<lparr>source_type := t, nsource := (t \<noteq> 0)\<rparr>)) (\<lambda>_. addEdges n L v ins)))"

fun block_edges :: "nat \<Rightarrow> llvm \<Rightarrow> (string \<rightharpoonup> string) \<Rightarrow> llvm_function \<Rightarrow> nat \<Rightarrow> llvm_value list \<Rightarrow> (PDG, unit) routine" where
  "block_edges n L behavior f vFunc [] = ret ()"
| "block_edges n L behavior f vFunc (ins # inss) =
     seq (instruction_edges n L behavior f vFunc ins) (\<lambda>_. block_edges n L behavior f vFunc inss)"

definition function_edges :: "nat \<Rightarrow> llvm \<Rightarrow> string list \<Rightarrow> (string \<rightharpoonup> string) \<Rightarrow> llvm_function \<Rightarrow> (PDG, unit) routine" where
  "function_edges n L externalSymbols behavior f =
     seq (getVertex L (function_value L f) None) (\<lambda>vFunc.
     seq (param_edges L f vFunc 0 (function_args L f)) (\<lambda>_.
     seq (when_do (function_name L f \<in> set externalSymbols) (set_node vFunc (\<lambda>n. n\<lparr>ipcfunction := True\<rparr>))) (\<lambda>_.
       block_edges n L behavior f vFunc (function_instructions L f))))"

fun module_edges :: "nat \<Rightarrow> llvm \<Rightarrow> string list \<Rightarrow> (string \<rightharpoonup> string) \<Rightarrow> llvm_function list \<Rightarrow> (PDG, unit) routine" where
  "module_edges n L externalSymbols behavior [] = ret ()"
| "module_edges n L externalSymbols behavior (f # fs) =
     seq (function_edges n L externalSymbols behavior f) (\<lambda>_. module_edges n L externalSymbols behavior fs)"

definition creation_runOnModule :: "nat \<Rightarrow> llvm \<Rightarrow> string list \<Rightarrow> (nat \<rightharpoonup> int) \<Rightarrow> ContextConfig \<Rightarrow> (PDG, unit) routine" where
  "creation_runOnModule n L externalSymbols clusters ctx =
     seq (modify (\<lambda>p. p\<lparr>structClusters := clusters\<rparr>)) (\<lambda>_.
     seq (global_vertices L (functionBehavior ctx) (module_globals L)) (\<lambda>_.
       module_edges n L externalSymbols (functionBehavior ctx) (module_functions L)))"

section \<open>The index stays complete\<close>

lemma keeps_case_kind [keeps_intros]:
  assumes "keeps I m1" "keeps I m2" "keeps I m3" "\<And>r. keeps I (m4 r)" "keeps I m5" "keeps I m6" "keeps I m7" "keeps I m8" "keeps I m9"
    "\<And>is. keeps I (m10 is)" "\<And>is. keeps I (m11 is)" "keeps I m12" "keeps I m13" "keeps I m14" "keeps I m15" "\<And>i. keeps I (m16 i)" "keeps I m17"
    "keeps I m18" "keeps I m19" "keeps I m20" "keeps I m21" "keeps I m22"
  shows "keeps I (case k of CallInst \<Rightarrow> m1 | InvokeInst \<Rightarrow> m2 | BranchInst \<Rightarrow> m3 | ReturnInst r \<Rightarrow> m4 r | AllocaInst \<Rightarrow> m5 | LoadInst \<Rightarrow> m6
    | StoreInst \<Rightarrow> m7 | GetElementPtrInst \<Rightarrow> m8 | BitCastInst \<Rightarrow> m9 | ExtractValueInst is \<Rightarrow> m10 is | InsertValueInst is \<Rightarrow> m11 is | ICmpInst \<Rightarrow> m12
    | OtherInst \<Rightarrow> m13 | GEPConstant \<Rightarrow> m14 | BitCastConstant \<Rightarrow> m15 | ConstantInt i \<Rightarrow> m16 i | ConstantData \<Rightarrow> m17 | OtherConstant \<Rightarrow> m18
    | GlobalVariable \<Rightarrow> m19 | FunctionValue \<Rightarrow> m20 | BasicBlock \<Rightarrow> m21 | OtherValue \<Rightarrow> m22)"
  using assms by (cases k) simp_all

lemma keeps_case_list [keeps_intros]:
  "keeps I m \<Longrightarrow> (\<And>x xs. keeps I (f x xs)) \<Longrightarrow> keeps I (case r of [] \<Rightarrow> m | x # xs \<Rightarrow> f x xs)"
  by (cases r) simp_all

lemma keeps_operand [keeps_intros]: "keeps I (operand L ins i)"
  unfolding operand_def by (intro keeps_intros)

lemma keeps_getDeref [keeps_intros]: "keeps I (getDeref v)"
  by (simp add: keeps_def getDeref_def split: option.split)

lemma keeps_store_edges [keeps_intros]: "keeps pdg_inv (store_edges n L ins)"
  unfolding store_edges_def by (intro keeps_intros)

lemma keeps_fd_call [keeps_intros]: "keeps pdg_inv (fd_call L v call)"
  unfolding fd_call_def by (intro keeps_intros) simp_all

lemma keeps_arg_edges [keeps_intros]: "keeps pdg_inv (arg_edges L v i as)"
  by (induction as arbitrary: i) (simp_all add: keeps_intros)

lemma keeps_invocation_edge [keeps_intros]: "keeps pdg_inv (invocation_edge L v call)"
  unfolding invocation_edge_def by (intro keeps_intros)

lemma keeps_gep_edges [keeps_intros]: "keeps pdg_inv (gep_edges n L v ins)"
  unfolding gep_edges_def specialGEPHandling_def by (intro keeps_intros keeps_pure)

lemma keeps_bitcast_edges [keeps_intros]: "keeps pdg_inv (bitcast_edges n L v ins)"
  unfolding bitcast_edges_def by (intro keeps_intros)

lemma keeps_flow_edges [keeps_intros]: "keeps pdg_inv (flow_edges n L v ops)"
  by (induction ops) (simp_all add: keeps_intros)

lemma keeps_call_edges [keeps_intros]:
  "keeps pdg_inv (call_edges L v call)" "keeps pdg_inv (invoke_edges L v call)"
  "keeps pdg_inv (extract_edges n L v ins is)" "keeps pdg_inv (insert_edges n L v ins is)"
  unfolding call_edges_def invoke_edges_def extract_edges_def insert_edges_def by (intro keeps_intros)+

lemma keeps_addEdges [keeps_intros]:
  "keeps pdg_inv (addEdges n L v ins)" "keeps pdg_inv (operator_edges n L ops)"
proof (induction n arbitrary: v ins ops)
  case 0
  show "keeps pdg_inv (addEdges 0 L v ins)" "keeps pdg_inv (operator_edges 0 L ops)" for v ins ops by (simp_all add: keeps_intros)
next
  case (Suc n)
  show "keeps pdg_inv (addEdges (Suc n) L v ins)" for v ins unfolding addEdges.simps by (intro keeps_intros Suc.IH)
  show "keeps pdg_inv (operator_edges (Suc n) L ops)" for ops using Suc.IH by (cases ops) (simp_all add: keeps_intros)
qed

lemma keeps_global_vertices [keeps_intros]: "keeps pdg_inv (global_vertices L behavior gs)"
  by (induction gs) (simp_all add: keeps_intros)

lemma keeps_param_edges [keeps_intros]: "keeps pdg_inv (param_edges L f vFunc i as)"
  by (induction as arbitrary: i) (simp_all add: keeps_intros)

lemma keeps_instruction_edges [keeps_intros]: "keeps pdg_inv (instruction_edges n L behavior f vFunc ins)"
  unfolding instruction_edges_def by (intro keeps_intros) simp_all

lemma keeps_block_edges [keeps_intros]: "keeps pdg_inv (block_edges n L behavior f vFunc inss)"
  by (induction inss) (simp_all add: keeps_intros)

lemma keeps_module_edges [keeps_intros]: "keeps pdg_inv (module_edges n L externalSymbols behavior fs)"
  by (induction fs) (simp_all add: keeps_intros function_edges_def)

lemma pdg_inv_structClusters: "pdg_inv (p\<lparr>structClusters := x\<rparr>) = pdg_inv p"
  by (simp add: pdg_inv_def node_def)

theorem creation_keeps_index: "keeps pdg_inv (creation_runOnModule n L externalSymbols clusters ctx)"
  unfolding creation_runOnModule_def by (intro keeps_intros) (simp add: pdg_inv_structClusters)

section \<open>The edges of a call\<close>

definition param_edge :: "nat \<Rightarrow> nat \<Rightarrow> PDGEdge \<Rightarrow> PDGEdge Edge" where
  "param_edge v w l = \<lparr>source = v, target = w, edge_property = l\<rparr>"

lemma value_edge_ext:
  assumes "good p" and "live p v" and "etype l \<noteq> Deref" and "etype l \<noteq> Part"
  obtains w p' where "seq (getVertex L a f) (\<lambda>v2. pdg_add_edge v2 v l) p = (Inr (), p')" "ext L p p'" "value_to_vertex p' a = Some w" "param_edge w v l \<in> pedges p'"
proof -
  obtain w p1 where w: "getVertex L a f p = (Inr w, p1)" "ext L p p1" "value_to_vertex p1 a = Some w"
    using getVertex_ext [OF assms(1), of L a f] by blast
  have live: "live p1 w" "live p1 v" using ext_good [OF w(2)] w(3) ext_live [OF w(2) assms(2)] by (simp_all add: good_def)
  have "edge_typed L (max_parts p1) (ntype (node p1 w)) (ntype (node p1 v)) l" using assms(3,4) by (simp add: edge_typed_def split: PDGEdgeType.split)
  then obtain p2 where p2: "pdg_add_edge w v l p1 = (Inr (), p2)" "ext L p1 p2" "pedges p2 = insert \<lparr>source = w, target = v, edge_property = l\<rparr> (pedges p1)"
    by (rule_tac pdg_add_edge_ext [OF ext_good [OF w(2)] live, of l L]) auto
  show thesis
  proof (rule that)
    show "seq (getVertex L a f) (\<lambda>v2. pdg_add_edge v2 v l) p = (Inr (), p2)" using w(1) p2(1) by (simp add: seq_def)
    show "ext L p p2" using w(2) p2(2) by (rule ext_trans)
    show "value_to_vertex p2 a = Some w" using p2(2) w(3) by (rule ext_index)
    show "param_edge w v l \<in> pedges p2" using p2(3) by (simp add: param_edge_def)
  qed
qed

definition args_connected :: "llvm \<Rightarrow> nat \<Rightarrow> nat \<Rightarrow> llvm_value list \<Rightarrow> PDG \<Rightarrow> bool" where
  "args_connected L v i as p \<longleftrightarrow> (\<forall>j<length as. isIgnoredOperand L (as ! j) \<or>
     (\<exists>w. value_to_vertex p (as ! j) = Some w \<and> param_edge w v (pdg_edge Param (i + j)) \<in> pedges p))"

lemma args_connected_ext: "args_connected L v i as p \<Longrightarrow> ext L p p' \<Longrightarrow> args_connected L v i as p'"
  unfolding args_connected_def ext_def by blast

lemma arg_edges_ext:
  "good p \<Longrightarrow> live p v \<Longrightarrow> \<exists>p'. arg_edges L v i as p = (Inr (), p') \<and> ext L p p' \<and> args_connected L v i as p'"
proof (induction as arbitrary: i p)
  case Nil
  then show ?case by (auto simp: ret_def ext_refl args_connected_def)
next
  case (Cons a as)
  let ?m = "if isIgnoredOperand L a then ret () else seq (getVertex L a None) (\<lambda>v2. pdg_add_edge v2 v (pdg_edge Param i))"
  have "\<exists>p1. ?m p = (Inr (), p1) \<and> ext L p p1 \<and> args_connected L v i [a] p1"
  proof (cases "isIgnoredOperand L a")
    case True
    then show ?thesis using Cons.prems(1) by (auto simp: ret_def ext_refl args_connected_def)
  next
    case False
    obtain w p1 where "seq (getVertex L a None) (\<lambda>v2. pdg_add_edge v2 v (pdg_edge Param i)) p = (Inr (), p1)" "ext L p p1"
        "value_to_vertex p1 a = Some w" "param_edge w v (pdg_edge Param i) \<in> pedges p1"
      by (rule value_edge_ext [OF Cons.prems, of "pdg_edge Param i" L a None]) (simp_all add: pdg_edge_def)
    with False show ?thesis by (auto simp: args_connected_def)
  qed
  then obtain p1 where p1: "?m p = (Inr (), p1)" "ext L p p1" "args_connected L v i [a] p1" by blast
  have "live p1 v" using ext_live [OF p1(2) Cons.prems(2)] by simp
  then obtain p2 where p2: "arg_edges L v (Suc i) as p1 = (Inr (), p2)" "ext L p1 p2" "args_connected L v (Suc i) as p2"
    using Cons.IH [OF ext_good [OF p1(2)]] by blast
  have "args_connected L v i (a # as) p2" using args_connected_ext [OF p1(3) p2(2)] p2(3)
    by (auto simp: args_connected_def nth_Cons split: nat.split)
  moreover have "arg_edges L v i (a # as) p = (Inr (), p2)" using p1(1) p2(1) by (simp add: seq_def)
  ultimately show ?case using ext_trans [OF p1(2) p2(2)] by blast
qed

lemma fd_node_ext:
  assumes "good p" and "live p v"
  obtains p' where "set_node v (\<lambda>n. n\<lparr>filedescriptor := True\<rparr>) p = (Inr (), p')" "ext L p p'" "filedescriptor (node p' v)"
proof -
  obtain p' where "set_node v (\<lambda>n. n\<lparr>filedescriptor := True\<rparr>) p = (Inr (), p')" "ext L p p'" "p' = upd_node v (\<lambda>n. n\<lparr>filedescriptor := True\<rparr>) p"
    by (rule set_node_ext [OF assms, of "\<lambda>n. n\<lparr>filedescriptor := True\<rparr>"]) (simp add: keeps_vertex_def)
  then show thesis using that assms(2) by (simp add: node_upd_node live_def)
qed

lemma invocation_edge_ext:
  assumes "good p" and "live p v"
  shows "\<exists>p'. invocation_edge L v call p = (Inr (), p') \<and> ext L p p'"
proof (cases "as_function L (called_value L call) = None \<and> \<not> isIgnoredOperand L (called_value L call)")
  case True
  obtain w p' where "seq (getVertex L (called_value L call) None) (\<lambda>v2. pdg_add_edge v2 v (pdg_edge Invocation 0)) p = (Inr (), p')" "ext L p p'"
    by (rule value_edge_ext [OF assms, of "pdg_edge Invocation 0" L "called_value L call" None]) (simp_all add: pdg_edge_def)
  with True show ?thesis by (auto simp: invocation_edge_def)
next
  case False
  with assms(1) show ?thesis by (auto simp: invocation_edge_def ret_def ext_refl)
qed

lemma getDerefOpt_live:
  assumes "good p" and "getDerefOpt p v = Some w"
  shows "live p w"
proof -
  obtain e where "e \<in> set (out_edges (pgraph p) v)" "w = target e" using assms(2) by (auto simp: getDerefOpt_def dest: first_edge_Some)
  then show ?thesis using assms(1) out_edges_pedges [OF assms(1), of v] by (auto simp: good_def)
qed

definition fd_args_ok :: "llvm \<Rightarrow> llvm_value \<Rightarrow> bool" where
  "fd_args_ok L call \<longleftrightarrow> (\<forall>i. isFileDescriptorParamFunction L (getCalledFunction L call) = Some i \<longrightarrow> i < length (call_args L call)) \<and>
     (isFileDescriptorPtrFunction L (getCalledFunction L call) \<longrightarrow> call_args L call \<noteq> [])"

lemma fd_value_ext:
  assumes "good p"
  shows "\<exists>w p'. seq (getVertex L a None) (\<lambda>v2. set_node v2 (\<lambda>n. n\<lparr>filedescriptor := True\<rparr>)) p = (Inr (), p') \<and> ext L p p' \<and>
    value_to_vertex p' a = Some w \<and> filedescriptor (node p' w)"
proof -
  obtain w p1 where w: "getVertex L a None p = (Inr w, p1)" "ext L p p1" "value_to_vertex p1 a = Some w" using getVertex_ext [OF assms, of L a None] by blast
  then have "live p1 w" using ext_good [OF w(2)] by (simp add: good_def)
  then obtain p2 where "set_node w (\<lambda>n. n\<lparr>filedescriptor := True\<rparr>) p1 = (Inr (), p2)" "ext L p1 p2" "filedescriptor (node p2 w)"
    by (rule fd_node_ext [OF ext_good [OF w(2)]])
  then show ?thesis using w ext_trans [OF w(2)] ext_index by (fastforce simp: seq_def)
qed

lemma fd_deref_ext:
  assumes "good p"
  shows "\<exists>p'. seq (getVertex L a None) (\<lambda>v2. seq (reads (\<lambda>p. getDerefOpt p v2)) (\<lambda>op.
    case op of Some w \<Rightarrow> set_node w (\<lambda>n. n\<lparr>filedescriptor := True\<rparr>) | None \<Rightarrow> ret ())) p = (Inr (), p') \<and> ext L p p'"
proof -
  obtain w p1 where w: "getVertex L a None p = (Inr w, p1)" "ext L p p1" using getVertex_ext [OF assms, of L a None] by blast
  show ?thesis
  proof (cases "getDerefOpt p1 w")
    case None
    with w show ?thesis by (simp add: seq_def reads_def ret_def)
  next
    case (Some x)
    obtain p2 where "set_node x (\<lambda>n. n\<lparr>filedescriptor := True\<rparr>) p1 = (Inr (), p2)" "ext L p1 p2"
      by (rule fd_node_ext [OF ext_good [OF w(2)] getDerefOpt_live [OF ext_good [OF w(2)] Some]])
    with Some w show ?thesis using ext_trans [OF w(2)] by (auto simp: seq_def reads_def)
  qed
qed

lemma fd_call_ext:
  assumes "good p" and "live p v" and "fd_args_ok L call"
  shows "\<exists>p'. fd_call L v call p = (Inr (), p') \<and> ext L p p' \<and> (isFileDescriptorFunction L (getCalledFunction L call) \<longrightarrow> filedescriptor (node p' v))"
proof -
  let ?cf = "getCalledFunction L call"
  consider (create) "isFileDescriptorFunction L ?cf"
    | (param) i where "\<not> isFileDescriptorFunction L ?cf" "isFileDescriptorParamFunction L ?cf = Some i" "i < length (call_args L call)"
    | (pointer) a as where "\<not> isFileDescriptorFunction L ?cf" "isFileDescriptorParamFunction L ?cf = None" "isFileDescriptorPtrFunction L ?cf" "call_args L call = a # as"
    | (other) "\<not> isFileDescriptorFunction L ?cf" "isFileDescriptorParamFunction L ?cf = None" "\<not> isFileDescriptorPtrFunction L ?cf"
    using assms(3) unfolding fd_args_ok_def by (metis neq_Nil_conv not_Some_eq)
  then show ?thesis
  proof cases
    case create
    obtain p' where "set_node v (\<lambda>n. n\<lparr>filedescriptor := True\<rparr>) p = (Inr (), p')" "ext L p p'" "filedescriptor (node p' v)"
      by (rule fd_node_ext [OF assms(1,2)])
    with create show ?thesis by (auto simp: fd_call_def)
  next
    case param
    then show ?thesis using fd_value_ext [OF assms(1), of L "call_args L call ! i"] ext_refl [OF assms(1)] by (auto simp: fd_call_def ret_def)
  next
    case pointer
    then show ?thesis using fd_deref_ext [OF assms(1), of L a] by (simp add: fd_call_def)
  next
    case other
    then show ?thesis using ext_refl [OF assms(1)] by (simp add: fd_call_def ret_def)
  qed
qed


text \<open>
  A call of \<^verbatim>\<open>open\<close> with one argument.
\<close>

definition open_module :: llvm where
  "open_module = empty_llvm\<lparr>kind := (\<lambda>_. OtherValue)(2 := CallInst), direct_callee := [2 \<mapsto> 1], call_args := (\<lambda>_. [])(2 := [3]),
     function_name := (\<lambda>_. ''open''), value_type := (\<lambda>_. IntTy 32), as_function := [1 \<mapsto> 1], called_value := (\<lambda>_. 1)\<rparr>"


end
