(* ===== verification/Graph_Dfs.thy ===== *)
theory Graph_Dfs
  imports Base_Graph Color_Map
begin

text \<open>
  Depth-first search of the linker (\<^verbatim>\<open>cali-linker/graph/algorithms.h\<close>) and the vertex maps it is used with
  (\<^verbatim>\<open>cali-linker/graph/abstract_map.h\<close>). The search keeps its own stack of edge iterators. It terminates for every visitor;
  the contract of a visitor is an invariant over the path of gray vertices and the set of black ones.
\<close>

section \<open>Vertex maps\<close>

text \<open>
  \<^verbatim>\<open>AbstractMap\<close>: a vector with one place more than the graph has vertices, value-initialised.
\<close>

type_synonym 'a AbstractMap = "'a list"

definition AbstractMap_new :: "'a \<Rightarrow> ('v, 'e) BaseGraph \<Rightarrow> 'a AbstractMap" where
  "AbstractMap_new zero g = replicate (capacity g + 1) zero"

definition am_init :: "'a \<Rightarrow> 'a AbstractMap \<Rightarrow> 'a AbstractMap" where
  "am_init t values = replicate (length values) t"

definition am_put :: "nat \<Rightarrow> 'a \<Rightarrow> 'a AbstractMap \<Rightarrow> 'a AbstractMap outcome" where
  "am_put v t values = (if v < length values then Inr (values[v := t]) else Inl Undefined_behaviour)"

definition am_get :: "nat \<Rightarrow> 'a AbstractMap \<Rightarrow> 'a outcome" where
  "am_get v values = (if v < length values then Inr (values ! v) else Inl Out_of_range)"

section \<open>Visitors\<close>

record ('s, 'e) dfs_visitor =
  initialize_vertex :: "nat \<Rightarrow> 's \<Rightarrow> 's outcome"
  start_vertex :: "nat \<Rightarrow> 's \<Rightarrow> 's outcome"
  discover_vertex :: "nat \<Rightarrow> 's \<Rightarrow> 's outcome"
  examine_edge :: "'e Edge \<Rightarrow> 's \<Rightarrow> 's outcome"
  tree_edge :: "'e Edge \<Rightarrow> 's \<Rightarrow> 's outcome"
  back_edge :: "'e Edge \<Rightarrow> 's \<Rightarrow> 's outcome"
  forward_or_cross_edge :: "'e Edge \<Rightarrow> 's \<Rightarrow> 's outcome"
  finish_edge :: "'e Edge \<Rightarrow> 's \<Rightarrow> 's outcome"
  finish_vertex :: "nat \<Rightarrow> 's \<Rightarrow> 's outcome"

definition default_dfs_visitor :: "('s, 'e) dfs_visitor" where
  "default_dfs_visitor =
     \<lparr>initialize_vertex = (\<lambda>_. Inr), start_vertex = (\<lambda>_. Inr), discover_vertex = (\<lambda>_. Inr), examine_edge = (\<lambda>_. Inr),
      tree_edge = (\<lambda>_. Inr), back_edge = (\<lambda>_. Inr), forward_or_cross_edge = (\<lambda>_. Inr), finish_edge = (\<lambda>_. Inr),
      finish_vertex = (\<lambda>_. Inr)\<rparr>"

section \<open>The search\<close>

lemma whites_put_fast:
  assumes "color_put_fast v c cs = Inr cs'" and "c \<noteq> WHITE"
  shows "card (cm.whites cs') \<le> card (cm.whites cs)"
    and "color_get v cs = Inr WHITE \<Longrightarrow> card (cm.whites cs') < card (cm.whites cs)"
proof -
  from assms(1) have v: "v < color_cap cs" and cs': "cs' = color_mark cs v c" by (simp_all add: color_put_fast_iff)
  have "cm.whites cs' \<subseteq> cm.whites cs" unfolding cs' using cm.whites_put [OF v assms(2)] by blast
  then show "card (cm.whites cs') \<le> card (cm.whites cs)" by (intro card_mono cm.finite_whites)
  assume "color_get v cs = Inr WHITE"
  then have "v \<in> cm.whites cs" by (simp add: color_get_iff cm.whites_def)
  then show "card (cm.whites cs') < card (cm.whites cs)" using cm.card_whites_put [of v cs c] assms(2) cs' by simp
qed

text \<open>
  The two nested loops of \<^verbatim>\<open>depth_first_visit_impl\<close> as one recursion: \<^term>\<open>es\<close> is the range of the edge iterator of \<^term>\<open>u\<close>,
  \<^term>\<open>stack\<close> holds the vertices below with what is left of their edges. When the range is empty the inner loop ends, \<^term>\<open>u\<close> is
  finished, and the next round of the outer loop takes the top of the stack.
\<close>

function dfs_run :: "('s, 'e) dfs_visitor \<Rightarrow> ('v, 'e) BaseGraph \<Rightarrow> nat \<Rightarrow> 'e Edge list \<Rightarrow> (nat \<times> 'e Edge list) list \<Rightarrow>
    ColorMap \<Rightarrow> 's \<Rightarrow> (ColorMap \<times> 's) outcome" where
  "dfs_run vis g u es stack cs s =
     (case es of
        e # es' \<Rightarrow>
          bind_outcome (examine_edge vis e s) (\<lambda>s.
            bind_outcome (color_get (target e) cs) (\<lambda>c.
              if c = WHITE then
                bind_outcome (tree_edge vis e s) (\<lambda>s.
                  bind_outcome (color_put_fast (target e) GRAY cs) (\<lambda>cs.
                    bind_outcome (discover_vertex vis (target e) s) (\<lambda>s.
                      dfs_run vis g (target e) (out_edges g (target e)) ((u, es') # stack) cs s)))
              else if c = GRAY then bind_outcome (back_edge vis e s) (\<lambda>s. dfs_run vis g u es' stack cs s)
              else bind_outcome (forward_or_cross_edge vis e s) (\<lambda>s. dfs_run vis g u es' stack cs s)))
      | [] \<Rightarrow>
          bind_outcome (color_put_fast u BLACK cs) (\<lambda>cs.
            bind_outcome (finish_vertex vis u s) (\<lambda>s.
              case stack of
                [] \<Rightarrow> Inr (cs, s)
              | (u', es') # stack' \<Rightarrow> dfs_run vis g u' es' stack' cs s)))"
  by pat_completeness auto

termination
proof (relation "measures [\<lambda>(vis, g, u, es, stack, cs, s). card (cm.whites cs),
    \<lambda>(vis, g, u, es, stack, cs, s). length es + sum_list (map (\<lambda>(u, es). Suc (length es)) stack)]", goal_cases)
  case (3 vis g u es stack cs s e es' s1 c s2 cs' s3)
  then have "card (cm.whites cs') < card (cm.whites cs)" using whites_put_fast(2) by blast
  then show ?case by simp
next
  case (2 vis g u es stack cs s cs' s' x stack' u' es')
  then have "card (cm.whites cs') \<le> card (cm.whites cs)" using whites_put_fast(1) by blast
  then show ?case using 2 by auto
qed auto

declare dfs_run.simps [simp del]

definition depth_first_visit_impl ::
    "('s, 'e) dfs_visitor \<Rightarrow> ('v, 'e) BaseGraph \<Rightarrow> nat \<Rightarrow> ColorMap \<Rightarrow> 's \<Rightarrow> (ColorMap \<times> 's) outcome" where
  "depth_first_visit_impl vis g u cs s =
     bind_outcome (color_put_fast u GRAY cs) (\<lambda>cs.
       bind_outcome (discover_vertex vis u s) (\<lambda>s. dfs_run vis g u (out_edges g u) [] cs s))"

text \<open>
  \<^verbatim>\<open>null_vertex\<close> is \<^verbatim>\<open>-1\<close> as an unsigned number of 64 bits.
\<close>

definition null_vertex :: nat where
  "null_vertex = 2 ^ 64 - 1"

definition get_default_starting_vertex :: "('v, 'e) BaseGraph \<Rightarrow> nat" where
  "get_default_starting_vertex g = (if graph_size g = 0 then null_vertex else 0)"

fun dfs_initialize :: "('s, 'e) dfs_visitor \<Rightarrow> nat list \<Rightarrow> 's \<Rightarrow> 's outcome" where
  "dfs_initialize vis [] s = Inr s"
| "dfs_initialize vis (u # us) s = bind_outcome (initialize_vertex vis u s) (dfs_initialize vis us)"

fun dfs_all :: "('s, 'e) dfs_visitor \<Rightarrow> ('v, 'e) BaseGraph \<Rightarrow> nat list \<Rightarrow> ColorMap \<Rightarrow> 's \<Rightarrow> (ColorMap \<times> 's) outcome" where
  "dfs_all vis g [] cs s = Inr (cs, s)"
| "dfs_all vis g (u # us) cs s =
     bind_outcome (color_get u cs) (\<lambda>c.
       if c = WHITE then
         bind_outcome (start_vertex vis u s) (\<lambda>s.
           bind_outcome (depth_first_visit_impl vis g u cs s) (\<lambda>(cs, s). dfs_all vis g us cs s))
       else dfs_all vis g us cs s)"

definition depth_first_search ::
    "('v, 'e) BaseGraph \<Rightarrow> ('s, 'e) dfs_visitor \<Rightarrow> nat \<Rightarrow> ColorMap \<Rightarrow> 's \<Rightarrow> (ColorMap \<times> 's) outcome" where
  "depth_first_search g vis src cs s =
     bind_outcome (dfs_initialize vis (vertex_set g) s) (\<lambda>s.
       bind_outcome
         (if src \<noteq> null_vertex \<and> src \<noteq> get_default_starting_vertex g
          then bind_outcome (start_vertex vis src s) (depth_first_visit_impl vis g src (color_init cs))
          else Inr (color_init cs, s))
         (\<lambda>(cs, s). dfs_all vis g (vertex_set g) cs s))"

section \<open>What a visitor can rely on\<close>

definition arcs :: "('v, 'e) BaseGraph \<Rightarrow> (nat \<times> nat) set" where
  "arcs g = {(u, target e) | u e. e \<in> set (out_edges g u)}"

lemma arcs_iff: "(u, v) \<in> arcs g \<longleftrightarrow> v \<in> target ` set (out_edges g u)"
  by (auto simp: arcs_def)

lemma repr_arcs: "repr g E \<Longrightarrow> arcs g = (\<lambda>e. (source e, target e)) ` E"
  by (auto simp: arcs_def repr_def image_iff)

lemma arcs_range: "edges_ok g \<Longrightarrow> (v, w) \<in> arcs g \<Longrightarrow> v < capacity g \<and> w < capacity g"
  by (auto simp: arcs_def edges_ok_def out_edges_def split: if_splits)

text \<open>
  The colours say which vertices lie on the current path \<^term>\<open>G\<close>, the last discovered first, and which are finished.
\<close>

definition colored :: "('v, 'e) BaseGraph \<Rightarrow> nat list \<Rightarrow> nat set \<Rightarrow> ColorMap \<Rightarrow> bool" where
  "colored g G B cs \<longleftrightarrow> capacity g \<le> color_cap cs \<and> distinct G \<and> set G \<inter> B = {} \<and> set G \<union> B \<subseteq> {..<capacity g} \<and>
     (\<forall>v<capacity g. color_at cs v = (if v \<in> set G then GRAY else if v \<in> B then BLACK else WHITE))"

lemma coloredD:
  assumes "colored g G B cs" and "v < capacity g"
  shows "color_get v cs = Inr (if v \<in> set G then GRAY else if v \<in> B then BLACK else WHITE)"
    and "color_put_fast v c cs = Inr (color_mark cs v c)"
  using assms by (simp_all add: colored_def color_get_iff color_put_fast_iff)

lemma colored_init: "capacity g \<le> color_cap cs \<Longrightarrow> colored g [] {} (color_init cs)"
  by (simp add: colored_def cm.get_init cm.cap_init)

lemma colored_gray:
  assumes "colored g G B cs" and "v < capacity g" and "v \<notin> set G \<union> B"
  shows "colored g (v # G) B (color_mark cs v GRAY)"
  using assms by (auto simp: colored_def cm.get_put cm.cap_put)

lemma colored_black:
  assumes "colored g (v # G) B cs"
  shows "colored g G (insert v B) (color_mark cs v BLACK)"
  using assms by (auto simp: colored_def cm.get_put cm.cap_put)

text \<open>
  A frame: what is left of the edges of a vertex; the edges already examined lead to vertices that are not white.
\<close>

definition frame_ok :: "('v, 'e) BaseGraph \<Rightarrow> nat set \<Rightarrow> nat \<times> 'e Edge list \<Rightarrow> bool" where
  "frame_ok g N = (\<lambda>(u, es). set es \<subseteq> set (out_edges g u) \<and> (\<forall>e\<in>set (out_edges g u). e \<in> set es \<or> target e \<in> N))"

lemma frame_ok_mono: "frame_ok g N x \<Longrightarrow> N \<subseteq> N' \<Longrightarrow> frame_ok g N' x"
  by (auto simp: frame_ok_def)

lemma frame_ok_next: "frame_ok g N (u, e # es) \<Longrightarrow> target e \<in> N \<Longrightarrow> frame_ok g N (u, es)"
  by (auto simp: frame_ok_def)

locale dfs_client =
  fixes vis :: "('s, 'e) dfs_visitor"
    and g :: "('v, 'e) BaseGraph"
    and inv :: "nat list \<Rightarrow> nat set \<Rightarrow> 's \<Rightarrow> bool"
  assumes initialize: "inv [] {} s \<Longrightarrow> \<exists>s'. initialize_vertex vis v s = Inr s' \<and> inv [] {} s'"
    and start: "inv [] B s \<Longrightarrow> \<exists>s'. start_vertex vis v s = Inr s' \<and> inv [] B s'"
    and examine: "inv G B s \<Longrightarrow> \<exists>s'. examine_edge vis e s = Inr s' \<and> inv G B s'"
    and tree: "inv G B s \<Longrightarrow> \<exists>s'. tree_edge vis e s = Inr s' \<and> inv G B s'"
    and back_edge: "inv G B s \<Longrightarrow> \<exists>s'. back_edge vis e s = Inr s' \<and> inv G B s'"
    and cross: "inv G B s \<Longrightarrow> \<exists>s'. forward_or_cross_edge vis e s = Inr s' \<and> inv G B s'"
    and discover: "inv G B s \<Longrightarrow> v < capacity g \<Longrightarrow> v \<notin> set G \<union> B \<Longrightarrow> (G \<noteq> [] \<Longrightarrow> (hd G, v) \<in> arcs g) \<Longrightarrow>
      \<exists>s'. discover_vertex vis v s = Inr s' \<and> inv (v # G) B s'"
    and finish: "inv (v # G) B s \<Longrightarrow> v < capacity g \<Longrightarrow> v \<notin> set G \<union> B \<Longrightarrow> arcs g `` {v} \<subseteq> set (v # G) \<union> B \<Longrightarrow>
      \<exists>s'. finish_vertex vis v s = Inr s' \<and> inv G (insert v B) s'"
begin

text \<open>
  The state between two rounds: \<^term>\<open>u\<close> is on top of the path, and the frames hold the edges still to be examined.
\<close>

definition running :: "nat \<Rightarrow> 'e Edge list \<Rightarrow> (nat \<times> 'e Edge list) list \<Rightarrow> nat set \<Rightarrow> ColorMap \<Rightarrow> 's \<Rightarrow> bool" where
  "running u es stack B cs s \<longleftrightarrow> edges_ok g \<and>
     colored g (u # map fst stack) B cs \<and> inv (u # map fst stack) B s \<and>
     (\<forall>x\<in>set ((u, es) # stack). frame_ok g (set (u # map fst stack) \<union> B) x)"

lemma frame_done: "frame_ok g N (v, []) \<Longrightarrow> arcs g `` {v} \<subseteq> N"
  by (auto simp: frame_ok_def arcs_def)

lemma running_head:
  assumes "running u (e # es) stack B cs s"
  shows "(u, target e) \<in> arcs g" and "target e < capacity g"
proof -
  show "(u, target e) \<in> arcs g" using assms by (auto simp: running_def frame_ok_def arcs_def)
  then show "target e < capacity g" using arcs_range assms by (auto simp: running_def)
qed

lemma running_visited:
  assumes "running u (e # es) stack B cs s" and "target e \<in> set (u # map fst stack) \<union> B" and "inv (u # map fst stack) B s'"
  shows "running u es stack B cs s'"
  using assms frame_ok_next by (fastforce simp: running_def)

lemma running_tree:
  assumes "running u (e # es) stack B cs s" and "target e \<notin> set (u # map fst stack) \<union> B"
    and "inv (target e # u # map fst stack) B s'"
  shows "running (target e) (out_edges g (target e)) ((u, es) # stack) B (color_mark cs (target e) GRAY) s'"
proof -
  let ?G = "u # map fst stack" and ?v = "target e"
  have "colored g (?v # ?G) B (color_mark cs ?v GRAY)"
    using assms(1,2) running_head [OF assms(1)] by (intro colored_gray) (simp_all add: running_def)
  moreover have "frame_ok g (set (?v # ?G) \<union> B) (u, es)"
    using assms(1) by (intro frame_ok_next [of g _ u e es]) (auto simp: running_def intro: frame_ok_mono)
  moreover have "frame_ok g (set (?v # ?G) \<union> B) x" if "x \<in> set stack" for x
  proof (rule frame_ok_mono)
    show "frame_ok g (set ?G \<union> B) x" using assms(1) that by (simp add: running_def)
  qed auto
  moreover have "frame_ok g N (?v, out_edges g ?v)" for N by (auto simp: frame_ok_def)
  moreover have "edges_ok g" using assms(1) by (simp add: running_def)
  ultimately show ?thesis using assms(3) by (auto simp: running_def)
qed

lemma running_finish:
  assumes "running u [] stack B cs s"
  shows "\<exists>s'. finish_vertex vis u s = Inr s' \<and> inv (map fst stack) (insert u B) s'"
proof (rule finish)
  show "inv (u # map fst stack) B s" "u < capacity g" "u \<notin> set (map fst stack) \<union> B"
    using assms by (auto simp: running_def colored_def)
  show "arcs g `` {u} \<subseteq> set (u # map fst stack) \<union> B" using assms by (intro frame_done) (simp add: running_def)
qed

lemma running_return:
  assumes "running u [] ((u', es') # stack) B cs s" and "inv (u' # map fst stack) (insert u B) s'"
  shows "running u' es' stack (insert u B) (color_mark cs u BLACK) s'"
proof -
  have "colored g (u' # map fst stack) (insert u B) (color_mark cs u BLACK)"
    using assms(1) by (intro colored_black) (simp add: running_def)
  moreover have "frame_ok g (set (u' # map fst stack) \<union> insert u B) x" if "x \<in> set ((u', es') # stack)" for x
  proof (rule frame_ok_mono)
    show "frame_ok g (set (u # u' # map fst stack) \<union> B) x" using assms(1) that by (auto simp: running_def)
  qed auto
  moreover have "edges_ok g" using assms(1) by (simp add: running_def)
  ultimately show ?thesis using assms(2) by (simp add: running_def)
qed

lemma run:
  assumes "running u es stack B cs s"
  shows "vis' = vis \<Longrightarrow> g' = g \<Longrightarrow>
    \<exists>cs' s' B'. dfs_run vis' g' u es stack cs s = Inr (cs', s') \<and> colored g [] B' cs' \<and> inv [] B' s' \<and>
      set (u # map fst stack) \<union> B \<subseteq> B'"
  using assms
proof (induction vis' g' u es stack cs s arbitrary: B rule: dfs_run.induct)
  case (1 vis' g' u es stack cs s)
  note IH = "1.IH" and eqs = "1.prems"(1,2) and R = "1.prems"(3)
  let ?G = "u # map fst stack"
  from R have col: "colored g ?G B cs" and I: "inv ?G B s" by (simp_all add: running_def)
  show ?case
  proof (cases es)
    case Nil
    from R Nil obtain s' where fin: "finish_vertex vis u s = Inr s'" and I': "inv (map fst stack) (insert u B) s'"
      using running_finish by blast
    have put: "color_put_fast u BLACK cs = Inr (color_mark cs u BLACK)"
      using col by (intro coloredD(2) [OF col]) (simp add: colored_def)
    show ?thesis
    proof (cases stack)
      case Nil2: Nil
      then have "dfs_run vis' g' u es stack cs s = Inr (color_mark cs u BLACK, s')"
        using Nil fin put eqs by (simp add: dfs_run.simps)
      moreover have "colored g [] (insert u B) (color_mark cs u BLACK)" using colored_black col Nil2 by auto
      ultimately show ?thesis using I' Nil2 by auto
    next
      case (Cons fr stack')
      obtain u' es' where fr: "fr = (u', es')" by fastforce
      have run': "running u' es' stack' (insert u B) (color_mark cs u BLACK) s'"
        using R Nil Cons fr I' by (intro running_return [of u u' es' stack' B cs s]) simp_all
      have "dfs_run vis' g' u es stack cs s = dfs_run vis' g' u' es' stack' (color_mark cs u BLACK) s'"
        using Nil Cons fr fin put eqs by (simp add: dfs_run.simps [of _ _ u])
      moreover have "finish_vertex vis' u s = Inr s'" using fin eqs by simp
      note IH(1) [OF Nil put this Cons fr [symmetric] eqs run']
      ultimately show ?thesis using Cons fr by auto
    qed
  next
    case (Cons e es')
    note head = running_head [OF R [unfolded Cons]]
    obtain s1 where ex: "examine_edge vis e s = Inr s1" and I1: "inv ?G B s1" using examine [OF I] by blast
    note get = coloredD(1) [OF col head(2)]
    show ?thesis
    proof (cases "target e \<in> set ?G \<union> B")
      case True
      obtain s2 where s2: "(if target e \<in> set ?G then back_edge vis e s1 else forward_or_cross_edge vis e s1) = Inr s2" "inv ?G B s2"
        using back_edge [OF I1, of e] cross [OF I1, of e] by (cases "target e \<in> set ?G") auto
      have run': "running u es' stack B cs s2" using R [unfolded Cons] True s2(2) by (rule running_visited)
      have "dfs_run vis' g' u es stack cs s = dfs_run vis' g' u es' stack cs s2"
        using Cons ex get True s2(1) eqs by (auto simp: dfs_run.simps [of _ _ _ "e # es'"] split: if_splits)
      with IH(3,4) [OF Cons] ex get True s2(1) run' eqs show ?thesis by (auto split: if_splits)
    next
      case False
      obtain s2 s3 where s2: "tree_edge vis e s1 = Inr s2" and s3: "discover_vertex vis (target e) s2 = Inr s3" "inv (target e # ?G) B s3"
        using tree [OF I1, of e] discover [OF _ head(2) False] head(1) by (metis list.sel(1))
      note put = coloredD(2) [OF col head(2), of GRAY]
      have run': "running (target e) (out_edges g (target e)) ((u, es') # stack) B (color_mark cs (target e) GRAY) s3"
        using R [unfolded Cons] False s3(2) by (rule running_tree)
      have "dfs_run vis' g' u es stack cs s =
          dfs_run vis' g' (target e) (out_edges g' (target e)) ((u, es') # stack) (color_mark cs (target e) GRAY) s3"
        using Cons ex get False s2 s3(1) put eqs by (simp add: dfs_run.simps [of _ _ _ "e # es'"])
      moreover obtain cs' s' B' where
        "dfs_run vis' g' (target e) (out_edges g' (target e)) ((u, es') # stack) (color_mark cs (target e) GRAY) s3 = Inr (cs', s')"
        "colored g [] B' cs'" "inv [] B' s'" "set (target e # map fst ((u, es') # stack)) \<union> B \<subseteq> B'"
      proof -
        have "examine_edge vis' e s = Inr s1" "color_get (target e) cs = Inr WHITE" "tree_edge vis' e s1 = Inr s2"
          "discover_vertex vis' (target e) s2 = Inr s3"
          using ex get False s2 s3(1) eqs by simp_all
        moreover have "running (target e) (out_edges g' (target e)) ((u, es') # stack) B (color_mark cs (target e) GRAY) s3"
          using run' eqs(2) by simp
        ultimately show thesis using IH(2) [OF Cons _ _ refl _ put _ eqs] that by blast
      qed
      ultimately show ?thesis by auto
    qed
  qed
qed


lemma visit:
  assumes "colored g [] B cs" and "inv [] B s" and "v < capacity g" and "v \<notin> B" and "edges_ok g"
  shows "\<exists>cs' s' B'. depth_first_visit_impl vis g v cs s = Inr (cs', s') \<and> colored g [] B' cs' \<and> inv [] B' s' \<and> insert v B \<subseteq> B'"
proof -
  note put = coloredD(2) [OF assms(1,3), of GRAY]
  obtain s1 where s1: "discover_vertex vis v s = Inr s1" "inv [v] B s1"
    using discover [OF assms(2,3)] assms(4) by auto
  have "frame_ok g (set [v] \<union> B) (v, out_edges g v)" by (simp add: frame_ok_def)
  then have "running v (out_edges g v) [] B (color_mark cs v GRAY) s1"
    using colored_gray [OF assms(1,3)] assms(4,5) s1(2) by (simp add: running_def)
  from run [OF this refl refl] put s1(1) show ?thesis by (auto simp: depth_first_visit_impl_def)
qed

lemma all:
  assumes "colored g [] B cs" and "inv [] B s" and "set us \<subseteq> {..<capacity g}" and "edges_ok g"
  shows "\<exists>cs' s' B'. dfs_all vis g us cs s = Inr (cs', s') \<and> colored g [] B' cs' \<and> inv [] B' s' \<and> set us \<union> B \<subseteq> B'"
  using assms
proof (induction us arbitrary: B cs s)
  case (Cons u us)
  from Cons.prems(3) have u: "u < capacity g" and us: "set us \<subseteq> {..<capacity g}" by auto
  note get = coloredD(1) [OF Cons.prems(1) u]
  show ?case
  proof (cases "u \<in> B")
    case True
    moreover obtain cs' s' B' where "dfs_all vis g us cs s = Inr (cs', s')" "colored g [] B' cs'" "inv [] B' s'" "set us \<union> B \<subseteq> B'"
      using Cons.IH [OF Cons.prems(1,2) us Cons.prems(4)] by blast
    ultimately show ?thesis using get by fastforce
  next
    case False
    obtain s1 where s1: "start_vertex vis u s = Inr s1" "inv [] B s1" using start [OF Cons.prems(2)] by blast
    obtain cs2 s2 B2 where 2: "depth_first_visit_impl vis g u cs s1 = Inr (cs2, s2)" "colored g [] B2 cs2" "inv [] B2 s2" "insert u B \<subseteq> B2"
      using visit [OF Cons.prems(1) s1(2) u False Cons.prems(4)] by blast
    from Cons.IH [OF 2(2,3) us Cons.prems(4)] 2(4) False get s1(1) 2(1) show ?thesis by fastforce
  qed
qed auto

lemma initialize_all: "inv [] {} s \<Longrightarrow> \<exists>s'. dfs_initialize vis us s = Inr s' \<and> inv [] {} s'"
proof (induction us arbitrary: s)
  case (Cons u us)
  obtain s1 where "initialize_vertex vis u s = Inr s1" "inv [] {} s1" using initialize [OF Cons.prems] by blast
  with Cons.IH show ?case by fastforce
qed simp

lemma search:
  assumes "inv [] {} s" and "capacity g \<le> color_cap cs" and "src = null_vertex \<or> src < capacity g" and "edges_ok g"
  obtains cs' s' where "depth_first_search g vis src cs s = Inr (cs', s')" "inv [] {..<capacity g} s'"
proof -
  obtain s1 where s1: "dfs_initialize vis (vertex_set g) s = Inr s1" "inv [] {} s1" using initialize_all [OF assms(1)] by blast
  have init: "colored g [] {} (color_init cs)" using assms(2) by (rule colored_init)
  let ?first = "if src \<noteq> null_vertex \<and> src \<noteq> get_default_starting_vertex g
    then bind_outcome (start_vertex vis src s1) (depth_first_visit_impl vis g src (color_init cs)) else Inr (color_init cs, s1)"
  have "\<exists>cs2 s2 B2. ?first = Inr (cs2, s2) \<and> colored g [] B2 cs2 \<and> inv [] B2 s2"
  proof (cases "src \<noteq> null_vertex \<and> src \<noteq> get_default_starting_vertex g")
    case True
    obtain s2 where "start_vertex vis src s1 = Inr s2" "inv [] {} s2" using start [OF s1(2)] by blast
    with True visit [OF init, of s2 src] assms(3,4) show ?thesis by auto
  qed (use init s1(2) in auto)
  then obtain cs2 s2 B2 where 2: "?first = Inr (cs2, s2)" "colored g [] B2 cs2" "inv [] B2 s2" by blast
  obtain cs3 s3 B3 where 3: "dfs_all vis g (vertex_set g) cs2 s2 = Inr (cs3, s3)" "colored g [] B3 cs3" "inv [] B3 s3"
      "set (vertex_set g) \<union> B2 \<subseteq> B3"
    using all [OF 2(2,3), of "vertex_set g"] assms(4) by (auto simp: vertex_set_def atLeast0LessThan)
  have "B3 = {..<capacity g}" using 3(2,4) by (auto simp: colored_def vertex_set_def)
  moreover have "depth_first_search g vis src cs s = Inr (cs3, s3)"
    unfolding depth_first_search_def s1(1) bind_outcome_simps 2(1) by (simp add: 3(1))
  ultimately show thesis using 3(3) that by simp
qed

end

end
