(* ===== verification/Graph_Scc.thy ===== *)
theory Graph_Scc
  imports Graph_Dfs
begin

text \<open>
  Strongly connected components by Tarjan's algorithm (\<^verbatim>\<open>cali-linker/graph/scc_algorithms.h\<close>), as a visitor of the
  depth-first search. The visitor is an interpretation of the search's contract, and the components it numbers are
  the classes of mutual reachability, numbered so that edges never lead to a higher number.
\<close>

section \<open>The visitor\<close>

definition LONG_MAX :: int where
  "LONG_MAX = 2 ^ 63 - 1"

record tarjan =
  comp :: "int AbstractMap"
  root :: "nat AbstractMap"
  discover_time :: "int AbstractMap"
  dfs_time :: int
  tstack :: "nat list"
  total :: int

definition min_discover_time :: "tarjan \<Rightarrow> nat \<Rightarrow> nat \<Rightarrow> nat outcome" where
  "min_discover_time t u v =
     bind_outcome (am_get u (discover_time t)) (\<lambda>du.
       bind_outcome (am_get v (discover_time t)) (\<lambda>dv. Inr (if du < dv then u else v)))"

definition tarjan_discover :: "nat \<Rightarrow> tarjan \<Rightarrow> tarjan outcome" where
  "tarjan_discover v t =
     bind_outcome (am_put v v (root t)) (\<lambda>r.
       bind_outcome (am_put v LONG_MAX (comp t)) (\<lambda>c.
         bind_outcome (am_put v (dfs_time t) (discover_time t)) (\<lambda>d.
           Inr (t\<lparr>root := r, comp := c, discover_time := d, dfs_time := dfs_time t + 1, tstack := v # tstack t\<rparr>))))"

fun tarjan_edges :: "nat \<Rightarrow> 'e Edge list \<Rightarrow> tarjan \<Rightarrow> tarjan outcome" where
  "tarjan_edges v [] t = Inr t"
| "tarjan_edges v (e # es) t =
     bind_outcome (am_get (target e) (comp t)) (\<lambda>c.
       if c = LONG_MAX then
         bind_outcome (am_get v (root t)) (\<lambda>rv.
           bind_outcome (am_get (target e) (root t)) (\<lambda>rw.
             bind_outcome (min_discover_time t rv rw) (\<lambda>m.
               bind_outcome (am_put v m (root t)) (\<lambda>r. tarjan_edges v es (t\<lparr>root := r\<rparr>)))))
       else tarjan_edges v es t)"

fun tarjan_pop :: "nat \<Rightarrow> nat list \<Rightarrow> tarjan \<Rightarrow> tarjan outcome" where
  "tarjan_pop v [] t = Inl Undefined_behaviour"
| "tarjan_pop v (w # s) t =
     bind_outcome (am_put w (total t) (comp t)) (\<lambda>c.
       bind_outcome (am_put w v (root t)) (\<lambda>r.
         let t = t\<lparr>tstack := s, comp := c, root := r\<rparr> in
         if w \<noteq> v then tarjan_pop v s t else Inr t))"

definition tarjan_finish :: "('v, 'e) BaseGraph \<Rightarrow> nat \<Rightarrow> tarjan \<Rightarrow> tarjan outcome" where
  "tarjan_finish g v t =
     bind_outcome (tarjan_edges v (out_edges g v) t) (\<lambda>t.
       bind_outcome (am_get v (root t)) (\<lambda>r.
         if r = v then bind_outcome (tarjan_pop v (tstack t) t) (\<lambda>t. Inr (t\<lparr>total := total t + 1\<rparr>))
         else Inr t))"

definition tarjan_scc_visitor :: "('v, 'e) BaseGraph \<Rightarrow> (tarjan, 'e) dfs_visitor" where
  "tarjan_scc_visitor g = default_dfs_visitor\<lparr>discover_vertex := tarjan_discover, finish_vertex := tarjan_finish g\<rparr>"

text \<open>
  \<^verbatim>\<open>strong_components\<close> fills the given component map and returns the number of components.
\<close>

definition strong_components :: "('v, 'e) BaseGraph \<Rightarrow> int AbstractMap \<Rightarrow> (int \<times> int AbstractMap) outcome" where
  "strong_components g comps =
     (let t = \<lparr>comp = comps, root = am_init null_vertex (AbstractMap_new 0 g), discover_time = AbstractMap_new 0 g,
               dfs_time = 0, tstack = [], total = 0\<rparr> in
      bind_outcome (depth_first_search g (tarjan_scc_visitor g) null_vertex (ColorMap_new (capacity g)) t)
        (\<lambda>(cs, t). Inr (total t, comp t)))"

section \<open>The graph of the components\<close>

text \<open>
  \<^verbatim>\<open>strong_components_graph\<close>: a vertex for every component with the list of its members, and an edge for
  every edge between different components.
\<close>

fun add_components :: "nat \<Rightarrow> (nat list, 'f) BaseGraph \<Rightarrow> (nat list, 'f) BaseGraph outcome" where
  "add_components 0 out = Inr out"
| "add_components (Suc n) out = bind_outcome (add_vertex [] out) (\<lambda>(v, out). add_components n out)"

fun component_edges :: "int AbstractMap \<Rightarrow> int \<Rightarrow> 'e Edge list \<Rightarrow> (nat list, unit) BaseGraph \<Rightarrow> (nat list, unit) BaseGraph outcome" where
  "component_edges comps v2 [] out = Inr out"
| "component_edges comps v2 (e # es) out =
     bind_outcome (am_get (target e) comps) (\<lambda>target2.
       if v2 \<noteq> target2 then bind_outcome (add_edge (nat v2) (nat target2) () out) (component_edges comps v2 es)
       else component_edges comps v2 es out)"

fun component_vertices :: "('v, 'e) BaseGraph \<Rightarrow> int AbstractMap \<Rightarrow> nat list \<Rightarrow> (nat list, unit) BaseGraph \<Rightarrow>
    (nat list, unit) BaseGraph outcome" where
  "component_vertices g comps [] out = Inr out"
| "component_vertices g comps (v1 # vs) out =
     bind_outcome (am_get v1 comps) (\<lambda>v2.
       if nat v2 < capacity out then
         bind_outcome (component_edges comps v2 (out_edges g v1)
             (upd_vertex (nat v2) (\<lambda>x. x\<lparr>vertex_property := vertex_property x @ [v1]\<rparr>) out))
           (component_vertices g comps vs)
       else Inl Undefined_behaviour)"

definition strong_components_graph :: "('v, 'e) BaseGraph \<Rightarrow> (nat list, unit) BaseGraph \<Rightarrow> (int \<times> (nat list, unit) BaseGraph) outcome" where
  "strong_components_graph g out =
     bind_outcome (strong_components g (AbstractMap_new 0 g)) (\<lambda>(n, comps).
       bind_outcome (add_components (nat n) out) (\<lambda>out.
         bind_outcome (component_vertices g comps (vertex_set g) out) (\<lambda>out. Inr (n, out))))"

section \<open>The invariant of the visitor\<close>

text \<open>
  \<^term>\<open>G\<close> is the path of gray vertices, the last discovered first, and \<^term>\<open>B\<close> the set of black ones. Discovery times order the stack
  and the path. A vertex on the stack reaches a gray vertex that is not younger, and is reached by every gray vertex that is
  not younger; a vertex that has left the stack reaches only such vertices, and has the number of its component.
\<close>

abbreviation dtime :: "tarjan \<Rightarrow> nat \<Rightarrow> int" where
  "dtime t v \<equiv> discover_time t ! v"

abbreviation rtime :: "tarjan \<Rightarrow> nat \<Rightarrow> int" where
  "rtime t v \<equiv> dtime t (root t ! v)"

definition maps_ok :: "nat \<Rightarrow> tarjan \<Rightarrow> bool" where
  "maps_ok n t \<longleftrightarrow> length (comp t) = Suc n \<and> length (root t) = Suc n \<and> length (discover_time t) = Suc n"

definition stack_ok :: "(nat \<times> nat) set \<Rightarrow> nat list \<Rightarrow> nat set \<Rightarrow> tarjan \<Rightarrow> bool" where
  "stack_ok A G B t \<longleftrightarrow>
     set G \<subseteq> set (tstack t) \<and> set (tstack t) \<subseteq> set G \<union> B \<and>
     sorted_wrt (\<lambda>x y. dtime t y < dtime t x) (tstack t) \<and> sorted_wrt (\<lambda>x y. dtime t y < dtime t x) G \<and>
     (\<forall>v\<in>set G \<union> B. dtime t v < dfs_time t) \<and>
     (\<forall>v\<in>set G \<union> B. comp t ! v = LONG_MAX \<longleftrightarrow> v \<in> set (tstack t)) \<and>
     successively (\<lambda>x y. (y, x) \<in> A) G \<and>
     (\<forall>x\<in>B. A `` {x} \<subseteq> set G \<union> B)"

definition reach_ok :: "(nat \<times> nat) set \<Rightarrow> nat list \<Rightarrow> tarjan \<Rightarrow> bool" where
  "reach_ok A G t \<longleftrightarrow>
     (\<forall>x\<in>set (tstack t). \<exists>h\<in>set G. dtime t h \<le> dtime t x \<and> (x, h) \<in> A\<^sup>*) \<and>
     (\<forall>h\<in>set G. \<forall>x\<in>set (tstack t). dtime t h \<le> dtime t x \<longrightarrow> (h, x) \<in> A\<^sup>*)"

text \<open>
  The root of a gray vertex is the vertex itself. The root of a black vertex on the stack is older and reachable, and not younger than any
  successor on the stack; the oldest root among the vertices discovered after a gray vertex \<^term>\<open>h\<close> but before the next gray one is
  found at a successor of \<^term>\<open>h\<close>.
\<close>

definition root_ok :: "(nat \<times> nat) set \<Rightarrow> nat list \<Rightarrow> tarjan \<Rightarrow> bool" where
  "root_ok A G t \<longleftrightarrow>
     (\<forall>h\<in>set G. root t ! h = h) \<and>
     (\<forall>x\<in>set (tstack t) - set G. root t ! x \<in> set (tstack t) \<and> rtime t x < dtime t x \<and> (x, root t ! x) \<in> A\<^sup>*) \<and>
     (\<forall>x\<in>set (tstack t) - set G. \<forall>w\<in>A `` {x} \<inter> set (tstack t). rtime t x \<le> dtime t w) \<and>
     (\<forall>h\<in>set G. \<forall>x\<in>set (tstack t) - set G. dtime t h < dtime t x \<longrightarrow>
        (\<forall>h'\<in>set G. dtime t h' \<le> dtime t h \<or> dtime t x < dtime t h') \<longrightarrow>
        (\<exists>y\<in>set (tstack t) - set G. (h, y) \<in> A \<and> rtime t y \<le> rtime t x))"

definition comp_ok :: "(nat \<times> nat) set \<Rightarrow> nat set \<Rightarrow> tarjan \<Rightarrow> bool" where
  "comp_ok A D t \<longleftrightarrow>
     A `` D \<subseteq> D \<and> 0 \<le> total t \<and> total t \<le> int (card D) \<and>
     (\<forall>x\<in>D. 0 \<le> comp t ! x \<and> comp t ! x < total t) \<and>
     (\<forall>x\<in>D. \<forall>y\<in>D. comp t ! x = comp t ! y \<longleftrightarrow> (x, y) \<in> A\<^sup>* \<and> (y, x) \<in> A\<^sup>*) \<and>
     (\<forall>x\<in>D. \<forall>y\<in>A `` {x}. comp t ! y \<le> comp t ! x) \<and>
     (\<forall>k. 0 \<le> k \<and> k < total t \<longrightarrow> (\<exists>x\<in>D. comp t ! x = k))"

definition tarjan_inv :: "('v, 'e) BaseGraph \<Rightarrow> nat list \<Rightarrow> nat set \<Rightarrow> tarjan \<Rightarrow> bool" where
  "tarjan_inv g G B t \<longleftrightarrow>
     distinct G \<and> set G \<inter> B = {} \<and> set G \<union> B \<subseteq> {..<capacity g} \<and> maps_ok (capacity g) t \<and>
     stack_ok (arcs g) G B t \<and> reach_ok (arcs g) G t \<and> root_ok (arcs g) G t \<and>
     comp_ok (arcs g) (set G \<union> B - set (tstack t)) t"

section \<open>Discovering a vertex\<close>

definition discovered :: "nat \<Rightarrow> tarjan \<Rightarrow> tarjan" where
  "discovered v t = t\<lparr>root := (root t)[v := v], comp := (comp t)[v := LONG_MAX], discover_time := (discover_time t)[v := dfs_time t],
     dfs_time := dfs_time t + 1, tstack := v # tstack t\<rparr>"

lemma discovered_fields [simp]:
  "tstack (discovered v t) = v # tstack t" "dfs_time (discovered v t) = dfs_time t + 1" "total (discovered v t) = total t"
  by (simp_all add: discovered_def)

lemma discovered_old:
  assumes "x \<noteq> v"
  shows "dtime (discovered v t) x = dtime t x" "root (discovered v t) ! x = root t ! x" "comp (discovered v t) ! x = comp t ! x"
  using assms by (simp_all add: discovered_def)

lemma discovered_new:
  assumes "maps_ok n t" and "v < n"
  shows "dtime (discovered v t) v = dfs_time t" "root (discovered v t) ! v = v" "comp (discovered v t) ! v = LONG_MAX"
    and "maps_ok n (discovered v t)" and "tarjan_discover v t = Inr (discovered v t)"
  using assms by (simp_all add: discovered_def maps_ok_def tarjan_discover_def am_put_def)

lemma discover_stack:
  assumes "stack_ok A G B t" and "maps_ok n t" and "v < n" and "v \<notin> set G \<union> B" and "G \<noteq> [] \<Longrightarrow> (hd G, v) \<in> A"
  shows "stack_ok A (v # G) B (discovered v t)"
proof -
  let ?t = "discovered v t"
  have S: "set (tstack t) \<subseteq> set G \<union> B" "\<forall>v\<in>set G \<union> B. dtime t v < dfs_time t" using assms(1) by (auto simp: stack_ok_def)
  have old: "x \<noteq> v" if "x \<in> set G \<union> B" for x using assms(4) that by auto
  have new: "dtime ?t v = dfs_time t" using assms(2,3) by (rule discovered_new)
  have less: "dtime ?t x < dtime ?t v" "dtime ?t x = dtime t x" if "x \<in> set G \<union> B" for x
    using S(2) that old [OF that] new by (simp_all add: discovered_old)
  have "sorted_wrt (\<lambda>x y. dtime ?t y < dtime ?t x) xs" if "sorted_wrt (\<lambda>x y. dtime t y < dtime t x) xs" "set xs \<subseteq> set G \<union> B" for xs
    using that by (induction xs) (auto simp: less(2))
  then have sorted: "sorted_wrt (\<lambda>x y. dtime ?t y < dtime ?t x) (v # tstack t)" "sorted_wrt (\<lambda>x y. dtime ?t y < dtime ?t x) (v # G)"
    using assms(1) S(1) by (auto simp: stack_ok_def intro!: less(1))
  have times: "\<forall>x\<in>set (v # G) \<union> B. dtime ?t x < dfs_time ?t"
  proof
    fix x assume "x \<in> set (v # G) \<union> B"
    then show "dtime ?t x < dfs_time ?t" using S(2) less(2) [of x] new by (cases "x = v") force+
  qed
  have marks: "\<forall>x\<in>set (v # G) \<union> B. comp ?t ! x = LONG_MAX \<longleftrightarrow> x \<in> set (tstack ?t)"
    using assms(1) old discovered_new(3) [OF assms(2,3)] by (auto simp: stack_ok_def discovered_old)
  have path: "successively (\<lambda>x y. (y, x) \<in> A) (v # G)"
    using assms(1,5) by (cases G) (auto simp: stack_ok_def)
  show ?thesis using assms(1) sorted times marks path by (auto simp: stack_ok_def)
qed

lemma discover_reach:
  assumes "reach_ok A G t" and "stack_ok A G B t" and "maps_ok n t" and "v < n" and "v \<notin> set G \<union> B"
    and "G \<noteq> [] \<Longrightarrow> (hd G, v) \<in> A"
  shows "reach_ok A (v # G) (discovered v t)"
proof -
  let ?t = "discovered v t"
  have S: "set G \<subseteq> set (tstack t)" "set (tstack t) \<subseteq> set G \<union> B" "\<forall>v\<in>set G \<union> B. dtime t v < dfs_time t"
    using assms(2) by (auto simp: stack_ok_def)
  have new: "dtime ?t v = dfs_time t" using assms(3,4) by (rule discovered_new)
  have old: "dtime ?t x = dtime t x" "dtime t x < dfs_time t" if "x \<in> set (tstack t)" for x
  proof -
    have "x \<in> set G \<union> B" "x \<noteq> v" using S(2) that assms(5) by auto
    then show "dtime ?t x = dtime t x" "dtime t x < dfs_time t" using S(3) by (simp_all add: discovered_old)
  qed
  have v: "(h, v) \<in> A\<^sup>*" if h: "h \<in> set G" for h
  proof -
    have G: "hd G \<in> set G" "(hd G, v) \<in> A" using h assms(6) by (cases G; simp)+
    have "dtime t h \<le> dtime t (hd G)" using assms(2) h by (cases G) (auto simp: stack_ok_def)
    then have "(h, hd G) \<in> A\<^sup>*" using assms(1) h G(1) S(1) by (auto simp: reach_ok_def)
    with G(2) show ?thesis by simp
  qed
  have "\<exists>h\<in>set (v # G). dtime ?t h \<le> dtime ?t x \<and> (x, h) \<in> A\<^sup>*" if x: "x \<in> set (v # tstack t)" for x
  proof (cases "x = v")
    case False
    with x have "x \<in> set (tstack t)" by simp
    then obtain h where "h \<in> set G" "dtime t h \<le> dtime t x" "(x, h) \<in> A\<^sup>*" using assms(1) by (auto simp: reach_ok_def)
    with S(1) \<open>x \<in> set (tstack t)\<close> show ?thesis by (auto simp: old)
  qed auto
  moreover have "(h, x) \<in> A\<^sup>*" if "h \<in> set (v # G)" "x \<in> set (v # tstack t)" "dtime ?t h \<le> dtime ?t x" for h x
    using that v assms(1) S(1) old new by (cases "h = v"; cases "x = v") (fastforce simp: reach_ok_def)+
  ultimately show ?thesis by (simp add: reach_ok_def)
qed

lemma discover_root:
  assumes "root_ok A G t" and "stack_ok A G B t" and "maps_ok n t" and "v < n" and "v \<notin> set G \<union> B"
  shows "root_ok A (v # G) (discovered v t)"
proof -
  let ?t = "discovered v t" and ?S = "set (tstack t) - set G"
  have S: "set (tstack t) \<subseteq> set G \<union> B" "\<forall>v\<in>set G \<union> B. dtime t v < dfs_time t" "\<forall>x\<in>B. A `` {x} \<subseteq> set G \<union> B"
    and R: "\<forall>h\<in>set G. root t ! h = h" "\<forall>x\<in>?S. root t ! x \<in> set (tstack t)"
    using assms(1,2) by (auto simp: stack_ok_def root_ok_def)
  have new: "dtime ?t v = dfs_time t" "root ?t ! v = v" using discovered_new [OF assms(3,4)] by simp_all
  have old: "x \<noteq> v" "dtime ?t x = dtime t x" "root ?t ! x = root t ! x" "dtime t x < dfs_time t" if "x \<in> set (tstack t)" for x
  proof -
    have "x \<in> set G \<union> B" "x \<noteq> v" using S(1) that assms(5) by auto
    then show "x \<noteq> v" "dtime ?t x = dtime t x" "root ?t ! x = root t ! x" "dtime t x < dfs_time t"
      using S(2) by (simp_all add: discovered_old)
  qed
  have black: "set (tstack ?t) - set (v # G) = ?S" using old(1) by auto
  have r: "rtime ?t x = rtime t x" if "x \<in> ?S" for x using that R(2) by (simp add: old)
  have GS: "set G \<subseteq> set (tstack t)" using assms(2) by (simp add: stack_ok_def)
  have "\<forall>h\<in>set (v # G). root ?t ! h = h" using R(1) GS new(2) old(3) by auto
  moreover have "\<forall>x\<in>?S. root ?t ! x \<in> set (tstack ?t) \<and> rtime ?t x < dtime ?t x \<and> (x, root ?t ! x) \<in> A\<^sup>*"
    using assms(1) by (auto simp: root_ok_def r old)
  moreover have "rtime ?t x \<le> dtime ?t w" if x: "x \<in> ?S" and w: "w \<in> A `` {x} \<inter> set (tstack ?t)" for x w
  proof -
    have "x \<in> B" using x S(1) by auto
    then have "w \<in> set G \<union> B" using S(3) w by auto
    with w assms(5) have "w \<in> A `` {x} \<inter> set (tstack t)" by auto
    with x assms(1) show ?thesis by (simp add: root_ok_def r old)
  qed
  moreover have "\<exists>y\<in>?S. (h, y) \<in> A \<and> rtime ?t y \<le> rtime ?t x"
    if h: "h \<in> set (v # G)" and x: "x \<in> ?S" and hx: "dtime ?t h < dtime ?t x"
      and between: "\<forall>h'\<in>set (v # G). dtime ?t h' \<le> dtime ?t h \<or> dtime ?t x < dtime ?t h'" for h x
  proof -
    have "h \<noteq> v" using hx x old [of x] new(1) by auto
    with h have h: "h \<in> set G" by simp
    then have "dtime t h < dtime t x" using hx x GS by (auto simp: old)
    moreover have "\<forall>h'\<in>set G. dtime t h' \<le> dtime t h \<or> dtime t x < dtime t h'"
      using between h x GS by (auto simp: old subset_iff)
    ultimately obtain y where "y \<in> ?S" "(h, y) \<in> A" "rtime t y \<le> rtime t x"
      using assms(1) h x unfolding root_ok_def by blast
    with x show ?thesis by (auto simp: r)
  qed
  ultimately show ?thesis unfolding root_ok_def black by blast
qed

lemma comp_ok_cong:
  assumes "comp_ok A D t" and "\<forall>x\<in>D. comp t' ! x = comp t ! x" and "total t' = total t"
  shows "comp_ok A D t'"
proof -
  have "A `` D \<subseteq> D" using assms(1) by (simp add: comp_ok_def)
  then have "\<forall>x\<in>D. \<forall>y\<in>A `` {x}. comp t' ! y = comp t ! y" using assms(2) by auto
  with assms show ?thesis unfolding comp_ok_def by (simp add: Ball_def)
qed

lemma discover_inv:
  assumes "tarjan_inv g G B t" and "v < capacity g" and "v \<notin> set G \<union> B" and "G \<noteq> [] \<Longrightarrow> (hd G, v) \<in> arcs g"
  shows "\<exists>t'. tarjan_discover v t = Inr t' \<and> tarjan_inv g (v # G) B t'"
proof -
  from assms(1) have I: "distinct G" "set G \<inter> B = {}" "set G \<union> B \<subseteq> {..<capacity g}" "maps_ok (capacity g) t" "stack_ok (arcs g) G B t"
    "reach_ok (arcs g) G t" "root_ok (arcs g) G t" "comp_ok (arcs g) (set G \<union> B - set (tstack t)) t"
    by (simp_all add: tarjan_inv_def)
  have D: "set (v # G) \<union> B - set (tstack (discovered v t)) = set G \<union> B - set (tstack t)" using assms(3) by auto
  have "comp_ok (arcs g) (set G \<union> B - set (tstack t)) (discovered v t)"
    using I(8) assms(3) by (elim comp_ok_cong) (auto intro: discovered_old)
  then have "tarjan_inv g (v # G) B (discovered v t)"
    unfolding tarjan_inv_def D
    using I assms(2-4) discover_stack [OF I(5,4) assms(2-4)] discover_reach [OF I(6,5,4) assms(2-4)]
      discover_root [OF I(7,5,4) assms(2,3)] discovered_new(4) [OF I(4) assms(2)] by simp
  with discovered_new(5) [OF I(4) assms(2)] show ?thesis by blast
qed

section \<open>Finishing a vertex\<close>

lemma tarjan_edges_run:
  assumes "maps_ok n t" and "v < n" and "root t ! v < n"
    and "\<forall>e\<in>set es. target e < n \<and> (comp t ! target e = LONG_MAX \<longrightarrow> root t ! target e < n)"
  shows "\<exists>r. tarjan_edges v es t = Inr (t\<lparr>root := (root t)[v := r]\<rparr>) \<and> dtime t r \<le> rtime t v \<and>
    (\<forall>e\<in>set es. comp t ! target e = LONG_MAX \<and> target e \<noteq> v \<longrightarrow> dtime t r \<le> rtime t (target e)) \<and>
    (r = root t ! v \<or> (\<exists>e\<in>set es. comp t ! target e = LONG_MAX \<and> target e \<noteq> v \<and> r = root t ! target e))"
  using assms
proof (induction es arbitrary: t)
  case Nil
  then show ?case by (auto simp: list_update_id)
next
  case (Cons e es)
  let ?w = "target e"
  have w: "am_get ?w (comp t) = Inr (comp t ! ?w)" using Cons.prems(1,4) by (simp add: am_get_def maps_ok_def)
  show ?case
  proof (cases "comp t ! ?w = LONG_MAX \<and> ?w \<noteq> v")
    case True
    define m where "m = (if rtime t v < rtime t ?w then root t ! v else root t ! ?w)"
    let ?t = "t\<lparr>root := (root t)[v := m]\<rparr>"
    have m: "m < n" "dtime t m \<le> rtime t v" "dtime t m \<le> rtime t ?w" using Cons.prems(3,4) True by (auto simp: m_def)
    have look: "root ?t ! v = m" "\<And>x. x \<noteq> v \<Longrightarrow> root ?t ! x = root t ! x" "maps_ok n ?t"
      using Cons.prems(1,2) by (simp_all add: maps_ok_def)
    have prems: "root ?t ! v < n" "\<forall>e\<in>set es. target e < n \<and> (comp ?t ! target e = LONG_MAX \<longrightarrow> root ?t ! target e < n)"
    proof -
      show "root ?t ! v < n" using look(1) m(1) by simp
      show "\<forall>e\<in>set es. target e < n \<and> (comp ?t ! target e = LONG_MAX \<longrightarrow> root ?t ! target e < n)"
      proof
        fix f assume "f \<in> set es"
        then have "target f < n" "comp t ! target f = LONG_MAX \<longrightarrow> root t ! target f < n" using Cons.prems(4) by auto
        then show "target f < n \<and> (comp ?t ! target f = LONG_MAX \<longrightarrow> root ?t ! target f < n)"
          using look(1,2) m(1) by (cases "target f = v") auto
      qed
    qed
    have "tarjan_edges v (e # es) t = tarjan_edges v es ?t"
      using Cons.prems True by (simp add: w am_get_def am_put_def maps_ok_def min_discover_time_def m_def)
    moreover obtain r where run: "tarjan_edges v es ?t = Inr (?t\<lparr>root := (root ?t)[v := r]\<rparr>)" and r: "dtime t r \<le> rtime ?t v"
      "\<forall>f\<in>set es. comp t ! target f = LONG_MAX \<and> target f \<noteq> v \<longrightarrow> dtime t r \<le> rtime ?t (target f)"
      "r = root ?t ! v \<or> (\<exists>f\<in>set es. comp t ! target f = LONG_MAX \<and> target f \<noteq> v \<and> r = root ?t ! target f)"
      using Cons.IH [OF look(3) Cons.prems(2) prems] by auto
    moreover have "dtime t r \<le> dtime t m"
      "\<forall>f\<in>set es. comp t ! target f = LONG_MAX \<and> target f \<noteq> v \<longrightarrow> dtime t r \<le> rtime t (target f)"
      "r = m \<or> (\<exists>f\<in>set es. comp t ! target f = LONG_MAX \<and> target f \<noteq> v \<and> r = root t ! target f)"
      using r unfolding look(1) using look(2) by auto
    moreover have "?t\<lparr>root := (root ?t)[v := r]\<rparr> = t\<lparr>root := (root t)[v := r]\<rparr>" by simp
    ultimately show ?thesis using True m by (intro exI [of _ r]) (auto simp: m_def split: if_splits)
  next
    case False
    have "tarjan_edges v (e # es) t = tarjan_edges v es t"
      using Cons.prems False by (cases "comp t ! ?w = LONG_MAX") (simp_all add: w am_get_def am_put_def maps_ok_def min_discover_time_def)
    with Cons.IH [OF Cons.prems(1-3)] Cons.prems(4) False show ?thesis by auto
  qed
qed

lemma tarjan_pop_run:
  assumes "maps_ok n t" and "set upper \<subseteq> {..<n}" and "v < n" and "v \<notin> set upper"
  shows "\<exists>t'. tarjan_pop v (upper @ v # lower) t = Inr t' \<and> maps_ok n t' \<and> tstack t' = lower \<and>
    total t' = total t \<and> discover_time t' = discover_time t \<and> dfs_time t' = dfs_time t \<and>
    (\<forall>x. x \<in> insert v (set upper) \<longrightarrow> comp t' ! x = total t) \<and>
    (\<forall>x. x \<notin> insert v (set upper) \<longrightarrow> comp t' ! x = comp t ! x \<and> root t' ! x = root t ! x)"
  using assms
proof (induction upper arbitrary: t)
  case Nil
  then show ?case by (auto simp: am_put_def maps_ok_def)
next
  case (Cons w upper)
  let ?t = "t\<lparr>tstack := upper @ v # lower, comp := (comp t)[w := total t], root := (root t)[w := v]\<rparr>"
  have "tarjan_pop v ((w # upper) @ v # lower) t = tarjan_pop v (upper @ v # lower) ?t"
    using Cons.prems by (auto simp: am_put_def maps_ok_def)
  moreover obtain t' where "tarjan_pop v (upper @ v # lower) ?t = Inr t'" "maps_ok n t'" "tstack t' = lower" "total t' = total t"
    "discover_time t' = discover_time t" "dfs_time t' = dfs_time t"
    and new: "\<forall>x. x \<in> insert v (set upper) \<longrightarrow> comp t' ! x = total t"
    and old: "\<forall>x. x \<notin> insert v (set upper) \<longrightarrow> comp t' ! x = comp ?t ! x \<and> root t' ! x = root ?t ! x"
    using Cons.IH [of ?t] Cons.prems by (auto simp: maps_ok_def)
  moreover have "comp t' ! x = total t" if "x \<in> insert v (set (w # upper))" for x
  proof (cases "x \<in> insert v (set upper)")
    case False
    then have "x = w" "comp t' ! x = comp ?t ! x" using that old by auto
    then show ?thesis using Cons.prems(1,2) by (simp add: maps_ok_def)
  qed (use new in blast)
  moreover have "comp t' ! x = comp t ! x \<and> root t' ! x = root t ! x" if "x \<notin> insert v (set (w # upper))" for x
    using that old by simp
  ultimately show ?case by auto
qed

lemma sorted_wrt_inj:
  fixes f :: "'a \<Rightarrow> int"
  shows "sorted_wrt (\<lambda>x y. f y < f x) xs \<Longrightarrow> x \<in> set xs \<Longrightarrow> y \<in> set xs \<Longrightarrow> f x = f y \<Longrightarrow> x = y"
  by (induction xs) force+

lemma stack_time_inj:
  "stack_ok A G B t \<Longrightarrow> x \<in> set (tstack t) \<Longrightarrow> y \<in> set (tstack t) \<Longrightarrow> dtime t x = dtime t y \<Longrightarrow> x = y"
  unfolding stack_ok_def by (blast intro: sorted_wrt_inj)

text \<open>
  What the loop over the edges of the finished vertex \<^term>\<open>v\<close> finds: the oldest root \<^term>\<open>r\<close> among its successors on the stack, or \<^term>\<open>v\<close> itself.
\<close>

definition oldest_root :: "(nat \<times> nat) set \<Rightarrow> nat \<Rightarrow> tarjan \<Rightarrow> nat \<Rightarrow> bool" where
  "oldest_root A v t r \<longleftrightarrow>
     (\<forall>w\<in>A `` {v} \<inter> set (tstack t). dtime t r \<le> rtime t w) \<and>
     (r = v \<or> r \<in> set (tstack t) \<and> dtime t r < dtime t v \<and> (v, r) \<in> A\<^sup>*)"

lemma finish_edges:
  assumes "tarjan_inv g (v # G) B t" and "edges_ok g" and "arcs g `` {v} \<subseteq> set (v # G) \<union> B"
  shows "\<exists>r. tarjan_edges v (out_edges g v) t = Inr (t\<lparr>root := (root t)[v := r]\<rparr>) \<and> oldest_root (arcs g) v t r"
proof -
  from assms(1) have I: "set (v # G) \<union> B \<subseteq> {..<capacity g}" "maps_ok (capacity g) t" "stack_ok (arcs g) (v # G) B t"
    "reach_ok (arcs g) (v # G) t" "root_ok (arcs g) (v # G) t"
    by (simp_all add: tarjan_inv_def)
  let ?S = "set (tstack t)"
  have S: "?S \<subseteq> set (v # G) \<union> B" "v \<in> ?S" "set G \<subseteq> ?S" using I(3) by (auto simp: stack_ok_def)
  have marks: "comp t ! w = LONG_MAX \<longleftrightarrow> w \<in> ?S" if "(v, w) \<in> arcs g" for w
    using I(3) assms(3) that by (auto simp: stack_ok_def)
  have v: "root t ! v = v" using I(5) by (simp add: root_ok_def)
  have roots: "root t ! w \<in> ?S" "(w, root t ! w) \<in> (arcs g)\<^sup>*" if "w \<in> ?S" for w
    using I(5) that S(2,3) by (cases "w \<in> set (v # G)"; auto simp: root_ok_def)+
  have arcs: "e \<in> set (out_edges g v) \<Longrightarrow> (v, target e) \<in> arcs g" for e by (auto simp: arcs_def)
  have range: "w < capacity g" if "w \<in> ?S" for w using S(1) I(1) that by blast
  have "\<forall>e\<in>set (out_edges g v). target e < capacity g \<and> (comp t ! target e = LONG_MAX \<longrightarrow> root t ! target e < capacity g)"
    using assms(2) marks roots(1) range arcs by (auto simp: edges_ok_def)
  moreover have "v < capacity g" "root t ! v < capacity g" using range [OF S(2)] v by simp_all
  ultimately obtain r where run: "tarjan_edges v (out_edges g v) t = Inr (t\<lparr>root := (root t)[v := r]\<rparr>)" and le: "dtime t r \<le> rtime t v"
    and succ: "\<forall>e\<in>set (out_edges g v). comp t ! target e = LONG_MAX \<and> target e \<noteq> v \<longrightarrow> dtime t r \<le> rtime t (target e)"
    and r: "r = root t ! v \<or> (\<exists>e\<in>set (out_edges g v). comp t ! target e = LONG_MAX \<and> target e \<noteq> v \<and> r = root t ! target e)"
    using tarjan_edges_run [OF I(2), of v "out_edges g v"] by blast
  have "dtime t r \<le> rtime t w" if w: "(v, w) \<in> arcs g" "w \<in> ?S" for w
  proof (cases "w = v")
    case False
    obtain e where "e \<in> set (out_edges g v)" "w = target e" using w(1) by (auto simp: arcs_def)
    with succ False w marks show ?thesis by auto
  qed (use le in simp)
  moreover have "r = v \<or> r \<in> ?S \<and> dtime t r < dtime t v \<and> (v, r) \<in> (arcs g)\<^sup>*"
  proof (cases "r = v")
    case False
    then obtain e where e: "e \<in> set (out_edges g v)" "target e \<in> ?S" "r = root t ! target e" using r v marks arcs by auto
    have "r \<in> ?S" "(target e, r) \<in> (arcs g)\<^sup>*" using roots [OF e(2)] e(3) by simp_all
    moreover from this have "dtime t r \<noteq> dtime t v" using stack_time_inj [OF I(3) _ S(2)] False by blast
    ultimately show ?thesis using le v arcs [OF e(1)] by (auto intro: converse_rtrancl_into_rtrancl)
  qed simp
  ultimately show ?thesis using run by (auto simp: oldest_root_def)
qed

lemma root_time_le:
  assumes "root_ok A G t" and "x \<in> set (tstack t)"
  shows "rtime t x \<le> dtime t x"
proof (cases "x \<in> set G")
  case True
  then have "root t ! x = x" using assms(1) by (simp add: root_ok_def)
  then show ?thesis by simp
next
  case False
  then show ?thesis using assms by (force simp: root_ok_def)
qed

lemma younger_root:
  assumes "root_ok A (v # G) t" and "stack_ok A (v # G) B t" and "oldest_root A v t r"
    and x: "x \<in> set (tstack t)" "dtime t v < dtime t x"
  shows "dtime t r \<le> rtime t x"
proof -
  have old: "\<forall>h\<in>set (v # G). dtime t h \<le> dtime t v" using assms(2) by (auto simp: stack_ok_def)
  with x have "x \<in> set (tstack t) - set (v # G)" by auto
  moreover have "\<forall>h'\<in>set (v # G). dtime t h' \<le> dtime t v \<or> dtime t x < dtime t h'" using old by blast
  ultimately obtain y where "y \<in> set (tstack t)" "(v, y) \<in> A" "rtime t y \<le> rtime t x"
    using assms(1) x(2) unfolding root_ok_def by (metis DiffD1 list.set_intros(1))
  moreover from this have "dtime t r \<le> rtime t y" using assms(3) by (auto simp: oldest_root_def)
  ultimately show ?thesis by linarith
qed

subsection \<open>The vertex stays on the stack\<close>

lemma keep_lookup:
  assumes "maps_ok n t" and "v < n" and "t' = t\<lparr>root := (root t)[v := r]\<rparr>"
  shows "root t' ! x = (if x = v then r else root t ! x)" "dtime t' x = dtime t x" "comp t' = comp t"
    "tstack t' = tstack t" "dfs_time t' = dfs_time t" "total t' = total t" "maps_ok n t'"
  using assms by (simp_all add: maps_ok_def)

lemma keep_reach:
  assumes "reach_ok A (v # G) t" and "stack_ok A (v # G) B t" and "oldest_root A v t r" and "r \<noteq> v"
    and "t' = t\<lparr>root := rs\<rparr>"
  shows "reach_ok A G t'"
proof -
  let ?S = "set (tstack t)"
  have r: "r \<in> ?S" "dtime t r < dtime t v" "(v, r) \<in> A\<^sup>*" using assms(3,4) by (simp_all add: oldest_root_def)
  have gray: "\<exists>h\<in>set (v # G). dtime t h \<le> dtime t x \<and> (x, h) \<in> A\<^sup>*" if "x \<in> ?S" for x
    using assms(1) that by (simp add: reach_ok_def)
  obtain h' where h': "h' \<in> set (v # G)" "dtime t h' \<le> dtime t r" "(r, h') \<in> A\<^sup>*" using gray [OF r(1)] by blast
  then have v: "h' \<in> set G" "dtime t h' \<le> dtime t v" "(v, h') \<in> A\<^sup>*" using r by auto
  have "\<exists>h\<in>set G. dtime t h \<le> dtime t x \<and> (x, h) \<in> A\<^sup>*" if x: "x \<in> ?S" for x
  proof -
    obtain h where h: "h \<in> set (v # G)" "dtime t h \<le> dtime t x" "(x, h) \<in> A\<^sup>*" using gray [OF x] by blast
    show ?thesis
    proof (cases "h = v")
      case True
      with h v show ?thesis by (intro bexI [of _ h']) auto
    qed (use h in auto)
  qed
  then show ?thesis using assms(1,5) by (simp add: reach_ok_def)
qed

lemma keep_root:
  assumes "root_ok A (v # G) t" and "stack_ok A (v # G) B t" and "oldest_root A v t r" and "r \<noteq> v" and "v \<notin> set G"
    and "maps_ok n t" and "v < n" and t': "t' = t\<lparr>root := (root t)[v := r]\<rparr>"
  shows "root_ok A G t'"
proof -
  note look = keep_lookup [OF assms(6-8)]
  let ?S = "set (tstack t)"
  have r: "r \<in> ?S" "dtime t r < dtime t v" "(v, r) \<in> A\<^sup>*" "\<forall>w\<in>A `` {v} \<inter> ?S. dtime t r \<le> rtime t w"
    using assms(3,4) by (simp_all add: oldest_root_def)
  have v: "v \<in> ?S" using assms(2) by (simp add: stack_ok_def)
  have R: "\<forall>h\<in>set (v # G). root t ! h = h"
    "\<forall>x\<in>?S - set (v # G). root t ! x \<in> ?S \<and> rtime t x < dtime t x \<and> (x, root t ! x) \<in> A\<^sup>*"
    "\<forall>x\<in>?S - set (v # G). \<forall>w\<in>A `` {x} \<inter> ?S. rtime t x \<le> dtime t w"
    using assms(1) by (simp_all add: root_ok_def)
  have R4: "\<exists>y\<in>?S - set (v # G). (h, y) \<in> A \<and> rtime t y \<le> rtime t x"
    if "h \<in> set (v # G)" "x \<in> ?S - set (v # G)" "dtime t h < dtime t x" "\<forall>h'\<in>set (v # G). dtime t h' \<le> dtime t h \<or> dtime t x < dtime t h'" for h x
    using assms(1) that unfolding root_ok_def by blast
  have rt: "rtime t' x = (if x = v then dtime t r else rtime t x)" for x by (simp add: look)
  have black: "root t' ! x \<in> ?S \<and> rtime t' x < dtime t x \<and> (x, root t' ! x) \<in> A\<^sup>*" if "x \<in> ?S - set G" for x
    using that r R(2) by (cases "x = v") (simp_all add: look)
  have succ: "rtime t' x \<le> dtime t w" if "x \<in> ?S - set G" "w \<in> A `` {x} \<inter> ?S" for x w
    using that r(4) R(3) root_time_le [OF assms(1), of w] by (cases "x = v") (force simp: rt)+
  have seg: "\<exists>y\<in>?S - set G. (h, y) \<in> A \<and> rtime t' y \<le> rtime t' x"
    if h: "h \<in> set G" and x: "x \<in> ?S - set G" and hx: "dtime t h < dtime t x"
      and between: "\<forall>h'\<in>set G. dtime t h' \<le> dtime t h \<or> dtime t x < dtime t h'" for h x
  proof (cases "dtime t x < dtime t v")
    case True
    then have "x \<noteq> v" by auto
    with x have x': "x \<in> ?S - set (v # G)" by simp
    have "\<exists>y\<in>?S - set (v # G). (h, y) \<in> A \<and> rtime t y \<le> rtime t x"
      using h x' hx between True by (intro R4) auto
    then show ?thesis using \<open>x \<noteq> v\<close> by (auto simp: rt)
  next
    case False
    have G: "sorted_wrt (\<lambda>x y. dtime t y < dtime t x) (v # G)" "successively (\<lambda>x y. (y, x) \<in> A) (v # G)"
      using assms(2) by (simp_all add: stack_ok_def)
    have top: "dtime t h' \<le> dtime t h" if "h' \<in> set G" for h' using between G(1) False that by force
    have "h = hd G" using top [of "hd G"] G(1) h by (cases G) force+
    then have "(h, v) \<in> A" using G(2) h by (cases G) auto
    moreover have "dtime t r \<le> rtime t' x"
    proof (cases "x = v")
      case False2: False
      then have "dtime t v < dtime t x" using stack_time_inj [OF assms(2), of x v] x v False by fastforce
      with younger_root [OF assms(1-3), of x] x False2 show ?thesis by (simp add: rt)
    qed (simp add: rt)
    ultimately show ?thesis using v assms(5) by (auto simp: rt)
  qed
  have "discover_time t' = discover_time t" by (simp add: t')
  moreover have "\<forall>h\<in>set G. root t' ! h = h" using R(1) assms(5) by (auto simp: look(1))
  ultimately show ?thesis
    using black succ seg unfolding root_ok_def look(4) by simp
qed

subsection \<open>The vertex is the root of a component\<close>

text \<open>
  The stack is cut at \<^term>\<open>v\<close>: the vertices that are not older than \<^term>\<open>v\<close> leave it and get the next number.
\<close>

definition cut_at :: "nat \<Rightarrow> tarjan \<Rightarrow> nat list \<Rightarrow> nat list \<Rightarrow> bool" where
  "cut_at v t upper lower \<longleftrightarrow> tstack t = upper @ v # lower \<and>
     (\<forall>x\<in>set upper. dtime t v < dtime t x) \<and> (\<forall>x\<in>set lower. dtime t x < dtime t v)"

lemma cut_exists:
  assumes "stack_ok A G B t" and "v \<in> set (tstack t)"
  obtains upper lower where "cut_at v t upper lower"
proof -
  obtain upper lower where "tstack t = upper @ v # lower" using assms(2) by (meson split_list)
  with assms(1) show thesis by (intro that [of upper lower]) (auto simp: cut_at_def stack_ok_def sorted_wrt_append)
qed

lemma cut_closed:
  assumes "root_ok A (v # G) t" and "stack_ok A (v # G) B t" and "oldest_root A v t v" and "cut_at v t upper lower"
    and "A `` {v} \<subseteq> set (v # G) \<union> B" and "x \<in> insert v (set upper)" and "(x, w) \<in> A"
  shows "w \<in> set (v # G) \<union> B" and "w \<notin> set lower"
proof -
  have cut: "tstack t = upper @ v # lower" "\<forall>x\<in>set upper. dtime t v < dtime t x" "\<forall>x\<in>set lower. dtime t x < dtime t v"
    using assms(4) by (simp_all add: cut_at_def)
  have black: "x \<in> B - set (v # G)" "x \<in> set (tstack t) - set (v # G)" if "x \<noteq> v"
  proof -
    have x: "x \<in> set upper" using assms(6) that by simp
    then have "dtime t v < dtime t x" "x \<in> set (tstack t)" using cut by auto
    moreover have "\<forall>h\<in>set (v # G). dtime t h \<le> dtime t v" using assms(2) by (auto simp: stack_ok_def)
    ultimately show "x \<in> set (tstack t) - set (v # G)" by fastforce
    then show "x \<in> B - set (v # G)" using assms(2) by (auto simp: stack_ok_def)
  qed
  show "w \<in> set (v # G) \<union> B"
    using assms(2,5,7) black by (cases "x = v") (auto simp: stack_ok_def)
  show "w \<notin> set lower"
  proof
    assume w: "w \<in> set lower"
    then have ws: "w \<in> set (tstack t)" "dtime t w < dtime t v" using cut by auto
    have "dtime t v \<le> dtime t w"
    proof (cases "x = v")
      case True
      then have "dtime t v \<le> rtime t w" using assms(3,7) ws(1) by (auto simp: oldest_root_def)
      with root_time_le [OF assms(1) ws(1)] show ?thesis by linarith
    next
      case False
      then have "dtime t v < dtime t x" using assms(6) cut(2) by auto
      then have "dtime t v \<le> rtime t x" using younger_root [OF assms(1-3)] black(2) [OF False] by blast
      moreover have "rtime t x \<le> dtime t w" using assms(1,7) black(2) [OF False] ws(1) by (auto simp: root_ok_def)
      ultimately show ?thesis by linarith
    qed
    with ws(2) show False by simp
  qed
qed

text \<open>
  The state after the pop, up to what the roots of the popped vertices are.
\<close>

definition popped :: "nat \<Rightarrow> nat list \<Rightarrow> nat list \<Rightarrow> tarjan \<Rightarrow> tarjan \<Rightarrow> bool" where
  "popped v upper lower t t' \<longleftrightarrow> tstack t' = lower \<and> total t' = total t + 1 \<and> discover_time t' = discover_time t \<and> dfs_time t' = dfs_time t \<and>
     (\<forall>x\<in>insert v (set upper). comp t' ! x = total t) \<and>
     (\<forall>x. x \<notin> insert v (set upper) \<longrightarrow> comp t' ! x = comp t ! x \<and> root t' ! x = root t ! x)"

lemma pop_stack:
  assumes "stack_ok A (v # G) B t" and "cut_at v t upper lower" and "popped v upper lower t t'"
    and "A `` {v} \<subseteq> set (v # G) \<union> B" and "total t < LONG_MAX"
  shows "stack_ok A G (insert v B) t'"
proof -
  have cut: "tstack t = upper @ v # lower" "\<forall>x\<in>set upper. dtime t v < dtime t x" "\<forall>x\<in>set lower. dtime t x < dtime t v"
    using assms(2) by (simp_all add: cut_at_def)
  have t': "tstack t' = lower" "discover_time t' = discover_time t" "dfs_time t' = dfs_time t" using assms(3) by (simp_all add: popped_def)
  have gray: "\<forall>h\<in>set G. dtime t h < dtime t v" using assms(1) by (auto simp: stack_ok_def)
  have "set G \<subseteq> set lower"
  proof
    fix h assume h: "h \<in> set G"
    then have "h \<in> set (tstack t)" "dtime t h < dtime t v" using assms(1) gray by (auto simp: stack_ok_def)
    then show "h \<in> set lower" using cut by fastforce
  qed
  moreover have "set lower \<subseteq> set G \<union> insert v B" using assms(1) cut(1) by (auto simp: stack_ok_def)
  moreover have "sorted_wrt (\<lambda>x y. dtime t y < dtime t x) lower" "sorted_wrt (\<lambda>x y. dtime t y < dtime t x) G"
    using assms(1) cut(1) by (auto simp: stack_ok_def sorted_wrt_append)
  moreover have "comp t' ! x = LONG_MAX \<longleftrightarrow> x \<in> set lower" if x: "x \<in> set G \<union> insert v B" for x
  proof (cases "x \<in> insert v (set upper)")
    case True
    then have "comp t' ! x = total t" using assms(3) unfolding popped_def by blast
    moreover have "x \<notin> set lower" using True cut(2,3) by fastforce
    ultimately show ?thesis using assms(5) by simp
  next
    case False
    then have "comp t' ! x = comp t ! x" "x \<in> set (tstack t) \<longleftrightarrow> x \<in> set lower" using assms(3) cut(1) by (auto simp: popped_def)
    then show ?thesis using assms(1) x by (auto simp: stack_ok_def)
  qed
  moreover have "successively (\<lambda>x y. (y, x) \<in> A) G" using assms(1) by (cases G) (auto simp: stack_ok_def)
  ultimately show ?thesis using assms(1,4) by (auto simp: stack_ok_def t')
qed

lemma pop_reach:
  assumes "reach_ok A (v # G) t" and "cut_at v t upper lower" and "popped v upper lower t t'"
  shows "reach_ok A G t'"
proof -
  have t': "tstack t' = lower" "discover_time t' = discover_time t" using assms(3) by (simp_all add: popped_def)
  have sub: "x \<in> set (tstack t)" "dtime t x < dtime t v" if "x \<in> set lower" for x using that assms(2) by (simp_all add: cut_at_def)
  have "\<exists>h\<in>set G. dtime t h \<le> dtime t x \<and> (x, h) \<in> A\<^sup>*" if x: "x \<in> set lower" for x
  proof -
    obtain h where "h \<in> set (v # G)" "dtime t h \<le> dtime t x" "(x, h) \<in> A\<^sup>*"
      using assms(1) sub(1) [OF x] unfolding reach_ok_def by blast
    moreover from this have "h \<noteq> v" using sub(2) [OF x] by auto
    ultimately show ?thesis by auto
  qed
  then show ?thesis using assms(1) sub(1) by (simp add: reach_ok_def t')
qed

lemma pop_root:
  assumes "root_ok A (v # G) t" and "stack_ok A (v # G) B t" and "oldest_root A v t v" and "cut_at v t upper lower"
    and "popped v upper lower t t'" and "v \<notin> set G"
  shows "root_ok A G t'"
proof -
  let ?S = "set (tstack t)"
  have cut: "?S = set upper \<union> {v} \<union> set lower" "\<forall>x\<in>set upper. dtime t v < dtime t x" "\<forall>x\<in>set lower. dtime t x < dtime t v"
    using assms(4) by (auto simp: cut_at_def)
  have t': "tstack t' = lower" "discover_time t' = discover_time t" using assms(5) by (simp_all add: popped_def)
  have same: "root t' ! x = root t ! x" if "x \<in> set lower" for x using that assms(5) cut(2,3) by (fastforce simp: popped_def)
  have in_lower: "x \<in> set lower \<longleftrightarrow> x \<in> ?S \<and> dtime t x < dtime t v" for x using cut by fastforce
  have gray: "\<forall>h\<in>set G. h \<in> set lower" using assms(2) unfolding stack_ok_def in_lower by auto
  have black: "x \<in> ?S - set (v # G)" if "x \<in> set lower - set G" for x using that in_lower [of x] by auto
  have R: "\<forall>x\<in>?S - set (v # G). root t ! x \<in> ?S \<and> rtime t x < dtime t x \<and> (x, root t ! x) \<in> A\<^sup>*"
    "\<forall>x\<in>?S - set (v # G). \<forall>w\<in>A `` {x} \<inter> ?S. rtime t x \<le> dtime t w" "\<forall>h\<in>set (v # G). root t ! h = h"
    using assms(1) unfolding root_ok_def by blast+
  have old: "root t ! x \<in> set lower \<and> rtime t x < dtime t x \<and> (x, root t ! x) \<in> A\<^sup>*" if x: "x \<in> set lower - set G" for x
  proof -
    have "root t ! x \<in> ?S" "rtime t x < dtime t x" "(x, root t ! x) \<in> A\<^sup>*" using R(1) black [OF x] by blast+
    moreover have "dtime t x < dtime t v" using x cut(3) by blast
    ultimately show ?thesis unfolding in_lower by linarith
  qed
  have seg: "\<exists>y\<in>set lower - set G. (h, y) \<in> A \<and> rtime t y \<le> rtime t x"
    if h: "h \<in> set G" and x: "x \<in> set lower - set G" and hx: "dtime t h < dtime t x"
      and between: "\<forall>h'\<in>set G. dtime t h' \<le> dtime t h \<or> dtime t x < dtime t h'" for h x
  proof -
    have xv: "dtime t x < dtime t v" using x cut(3) by blast
    then have "\<forall>h'\<in>set (v # G). dtime t h' \<le> dtime t h \<or> dtime t x < dtime t h'" using between by simp
    moreover have "h \<in> set (v # G)" using h by simp
    ultimately obtain y where y: "y \<in> ?S - set (v # G)" "(h, y) \<in> A" "rtime t y \<le> rtime t x"
      using assms(1) black [OF x] hx unfolding root_ok_def by blast
    have "\<not> dtime t v < dtime t y"
    proof
      assume "dtime t v < dtime t y"
      then have "dtime t v \<le> rtime t y" using younger_root [OF assms(1-3)] y(1) by blast
      moreover have "rtime t x < dtime t x" using old [OF x] by blast
      ultimately show False using y(3) xv by linarith
    qed
    then have "y \<in> set lower" using y(1) cut by auto
    with y show ?thesis by auto
  qed
  have "\<forall>x\<in>set lower - set G. root t' ! x \<in> set lower \<and> dtime t (root t' ! x) < dtime t x \<and> (x, root t' ! x) \<in> A\<^sup>*"
    using old same by auto
  moreover have "\<forall>x\<in>set lower - set G. \<forall>w\<in>A `` {x} \<inter> set lower. dtime t (root t' ! x) \<le> dtime t w"
    using R(2) black same in_lower by auto
  moreover have "\<forall>h\<in>set G. root t' ! h = h" using R(3) gray same by auto
  ultimately show ?thesis unfolding root_ok_def t' using seg same by auto
qed

lemma closed_rtrancl: "(x, y) \<in> A\<^sup>* \<Longrightarrow> A `` D \<subseteq> D \<Longrightarrow> x \<in> D \<Longrightarrow> y \<in> D"
  by (induction rule: rtrancl_induct) auto

lemma pop_comp:
  assumes "comp_ok A D t" and "finite D" and "v \<in> P" and "finite P" and "P \<inter> D = {}" and "A `` P \<subseteq> P \<union> D"
    and "\<forall>x\<in>P. \<forall>y\<in>P. (x, y) \<in> A\<^sup>*" and "\<forall>x\<in>P. comp t' ! x = total t" and "\<forall>x\<in>D. comp t' ! x = comp t ! x" and "total t' = total t + 1"
  shows "comp_ok A (D \<union> P) t'"
proof -
  have I: "A `` D \<subseteq> D" "0 \<le> total t" "total t \<le> int (card D)" "\<forall>x\<in>D. 0 \<le> comp t ! x \<and> comp t ! x < total t"
    "\<forall>x\<in>D. \<forall>y\<in>D. comp t ! x = comp t ! y \<longleftrightarrow> (x, y) \<in> A\<^sup>* \<and> (y, x) \<in> A\<^sup>*"
    "\<forall>x\<in>D. \<forall>y\<in>A `` {x}. comp t ! y \<le> comp t ! x" "\<forall>k. 0 \<le> k \<and> k < total t \<longrightarrow> (\<exists>x\<in>D. comp t ! x = k)"
    using assms(1) by (simp_all add: comp_ok_def)
  have D: "comp t' ! x = comp t ! x" "comp t' ! x < total t" "0 \<le> comp t' ! x" if "x \<in> D" for x using that I(4) assms(9) by auto
  have P: "comp t' ! x = total t" if "x \<in> P" for x using that assms(8) by blast
  have no_way: "(x, y) \<notin> A\<^sup>*" if "x \<in> D" "y \<in> P" for x y using closed_rtrancl [OF _ I(1) that(1)] that(2) assms(5) by blast
  have "A `` (D \<union> P) \<subseteq> D \<union> P" using I(1) assms(6) by blast
  moreover have "total t' \<le> int (card (D \<union> P))"
  proof -
    have "insert v D \<subseteq> D \<union> P" "v \<notin> D" using assms(3,5) by auto
    then have "Suc (card D) \<le> card (D \<union> P)" using card_mono [of "D \<union> P" "insert v D"] assms(2,4) by simp
    with I(3) assms(10) show ?thesis by simp
  qed
  moreover have "\<forall>x\<in>D \<union> P. 0 \<le> comp t' ! x \<and> comp t' ! x < total t'" using D P I(2) assms(10) by force
  moreover have "comp t' ! x = comp t' ! y \<longleftrightarrow> (x, y) \<in> A\<^sup>* \<and> (y, x) \<in> A\<^sup>*" if "x \<in> D \<union> P" "y \<in> D \<union> P" for x y
  proof (cases "x \<in> D"; cases "y \<in> D")
    assume xy: "x \<in> D" "y \<in> D"
    then show ?thesis using I(5) by (simp add: D(1))
  next
    assume xy: "x \<in> D" "y \<notin> D"
    then show ?thesis using that D(2) [of x] P [of y] no_way [of x y] by auto
  next
    assume xy: "x \<notin> D" "y \<in> D"
    then show ?thesis using that D(2) [of y] P [of x] no_way [of y x] by auto
  next
    assume xy: "x \<notin> D" "y \<notin> D"
    then show ?thesis using that P assms(7) by auto
  qed
  moreover have "comp t' ! y \<le> comp t' ! x" if x: "x \<in> D \<union> P" and y: "(x, y) \<in> A" for x y
  proof (cases "x \<in> D")
    case True
    then have "y \<in> D" "comp t ! y \<le> comp t ! x" using y I(1,6) by auto
    with True show ?thesis by (simp add: D(1))
  next
    case False
    then have "x \<in> P" "y \<in> P \<union> D" using x y assms(6) by auto
    then show ?thesis using P D(2) [of y] by force
  qed
  moreover have "\<exists>x\<in>D \<union> P. comp t' ! x = k" if k: "0 \<le> k" "k < total t'" for k
  proof (cases "k < total t")
    case True
    then obtain x where "x \<in> D" "comp t ! x = k" using I(7) k(1) by blast
    then show ?thesis using D(1) by auto
  next
    case False
    then have "k = total t" using k(2) assms(10) by simp
    then show ?thesis using P assms(3) by blast
  qed
  ultimately show ?thesis using I(2) assms(10) by (simp add: comp_ok_def)
qed

lemma cut_mutual:
  assumes "reach_ok A (v # G) t" and "stack_ok A (v # G) B t" and "cut_at v t upper lower"
    and "x \<in> insert v (set upper)" and "y \<in> insert v (set upper)"
  shows "(x, y) \<in> A\<^sup>*"
proof -
  have up: "z \<in> set (tstack t)" "dtime t v \<le> dtime t z" if "z \<in> insert v (set upper)" for z
    using that assms(3) by (auto simp: cut_at_def)
  obtain h where h: "h \<in> set (v # G)" "(x, h) \<in> A\<^sup>*" using assms(1) up(1) [OF assms(4)] unfolding reach_ok_def by blast
  have "dtime t h \<le> dtime t v" using h(1) assms(2) by (auto simp: stack_ok_def)
  then have "dtime t h \<le> dtime t y" using up(2) [OF assms(5)] by linarith
  then have "(h, y) \<in> A\<^sup>*" using assms(1) h(1) up(1) [OF assms(5)] unfolding reach_ok_def by blast
  with h(2) show ?thesis by (rule rtrancl_trans)
qed

lemma keep_inv:
  assumes "tarjan_inv g (v # G) B t" and "arcs g `` {v} \<subseteq> set (v # G) \<union> B" and "oldest_root (arcs g) v t r" and "r \<noteq> v"
  shows "tarjan_inv g G (insert v B) (t\<lparr>root := (root t)[v := r]\<rparr>)"
proof -
  let ?t = "t\<lparr>root := (root t)[v := r]\<rparr>"
  from assms(1) have I: "distinct (v # G)" "set (v # G) \<inter> B = {}" "set (v # G) \<union> B \<subseteq> {..<capacity g}" "maps_ok (capacity g) t"
    "stack_ok (arcs g) (v # G) B t" "reach_ok (arcs g) (v # G) t" "root_ok (arcs g) (v # G) t"
    "comp_ok (arcs g) (set (v # G) \<union> B - set (tstack t)) t"
    by (simp_all add: tarjan_inv_def)
  have N: "set G \<union> insert v B = set (v # G) \<union> B" by auto
  have v: "v < capacity g" "v \<notin> set G" using I(1,3) by auto
  have "successively (\<lambda>x y. (y, x) \<in> arcs g) G" using I(5) by (cases G) (auto simp: stack_ok_def)
  then have "stack_ok (arcs g) G (insert v B) ?t" using I(5) assms(2) unfolding stack_ok_def N by auto
  moreover have "comp_ok (arcs g) (set G \<union> insert v B - set (tstack ?t)) ?t"
    unfolding N using I(8) by (auto intro: comp_ok_cong)
  moreover have "distinct G" "set G \<inter> insert v B = {}" "set G \<union> insert v B \<subseteq> {..<capacity g}" using I(1-3) by auto
  ultimately show ?thesis
    unfolding tarjan_inv_def
    using keep_reach [OF I(6,5) assms(3,4)] keep_root [OF I(7,5) assms(3,4) v(2) I(4) v(1)] keep_lookup(7) [OF I(4) v(1)] by blast
qed

lemma pop_inv:
  assumes "tarjan_inv g (v # G) B t" and "arcs g `` {v} \<subseteq> set (v # G) \<union> B" and "oldest_root (arcs g) v t v"
    and "int (capacity g) < LONG_MAX"
  shows "\<exists>t'. tarjan_pop v (tstack t) t = Inr t' \<and> tarjan_inv g G (insert v B) (t'\<lparr>total := total t' + 1\<rparr>)"
proof -
  let ?A = "arcs g"
  from assms(1) have I: "distinct (v # G)" "set (v # G) \<inter> B = {}" "set (v # G) \<union> B \<subseteq> {..<capacity g}" "maps_ok (capacity g) t"
    "stack_ok ?A (v # G) B t" "reach_ok ?A (v # G) t" "root_ok ?A (v # G) t"
    "comp_ok ?A (set (v # G) \<union> B - set (tstack t)) t"
    by (simp_all add: tarjan_inv_def)
  let ?D = "set (v # G) \<union> B - set (tstack t)"
  have S: "v \<in> set (tstack t)" "set (tstack t) \<subseteq> set (v # G) \<union> B" using I(5) by (auto simp: stack_ok_def)
  obtain upper lower where cut: "cut_at v t upper lower" using cut_exists [OF I(5) S(1)] .
  then have st: "tstack t = upper @ v # lower" "v \<notin> set upper" by (auto simp: cut_at_def)
  let ?P = "insert v (set upper)"
  have range: "set upper \<subseteq> {..<capacity g}" "v < capacity g" using st(1) S(2) I(3) by auto
  obtain t1 where t1: "tarjan_pop v (tstack t) t = Inr t1" "maps_ok (capacity g) t1" "popped v upper lower t (t1\<lparr>total := total t1 + 1\<rparr>)"
    using tarjan_pop_run [OF I(4) range st(2), of lower] unfolding st(1) popped_def by auto
  let ?t = "t1\<lparr>total := total t1 + 1\<rparr>"
  have small: "total t < LONG_MAX"
  proof -
    have "card ?D \<le> card {..<capacity g}" using I(3) by (intro card_mono) auto
    then show ?thesis using I(8) assms(4) by (simp add: comp_ok_def)
  qed
  have lower_old: "x \<notin> set lower" if "x \<in> ?P" for x using that cut by (force simp: cut_at_def)
  have closed: "?A `` ?P \<subseteq> ?P \<union> ?D"
    using cut_closed [OF I(7,5) assms(3) cut assms(2)] unfolding st(1) by auto
  have D: "set G \<union> insert v B - set (tstack ?t) = ?D \<union> ?P"
    using t1(3) lower_old S(2) unfolding popped_def st(1) by auto
  have "\<forall>x\<in>?D. comp ?t ! x = comp t ! x" "\<forall>x\<in>?P. comp ?t ! x = total t" "total ?t = total t + 1"
    using t1(3) unfolding popped_def st(1) by auto
  moreover have "?P \<inter> ?D = {}" "finite ?D" using finite_subset [OF I(3)] by (auto simp: st(1))
  ultimately have "comp_ok ?A (?D \<union> ?P) ?t"
    using I(8) closed cut_mutual [OF I(6,5) cut] by (intro pop_comp [of _ _ t v]) auto
  moreover have "distinct G" "set G \<inter> insert v B = {}" "set G \<union> insert v B \<subseteq> {..<capacity g}" "v \<notin> set G" using I(1-3) by auto
  moreover have "maps_ok (capacity g) ?t" using t1(2) by (simp add: maps_ok_def)
  ultimately have "tarjan_inv g G (insert v B) ?t"
    unfolding tarjan_inv_def D
    using pop_stack [OF I(5) cut t1(3) assms(2) small] pop_reach [OF I(6) cut t1(3)] pop_root [OF I(7,5) assms(3) cut t1(3)] by blast
  with t1(1) show ?thesis by blast
qed

lemma finish_inv:
  assumes "tarjan_inv g (v # G) B t" and "edges_ok g" and "arcs g `` {v} \<subseteq> set (v # G) \<union> B" and "int (capacity g) < LONG_MAX"
  shows "\<exists>t'. tarjan_finish g v t = Inr t' \<and> tarjan_inv g G (insert v B) t'"
proof -
  obtain r where run: "tarjan_edges v (out_edges g v) t = Inr (t\<lparr>root := (root t)[v := r]\<rparr>)" and r: "oldest_root (arcs g) v t r"
    using finish_edges [OF assms(1-3)] by blast
  have v: "root t ! v = v" "v < length (root t)" using assms(1) by (simp_all add: tarjan_inv_def root_ok_def maps_ok_def)
  show ?thesis
  proof (cases "r = v")
    case True
    with v have "t\<lparr>root := (root t)[v := r]\<rparr> = t" by (metis list_update_id tarjan.surjective tarjan.update_convs(2))
    with run True v pop_inv [OF assms(1,3) _ assms(4)] r show ?thesis by (auto simp: tarjan_finish_def am_get_def)
  next
    case False
    with run v keep_inv [OF assms(1,3) r] show ?thesis by (simp add: tarjan_finish_def am_get_def)
  qed
qed

interpretation scc: dfs_client "tarjan_scc_visitor g" g "\<lambda>G B t. edges_ok g \<and> int (capacity g) < LONG_MAX \<and> tarjan_inv g G B t" for g
proof (unfold_locales, goal_cases)
  case (7 G B t v)
  then show ?case using discover_inv [of g G B t v] by (auto simp: tarjan_scc_visitor_def)
next
  case (8 v G B t)
  then show ?case using finish_inv [of g v G B t] by (auto simp: tarjan_scc_visitor_def)
qed (simp_all add: tarjan_scc_visitor_def default_dfs_visitor_def)

lemma tarjan_inv_init:
  assumes "length comps = capacity g + 1"
  shows "tarjan_inv g [] {} \<lparr>comp = comps, root = am_init null_vertex (AbstractMap_new 0 g), discover_time = AbstractMap_new 0 g,
    dfs_time = 0, tstack = [], total = 0\<rparr>"
  using assms by (simp add: tarjan_inv_def maps_ok_def am_init_def AbstractMap_new_def stack_ok_def reach_ok_def root_ok_def comp_ok_def)

lemma tarjan_inv_final:
  assumes "tarjan_inv g [] {..<capacity g} t"
  shows "comp_ok (arcs g) {..<capacity g} t" and "length (comp t) = capacity g + 1"
proof -
  have "tstack t = []" using assms by (cases "tstack t") (auto simp: tarjan_inv_def reach_ok_def)
  then show "comp_ok (arcs g) {..<capacity g} t" "length (comp t) = capacity g + 1"
    using assms by (simp_all add: tarjan_inv_def maps_ok_def)
qed

lemma ColorMap_new_cap: "n \<le> color_cap (ColorMap_new n)"
  by (simp add: color_cap_def ColorMap_new_def)

definition scc_numbering :: "('v, 'e) BaseGraph \<Rightarrow> int \<Rightarrow> int AbstractMap \<Rightarrow> bool" where
  "scc_numbering g n comps \<longleftrightarrow> length comps = capacity g + 1 \<and>
     (\<forall>u<capacity g. \<forall>v<capacity g. comps ! u = comps ! v \<longleftrightarrow> (u, v) \<in> (arcs g)\<^sup>* \<and> (v, u) \<in> (arcs g)\<^sup>*) \<and>
     (\<forall>(u, v)\<in>arcs g. comps ! v \<le> comps ! u) \<and>
     (!) comps ` {..<capacity g} = {0..<n}"

lemma comp_ok_numbering:
  assumes "comp_ok (arcs g) {..<capacity g} t" and "edges_ok g" and "length (comp t) = capacity g + 1"
  shows "scc_numbering g (total t) (comp t)"
proof -
  have "\<forall>(u, v)\<in>arcs g. u < capacity g" using arcs_range [OF assms(2)] by blast
  then have "\<forall>(u, v)\<in>arcs g. comp t ! v \<le> comp t ! u" using assms(1) by (auto simp: comp_ok_def)
  moreover have "(!) (comp t) ` {..<capacity g} = {0..<total t}"
    using assms(1) unfolding comp_ok_def by (auto simp: image_iff)
  ultimately show ?thesis using assms(1,3) by (simp add: scc_numbering_def comp_ok_def)
qed

lemma strong_components_run:
  assumes "edges_ok g" and "int (capacity g) < LONG_MAX" and "length comps = capacity g + 1"
  shows "\<exists>n comps'. strong_components g comps = Inr (n, comps') \<and> scc_numbering g n comps'"
proof -
  obtain cs' t where run: "depth_first_search g (tarjan_scc_visitor g) null_vertex (ColorMap_new (capacity g))
      \<lparr>comp = comps, root = am_init null_vertex (AbstractMap_new 0 g), discover_time = AbstractMap_new 0 g,
       dfs_time = 0, tstack = [], total = 0\<rparr> = Inr (cs', t)" and t: "tarjan_inv g [] {..<capacity g} t"
    by (rule scc.search [of g _ "ColorMap_new (capacity g)" null_vertex])
      (use assms tarjan_inv_init ColorMap_new_cap in auto)
  have "scc_numbering g (total t) (comp t)" using tarjan_inv_final [OF t] assms(1) by (intro comp_ok_numbering) simp_all
  with run show ?thesis by (simp add: strong_components_def)
qed

section \<open>The graph of the components is the quotient\<close>

definition component_edge :: "int \<Rightarrow> int \<Rightarrow> unit Edge" where
  "component_edge a b = \<lparr>source = nat a, target = nat b, edge_property = ()\<rparr>"

definition members :: "(nat list, 'f) BaseGraph \<Rightarrow> nat \<Rightarrow> nat list" where
  "members out k = vertex_property (vertices out ! k)"

lemma add_components_run:
  assumes "repr out {}" and "free_vertices out = []" and "\<forall>k<capacity out. members out k = []"
  shows "\<exists>out'. add_components n out = Inr out' \<and> repr out' {} \<and> capacity out' = capacity out + n \<and> (\<forall>k<capacity out'. members out' k = [])"
  using assms
proof (induction n arbitrary: out)
  case (Suc n)
  let ?out = "out\<lparr>graph_size := graph_size out + 1, free_vertices := [], vertices := vertices out @
    [\<lparr>vout_edges = [], vin_edges = [], vertex_property = [], vempty = False\<rparr>]\<rparr>"
  have "add_vertex [] out = Inr (capacity out, ?out)" using Suc.prems(2) by (simp add: add_vertex_def Let_def capacity_def)
  moreover have cap: "capacity ?out = Suc (capacity out)" by (simp add: capacity_def)
  moreover have "repr ?out {}" using Suc.prems(1)
    by (auto simp: repr_def out_edges_def in_edges_def capacity_def nth_append less_Suc_eq split: if_splits)
  moreover have "\<forall>k<capacity ?out. members ?out k = []" unfolding cap using Suc.prems(3)
    by (auto simp: members_def capacity_def nth_append less_Suc_eq)
  ultimately show ?case using Suc.IH [of ?out] by auto
qed auto

lemma component_edges_run:
  assumes "repr out E" and "0 \<le> v2" and "nat v2 < capacity out"
    and "\<forall>e\<in>set es. target e < length comps \<and> 0 \<le> comps ! target e \<and> nat (comps ! target e) < capacity out"
  shows "\<exists>out'. component_edges comps v2 es out = Inr out' \<and>
    repr out' (E \<union> {component_edge v2 (comps ! target e) | e. e \<in> set es \<and> comps ! target e \<noteq> v2}) \<and> capacity out' = capacity out \<and>
    (\<forall>k. members out' k = members out k)"
  using assms
proof (induction es arbitrary: out E)
  case (Cons e es)
  let ?c = "comps ! target e"
  have c: "am_get (target e) comps = Inr ?c" "nat ?c < capacity out" using Cons.prems(4) by (simp_all add: am_get_def)
  show ?case
  proof (cases "v2 = ?c")
    case True
    have "{component_edge v2 (comps ! target f) | f. f \<in> set (e # es) \<and> comps ! target f \<noteq> v2} =
        {component_edge v2 (comps ! target f) | f. f \<in> set es \<and> comps ! target f \<noteq> v2}" using True by auto
    then show ?thesis using Cons.IH [OF Cons.prems(1-3)] Cons.prems(4) c True by simp
  next
    case False
    obtain out1 where out1: "add_edge (nat v2) (nat ?c) () out = Inr out1" "repr out1 (insert (component_edge v2 ?c) E)" "capacity out1 = capacity out"
      by (rule add_edge_step [OF Cons.prems(1,3) c(2) refl, of "()"]) (auto simp: component_edge_def)
    have "\<forall>k. members out1 k = members out k" using add_edge_property [OF out1(1)] by (simp add: members_def)
    moreover have "insert (component_edge v2 ?c) E \<union> {component_edge v2 (comps ! target f) | f. f \<in> set es \<and> comps ! target f \<noteq> v2} =
      E \<union> {component_edge v2 (comps ! target f) | f. f \<in> set (e # es) \<and> comps ! target f \<noteq> v2}" using False by auto
    ultimately show ?thesis using Cons.IH [OF out1(2) Cons.prems(2)] Cons.prems(3,4) out1(1,3) c(1) False by auto
  qed
qed auto

lemma upd_property_repr:
  assumes "repr out E"
  shows "repr (upd_vertex k (\<lambda>x. x\<lparr>vertex_property := f (vertex_property x)\<rparr>) out) E"
proof -
  let ?out = "upd_vertex k (\<lambda>x. x\<lparr>vertex_property := f (vertex_property x)\<rparr>) out"
  have "out_edges ?out = out_edges out" "in_edges ?out = in_edges out"
    by (simp_all add: fun_eq_iff edges_upd vout_edges_nth vin_edges_nth)
  then show ?thesis using assms by (simp add: repr_def)
qed

definition component_edges_of :: "('v, 'e) BaseGraph \<Rightarrow> int AbstractMap \<Rightarrow> nat \<Rightarrow> unit Edge set" where
  "component_edges_of g comps v = {component_edge (comps ! v) (comps ! w) | w. (v, w) \<in> arcs g \<and> comps ! w \<noteq> comps ! v}"

lemma component_vertices_run:
  assumes "repr out E" and "\<forall>v<capacity g. 0 \<le> comps ! v \<and> nat (comps ! v) < capacity out" and "length comps = capacity g + 1"
    and "set vs \<subseteq> {..<capacity g}" and "edges_ok g"
  shows "\<exists>out'. component_vertices g comps vs out = Inr out' \<and> repr out' (E \<union> (\<Union>v\<in>set vs. component_edges_of g comps v)) \<and>
    capacity out' = capacity out \<and>
    (\<forall>k<capacity out. members out' k = members out k @ filter (\<lambda>v. comps ! v = int k) vs)"
  using assms
proof (induction vs arbitrary: out E)
  case (Cons v vs)
  let ?c = "comps ! v"
  let ?out = "upd_vertex (nat ?c) (\<lambda>x. x\<lparr>vertex_property := vertex_property x @ [v]\<rparr>) out"
  have v: "v < capacity g" "0 \<le> ?c" "nat ?c < capacity out" "set vs \<subseteq> {..<capacity g}" using Cons.prems(2,4) by auto
  have get: "am_get v comps = Inr ?c" using v(1) Cons.prems(3) by (simp add: am_get_def)
  have "\<forall>e\<in>set (out_edges g v). target e < capacity g" using Cons.prems(5) by (auto simp: edges_ok_def)
  then have "\<forall>e\<in>set (out_edges g v). target e < length comps \<and> 0 \<le> comps ! target e \<and> nat (comps ! target e) < capacity ?out"
    using Cons.prems(2,3) by auto
  moreover have "repr ?out E" by (rule upd_property_repr [OF Cons.prems(1)])
  ultimately obtain out1 where out1: "component_edges comps ?c (out_edges g v) ?out = Inr out1"
    "repr out1 (E \<union> {component_edge ?c (comps ! target e) | e. e \<in> set (out_edges g v) \<and> comps ! target e \<noteq> ?c})"
    "capacity out1 = capacity out" "\<forall>k. members out1 k = members ?out k"
    using component_edges_run [of ?out E ?c "out_edges g v" comps] v by auto
  have edges: "{component_edge ?c (comps ! target e) | e. e \<in> set (out_edges g v) \<and> comps ! target e \<noteq> ?c} = component_edges_of g comps v"
    by (auto simp: component_edges_of_def arcs_def)
  have mem: "members out1 k = members out k @ (if ?c = int k then [v] else [])" if "k < capacity out" for k
    using out1(4) v(2) that by (auto simp: members_def upd_vertex_def capacity_def nth_list_update)
  obtain out2 where out2: "component_vertices g comps vs out1 = Inr out2"
    "repr out2 ((E \<union> component_edges_of g comps v) \<union> (\<Union>v\<in>set vs. component_edges_of g comps v))" "capacity out2 = capacity out"
    "\<forall>k<capacity out. members out2 k = members out1 k @ filter (\<lambda>v. comps ! v = int k) vs"
    using Cons.IH [OF out1(2) _ Cons.prems(3) v(4) Cons.prems(5)] Cons.prems(2) unfolding edges out1(3) by blast
  have "component_vertices g comps (v # vs) out = Inr out2" using get v(3) out1(1) out2(1) by simp
  moreover have "\<forall>k<capacity out. members out2 k = members out k @ filter (\<lambda>v. comps ! v = int k) (v # vs)"
    using out2(4) mem by auto
  moreover have "E \<union> (\<Union>v\<in>set (v # vs). component_edges_of g comps v) =
      (E \<union> component_edges_of g comps v) \<union> (\<Union>v\<in>set vs. component_edges_of g comps v)" by auto
  ultimately show ?case using out2(2,3) by metis
qed auto

text \<open>
  The result: the members of a component in ascending order, and the edges of the quotient, which lead from higher to lower numbers.
\<close>

definition quotient_graph :: "('v, 'e) BaseGraph \<Rightarrow> int \<Rightarrow> int AbstractMap \<Rightarrow> (nat list, unit) BaseGraph \<Rightarrow> bool" where
  "quotient_graph g n comps out \<longleftrightarrow> scc_numbering g n comps \<and> capacity out = nat n \<and>
     repr out (\<Union>v<capacity g. component_edges_of g comps v) \<and>
     (\<forall>k<capacity out. members out k = filter (\<lambda>v. comps ! v = int k) [0..<capacity g])"

lemma strong_components_graph_run:
  assumes "edges_ok g" and "int (capacity g) < LONG_MAX"
  shows "\<exists>n comps out. strong_components_graph g empty_graph = Inr (n, out) \<and> quotient_graph g n comps out"
proof -
  obtain n comps where run: "strong_components g (AbstractMap_new 0 g) = Inr (n, comps)" and num: "scc_numbering g n comps"
    using strong_components_run [OF assms, of "AbstractMap_new 0 g"] by (auto simp: AbstractMap_new_def)
  have "repr (empty_graph :: (nat list, unit) BaseGraph) {}" "capacity (empty_graph :: (nat list, unit) BaseGraph) = 0"
    "free_vertices (empty_graph :: (nat list, unit) BaseGraph) = []"
    by (simp_all add: empty_graph_def repr_def out_edges_def in_edges_def capacity_def)
  then obtain out1 :: "(nat list, unit) BaseGraph" where out1: "add_components (nat n) empty_graph = Inr out1" "repr out1 {}" "capacity out1 = nat n" "\<forall>k<nat n. members out1 k = []"
    using add_components_run [of "empty_graph :: (nat list, unit) BaseGraph" "nat n"] by auto
  have range: "\<forall>v<capacity g. 0 \<le> comps ! v \<and> nat (comps ! v) < capacity out1"
  proof (intro allI impI)
    fix v assume "v < capacity g"
    then have "comps ! v \<in> {0..<n}" using num unfolding scc_numbering_def by blast
    then show "0 \<le> comps ! v \<and> nat (comps ! v) < capacity out1" using out1(3) by auto
  qed
  have len: "length comps = capacity g + 1" using num by (simp add: scc_numbering_def)
  obtain out2 where out2: "component_vertices g comps (vertex_set g) out1 = Inr out2"
    "repr out2 ({} \<union> (\<Union>v\<in>set (vertex_set g). component_edges_of g comps v))" "capacity out2 = capacity out1"
    "\<forall>k<capacity out1. members out2 k = members out1 k @ filter (\<lambda>v. comps ! v = int k) (vertex_set g)"
    using component_vertices_run [OF out1(2) range len _ assms(1), of "vertex_set g"] by (auto simp: vertex_set_def atLeast0LessThan)
  have "strong_components_graph g empty_graph = Inr (n, out2)"
    using run out1(1) out2(1) by (simp add: strong_components_graph_def)
  moreover have "quotient_graph g n comps out2"
    using num out1(3,4) out2(2-4) by (simp add: quotient_graph_def vertex_set_def atLeast0LessThan)
  ultimately show ?thesis by blast
qed

text \<open>
  C21: Tarjan's algorithm ends without error on every graph with consistent edges and fewer than \<^verbatim>\<open>LONG_MAX\<close> vertices. Two vertices get the same number exactly
  when each reaches the other; the numbers used are 0 up to the returned count; and an edge never leads to a higher number, so the
  numbering is a reverse topological order of the components.
\<close>

theorem strong_components_correct:
  assumes "edges_ok g" and "int (capacity g) < LONG_MAX" and "length comps = capacity g + 1"
  shows "\<exists>n comps'. strong_components g comps = Inr (n, comps') \<and> length comps' = capacity g + 1 \<and>
    (\<forall>u<capacity g. \<forall>v<capacity g. comps' ! u = comps' ! v \<longleftrightarrow> (u, v) \<in> (arcs g)\<^sup>* \<and> (v, u) \<in> (arcs g)\<^sup>*) \<and>
    (!) comps' ` {..<capacity g} = {0..<n} \<and>
    (\<forall>u v. (u, v) \<in> arcs g \<longrightarrow> comps' ! v \<le> comps' ! u)"
proof -
  obtain n comps' where "strong_components g comps = Inr (n, comps')" "scc_numbering g n comps'"
    using strong_components_run [OF assms] by blast
  then show ?thesis by (intro exI [of _ n] exI [of _ comps']) (auto simp: scc_numbering_def)
qed

text \<open>
  A graph of three vertices, two of which form a cycle.
\<close>

definition small_vertex :: "unit Edge list \<Rightarrow> unit Edge list \<Rightarrow> 'v \<Rightarrow> ('v, unit) VertexImpl" where
  "small_vertex outs ins x = \<lparr>vout_edges = outs, vin_edges = ins, vertex_property = x, vempty = False\<rparr>"

definition small_edge :: "nat \<Rightarrow> nat \<Rightarrow> unit Edge" where
  "small_edge u v = \<lparr>source = u, target = v, edge_property = ()\<rparr>"

lemma small_edge_ends [simp]: "source (small_edge u v) = u" "target (small_edge u v) = v"
  by (simp_all add: small_edge_def)

definition small_graph :: "(nat, unit) BaseGraph" where
  "small_graph = \<lparr>graph_size = 3, edge_size = 3, max_capacity = 0, free_vertices = [], vertices =
     [small_vertex [small_edge 0 1] [small_edge 1 0] 10,
      small_vertex [small_edge 1 0, small_edge 1 2] [small_edge 0 1] 11,
      small_vertex [] [small_edge 1 2] 12]\<rparr>"

lemma small_graph_facts:
  "capacity small_graph = 3"
  "out_edges small_graph v = (if v = 0 then [small_edge 0 1] else if v = 1 then [small_edge 1 0, small_edge 1 2] else [])"
  "in_edges small_graph v = (if v = 0 then [small_edge 1 0] else if v = 1 then [small_edge 0 1] else if v = 2 then [small_edge 1 2] else [])"
  by (auto simp: capacity_def out_edges_def in_edges_def small_graph_def small_vertex_def nth_Cons')

lemma small_graph_ok: "edges_ok small_graph" "arcs small_graph = {(0, 1), (1, 0), (1, 2)}"
proof -
  show "edges_ok small_graph" unfolding edges_ok_def by (auto simp: small_graph_facts small_edge_def split: if_splits)
  show "arcs small_graph = {(0, 1), (1, 0), (1, 2)}"
  proof (rule set_eqI)
    fix x :: "nat \<times> nat"
    have "target ` set (out_edges small_graph u) = (if u = 0 then {1} else if u = 1 then {0, 2} else {})" for u
      unfolding small_graph_facts(2) by (simp only: set_simps image_insert image_empty small_edge_ends split: if_split) simp
    then show "x \<in> arcs small_graph \<longleftrightarrow> x \<in> {(0, 1), (1, 0), (1, 2)}" by (cases x) (auto simp: arcs_iff)
  qed
qed

theorem strong_components_correct_witness:
  "\<exists>n comps'. strong_components small_graph [0, 0, 0, 0] = Inr (n, comps') \<and> comps' ! 0 = comps' ! 1 \<and> comps' ! 2 < comps' ! 0"
proof -
  obtain n comps' where run: "strong_components small_graph [0, 0, 0, 0] = Inr (n, comps')"
    and same: "\<forall>u<capacity small_graph. \<forall>v<capacity small_graph.
      comps' ! u = comps' ! v \<longleftrightarrow> (u, v) \<in> (arcs small_graph)\<^sup>* \<and> (v, u) \<in> (arcs small_graph)\<^sup>*"
    and order: "\<forall>u v. (u, v) \<in> arcs small_graph \<longrightarrow> comps' ! v \<le> comps' ! u"
    using strong_components_correct [of small_graph "[0, 0, 0, 0]"] by (auto simp: small_graph_ok(1) small_graph_facts LONG_MAX_def)
  have "(2, v) \<in> (arcs small_graph)\<^sup>* \<Longrightarrow> v = 2" for v
    by (erule converse_rtranclE) (auto simp: small_graph_ok(2))
  then have "(2, 1) \<notin> (arcs small_graph)\<^sup>*" by fastforce
  moreover have "(0, 1) \<in> (arcs small_graph)\<^sup>*" "(1, 0) \<in> (arcs small_graph)\<^sup>*" by (auto simp: small_graph_ok(2))
  ultimately have "comps' ! 0 = comps' ! 1" "comps' ! 2 \<noteq> comps' ! 1" "comps' ! 2 \<le> comps' ! 1"
    using same order by (auto simp: small_graph_facts small_graph_ok(2))
  with run show ?thesis by auto
qed

end
