(* ===== verification/Graph_Bottom_Up.thy ===== *)
theory Graph_Bottom_Up
  imports Graph_Scc
begin

text \<open>
  The bottom-up traversal of the linker (\<^verbatim>\<open>cali-linker/graph/algorithms.h\<close>): vertices are visited once all targets of their edges have been.
  It visits exactly the vertices that reach no cycle, each once and after its successors. Applied to the graph of the strongly
  connected components it gives the order in which the analysis passes treat the functions of a module.
\<close>

section \<open>The traversal\<close>

definition out_degree :: "('v, 'e) BaseGraph \<Rightarrow> nat \<Rightarrow> int" where
  "out_degree g u = int (length (out_edges g u))"

fun bottom_up_edges :: "('v, 'e) BaseGraph \<Rightarrow> 'e Edge list \<Rightarrow> int AbstractMap \<Rightarrow> nat list \<Rightarrow> (int AbstractMap \<times> nat list) outcome" where
  "bottom_up_edges g [] resolved Q = Inr (resolved, Q)"
| "bottom_up_edges g (e # es) resolved Q =
     bind_outcome (am_get (source e) resolved) (\<lambda>x.
       let r = x + 1 in
       bind_outcome (am_put (source e) r resolved) (\<lambda>resolved.
         bottom_up_edges g es resolved (if r = out_degree g (source e) then Q @ [source e] else Q)))"

text \<open>
  Every vertex is queued at most once by the counters: the queue together with the vertices whose counter is still below the number of their edges
  never grows.
\<close>

definition pending :: "('v, 'e) BaseGraph \<Rightarrow> int AbstractMap \<Rightarrow> nat set" where
  "pending g resolved = {u. u < length resolved \<and> resolved ! u < out_degree g u}"

lemma finite_pending [simp]: "finite (pending g resolved)"
  by (rule finite_subset [of _ "{..<length resolved}"]) (auto simp: pending_def)

lemma bottom_up_edges_pending:
  "bottom_up_edges g es resolved Q = Inr (resolved', Q') \<Longrightarrow>
    card (pending g resolved') + length Q' \<le> card (pending g resolved) + length Q"
proof (induction es arbitrary: resolved Q)
  case (Cons e es)
  let ?u = "source e"
  let ?r = "resolved ! ?u + 1"
  let ?Q = "if ?r = out_degree g ?u then Q @ [?u] else Q"
  from Cons.prems have u: "?u < length resolved" and run: "bottom_up_edges g es (resolved[?u := ?r]) ?Q = Inr (resolved', Q')"
    by (auto simp: bind_outcome_Inr_iff am_get_def am_put_def Let_def split: if_splits)
  have sub: "pending g (resolved[?u := ?r]) \<subseteq> pending g resolved" using u by (auto simp: pending_def nth_list_update split: if_splits)
  have "card (pending g (resolved[?u := ?r])) + length ?Q \<le> card (pending g resolved) + length Q"
  proof (cases "?r = out_degree g ?u")
    case True
    then have "?u \<in> pending g resolved" "?u \<notin> pending g (resolved[?u := ?r])" using u by (auto simp: pending_def)
    with sub have "pending g (resolved[?u := ?r]) \<subset> pending g resolved" by blast
    then have "card (pending g (resolved[?u := ?r])) < card (pending g resolved)" by (intro psubset_card_mono) simp
    with True show ?thesis by simp
  next
    case False
    then show ?thesis using card_mono [OF _ sub] by simp
  qed
  with Cons.IH [OF run] show ?case by linarith
qed auto

function bottom_up_loop :: "(nat \<Rightarrow> 's \<Rightarrow> 's) \<Rightarrow> ('v, 'e) BaseGraph \<Rightarrow> int AbstractMap \<Rightarrow> nat list \<Rightarrow> 's \<Rightarrow> 's outcome" where
  "bottom_up_loop visitor g resolved Q s =
     (case Q of
        [] \<Rightarrow> Inr s
      | v # Q' \<Rightarrow>
          bind_outcome (bottom_up_edges g (in_edges g v) resolved Q') (\<lambda>x.
            bottom_up_loop visitor g (fst x) (snd x) (visitor v s)))"
  by pat_completeness auto
termination
proof (relation "measure (\<lambda>(visitor, g, resolved, Q, s). card (pending g resolved) + length Q)", goal_cases)
  case (2 visitor g resolved Q s v Q' x)
  then show ?case using bottom_up_edges_pending [of g "in_edges g v" resolved Q' "fst x" "snd x"] by simp
qed simp

declare bottom_up_loop.simps [simp del]

definition bottom_up_traversal :: "('v, 'e) BaseGraph \<Rightarrow> (nat \<Rightarrow> 's \<Rightarrow> 's) \<Rightarrow> 's \<Rightarrow> 's outcome" where
  "bottom_up_traversal g visitor s =
     bottom_up_loop visitor g (am_init 0 (AbstractMap_new 0 g)) (filter (\<lambda>v. out_edges g v = []) (vertex_set g)) s"

section \<open>The order of the visits\<close>

lemma bottom_up_edges_run:
  assumes "\<forall>e\<in>set es. source e < length resolved"
  shows "\<exists>resolved' new. bottom_up_edges g es resolved Q = Inr (resolved', Q @ new) \<and> length resolved' = length resolved \<and>
    (\<forall>u. resolved' ! u = resolved ! u + int (length (filter (\<lambda>e. source e = u) es))) \<and> distinct new \<and>
    set new = {u. u < length resolved \<and> resolved ! u < out_degree g u \<and> out_degree g u \<le> resolved' ! u}"
  using assms
proof (induction es arbitrary: resolved Q)
  case (Cons e es)
  let ?u = "source e"
  let ?r = "resolved ! ?u + 1"
  let ?res = "resolved[?u := ?r]"
  let ?hit = "?r = out_degree g ?u"
  have u: "?u < length resolved" using Cons.prems by simp
  obtain res new where IH: "bottom_up_edges g es ?res (if ?hit then Q @ [?u] else Q) = Inr (res, (if ?hit then Q @ [?u] else Q) @ new)"
    "length res = length resolved" "\<forall>u. res ! u = ?res ! u + int (length (filter (\<lambda>e. source e = u) es))" "distinct new"
    "set new = {u. u < length resolved \<and> ?res ! u < out_degree g u \<and> out_degree g u \<le> res ! u}"
    using Cons.IH [of ?res "if ?hit then Q @ [?u] else Q"] Cons.prems by auto
  let ?new = "(if ?hit then [?u] else []) @ new"
  have "bottom_up_edges g (e # es) resolved Q = Inr (res, Q @ ?new)"
    using u IH(1) by (simp add: am_get_def am_put_def Let_def)
  moreover have cnt: "\<forall>w. res ! w = resolved ! w + int (length (filter (\<lambda>e. source e = w) (e # es)))"
    using IH(3) u by (simp add: nth_list_update)
  moreover have "?u \<notin> set new" if ?hit using that u IH(5) by simp
  moreover have "set ?new = {w. w < length resolved \<and> resolved ! w < out_degree g w \<and> out_degree g w \<le> res ! w}"
  proof (rule set_eqI)
    fix w
    show "w \<in> set ?new \<longleftrightarrow> w \<in> {w. w < length resolved \<and> resolved ! w < out_degree g w \<and> out_degree g w \<le> res ! w}"
      using IH(5) cnt u by (cases "w = ?u") auto
  qed
  ultimately show ?case using IH(2,4) by (intro exI [of _ res] exI [of _ ?new]) simp
qed auto

definition after_successors :: "('v, 'e) BaseGraph \<Rightarrow> nat list \<Rightarrow> bool" where
  "after_successors g vs \<longleftrightarrow> (\<forall>i<length vs. arcs g `` {vs ! i} \<subseteq> set (take i vs))"

lemma after_successors_snoc: "after_successors g vs \<Longrightarrow> arcs g `` {v} \<subseteq> set vs \<Longrightarrow> after_successors g (vs @ [v])"
  by (auto simp: after_successors_def nth_append less_Suc_eq)

text \<open>
  Between two rounds: \<^term>\<open>vs\<close> has been visited, the counters count the edges to visited vertices, and the queue holds the
  other vertices whose edges all lead to visited ones.
\<close>

definition traversal_inv :: "('v, 'e) BaseGraph \<Rightarrow> nat list \<Rightarrow> int AbstractMap \<Rightarrow> nat list \<Rightarrow> bool" where
  "traversal_inv g vs resolved Q \<longleftrightarrow> length resolved = capacity g + 1 \<and>
     (\<forall>u<capacity g. resolved ! u = int (length (filter (\<lambda>e. target e \<in> set vs) (out_edges g u)))) \<and>
     distinct (vs @ Q) \<and> set (vs @ Q) = {u. u < capacity g \<and> arcs g `` {u} \<subseteq> set vs} \<and> after_successors g vs"

lemma length_filter_all_iff: "length (filter P xs) = length xs \<longleftrightarrow> (\<forall>x\<in>set xs. P x)"
proof (induction xs)
  case (Cons x xs)
  have "length (filter P xs) \<noteq> Suc (length xs)" using length_filter_le [of P xs] by linarith
  with Cons show ?case by simp
qed simp

lemma all_resolved_iff:
  "length (filter (\<lambda>e. target e \<in> X) (out_edges g u)) < length (out_edges g u) \<longleftrightarrow> \<not> arcs g `` {u} \<subseteq> X"
proof -
  have "(\<forall>e\<in>set (out_edges g u). target e \<in> X) \<longleftrightarrow> arcs g `` {u} \<subseteq> X" by (auto simp: arcs_def)
  then show ?thesis using length_filter_all_iff [of "\<lambda>e. target e \<in> X" "out_edges g u"]
    length_filter_le [of "\<lambda>e. target e \<in> X" "out_edges g u"] by (simp add: nat_less_le)
qed

lemma edges_between:
  assumes "repr g E"
  shows "length (filter (\<lambda>e. target e = v) (out_edges g u)) = length (filter (\<lambda>e. source e = u) (in_edges g v))"
proof -
  have "distinct (out_edges g u)" "distinct (in_edges g v)" "set (filter (\<lambda>e. target e = v) (out_edges g u)) = set (filter (\<lambda>e. source e = u) (in_edges g v))"
    using assms by (auto simp: repr_def)
  then show ?thesis by (metis distinct_card distinct_filter)
qed

lemma traversal_step:
  assumes "traversal_inv g vs resolved (v # Q)" and "repr g E"
  shows "\<exists>resolved' Q'. bottom_up_edges g (in_edges g v) resolved Q = Inr (resolved', Q') \<and> traversal_inv g (vs @ [v]) resolved' Q'"
proof -
  have I: "length resolved = capacity g + 1"
    "\<forall>u<capacity g. resolved ! u = int (length (filter (\<lambda>e. target e \<in> set vs) (out_edges g u)))"
    "distinct (vs @ v # Q)" "set (vs @ v # Q) = {u. u < capacity g \<and> arcs g `` {u} \<subseteq> set vs}" "after_successors g vs"
    using assms(1) by (simp_all add: traversal_inv_def)
  have v: "v < capacity g" "arcs g `` {v} \<subseteq> set vs" "v \<notin> set vs" using I(3,4) by auto
  have "\<forall>e\<in>set (in_edges g v). source e < length resolved" using assms(2) I(1) by (auto simp: repr_def)
  then obtain resolved' new where run: "bottom_up_edges g (in_edges g v) resolved Q = Inr (resolved', Q @ new)"
    "length resolved' = length resolved" "\<forall>u. resolved' ! u = resolved ! u + int (length (filter (\<lambda>e. source e = u) (in_edges g v)))"
    "distinct new" "set new = {u. u < length resolved \<and> resolved ! u < out_degree g u \<and> out_degree g u \<le> resolved' ! u}"
    using bottom_up_edges_run [of "in_edges g v" resolved g Q] by blast
  have split: "length (filter (\<lambda>e. target e \<in> set (vs @ [v])) es) =
      length (filter (\<lambda>e. target e \<in> set vs) es) + length (filter (\<lambda>e. target e = v) es)" for es :: "'b Edge list"
    using v(3) by (induction es) auto
  have cnt: "resolved' ! u = int (length (filter (\<lambda>e. target e \<in> set (vs @ [v])) (out_edges g u)))" if "u < capacity g" for u
    using that I(2) run(3) edges_between [OF assms(2), of v u] split by simp
  have new: "set new = {u. u < capacity g \<and> \<not> arcs g `` {u} \<subseteq> set vs \<and> arcs g `` {u} \<subseteq> set (vs @ [v])}"
  proof (rule set_eqI)
    fix u
    show "u \<in> set new \<longleftrightarrow> u \<in> {u. u < capacity g \<and> \<not> arcs g `` {u} \<subseteq> set vs \<and> arcs g `` {u} \<subseteq> set (vs @ [v])}"
    proof (cases "u < capacity g")
      case True
      then have "resolved ! u < out_degree g u \<longleftrightarrow> \<not> arcs g `` {u} \<subseteq> set vs"
        "resolved' ! u < out_degree g u \<longleftrightarrow> \<not> arcs g `` {u} \<subseteq> set (vs @ [v])"
        using I(2) cnt unfolding out_degree_def by (simp_all only: of_nat_less_iff all_resolved_iff)
      then show ?thesis using True I(1) unfolding run(5) by (simp add: not_less [symmetric])
    next
      case False
      moreover have "out_degree g u = 0" "u \<in> set new \<Longrightarrow> u = capacity g" "filter (\<lambda>e. source e = u) (in_edges g v) = []"
        using False assms(2) I(1) unfolding run(5) by (auto simp: out_degree_def out_edges_def repr_def filter_empty_conv)
      ultimately show ?thesis using run(3) unfolding run(5) by auto
    qed
  qed
  have "distinct ((vs @ [v]) @ Q @ new)" using I(3,4) run(4) new by auto
  moreover have "set ((vs @ [v]) @ Q @ new) = {u. u < capacity g \<and> arcs g `` {u} \<subseteq> set (vs @ [v])}"
    using I(4) unfolding set_append new by auto
  moreover have "after_successors g (vs @ [v])" using I(5) v(2) by (rule after_successors_snoc)
  ultimately have "traversal_inv g (vs @ [v]) resolved' (Q @ new)"
    using I(1) run(2) cnt by (simp add: traversal_inv_def)
  with run(1) show ?thesis by blast
qed

lemma traversal_loop:
  assumes "traversal_inv g vs resolved Q" and "repr g E"
  shows "g' = g \<Longrightarrow> \<exists>us resolved'. bottom_up_loop visitor g' resolved Q s = Inr (fold visitor us s) \<and> traversal_inv g (vs @ us) resolved' []"
  using assms(1)
proof (induction visitor g' resolved Q s arbitrary: vs rule: bottom_up_loop.induct)
  case (1 visitor g' resolved Q s)
  show ?case
  proof (cases Q)
    case Nil
    then show ?thesis using "1.prems" by (intro exI [of _ "[]"] exI [of _ resolved]) (auto simp: bottom_up_loop.simps)
  next
    case (Cons v Q')
    obtain resolved' Q'' where step: "bottom_up_edges g (in_edges g v) resolved Q' = Inr (resolved', Q'')" "traversal_inv g (vs @ [v]) resolved' Q''"
      using traversal_step [OF "1.prems"(2) [unfolded Cons] assms(2)] by blast
    then obtain us res where "bottom_up_loop visitor g resolved' Q'' (visitor v s) = Inr (fold visitor us (visitor v s))"
        "traversal_inv g ((vs @ [v]) @ us) res []"
      using "1.IH" [OF Cons, of "(resolved', Q'')" "vs @ [v]"] "1.prems"(1) by auto
    then show ?thesis using step(1) Cons "1.prems"(1) by (intro exI [of _ "v # us"]) (auto simp: bottom_up_loop.simps [of _ _ _ "v # Q'"])
  qed
qed

lemma traversal_init:
  "traversal_inv g [] (am_init 0 (AbstractMap_new 0 g)) (filter (\<lambda>v. out_edges g v = []) (vertex_set g))"
proof -
  have "arcs g `` {u} = {} \<longleftrightarrow> out_edges g u = []" for u by (auto simp: arcs_iff Image_singleton)
  then show ?thesis
    by (auto simp: traversal_inv_def am_init_def AbstractMap_new_def vertex_set_def after_successors_def simp del: replicate_Suc)
qed

text \<open>
  A vertex is visited exactly when no cycle can be reached from it.
\<close>

lemma after_successors_trancl:
  assumes "after_successors g vs" and "distinct vs" and "(u, w) \<in> (arcs g)\<^sup>+" and "i < length vs" and "u = vs ! i"
  shows "\<exists>j<i. w = vs ! j"
  using assms(3,1,2,4,5)
proof (induction rule: trancl_induct)
  case (base w)
  then have "w \<in> set (take i vs)" by (auto simp: after_successors_def)
  then show ?case by (auto simp: in_set_conv_nth)
next
  case (step w x)
  then obtain j where j: "j < i" "w = vs ! j" by blast
  then have "j < length vs" using step.prems by simp
  then have "x \<in> set (take j vs)" using step(2) step.prems(1) j(2) by (auto simp: after_successors_def)
  with j(1) show ?case by (auto simp: in_set_conv_nth intro: less_trans)
qed

lemma visited_iff:
  assumes "traversal_inv g vs resolved []" and "edges_ok g" and "u < capacity g"
  shows "u \<in> set vs \<longleftrightarrow> \<not> (\<exists>w. (u, w) \<in> (arcs g)\<^sup>* \<and> (w, w) \<in> (arcs g)\<^sup>+)"
proof -
  let ?A = "arcs g"
  have I: "distinct vs" "set vs = {u. u < capacity g \<and> ?A `` {u} \<subseteq> set vs}" "after_successors g vs"
    using assms(1) by (simp_all add: traversal_inv_def)
  have closed: "?A `` set vs \<subseteq> set vs" using I(2) by blast
  have "\<not> (\<exists>w. (u, w) \<in> ?A\<^sup>* \<and> (w, w) \<in> ?A\<^sup>+)" if u: "u \<in> set vs"
  proof
    assume "\<exists>w. (u, w) \<in> ?A\<^sup>* \<and> (w, w) \<in> ?A\<^sup>+"
    then obtain w where w: "(u, w) \<in> ?A\<^sup>*" "(w, w) \<in> ?A\<^sup>+" by blast
    from closed_rtrancl [OF w(1) closed u] obtain i where i: "i < length vs" "w = vs ! i" by (auto simp: in_set_conv_nth)
    then obtain j where "j < i" "w = vs ! j" using after_successors_trancl [OF I(3,1) w(2)] by blast
    with i I(1) show False by (auto simp: nth_eq_iff_index_eq)
  qed
  moreover have "\<exists>w. (u, w) \<in> ?A\<^sup>* \<and> (w, w) \<in> ?A\<^sup>+" if u: "u \<notin> set vs"
  proof (rule ccontr)
    assume none: "\<nexists>w. (u, w) \<in> ?A\<^sup>* \<and> (w, w) \<in> ?A\<^sup>+"
    let ?X = "{x. (u, x) \<in> ?A\<^sup>*}"
    let ?R = "?A \<inter> ?X \<times> ?X"
    have "acyclic ?R" using none by (auto simp: acyclic_def dest: trancl_mono [of _ ?R ?A] tranclD)
    moreover have "finite ?R" by (rule finite_subset [of _ "{..<capacity g} \<times> {..<capacity g}"]) (use arcs_range [OF assms(2)] in auto)
    ultimately have wf: "wf (?R\<inverse>)" by (intro finite_acyclic_wf_converse)
    have "x \<in> ?X \<Longrightarrow> x < capacity g \<Longrightarrow> x \<in> set vs" for x
    proof (induction x rule: wf_induct [OF wf])
      case (1 x)
      have "y \<in> set vs" if y: "(x, y) \<in> ?A" for y
      proof -
        have "y \<in> ?X" using 1(2) y by (auto intro: rtrancl_into_rtrancl)
        then show ?thesis using 1 y arcs_range [OF assms(2) y] by auto
      qed
      with 1(3) I(2) show ?case by auto
    qed
    with u assms(3) show False by blast
  qed
  ultimately show ?thesis by blast
qed

text \<open>
  C23: The bottom-up traversal ends on every consistent graph, cyclic or not. It calls the visitor once for every vertex from which no cycle can be reached, in
  an order in which each vertex comes after all targets of its edges, and for no other vertex; on an acyclic graph it visits all.
\<close>

theorem bottom_up_traversal_order:
  assumes "repr g E"
  shows "\<exists>vs. bottom_up_traversal g visitor s = Inr (fold visitor vs s) \<and> distinct vs \<and>
    (\<forall>i<length vs. \<forall>w. (vs ! i, w) \<in> arcs g \<longrightarrow> w \<in> set (take i vs)) \<and>
    set vs = {u. u < capacity g \<and> \<not> (\<exists>w. (u, w) \<in> (arcs g)\<^sup>* \<and> (w, w) \<in> (arcs g)\<^sup>+)} \<and>
    (acyclic (arcs g) \<longrightarrow> set vs = {..<capacity g})"
proof -
  obtain vs resolved' where run: "bottom_up_traversal g visitor s = Inr (fold visitor vs s)" and inv: "traversal_inv g vs resolved' []"
    using traversal_loop [OF traversal_init assms refl, of visitor s] by (auto simp: bottom_up_traversal_def)
  have I: "distinct vs" "set vs \<subseteq> {..<capacity g}" "after_successors g vs" using inv by (auto simp: traversal_inv_def)
  have "set vs = {u. u < capacity g \<and> \<not> (\<exists>w. (u, w) \<in> (arcs g)\<^sup>* \<and> (w, w) \<in> (arcs g)\<^sup>+)}"
    using I(2) visited_iff [OF inv repr_edges_ok [OF assms]] by auto
  then show ?thesis using run I(1,3) by (intro exI [of _ vs]) (auto simp: after_successors_def acyclic_def)
qed

lemma small_graph_repr: "repr small_graph {small_edge 0 1, small_edge 1 0, small_edge 1 2}"
  by (auto simp: repr_def small_graph_facts small_edge_def)

theorem bottom_up_traversal_order_witness:
  "\<exists>vs. bottom_up_traversal small_graph (#) [] = Inr (fold (#) vs []) \<and> set vs = {2}"
proof -
  obtain vs where run: "bottom_up_traversal small_graph (#) [] = Inr (fold (#) vs [])"
    and vs: "set vs = {u. u < capacity small_graph \<and> \<not> (\<exists>w. (u, w) \<in> (arcs small_graph)\<^sup>* \<and> (w, w) \<in> (arcs small_graph)\<^sup>+)}"
    using bottom_up_traversal_order [OF small_graph_repr, of "(#)" "[]"] by blast
  have out: "(2, w) \<in> (arcs small_graph)\<^sup>* \<Longrightarrow> w = 2" for w
    by (erule converse_rtranclE) (auto simp: small_graph_ok(2))
  have "(2, 2) \<notin> (arcs small_graph)\<^sup>+" by (auto simp: small_graph_ok(2) dest: tranclD)
  with out have no: "\<nexists>w. (2, w) \<in> (arcs small_graph)\<^sup>* \<and> (w, w) \<in> (arcs small_graph)\<^sup>+" by blast
  have "(0, 1) \<in> arcs small_graph" "(1, 0) \<in> arcs small_graph" by (simp_all add: small_graph_ok(2))
  then have "(0, 0) \<in> (arcs small_graph)\<^sup>+" "(1, 1) \<in> (arcs small_graph)\<^sup>+" by (meson trancl.r_into_trancl trancl_into_trancl)+
  with no have "set vs = {2}" unfolding vs small_graph_facts(1) numeral_3_eq_3 less_Suc_eq by (auto simp: numeral_2_eq_2)
  with run show ?thesis by blast
qed

end
