(* ===== verification/Data_Driven_Scc.thy ===== *)
theory Data_Driven_Scc
  imports Graph_Bottom_Up Llvm_Ir Linker_Config
begin

text \<open>
  The pass that orders the functions of a module (\<^verbatim>\<open>cali-linker/passes/DataDrivenSCCPass.h\<close> and \<^verbatim>\<open>.cpp\<close>): the clusters of
  similar structures, the possible targets of indirect calls, the graph of the calls that transfer data, and its strongly connected
  components from callee to caller.
\<close>

section \<open>The call graph\<close>

record DataCallGraph =
  dgraph :: "(llvm_function, unit) BaseGraph"
  function_to_vertex :: "llvm_function \<rightharpoonup> nat"

definition DataCallGraph_new :: DataCallGraph where
  "DataCallGraph_new = \<lparr>dgraph = empty_graph, function_to_vertex = Map.empty\<rparr>"

definition dg_getVertex :: "llvm_function \<Rightarrow> DataCallGraph \<Rightarrow> (nat \<times> DataCallGraph) outcome" where
  "dg_getVertex f G =
     (case function_to_vertex G f of
        Some v \<Rightarrow> Inr (v, G)
      | None \<Rightarrow>
          bind_outcome (add_vertex f (dgraph G)) (\<lambda>(v, g).
            Inr (v, G\<lparr>dgraph := g, function_to_vertex := (function_to_vertex G)(f \<mapsto> v)\<rparr>)))"

definition dg_add_edge :: "nat \<Rightarrow> nat \<Rightarrow> DataCallGraph \<Rightarrow> DataCallGraph outcome" where
  "dg_add_edge v w G = bind_outcome (add_edge v w () (dgraph G)) (\<lambda>g. Inr (G\<lparr>dgraph := g\<rparr>))"

section \<open>State of the pass\<close>

record scc_pass =
  dataSCCs :: "llvm_function list list"
  maxSccSize :: int
  structClusters :: "nat \<rightharpoonup> int"
  possibleIndirectCallTargets :: "llvm_function list"
  possibleInstructionTargets :: "llvm_value \<rightharpoonup> llvm_function list"
  possibleFunctionCalls :: "llvm_function \<rightharpoonup> llvm_value list"

definition scc_pass_new :: scc_pass where
  "scc_pass_new = \<lparr>dataSCCs = [], maxSccSize = 0, structClusters = Map.empty, possibleIndirectCallTargets = [],
     possibleInstructionTargets = Map.empty, possibleFunctionCalls = Map.empty\<rparr>"

section \<open>Which calls and functions count\<close>

definition considerFunction :: "llvm \<Rightarrow> ContextConfig \<Rightarrow> llvm_function \<Rightarrow> bool" where
  "considerFunction L ctx f \<longleftrightarrow>
     function_name L f \<notin> set (ignoredFunctions ctx) \<and> functionBehavior ctx (function_name L f) = None"

definition meaningful_arg :: "llvm \<Rightarrow> llvm_value \<Rightarrow> bool" where
  "meaningful_arg L a \<longleftrightarrow> \<not> isIgnoredOperand L a \<and>
     \<not> (isEmptyTy L (value_type L a) \<or> value_type L a = IntTy 1 \<or> value_type L a = IntTy 8 \<or> isFloatingPointTy (value_type L a))"

definition considerCall :: "llvm \<Rightarrow> llvm_value \<Rightarrow> bool \<Rightarrow> bool" where
  "considerCall L call needsFunction =
     (if needsFunction \<and> getCalledFunction L call = None then False
      else
        let hasReturn = (0 < num_uses L call \<and> (isStructTy (value_type L call) \<or> isPointerTy (value_type L call)));
            hasMeaningfulArgs = list_ex (meaningful_arg L) (call_args L call)
        in hasReturn \<or> hasMeaningfulArgs)"

section \<open>Clusters of structures\<close>

text \<open>
  Two structures are compared field by field. Pointers to structures and contained structures are equal when they are in the same
  cluster so far.
\<close>

definition same_cluster :: "(nat \<rightharpoonup> int) \<Rightarrow> llvm_type \<Rightarrow> llvm_type \<Rightarrow> bool" where
  "same_cluster equality t1 t2 =
     (case (t1, t2) of
        (StructTy k1 _, StructTy k2 _) \<Rightarrow> equality k1 \<noteq> None \<and> equality k1 = equality k2
      | _ \<Rightarrow> False)"

definition field_equal :: "llvm \<Rightarrow> (nat \<rightharpoonup> int) \<Rightarrow> llvm_type \<Rightarrow> llvm_type \<Rightarrow> bool" where
  "field_equal L equality t1 t2 =
     (t1 = t2 \<or>
      (case (t1, t2) of
         (PtrTy k1, PtrTy k2) \<Rightarrow>
           isEmptyTy L (pointer_element L k1) \<or> isEmptyTy L (pointer_element L k2) \<or>
           same_cluster equality (pointer_element L k1) (pointer_element L k2)
       | _ \<Rightarrow> same_cluster equality t1 t2))"

definition struct_deep_equal :: "llvm \<Rightarrow> llvm_type list \<Rightarrow> llvm_type list \<Rightarrow> (nat \<rightharpoonup> int) \<Rightarrow> bool" where
  "struct_deep_equal L ts1 ts2 equality = list_all2 (field_equal L equality) ts1 ts2"

definition struct_elements :: "llvm \<Rightarrow> nat \<Rightarrow> llvm_type list" where
  "struct_elements L k = (case map_of (module_structs L) k of Some ts \<Rightarrow> ts | None \<Rightarrow> [])"

text \<open>
  The name without the number that LLVM appends to make it unique.
\<close>

definition name_stem :: "string \<Rightarrow> string" where
  "name_stem s = rev (dropWhile (\<lambda>c. c \<in> set ''.0123456789'') (rev s))"

record clustering =
  nameToCluster :: "string \<rightharpoonup> nat"
  clusters :: "nat list list"
  clusterOf :: "nat \<rightharpoonup> int"

text \<open>
  Sets of structures are iterated in the order of their addresses, for which the numbers stand.
\<close>

definition cluster_by_name :: "llvm \<Rightarrow> nat \<Rightarrow> clustering \<Rightarrow> clustering" where
  "cluster_by_name L st c =
     (let str = name_stem (getStructName L st) in
      case nameToCluster c str of
        Some i \<Rightarrow> c\<lparr>clusterOf := (clusterOf c)(st \<mapsto> int i), clusters := (clusters c)[i := insort_insert st (clusters c ! i)]\<rparr>
      | None \<Rightarrow>
          (let i = length (clusters c) in
           c\<lparr>clusters := clusters c @ [[st]], clusterOf := (clusterOf c)(st \<mapsto> int i), nameToCluster := (nameToCluster c)(str \<mapsto> i)\<rparr>))"

definition misfits :: "llvm \<Rightarrow> (nat \<rightharpoonup> int) \<Rightarrow> nat list \<Rightarrow> nat list" where
  "misfits L equality c =
     (case c of [] \<Rightarrow> [] | ref # sts \<Rightarrow>
        filter (\<lambda>st. \<not> struct_deep_equal L (struct_elements L st) (struct_elements L ref) equality) sts)"

lemma length_misfits: "c \<noteq> [] \<Longrightarrow> length (misfits L equality c) < length c"
  by (cases c) (auto simp: misfits_def le_imp_less_Suc)

text \<open>
  The second loop splits a cluster when members differ from the first one; the new cluster is appended and treated later in the
  same loop.
\<close>

function split_clusters :: "llvm \<Rightarrow> nat \<Rightarrow> clustering \<Rightarrow> clustering" where
  "split_clusters L i c =
     (if i < length (clusters c) then
        let new = misfits L (clusterOf c) (clusters c ! i) in
        if new = [] then split_clusters L (Suc i) c
        else split_clusters L (Suc i)
               (c\<lparr>clusters := clusters c @ [new],
                  clusterOf := (\<lambda>st. if st \<in> set new then Some (int (length (clusters c))) else clusterOf c st)\<rparr>)
      else c)"
  by pat_completeness auto
termination
proof (relation "measure (\<lambda>(L, i, c). sum_list (map (\<lambda>x. Suc (length x)) (drop i (clusters c))))", goal_cases)
  case (2 L i c new)
  then show ?case by (simp add: Cons_nth_drop_Suc [symmetric])
next
  case (3 L i c new)
  then have "length new < length (clusters c ! i)" using length_misfits by (cases "clusters c ! i") (auto simp: misfits_def le_imp_less_Suc)
  with 3(1) show ?case by (simp add: Cons_nth_drop_Suc [symmetric])
qed simp

declare split_clusters.simps [simp del]

definition analyzeStructs :: "llvm \<Rightarrow> scc_pass \<Rightarrow> scc_pass" where
  "analyzeStructs L s =
     (let c = fold (cluster_by_name L) (map fst (module_structs L)) \<lparr>nameToCluster = Map.empty, clusters = [], clusterOf = structClusters s\<rparr>;
          c = split_clusters L 0 c
      in s\<lparr>structClusters := clusterOf c\<rparr>)"

section \<open>Targets of indirect calls\<close>

text \<open>
  Compatible types. The recursion follows pointers; the fuel bounds the length of a chain of pointers. A structure without a cluster is
  looked up past the end of the map.
\<close>

definition cluster_lookup :: "(nat \<rightharpoonup> int) \<Rightarrow> nat \<Rightarrow> int outcome" where
  "cluster_lookup cl k = (case cl k of Some c \<Rightarrow> Inr c | None \<Rightarrow> Inl Undefined_behaviour)"

definition isVoidPtr2 :: "llvm \<Rightarrow> llvm_type \<Rightarrow> bool" where
  "isVoidPtr2 L t = (case t of PtrTy k \<Rightarrow> isEmptyTy L (pointer_element L k) \<and> isStructTy (pointer_element L k) | _ \<Rightarrow> False)"

fun isCompatible :: "nat \<Rightarrow> llvm \<Rightarrow> (nat \<rightharpoonup> int) \<Rightarrow> llvm_type \<Rightarrow> llvm_type \<Rightarrow> bool outcome" where
  "isCompatible 0 L cl t1 t2 = Inl Out_of_fuel"
| "isCompatible (Suc n) L cl t1 t2 =
     (case t1 of
        VoidTy \<Rightarrow> Inr (t2 = VoidTy)
      | IntTy w \<Rightarrow> Inr (t2 = IntTy w)
      | FloatTy \<Rightarrow> Inr (t2 = FloatTy \<or> t2 = DoubleTy)
      | DoubleTy \<Rightarrow> Inr (t2 = FloatTy \<or> t2 = DoubleTy)
      | FunctionTy _ _ _ \<Rightarrow> Inr (isFunctionTy t2)
      | PtrTy k1 \<Rightarrow>
          (case t2 of
             PtrTy k2 \<Rightarrow>
               if isVoidPtr2 L t1 \<or> isVoidPtr2 L t2 then Inr True
               else isCompatible n L cl (pointer_element L k1) (pointer_element L k2)
           | _ \<Rightarrow> Inr False)
      | ArrayTy _ e1 \<Rightarrow> (case t2 of ArrayTy _ e2 \<Rightarrow> isCompatible n L cl e1 e2 | _ \<Rightarrow> Inr False)
      | StructTy k1 _ \<Rightarrow>
          (case t2 of
             StructTy k2 _ \<Rightarrow> bind_outcome (cluster_lookup cl k1) (\<lambda>c1. bind_outcome (cluster_lookup cl k2) (\<lambda>c2. Inr (c1 = c2)))
           | _ \<Rightarrow> Inr False)
      | _ \<Rightarrow> Inr True)"

fun compatible_params :: "nat \<Rightarrow> llvm \<Rightarrow> (nat \<rightharpoonup> int) \<Rightarrow> llvm_type list \<Rightarrow> llvm_type list \<Rightarrow> bool outcome" where
  "compatible_params n L cl (t1 # ts1) (t2 # ts2) =
     bind_outcome (isCompatible n L cl t1 t2) (\<lambda>b. if b then compatible_params n L cl ts1 ts2 else Inr False)"
| "compatible_params n L cl _ _ = Inr True"

definition isCompatibleCallType :: "nat \<Rightarrow> llvm \<Rightarrow> (nat \<rightharpoonup> int) \<Rightarrow> llvm_type \<times> llvm_type list \<times> bool \<Rightarrow> llvm_type \<times> llvm_type list \<times> bool \<Rightarrow>
    bool outcome" where
  "isCompatibleCallType n L cl callType functionType =
     (case (callType, functionType) of ((r1, ps1, va1), (r2, ps2, va2)) \<Rightarrow>
        if \<not> va1 \<and> length ps1 < length ps2 then Inr False
        else if \<not> va2 \<and> length ps2 < length ps1 then Inr False
        else bind_outcome (isCompatible n L cl r1 r2) (\<lambda>b. if b then compatible_params n L cl ps1 ps2 else Inr False))"

definition called_type :: "llvm \<Rightarrow> llvm_value \<Rightarrow> (llvm_type \<times> llvm_type list \<times> bool) option" where
  "called_type L call =
     (case value_type L (called_value L call) of
        FunctionTy r ps va \<Rightarrow> Some (r, ps, va)
      | PtrTy k \<Rightarrow> (case pointer_element L k of FunctionTy r ps va \<Rightarrow> Some (r, ps, va) | _ \<Rightarrow> None)
      | _ \<Rightarrow> None)"

definition getPossibleIndirectCalls :: "llvm_function \<Rightarrow> scc_pass \<Rightarrow> llvm_value list \<times> scc_pass" where
  "getPossibleIndirectCalls f s =
     (case possibleFunctionCalls s f of
        Some vs \<Rightarrow> (vs, s)
      | None \<Rightarrow> ([], s\<lparr>possibleFunctionCalls := (possibleFunctionCalls s)(f \<mapsto> [])\<rparr>))"

fun indirect_targets :: "nat \<Rightarrow> llvm \<Rightarrow> llvm_value \<Rightarrow> llvm_type \<times> llvm_type list \<times> bool \<Rightarrow> llvm_function list \<Rightarrow> scc_pass \<Rightarrow>
    (llvm_function list \<times> scc_pass) outcome" where
  "indirect_targets n L call ft [] s = Inr ([], s)"
| "indirect_targets n L call ft (f # fs) s =
     bind_outcome (isCompatibleCallType n L (structClusters s) ft (function_type L f)) (\<lambda>b.
       if b then
         (let (vs, s) = getPossibleIndirectCalls f s;
              s = s\<lparr>possibleFunctionCalls := (possibleFunctionCalls s)(f \<mapsto> vs @ [call])\<rparr>
          in bind_outcome (indirect_targets n L call ft fs s) (\<lambda>(ts, s). Inr (f # ts, s)))
       else indirect_targets n L call ft fs s)"

definition getPossibleIndirectFunctions :: "nat \<Rightarrow> llvm \<Rightarrow> llvm_value \<Rightarrow> scc_pass \<Rightarrow> (llvm_function list \<times> scc_pass) outcome" where
  "getPossibleIndirectFunctions n L call s =
     (case possibleInstructionTargets s call of
        Some ts \<Rightarrow> Inr (ts, s)
      | None \<Rightarrow>
          bind_outcome
            (case called_type L call of
               Some ft \<Rightarrow> indirect_targets n L call ft (possibleIndirectCallTargets s) s
             | None \<Rightarrow> Inr ([], s))
            (\<lambda>(ts, s). Inr (ts, s\<lparr>possibleInstructionTargets := (possibleInstructionTargets s)(call \<mapsto> ts)\<rparr>)))"

section \<open>The pass\<close>

definition is_call :: "llvm \<Rightarrow> llvm_value \<Rightarrow> bool" where
  "is_call L v \<longleftrightarrow> kind L v = CallInst \<or> kind L v = InvokeInst"

text \<open>
  A direct call of the function \<^term>\<open>f\<close> with vertex \<^term>\<open>v\<close> adds an edge from the caller.
\<close>

definition add_call :: "llvm \<Rightarrow> ContextConfig \<Rightarrow> llvm_function \<Rightarrow> nat \<Rightarrow> llvm_value \<Rightarrow> DataCallGraph \<Rightarrow> DataCallGraph outcome" where
  "add_call L ctx f v call G =
     (if is_call L call \<and> getCalledFunction L call = Some f \<and> \<not> isDeclaration L f then
        case instruction_function L call of
          None \<Rightarrow> Inl Undefined_behaviour
        | Some caller \<Rightarrow>
            if considerCall L call True \<and> considerFunction L ctx caller then
              bind_outcome (dg_getVertex caller G) (\<lambda>(w, G). dg_add_edge w v G)
            else Inr G
      else Inr G)"

fun add_calls :: "llvm \<Rightarrow> ContextConfig \<Rightarrow> llvm_function \<Rightarrow> nat \<Rightarrow> llvm_value list \<Rightarrow> DataCallGraph \<Rightarrow> DataCallGraph outcome" where
  "add_calls L ctx f v [] G = Inr G"
| "add_calls L ctx f v (u # us) G = bind_outcome (add_call L ctx f v u G) (add_calls L ctx f v us)"

definition function_calls :: "llvm \<Rightarrow> ContextConfig \<Rightarrow> llvm_function \<Rightarrow> DataCallGraph \<Rightarrow> DataCallGraph outcome" where
  "function_calls L ctx f G =
     (if \<not> isDeclaration L f \<and> considerFunction L ctx f then
        bind_outcome (dg_getVertex f G) (\<lambda>(v, G). add_calls L ctx f v (users L (function_value L f)) G)
      else Inr G)"

definition indirect_user :: "llvm \<Rightarrow> llvm_value \<Rightarrow> bool" where
  "indirect_user L u \<longleftrightarrow> \<not> (is_call L u \<or> kind L u = GlobalVariable \<or> kind L u = ICmpInst)"

definition collect_indirect :: "llvm \<Rightarrow> llvm_function \<Rightarrow> scc_pass \<Rightarrow> scc_pass" where
  "collect_indirect L f s =
     (if list_ex (indirect_user L) (users L (function_value L f))
      then s\<lparr>possibleIndirectCallTargets := possibleIndirectCallTargets s @ [f]\<rparr> else s)"

fun direct_edges :: "llvm \<Rightarrow> YamlConfig \<Rightarrow> ContextConfig \<Rightarrow> llvm_function list \<Rightarrow> DataCallGraph \<times> scc_pass \<Rightarrow> (DataCallGraph \<times> scc_pass) outcome" where
  "direct_edges L config ctx [] (G, s) = Inr (G, s)"
| "direct_edges L config ctx (f # fs) (G, s) =
     bind_outcome (function_calls L ctx f G) (\<lambda>G.
       direct_edges L config ctx fs (G, if strongFPAnalysis config then collect_indirect L f s else s))"

fun add_targets :: "llvm \<Rightarrow> llvm_function \<Rightarrow> llvm_function list \<Rightarrow> DataCallGraph \<Rightarrow> DataCallGraph outcome" where
  "add_targets L f [] G = Inr G"
| "add_targets L f (f2 # fs) G =
     bind_outcome
       (if isDeclaration L f2 then Inr G
        else bind_outcome (dg_getVertex f G) (\<lambda>(v, G). bind_outcome (dg_getVertex f2 G) (\<lambda>(w, G). dg_add_edge v w G)))
       (add_targets L f fs)"

fun indirect_calls :: "nat \<Rightarrow> llvm \<Rightarrow> llvm_function \<Rightarrow> llvm_value list \<Rightarrow> DataCallGraph \<times> scc_pass \<Rightarrow> (DataCallGraph \<times> scc_pass) outcome" where
  "indirect_calls n L f [] x = Inr x"
| "indirect_calls n L f (ins # inss) (G, s) =
     bind_outcome
       (if is_call L ins \<and> getCalledFunction L ins = None \<and> considerCall L ins False then
          bind_outcome (getPossibleIndirectFunctions n L ins s) (\<lambda>(ts, s).
            bind_outcome (add_targets L f ts G) (\<lambda>G. Inr (G, s)))
        else Inr (G, s))
       (indirect_calls n L f inss)"

fun indirect_edges :: "nat \<Rightarrow> llvm \<Rightarrow> ContextConfig \<Rightarrow> llvm_function list \<Rightarrow> DataCallGraph \<times> scc_pass \<Rightarrow> (DataCallGraph \<times> scc_pass) outcome" where
  "indirect_edges n L ctx [] x = Inr x"
| "indirect_edges n L ctx (f # fs) x =
     bind_outcome (if considerFunction L ctx f then indirect_calls n L f (function_instructions L f) x else Inr x)
       (indirect_edges n L ctx fs)"

definition graph_function :: "DataCallGraph \<Rightarrow> nat \<Rightarrow> llvm_function" where
  "graph_function G v = vertex_property (vertices (dgraph G) ! v)"

text \<open>
  The visitor of the bottom-up traversal stores the functions of a component.
\<close>

definition store_scc :: "DataCallGraph \<Rightarrow> (nat list, unit) BaseGraph \<Rightarrow> nat \<Rightarrow> scc_pass \<Rightarrow> scc_pass" where
  "store_scc G sccGraph v s =
     (let fs = map (graph_function G) (members sccGraph v)
      in s\<lparr>maxSccSize := max (maxSccSize s) (int (length fs)), dataSCCs := dataSCCs s @ [fs]\<rparr>)"

definition scc_runOnModule :: "nat \<Rightarrow> llvm \<Rightarrow> YamlConfig \<Rightarrow> ContextConfig \<Rightarrow> scc_pass \<Rightarrow> (DataCallGraph \<times> scc_pass) outcome" where
  "scc_runOnModule n L config ctx s =
     (let s = s\<lparr>dataSCCs := []\<rparr>;
          s = (if strongFDAnalysis config \<or> strongFPAnalysis config then analyzeStructs L s else s)
      in bind_outcome (direct_edges L config ctx (module_functions L) (DataCallGraph_new, s)) (\<lambda>x.
           bind_outcome (indirect_edges n L ctx (module_functions L) x) (\<lambda>(G, s).
             bind_outcome (strong_components_graph (dgraph G) empty_graph) (\<lambda>(k, sccGraph).
               bind_outcome (bottom_up_traversal sccGraph (store_scc G sccGraph) s) (\<lambda>s. Inr (G, s))))))"

section \<open>The call graph is consistent\<close>

definition dg_inv :: "DataCallGraph \<Rightarrow> bool" where
  "dg_inv G \<longleftrightarrow> (\<exists>E. repr (dgraph G) E) \<and> free_vertices (dgraph G) = [] \<and>
     (\<forall>f v. function_to_vertex G f = Some v \<longleftrightarrow> v < capacity (dgraph G) \<and> graph_function G v = f)"

lemma dg_inv_new: "dg_inv DataCallGraph_new"
  by (auto simp: dg_inv_def DataCallGraph_new_def empty_graph_def repr_def out_edges_def in_edges_def capacity_def)

lemma dg_getVertex_inv:
  assumes "dg_inv G"
  obtains v G' where "dg_getVertex f G = Inr (v, G')" "dg_inv G'" "v < capacity (dgraph G')" "graph_function G' v = f"
    "function_to_vertex G \<subseteq>\<^sub>m function_to_vertex G'" "dom (function_to_vertex G') = insert f (dom (function_to_vertex G))"
    "arcs (dgraph G') = arcs (dgraph G)"
proof (cases "function_to_vertex G f")
  case (Some v)
  then have "dg_getVertex f G = Inr (v, G)" by (simp add: dg_getVertex_def)
  moreover have "v < capacity (dgraph G)" "graph_function G v = f" using assms Some by (simp_all add: dg_inv_def)
  moreover have "f \<in> dom (function_to_vertex G)" using Some by blast
  ultimately show thesis using assms by (intro that) (simp_all add: map_le_def insert_absorb)
next
  case None
  let ?g = "dgraph G"
  let ?g' = "?g\<lparr>graph_size := graph_size ?g + 1, free_vertices := [], vertices := vertices ?g @
    [\<lparr>vout_edges = [], vin_edges = [], vertex_property = f, vempty = False\<rparr>]\<rparr>"
  let ?G = "G\<lparr>dgraph := ?g', function_to_vertex := (function_to_vertex G)(f \<mapsto> capacity ?g)\<rparr>"
  obtain E where E: "repr ?g E" using assms by (auto simp: dg_inv_def)
  have free: "free_vertices ?g = []" using assms by (simp add: dg_inv_def)
  have run: "dg_getVertex f G = Inr (capacity ?g, ?G)"
    using None free by (simp add: dg_getVertex_def add_vertex_def Let_def capacity_def)
  have cap: "capacity ?g' = Suc (capacity ?g)" by (simp add: capacity_def)
  have repr: "repr ?g' E" using E
    by (auto simp: repr_def out_edges_def in_edges_def capacity_def nth_append less_Suc_eq split: if_splits)
  have gf: "graph_function ?G (capacity ?g) = f" "v < capacity ?g \<Longrightarrow> graph_function ?G v = graph_function G v" for v
    by (simp_all add: graph_function_def capacity_def nth_append)
  have "function_to_vertex ?G h = Some v \<longleftrightarrow> v < capacity ?g' \<and> graph_function ?G v = h" for h v
  proof (cases "v < capacity ?g")
    case True
    have old: "function_to_vertex G h = Some v \<longleftrightarrow> graph_function G v = h" for h using True assms by (simp add: dg_inv_def)
    then have "graph_function G v \<noteq> f" using None by force
    then show ?thesis using True gf(2) [OF True] old cap by auto
  next
    case False
    then have "function_to_vertex G h \<noteq> Some v" using assms by (simp add: dg_inv_def)
    with False gf(1) show ?thesis unfolding cap by (auto simp: less_Suc_eq)
  qed
  then have "dg_inv ?G" using repr unfolding dg_inv_def by auto
  moreover have "arcs ?g' = arcs ?g" using repr_arcs [OF repr] repr_arcs [OF E] by simp
  moreover have "function_to_vertex G \<subseteq>\<^sub>m function_to_vertex ?G" using None by (auto simp: map_le_def)
  ultimately show thesis using run gf(1) cap by (intro that [of "capacity ?g" ?G]) simp_all
qed

lemma dg_add_edge_inv:
  assumes "dg_inv G" and "v < capacity (dgraph G)" and "w < capacity (dgraph G)"
  obtains G' where "dg_add_edge v w G = Inr G'" "dg_inv G'" "function_to_vertex G' = function_to_vertex G" "capacity (dgraph G') = capacity (dgraph G)"
    "arcs (dgraph G') = insert (v, w) (arcs (dgraph G))"
proof -
  obtain E where E: "repr (dgraph G) E" using assms(1) by (auto simp: dg_inv_def)
  let ?e = "\<lparr>source = v, target = w, edge_property = ()\<rparr>"
  obtain g where g: "add_edge v w () (dgraph G) = Inr g" "repr g (insert ?e E)" "capacity g = capacity (dgraph G)" "free_vertices g = free_vertices (dgraph G)"
    by (rule add_edge_step [OF E assms(2,3) refl, of "()"]) (rule that)
  have "graph_function (G\<lparr>dgraph := g\<rparr>) u = graph_function G u" for u
    using add_edge_property [OF g(1)] by (simp add: graph_function_def)
  then have "dg_inv (G\<lparr>dgraph := g\<rparr>)" using assms(1) g by (auto simp: dg_inv_def)
  moreover have "arcs g = insert (v, w) (arcs (dgraph G))" by (simp add: repr_arcs [OF g(2)] repr_arcs [OF E])
  ultimately show thesis using g by (intro that [of "G\<lparr>dgraph := g\<rparr>"]) (simp_all add: dg_add_edge_def)
qed

text \<open>
  How the graph grows: vertices and edges stay, and all functions come from \<^term>\<open>F\<close>.
\<close>

definition grows :: "llvm_function set \<Rightarrow> DataCallGraph \<Rightarrow> DataCallGraph \<Rightarrow> bool" where
  "grows F G G' \<longleftrightarrow> dg_inv G' \<and> function_to_vertex G \<subseteq>\<^sub>m function_to_vertex G' \<and> arcs (dgraph G) \<subseteq> arcs (dgraph G') \<and>
     (dom (function_to_vertex G) \<subseteq> F \<longrightarrow> dom (function_to_vertex G') \<subseteq> F)"

definition calls :: "DataCallGraph \<Rightarrow> llvm_function \<Rightarrow> llvm_function \<Rightarrow> bool" where
  "calls G f h \<longleftrightarrow> (\<exists>v w. function_to_vertex G f = Some v \<and> function_to_vertex G h = Some w \<and> (v, w) \<in> arcs (dgraph G))"

lemma grows_refl: "dg_inv G \<Longrightarrow> grows F G G"
  by (simp add: grows_def)

lemma grows_trans [trans]: "grows F G G' \<Longrightarrow> grows F G' G'' \<Longrightarrow> grows F G G''"
  unfolding grows_def by (blast intro: map_le_trans)

lemma grows_inv: "grows F G G' \<Longrightarrow> dg_inv G'"
  by (simp add: grows_def)

lemma grows_vertex: "grows F G G' \<Longrightarrow> function_to_vertex G f = Some v \<Longrightarrow> function_to_vertex G' f = Some v"
  unfolding grows_def map_le_def by (metis domI)

lemma grows_calls: "grows F G G' \<Longrightarrow> calls G f h \<Longrightarrow> calls G' f h"
  unfolding calls_def using grows_vertex by (metis grows_def subsetD)

lemma dg_getVertex_grows:
  assumes "dg_inv G" and "f \<in> F"
  obtains v G' where "dg_getVertex f G = Inr (v, G')" "grows F G G'" "function_to_vertex G' f = Some v"
proof -
  obtain v G' where "dg_getVertex f G = Inr (v, G')" "dg_inv G'" "v < capacity (dgraph G')" "graph_function G' v = f"
    "function_to_vertex G \<subseteq>\<^sub>m function_to_vertex G'" "dom (function_to_vertex G') = insert f (dom (function_to_vertex G))"
    "arcs (dgraph G') = arcs (dgraph G)"
    using dg_getVertex_inv [OF assms(1)] .
  moreover from this have "function_to_vertex G' f = Some v" by (simp add: dg_inv_def)
  ultimately show thesis using assms(2) by (intro that) (simp_all add: grows_def)
qed

lemma dg_vertex_range: "dg_inv G \<Longrightarrow> function_to_vertex G f = Some v \<Longrightarrow> v < capacity (dgraph G) \<and> graph_function G v = f"
  by (simp add: dg_inv_def)

lemma dg_add_edge_grows:
  assumes "dg_inv G" and "function_to_vertex G f = Some v" and "function_to_vertex G h = Some w"
  obtains G' where "dg_add_edge v w G = Inr G'" "grows F G G'" "calls G' f h"
proof -
  have "v < capacity (dgraph G)" "w < capacity (dgraph G)" using dg_vertex_range [OF assms(1)] assms(2,3) by blast+
  then obtain G' where "dg_add_edge v w G = Inr G'" "dg_inv G'" "function_to_vertex G' = function_to_vertex G" "arcs (dgraph G') = insert (v, w) (arcs (dgraph G))"
    by (rule dg_add_edge_inv [OF assms(1)]) (rule that; assumption)
  with assms(2,3) show thesis by (intro that) (auto simp: grows_def calls_def)
qed

definition counted_call :: "llvm \<Rightarrow> ContextConfig \<Rightarrow> llvm_function \<Rightarrow> llvm_value \<Rightarrow> llvm_function \<Rightarrow> bool" where
  "counted_call L ctx f call caller \<longleftrightarrow> is_call L call \<and> getCalledFunction L call = Some f \<and> \<not> isDeclaration L f \<and>
     instruction_function L call = Some caller \<and> considerCall L call True \<and> considerFunction L ctx caller"

text \<open>
  Calls have a function around them, which is one of \<^term>\<open>F\<close>.
\<close>

definition placed :: "llvm \<Rightarrow> llvm_function set \<Rightarrow> llvm_value \<Rightarrow> bool" where
  "placed L F call \<longleftrightarrow> (\<exists>f\<in>F. instruction_function L call = Some f)"

lemma add_calls_grows:
  assumes "dg_inv G" and "function_to_vertex G f = Some v" and "\<forall>u\<in>set us. is_call L u \<longrightarrow> placed L F u"
  shows "\<exists>G'. add_calls L ctx f v us G = Inr G' \<and> grows F G G' \<and> (\<forall>u\<in>set us. \<forall>caller. counted_call L ctx f u caller \<longrightarrow> calls G' caller f)"
  using assms
proof (induction us arbitrary: G)
  case (Cons u us)
  have "\<exists>G1. add_call L ctx f v u G = Inr G1 \<and> grows F G G1 \<and> (\<forall>caller. counted_call L ctx f u caller \<longrightarrow> calls G1 caller f)"
  proof (cases "is_call L u \<and> getCalledFunction L u = Some f \<and> \<not> isDeclaration L f")
    case True
    then obtain caller where caller: "instruction_function L u = Some caller" "caller \<in> F" using Cons.prems(3) by (auto simp: placed_def)
    show ?thesis
    proof (cases "considerCall L u True \<and> considerFunction L ctx caller")
      case True2: True
      obtain w G1 where G1: "dg_getVertex caller G = Inr (w, G1)" "grows F G G1" "function_to_vertex G1 caller = Some w"
        using dg_getVertex_grows [OF Cons.prems(1) caller(2)] .
      obtain G2 where G2: "dg_add_edge w v G1 = Inr G2" "grows F G1 G2" "calls G2 caller f"
        by (rule dg_add_edge_grows [OF grows_inv [OF G1(2)] G1(3) grows_vertex [OF G1(2) Cons.prems(2)]])
      have "add_call L ctx f v u G = Inr G2" using True True2 caller(1) G1(1) G2(1) by (simp add: add_call_def)
      moreover have "grows F G G2" using G1(2) G2(2) by (rule grows_trans)
      ultimately show ?thesis using G2(3) caller(1) by (auto simp: counted_call_def)
    next
      case False
      with True caller(1) Cons.prems(1) show ?thesis by (auto simp: add_call_def counted_call_def grows_refl)
    qed
  next
    case False
    with Cons.prems(1) show ?thesis by (auto simp: add_call_def counted_call_def grows_refl)
  qed
  then obtain G1 where G1: "add_call L ctx f v u G = Inr G1" "grows F G G1" "\<forall>caller. counted_call L ctx f u caller \<longrightarrow> calls G1 caller f" by blast
  obtain G2 where G2: "add_calls L ctx f v us G1 = Inr G2" "grows F G1 G2"
      "\<forall>u\<in>set us. \<forall>caller. counted_call L ctx f u caller \<longrightarrow> calls G2 caller f"
    using Cons.IH [OF grows_inv [OF G1(2)] grows_vertex [OF G1(2) Cons.prems(2)]] Cons.prems(3) by auto
  have "\<forall>u'\<in>set (u # us). \<forall>caller. counted_call L ctx f u' caller \<longrightarrow> calls G2 caller f"
    using G1(3) G2(3) grows_calls [OF G2(2)] by auto
  moreover have "add_calls L ctx f v (u # us) G = Inr G2" using G1(1) G2(1) by simp
  ultimately show ?case using grows_trans [OF G1(2) G2(2)] by blast
qed (auto intro: grows_refl)

lemma function_calls_grows:
  assumes "dg_inv G" and "f \<in> F" and "\<forall>u\<in>set (users L (function_value L f)). is_call L u \<longrightarrow> placed L F u"
  shows "\<exists>G'. function_calls L ctx f G = Inr G' \<and> grows F G G' \<and>
    (\<not> isDeclaration L f \<and> considerFunction L ctx f \<longrightarrow> f \<in> dom (function_to_vertex G') \<and>
      (\<forall>u\<in>set (users L (function_value L f)). \<forall>caller. counted_call L ctx f u caller \<longrightarrow> calls G' caller f))"
proof (cases "\<not> isDeclaration L f \<and> considerFunction L ctx f")
  case True
  obtain v G1 where G1: "dg_getVertex f G = Inr (v, G1)" "grows F G G1" "function_to_vertex G1 f = Some v"
    using dg_getVertex_grows [OF assms(1,2)] .
  obtain G2 where G2: "add_calls L ctx f v (users L (function_value L f)) G1 = Inr G2" "grows F G1 G2"
      "\<forall>u\<in>set (users L (function_value L f)). \<forall>caller. counted_call L ctx f u caller \<longrightarrow> calls G2 caller f"
    using add_calls_grows [OF grows_inv [OF G1(2)] G1(3) assms(3)] by blast
  have "function_calls L ctx f G = Inr G2" using True G1(1) G2(1) by (simp add: function_calls_def)
  moreover have "f \<in> dom (function_to_vertex G2)" using grows_vertex [OF G2(2) G1(3)] by blast
  ultimately show ?thesis using grows_trans [OF G1(2) G2(2)] G2(3) by blast
next
  case False
  then show ?thesis using assms(1) by (auto simp: function_calls_def grows_refl)
qed

text \<open>
  What the first loop has to establish for the functions \<^term>\<open>fs\<close>.
\<close>

definition direct_ok :: "llvm \<Rightarrow> ContextConfig \<Rightarrow> llvm_function list \<Rightarrow> DataCallGraph \<Rightarrow> bool" where
  "direct_ok L ctx fs G \<longleftrightarrow> (\<forall>f\<in>set fs. \<not> isDeclaration L f \<and> considerFunction L ctx f \<longrightarrow> f \<in> dom (function_to_vertex G) \<and>
     (\<forall>u\<in>set (users L (function_value L f)). \<forall>caller. counted_call L ctx f u caller \<longrightarrow> calls G caller f))"

lemma direct_ok_mono: "direct_ok L ctx fs G \<Longrightarrow> grows F G G' \<Longrightarrow> direct_ok L ctx fs G'"
proof -
  assume "direct_ok L ctx fs G" "grows F G G'"
  then have "dom (function_to_vertex G) \<subseteq> dom (function_to_vertex G')" "\<And>f h. calls G f h \<Longrightarrow> calls G' f h"
    using grows_calls [OF \<open>grows F G G'\<close>] by (auto intro: grows_vertex)
  with \<open>direct_ok L ctx fs G\<close> show ?thesis unfolding direct_ok_def by (simp add: subset_iff)
qed

lemma direct_edges_grows:
  assumes "dg_inv G" and "set fs \<subseteq> F" and "\<forall>f\<in>set fs. \<forall>u\<in>set (users L (function_value L f)). is_call L u \<longrightarrow> placed L F u"
  shows "\<exists>G' s'. direct_edges L config ctx fs (G, s) = Inr (G', s') \<and> grows F G G' \<and> direct_ok L ctx fs G' \<and>
    dataSCCs s' = dataSCCs s \<and> (\<not> strongFPAnalysis config \<longrightarrow> s' = s)"
  using assms
proof (induction fs arbitrary: G s)
  case (Cons f fs)
  obtain G1 where G1: "function_calls L ctx f G = Inr G1" "grows F G G1" "direct_ok L ctx [f] G1"
  proof -
    have "f \<in> F" "\<forall>u\<in>set (users L (function_value L f)). is_call L u \<longrightarrow> placed L F u" using Cons.prems(2,3) by auto
    from function_calls_grows [OF Cons.prems(1) this, of ctx] show thesis using that by (auto simp: direct_ok_def)
  qed
  let ?s = "if strongFPAnalysis config then collect_indirect L f s else s"
  obtain G2 s2 where G2: "direct_edges L config ctx fs (G1, ?s) = Inr (G2, s2)" "grows F G1 G2" "direct_ok L ctx fs G2" "dataSCCs s2 = dataSCCs ?s"
      "\<not> strongFPAnalysis config \<longrightarrow> s2 = ?s"
    using Cons.IH [OF grows_inv [OF G1(2)], of ?s] Cons.prems(2,3) by auto
  have "direct_ok L ctx (f # fs) G2" using G2(3) direct_ok_mono [OF G1(3) G2(2)] by (simp add: direct_ok_def)
  moreover have "dataSCCs ?s = dataSCCs s" by (simp add: collect_indirect_def)
  ultimately show ?case using G1(1) G2 grows_trans [OF G1(2) G2(2)] by auto
qed (auto intro: grows_refl simp: direct_ok_def)

lemma add_targets_grows:
  assumes "dg_inv G" and "insert f (set fs) \<subseteq> F"
  shows "\<exists>G'. add_targets L f fs G = Inr G' \<and> grows F G G'"
  using assms
proof (induction fs arbitrary: G)
  case (Cons h fs)
  have "\<exists>G1. (if isDeclaration L h then Inr G
        else bind_outcome (dg_getVertex f G) (\<lambda>(v, G). bind_outcome (dg_getVertex h G) (\<lambda>(w, G). dg_add_edge v w G))) = Inr G1 \<and> grows F G G1"
  proof (cases "isDeclaration L h")
    case False
    have F: "f \<in> F" "h \<in> F" using Cons.prems(2) by auto
    obtain v G1 where G1: "dg_getVertex f G = Inr (v, G1)" "grows F G G1" "function_to_vertex G1 f = Some v"
      using dg_getVertex_grows [OF Cons.prems(1) F(1)] .
    obtain w G2 where G2: "dg_getVertex h G1 = Inr (w, G2)" "grows F G1 G2" "function_to_vertex G2 h = Some w"
      using dg_getVertex_grows [OF grows_inv [OF G1(2)] F(2)] .
    obtain G3 where G3: "dg_add_edge v w G2 = Inr G3" "grows F G2 G3"
      by (rule dg_add_edge_grows [OF grows_inv [OF G2(2)] grows_vertex [OF G2(2) G1(3)] G2(3)])
    show ?thesis using False G1(1) G2(1) G3(1) grows_trans [OF grows_trans [OF G1(2) G2(2)] G3(2)] by simp
  qed (use Cons.prems(1) in \<open>simp add: grows_refl\<close>)
  then obtain G1 where "(if isDeclaration L h then Inr G
        else bind_outcome (dg_getVertex f G) (\<lambda>(v, G). bind_outcome (dg_getVertex h G) (\<lambda>(w, G). dg_add_edge v w G))) = Inr G1" "grows F G G1" by blast
  with Cons.IH [OF grows_inv [OF \<open>grows F G G1\<close>]] Cons.prems(2) show ?case by (fastforce intro: grows_trans)
qed (auto intro: grows_refl)

text \<open>
  The second loop only grows the graph, whenever it returns; without the analysis of function pointers there are no targets and it always
  returns.
\<close>

lemma indirect_targets_sub: "indirect_targets n L call ft fs s = Inr (ts, s') \<Longrightarrow> set ts \<subseteq> set fs \<and> dataSCCs s' = dataSCCs s \<and>
    possibleIndirectCallTargets s' = possibleIndirectCallTargets s \<and> possibleInstructionTargets s' = possibleInstructionTargets s"
proof (induction fs arbitrary: s ts)
  case (Cons f fs)
  then show ?case
    by (fastforce simp: bind_outcome_Inr_iff getPossibleIndirectCalls_def split: if_splits prod.splits option.splits)
qed auto

definition targets_in :: "llvm_function set \<Rightarrow> scc_pass \<Rightarrow> bool" where
  "targets_in F s \<longleftrightarrow> set (possibleIndirectCallTargets s) \<subseteq> F \<and> (\<forall>ts\<in>ran (possibleInstructionTargets s). set ts \<subseteq> F)"

lemma getPossibleIndirectFunctions_sub:
  assumes "getPossibleIndirectFunctions n L call s = Inr (ts, s')" and "targets_in F s"
  shows "set ts \<subseteq> F \<and> targets_in F s' \<and> dataSCCs s' = dataSCCs s"
proof (cases "possibleInstructionTargets s call")
  case (Some ts')
  with assms show ?thesis by (auto simp: getPossibleIndirectFunctions_def targets_in_def ran_def)
next
  case None
  with assms(1) obtain s1 where s1: "(case called_type L call of Some ft \<Rightarrow> indirect_targets n L call ft (possibleIndirectCallTargets s) s
      | None \<Rightarrow> Inr ([], s)) = Inr (ts, s1)" "s' = s1\<lparr>possibleInstructionTargets := (possibleInstructionTargets s1)(call \<mapsto> ts)\<rparr>"
    by (auto simp: getPossibleIndirectFunctions_def bind_outcome_Inr_iff)
  then have "set ts \<subseteq> set (possibleIndirectCallTargets s)" "dataSCCs s1 = dataSCCs s" "possibleIndirectCallTargets s1 = possibleIndirectCallTargets s"
      "possibleInstructionTargets s1 = possibleInstructionTargets s"
    by (auto split: option.splits dest: indirect_targets_sub)
  with assms(2) s1(2) None show ?thesis by (auto simp: targets_in_def)
qed

lemma indirect_calls_grows:
  assumes "indirect_calls n L f inss (G, s) = Inr (G', s')" and "dg_inv G" and "f \<in> F" and "targets_in F s"
  shows "grows F G G' \<and> targets_in F s' \<and> dataSCCs s' = dataSCCs s"
  using assms
proof (induction inss arbitrary: G s)
  case (Cons ins inss)
  show ?case
  proof (cases "is_call L ins \<and> getCalledFunction L ins = None \<and> considerCall L ins False")
    case True
    with Cons.prems(1) obtain ts s1 G1 where 1: "getPossibleIndirectFunctions n L ins s = Inr (ts, s1)" "add_targets L f ts G = Inr G1"
        "indirect_calls n L f inss (G1, s1) = Inr (G', s')"
      by (auto simp: bind_outcome_Inr_iff)
    have s1: "set ts \<subseteq> F" "targets_in F s1" "dataSCCs s1 = dataSCCs s" using getPossibleIndirectFunctions_sub [OF 1(1) Cons.prems(4)] by auto
    then have "grows F G G1" using add_targets_grows [OF Cons.prems(2), of f ts F L] Cons.prems(3) 1(2) by simp
    with Cons.IH [OF 1(3) grows_inv Cons.prems(3) s1(2)] s1(3) show ?thesis using grows_trans by fastforce
  next
    case False
    with Cons show ?thesis by simp
  qed
qed (auto intro: grows_refl)

lemma indirect_edges_grows:
  assumes "indirect_edges n L ctx fs (G, s) = Inr (G', s')" and "dg_inv G" and "set fs \<subseteq> F" and "targets_in F s"
  shows "grows F G G' \<and> dataSCCs s' = dataSCCs s"
  using assms
proof (induction fs arbitrary: G s)
  case (Cons f fs)
  then obtain G1 s1 where 1: "(if considerFunction L ctx f then indirect_calls n L f (function_instructions L f) (G, s) else Inr (G, s)) = Inr (G1, s1)"
      "indirect_edges n L ctx fs (G1, s1) = Inr (G', s')"
    by (auto simp: bind_outcome_Inr_iff)
  have "grows F G G1" "targets_in F s1" "dataSCCs s1 = dataSCCs s"
    using 1(1) indirect_calls_grows [of n L f _ G s G1 s1 F] Cons.prems(2-4) grows_refl by (auto split: if_splits)
  with Cons.IH [OF 1(2) grows_inv] Cons.prems(3) show ?case using grows_trans by fastforce
qed (auto intro: grows_refl)

lemma indirect_edges_returns:
  assumes "possibleIndirectCallTargets s = []" and "possibleInstructionTargets s = Map.empty"
    and "dg_inv G"
  shows "\<exists>s'. indirect_edges n L ctx fs (G, s) = Inr (G, s')"
proof -
  define quiet :: "scc_pass \<Rightarrow> bool" where
    "quiet s \<longleftrightarrow> possibleIndirectCallTargets s = [] \<and> (\<forall>ts\<in>ran (possibleInstructionTargets s). ts = [])" for s
  have get: "\<exists>s'. getPossibleIndirectFunctions n L call s = Inr ([], s') \<and> quiet s'" if "quiet s" for call s
    using that by (auto simp: getPossibleIndirectFunctions_def quiet_def ran_def split: option.split)
  have calls: "\<exists>s'. indirect_calls n L f inss (G, s) = Inr (G, s') \<and> quiet s'" if "quiet s" for f inss s
    using that
  proof (induction inss arbitrary: s)
    case (Cons ins inss)
    obtain s1 where "getPossibleIndirectFunctions n L ins s = Inr ([], s1)" "quiet s1" using get [OF Cons.prems] by blast
    with Cons.IH Cons.prems show ?case by (auto simp: bind_outcome_def)
  qed auto
  have "\<exists>s'. indirect_edges n L ctx fs (G, s) = Inr (G, s') \<and> quiet s'" if "quiet s" for s
    using that
  proof (induction fs arbitrary: s)
    case (Cons f fs)
    obtain s1 where "indirect_calls n L f (function_instructions L f) (G, s) = Inr (G, s1)" "quiet s1" using calls [OF Cons.prems] by blast
    with Cons.IH Cons.prems show ?case by auto
  qed auto
  moreover have "quiet s" using assms by (simp add: quiet_def)
  ultimately show ?thesis by blast
qed

section \<open>The order of the components\<close>

lemma fold_store_scc:
  "dataSCCs (fold (store_scc G sccGraph) vs s) = dataSCCs s @ map (\<lambda>v. map (graph_function G) (members sccGraph v)) vs"
  by (induction vs arbitrary: s) (simp_all add: store_scc_def Let_def)

lemma quotient_edges_decrease:
  assumes "quotient_graph g n comps out" and "edges_ok g"
  shows "(a, b) \<in> arcs out \<Longrightarrow> b < a"
    and "(v, w) \<in> arcs g \<Longrightarrow> comps ! v \<noteq> comps ! w \<Longrightarrow> (nat (comps ! v), nat (comps ! w)) \<in> arcs out"
proof -
  have num: "scc_numbering g n comps" and E: "repr out (\<Union>v<capacity g. component_edges_of g comps v)"
    using assms(1) by (simp_all add: quotient_graph_def)
  have range: "0 \<le> comps ! v" if "v < capacity g" for v using num that by (auto simp: scc_numbering_def image_def)
  show "b < a" if ab: "(a, b) \<in> arcs out"
  proof -
    obtain v w where vw: "a = nat (comps ! v)" "b = nat (comps ! w)" "(v, w) \<in> arcs g" "comps ! w \<noteq> comps ! v"
      using ab unfolding repr_arcs [OF E] by (auto simp: component_edges_of_def component_edge_def)
    then have "comps ! w \<le> comps ! v" "0 \<le> comps ! w" using num range arcs_range [OF assms(2)] by (auto simp: scc_numbering_def)
    with vw show ?thesis by simp
  qed
  show "(nat (comps ! v), nat (comps ! w)) \<in> arcs out" if "(v, w) \<in> arcs g" "comps ! v \<noteq> comps ! w"
  proof -
    have "component_edge (comps ! v) (comps ! w) \<in> (\<Union>v<capacity g. component_edges_of g comps v)"
      using that arcs_range [OF assms(2) that(1)] unfolding component_edges_of_def by fastforce
    then show ?thesis unfolding repr_arcs [OF E] by (force simp: component_edge_def)
  qed
qed

lemma acyclic_decreasing: "(\<And>a b. (a, b) \<in> A \<Longrightarrow> b < (a :: nat)) \<Longrightarrow> acyclic A"
proof -
  assume dec: "\<And>a b. (a, b) \<in> A \<Longrightarrow> b < a"
  have "(a, b) \<in> A\<^sup>+ \<Longrightarrow> b < a" for a b by (induction rule: trancl_induct) (auto dest: dec)
  then show ?thesis by (auto simp: acyclic_def)
qed

text \<open>
  An order of the strongly connected components in which edges lead to the same or an earlier list.
\<close>

definition scc_order :: "(nat \<times> nat) set \<Rightarrow> nat \<Rightarrow> nat list list \<Rightarrow> bool" where
  "scc_order A n css \<longleftrightarrow> distinct (concat css) \<and> set (concat css) = {..<n} \<and>
     (\<forall>cs\<in>set css. \<forall>v\<in>set cs. \<forall>w. w < n \<longrightarrow> (w \<in> set cs \<longleftrightarrow> (v, w) \<in> A\<^sup>* \<and> (w, v) \<in> A\<^sup>*)) \<and>
     (\<forall>i<length css. \<forall>v\<in>set (css ! i). \<forall>w. (v, w) \<in> A \<longrightarrow> (\<exists>j\<le>i. w \<in> set (css ! j)))"

lemma quotient_scc_order:
  assumes q: "quotient_graph g n comps out" and ok: "edges_ok g" and vs: "distinct vs" "set vs = {..<capacity out}"
    and order: "\<forall>i<length vs. \<forall>w. (vs ! i, w) \<in> arcs out \<longrightarrow> w \<in> set (take i vs)"
  shows "scc_order (arcs g) (capacity g) (map (members out) vs)"
proof -
  have num: "scc_numbering g n comps" and cap: "capacity out = nat n" using q by (simp_all add: quotient_graph_def)
  have mem: "set (members out k) = {v. v < capacity g \<and> comps ! v = int k}" "distinct (members out k)" if "k < capacity out" for k
    using q that by (auto simp: quotient_graph_def)
  have comp: "0 \<le> comps ! v \<and> nat (comps ! v) < capacity out" if "v < capacity g" for v
  proof -
    have "comps ! v \<in> {0..<n}" using num that unfolding scc_numbering_def by blast
    then show ?thesis using cap by auto
  qed
  have "distinct (concat (map (members out) vs))"
  proof (rule distinct_concat)
    show "distinct (map (members out) vs)"
    proof (unfold distinct_map, intro conjI inj_onI)
      fix a b assume ab: "a \<in> set vs" "b \<in> set vs" "members out a = members out b"
      have "int a \<in> {0..<n}" using ab(1) vs(2) cap by auto
      then obtain v where "v < capacity g" "comps ! v = int a" using num unfolding scc_numbering_def by (metis (no_types) imageE lessThan_iff)
      then have "v \<in> set (members out b)" using ab mem(1) [of a] vs(2) by auto
      then show "a = b" using \<open>comps ! v = int a\<close> mem(1) [of b] ab(2) vs(2) by auto
    qed (rule vs(1))
    show "distinct ys" if "ys \<in> set (map (members out) vs)" for ys using that vs(2) mem(2) by auto
    show "set ys \<inter> set zs = {}" if "ys \<in> set (map (members out) vs)" "zs \<in> set (map (members out) vs)" "ys \<noteq> zs" for ys zs
      using that vs(2) mem(1) by auto
  qed
  moreover have "set (concat (map (members out) vs)) = {..<capacity g}"
    using vs(2) mem(1) comp by (auto simp: int_nat_eq) (metis int_nat_eq lessThan_iff mem_Collect_eq)
  moreover have "w \<in> set (members out k) \<longleftrightarrow> (v, w) \<in> (arcs g)\<^sup>* \<and> (w, v) \<in> (arcs g)\<^sup>*"
    if "k \<in> set vs" "v \<in> set (members out k)" "w < capacity g" for k v w
  proof -
    have v: "v < capacity g" "comps ! v = int k" and w: "w \<in> set (members out k) \<longleftrightarrow> comps ! w = int k" using that vs(2) mem(1) [of k] by auto
    have "comps ! v = comps ! w \<longleftrightarrow> (v, w) \<in> (arcs g)\<^sup>* \<and> (w, v) \<in> (arcs g)\<^sup>*" using num v(1) that(3) by (simp add: scc_numbering_def)
    with v(2) w show ?thesis by auto
  qed
  moreover have "\<exists>j\<le>i. w \<in> set (map (members out) vs ! j)" if i: "i < length vs" and v: "v \<in> set (members out (vs ! i))" and vw: "(v, w) \<in> arcs g" for i v w
  proof -
    have k: "vs ! i < capacity out" using i vs(2) nth_mem by blast
    then have v': "v < capacity g" "comps ! v = int (vs ! i)" using v mem(1) by auto
    have w: "w < capacity g" using arcs_range [OF ok vw] by simp
    show ?thesis
    proof (cases "comps ! v = comps ! w")
      case True
      with v' w mem(1) [OF k] i show ?thesis by auto
    next
      case False
      with quotient_edges_decrease(2) [OF q ok vw] v'(2) have "nat (comps ! w) \<in> set (take i vs)" using order i by auto
      then obtain j where j: "j < i" "vs ! j = nat (comps ! w)" by (auto simp: in_set_conv_nth)
      then have "w \<in> set (members out (vs ! j))" using w comp [OF w] mem(1) [of "vs ! j"] by auto
      with j(1) i show ?thesis by (intro exI [of _ j]) simp
    qed
  qed
  ultimately show ?thesis by (auto simp: scc_order_def)
qed

lemma dg_inj: "dg_inv G \<Longrightarrow> inj_on (graph_function G) {..<capacity (dgraph G)}"
  unfolding dg_inv_def by (rule inj_on_inverseI [of _ "\<lambda>f. the (function_to_vertex G f)"]) (metis lessThan_iff option.sel)

lemma dg_capacity:
  assumes "dg_inv G" and "dom (function_to_vertex G) \<subseteq> F" and "finite F"
  shows "capacity (dgraph G) \<le> card F"
proof -
  have "inj_on (graph_function G) {..<capacity (dgraph G)}" using assms(1) by (rule dg_inj)
  moreover have "graph_function G ` {..<capacity (dgraph G)} \<subseteq> F"
  proof
    fix f assume "f \<in> graph_function G ` {..<capacity (dgraph G)}"
    then obtain v where "v < capacity (dgraph G)" "f = graph_function G v" by blast
    then have "function_to_vertex G f = Some v" using assms(1) by (simp add: dg_inv_def)
    then show "f \<in> F" using assms(2) by blast
  qed
  ultimately show ?thesis using card_inj_on_le [of "graph_function G" "{..<capacity (dgraph G)}" F] assms(3) by simp
qed

lemma stored_order:
  assumes "dg_inv G" and order: "scc_order (arcs (dgraph G)) (capacity (dgraph G)) css" and sccs: "sccs = map (map (graph_function G)) css"
  shows "distinct (concat sccs)" and "function_to_vertex G f = Some v \<Longrightarrow> f \<in> set (concat sccs)"
    and "calls G caller f \<Longrightarrow> \<exists>i j. i \<le> j \<and> j < length sccs \<and> f \<in> set (sccs ! i) \<and> caller \<in> set (sccs ! j)"
proof -
  have css: "distinct (concat css)" "set (concat css) = {..<capacity (dgraph G)}" using order by (simp_all add: scc_order_def)
  have concat: "concat sccs = map (graph_function G) (concat css)" by (simp add: sccs map_concat)
  show "distinct (concat sccs)" using css dg_inj [OF assms(1)] by (simp add: concat distinct_map)
  show "f \<in> set (concat sccs)" if "function_to_vertex G f = Some v"
    using dg_vertex_range [OF assms(1) that] css(2) unfolding concat by force
  show "\<exists>i j. i \<le> j \<and> j < length sccs \<and> f \<in> set (sccs ! i) \<and> caller \<in> set (sccs ! j)" if "calls G caller f"
  proof -
    obtain v w where vw: "function_to_vertex G caller = Some v" "function_to_vertex G f = Some w" "(v, w) \<in> arcs (dgraph G)"
      using \<open>calls G caller f\<close> by (auto simp: calls_def)
    then have v: "v < capacity (dgraph G)" "graph_function G v = caller" "graph_function G w = f" using dg_vertex_range [OF assms(1)] by blast+
    then have "v \<in> set (concat css)" using css(2) by simp
    then obtain j where j: "j < length css" "v \<in> set (css ! j)" by (metis (no_types) in_set_conv_nth set_concat UN_E)
    with order vw(3) obtain i where "i \<le> j" "w \<in> set (css ! i)" unfolding scc_order_def by blast
    with j v(2,3) show ?thesis by (intro exI [of _ i] exI [of _ j]) (auto simp: sccs)
  qed
qed

lemma scc_traversal:
  assumes "dg_inv G" and "int (capacity (dgraph G)) < LONG_MAX"
  shows "\<exists>k sccGraph s' css. strong_components_graph (dgraph G) empty_graph = Inr (k, sccGraph) \<and>
    bottom_up_traversal sccGraph (store_scc G sccGraph) s = Inr s' \<and>
    dataSCCs s' = dataSCCs s @ map (map (graph_function G)) css \<and> scc_order (arcs (dgraph G)) (capacity (dgraph G)) css"
proof -
  obtain E where "repr (dgraph G) E" using assms(1) by (auto simp: dg_inv_def)
  then have ok: "edges_ok (dgraph G)" by (rule repr_edges_ok)
  obtain n comps out where run: "strong_components_graph (dgraph G) empty_graph = Inr (n, out)" and q: "quotient_graph (dgraph G) n comps out"
    using strong_components_graph_run [OF ok assms(2)] by blast
  have E: "repr out (\<Union>v<capacity (dgraph G). component_edges_of (dgraph G) comps v)" using q by (simp add: quotient_graph_def)
  obtain vs resolved where t: "bottom_up_traversal out (store_scc G out) s = Inr (fold (store_scc G out) vs s)" and inv: "traversal_inv out vs resolved []"
    using traversal_loop [OF traversal_init E refl, of "store_scc G out" s] by (auto simp: bottom_up_traversal_def)
  have acyclic: "acyclic (arcs out)" using quotient_edges_decrease(1) [OF q ok] by (rule acyclic_decreasing)
  have "set vs = {..<capacity out}"
    using visited_iff [OF inv repr_edges_ok [OF E]] acyclic inv by (auto simp: acyclic_def traversal_inv_def)
  moreover have "distinct vs" "after_successors out vs" using inv by (simp_all add: traversal_inv_def)
  ultimately have "scc_order (arcs (dgraph G)) (capacity (dgraph G)) (map (members out) vs)"
    by (intro quotient_scc_order [OF q ok]) (auto simp: after_successors_def)
  with run t show ?thesis by (intro exI conjI) (auto simp: fold_store_scc)
qed


text \<open>
  A module with the function 1, which is called in the function 0 with a pointer.
\<close>

definition two_functions :: llvm where
  "two_functions = empty_llvm\<lparr>module_functions := [0, 1], users := (\<lambda>_. [])(1 := [2]), kind := (\<lambda>_. OtherValue)(2 := CallInst),
     direct_callee := [2 \<mapsto> 1], instruction_function := [2 \<mapsto> 0], call_args := (\<lambda>_. [])(2 := [3]), value_type := (\<lambda>_. PtrTy 0)\<rparr>"


end
