(* ===== verification/Graph_Invariant.thy ===== *)
theory Graph_Invariant
  imports Graph_Search
begin

text \<open>
  Properties of the visited state that breadth-first search keeps, whatever the graph and the colour map are: what the callbacks of the visitor keep, a search
  that ends without error keeps.
\<close>

locale bfs_invariant =
  fixes vis :: "('s, 'v, 'e) bfs_visitor" and I :: "'s \<Rightarrow> bool"
  assumes discover_I: "I s \<Longrightarrow> I (snd (discover_vertex vis v s))"
    and want_I: "I s \<Longrightarrow> I (snd (is_wanted_vertex vis v s))"
    and examine_I: "I s \<Longrightarrow> I (examine_vertex vis v s)"
    and finish_I: "I s \<Longrightarrow> I (finish_vertex vis v s)"
    and backwards_I: "I s \<Longrightarrow> I (snd (examine_backwards_edge vis e s))"
    and forwards_I: "I s \<Longrightarrow> I (snd (examine_forwards_edge vis e s))"
    and tree_I: "I s \<Longrightarrow> I (tree_edge vis e s)"
    and finished_I: "I s \<Longrightarrow> I (finished vis s)"
begin

lemma enter_I:
  assumes "bfs_enter want vis v st = Inr (b, st')" and "I (s_state st)" and "\<And>v s. I s \<Longrightarrow> I (snd (want v s))"
  shows "I (s_state st')"
proof -
  obtain w s where w: "want v (s_state st) = (w, s)" by fastforce
  obtain d s2 where d: "discover_vertex vis v s = (d, s2)" by fastforce
  have "I s" using assms(3) [OF assms(2), of v] w by simp
  moreover from this have "I s2" using discover_I [of s v] d by simp
  ultimately show ?thesis using assms(1) w d by (auto simp: bfs_enter_def bind_outcome_Inr_iff split: if_splits)
qed

lemma sources_I:
  assumes "bfs_sources want vis ss st = Inr (b, st')" and "I (s_state st)" and "\<And>v s. I s \<Longrightarrow> I (snd (want v s))"
  shows "I (s_state st')"
  using assms(1,2)
proof (induction ss arbitrary: st)
  case (Cons s ss)
  then obtain f st1 where "bfs_enter want vis s st = Inr (f, st1)" "if f then st' = st1 else bfs_sources want vis ss st1 = Inr (b, st')"
    by (auto simp: bind_outcome_Inr_iff split: if_splits)
  then show ?case using enter_I [OF _ Cons.prems(2) assms(3)] Cons.IH by (auto split: if_splits)
qed simp

lemma edges_I:
  assumes "bfs_edges want vis examine far es st = Inr (b, st')" and "I (s_state st)" and "\<And>v s. I s \<Longrightarrow> I (snd (want v s))"
    and "\<And>e s. I s \<Longrightarrow> I (snd (examine e s))"
  shows "I (s_state st')"
  using assms(1,2)
proof (induction es arbitrary: st)
  case (Cons e es)
  obtain follow s where ex: "examine e (s_state st) = (follow, s)" by fastforce
  have s: "I s" using assms(4) [OF Cons.prems(2), of e] ex by simp
  let ?t = "st\<lparr>s_state := tree_edge vis e s\<rparr>"
  from Cons.prems(1) ex consider "bfs_edges want vis examine far es (st\<lparr>s_state := s\<rparr>) = Inr (b, st')"
    | f st1 where "bfs_enter want vis (far e) ?t = Inr (f, st1)" "if f then st' = st1 else bfs_edges want vis examine far es st1 = Inr (b, st')"
    by (auto simp: bind_outcome_Inr_iff Let_def split: if_splits)
  then show ?case
  proof cases
    case 1
    then show ?thesis using Cons.IH s by simp
  next
    case 2
    have "I (s_state st1)" using enter_I [OF 2(1) _ assms(3)] tree_I [OF s] by simp
    then show ?thesis using 2(2) Cons.IH by (auto split: if_splits)
  qed
qed simp

lemma finish_step_I: "bfs_finish vis u st = Inr st' \<Longrightarrow> I (s_state st) \<Longrightarrow> I (s_state st')"
  by (auto simp: bfs_finish_def bind_outcome_Inr_iff finish_I)

lemma never_I: "I s \<Longrightarrow> I (snd (never v s))"
  by (simp add: never_def)

lemma visit_twoway_I:
  assumes "bfs_visit_twoway vis u st = Inr (b, st')" and "I (s_state st)"
  shows "I (s_state st')"
proof -
  obtain f1 st1 where 1: "bfs_backward (is_wanted_vertex vis) vis u st = Inr (f1, st1)"
    using assms(1) by (auto simp: bfs_visit_twoway_def bind_outcome_Inr_iff)
  have I1: "I (s_state st1)" using edges_I [OF 1 [unfolded bfs_backward_def] assms(2) want_I backwards_I] .
  show ?thesis
  proof (cases f1)
    case False
    then obtain f2 st2 where 2: "bfs_forward (is_wanted_vertex vis) vis u st1 = Inr (f2, st2)"
      using assms(1) 1 by (auto simp: bfs_visit_twoway_def bind_outcome_Inr_iff)
    have "I (s_state st2)" using edges_I [OF 2 [unfolded bfs_forward_def] I1 want_I forwards_I] .
    then show ?thesis using assms(1) 1 2 False finish_step_I by (auto simp: bfs_visit_twoway_def bind_outcome_Inr_iff split: if_splits)
  qed (use assms(1) 1 I1 in \<open>simp add: bfs_visit_twoway_def\<close>)
qed

lemma visit_forward_I:
  assumes "bfs_visit_forward vis u st = Inr (b, st')" and "I (s_state st)"
  shows "I (s_state st')"
proof -
  obtain f st1 where 1: "bfs_forward never vis u st = Inr (f, st1)" "bfs_finish vis u st1 = Inr st'"
    using assms(1) by (auto simp: bfs_visit_forward_def bind_outcome_Inr_iff)
  have "I (s_state st1)" using edges_I [OF 1(1) [unfolded bfs_forward_def] assms(2) never_I forwards_I] .
  then show ?thesis using 1(2) finish_step_I by blast
qed

lemma pop_I: "I (s_state st) \<Longrightarrow> I (s_state (bfs_pop vis u Q st))"
  by (simp add: bfs_pop_def examine_I)

lemma loop_twoway_I: "bfs_twoway_loop vis st = Inr (b, st') \<Longrightarrow> I (s_state st) \<Longrightarrow> I (s_state st')"
proof (induction "work st" arbitrary: st rule: less_induct)
  case less
  show ?case
  proof (cases "s_queue st")
    case Nil
    then show ?thesis using less.prems finished_I by (auto simp: bfs_twoway_loop.simps [of vis st])
  next
    case (Cons u Q)
    then obtain f st1 where 1: "bfs_visit_twoway vis u (bfs_pop vis u Q st) = Inr (f, st1)" "if f then st' = st1 else bfs_twoway_loop vis st1 = Inr (b, st')"
      using less.prems(1) by (auto simp: bfs_twoway_loop.simps [of vis st] split: sum.splits prod.splits if_splits)
    have "I (s_state st1)" using visit_twoway_I [OF 1(1) pop_I [OF less.prems(2)]] .
    moreover have "work st1 < work st" using bfs_visit_work(1) [OF 1(1)] Cons by (simp add: bfs_pop_def work_def)
    ultimately show ?thesis using 1(2) less.hyps [of st1] by (auto split: if_splits)
  qed
qed

lemma loop_forward_I: "bfs_forward_loop vis st = Inr st' \<Longrightarrow> I (s_state st) \<Longrightarrow> I (s_state st')"
proof (induction "work st" arbitrary: st rule: less_induct)
  case less
  show ?case
  proof (cases "s_queue st")
    case Nil
    then show ?thesis using less.prems finished_I by (auto simp: bfs_forward_loop.simps [of vis st])
  next
    case (Cons u Q)
    then obtain f st1 where 1: "bfs_visit_forward vis u (bfs_pop vis u Q st) = Inr (f, st1)" "bfs_forward_loop vis st1 = Inr st'"
      using less.prems(1) by (auto simp: bfs_forward_loop.simps [of vis st] split: sum.splits prod.splits)
    have "I (s_state st1)" using visit_forward_I [OF 1(1) pop_I [OF less.prems(2)]] .
    moreover have "work st1 < work st" using bfs_visit_work(2) [OF 1(1)] Cons by (simp add: bfs_pop_def work_def)
    ultimately show ?thesis using 1(2) less.hyps [of st1] by blast
  qed
qed

lemma twoway_I: "breadth_first_search_twoway vis srcs cs s = Inr (b, cs', s') \<Longrightarrow> I s \<Longrightarrow> I s'"
  using sources_I [OF _ _ want_I] loop_twoway_I
  by (fastforce simp: breadth_first_search_twoway_def bind_outcome_Inr_iff split: if_splits)

lemma forward_I: "breadth_first_search_forward vis srcs cs s = Inr (cs', s') \<Longrightarrow> I s \<Longrightarrow> I s'"
  using sources_I [OF _ _ never_I] loop_forward_I
  by (fastforce simp: breadth_first_search_forward_def bind_outcome_Inr_iff split: if_splits)

end

section \<open>Every explored vertex is examined\<close>

text \<open>
  The state of the visitor remembers the examined vertices. A search that is not cut short examines all vertices that it finds and explores.
\<close>

locale bfs_examiner = bfs_visiting vis g inv bwd fwd explore wanted mark marks U
  for vis :: "('s, 'v, 'e) bfs_visitor"
    and g :: "('v, 'e) BaseGraph"
    and inv :: "'s \<Rightarrow> bool"
    and bwd fwd :: "'e Edge \<Rightarrow> bool"
    and explore wanted :: "nat \<Rightarrow> bool"
    and mark :: "'s \<Rightarrow> 'm set"
    and marks :: "nat \<Rightarrow> 'm set"
    and U :: "nat set" +
  fixes seen :: "'s \<Rightarrow> nat set"
  assumes examined: "inv s \<Longrightarrow> v < capacity g \<Longrightarrow> v \<in> U \<Longrightarrow> explore v \<Longrightarrow> v \<in> seen (examine_vertex vis v s)"
    and seen_kept: "bfs_invariant vis (\<lambda>s. A \<subseteq> seen s)"
    and no_goal: "\<not> wanted v"
begin

definition all_seen :: "'s search \<Rightarrow> bool" where
  "all_seen st \<longleftrightarrow> (\<forall>u\<in>nonwhite st. explore u \<and> u \<notin> set (s_queue st) \<longrightarrow> u \<in> seen (s_state st))"

lemma advances_seen:
  "advances srcs w m0 st V st' \<Longrightarrow> seen (s_state st) \<subseteq> seen (s_state st') \<Longrightarrow> all_seen st \<Longrightarrow> all_seen st'"
  unfolding advances_def all_seen_def by blast

lemma pop_seen:
  assumes "sound srcs w m0 st" and "s_queue st = u # Q" and "all_seen st"
  shows "all_seen (bfs_pop vis u Q st)"
proof -
  have S: "inv (s_state st)" "u < capacity g" "u \<in> U" "explore u" using assms(1,2) by (auto simp: sound_def nonwhite_def)
  have "seen (s_state st) \<subseteq> seen (examine_vertex vis u (s_state st))" using bfs_invariant.examine_I [OF seen_kept subset_refl] .
  then show ?thesis using assms(2,3) examined [OF S] by (auto simp: all_seen_def bfs_pop_def)
qed

lemma loop_seen:
  assumes "sound srcs wanted m0 st" and "closed {} st" and "set srcs \<subseteq> nonwhite st" and ok: "edges_ok g"
    and "all_seen st" and "bfs_twoway_loop vis st = Inr (b, st')"
  shows "{v \<in> bfs_found g bwd fwd explore srcs. explore v} \<subseteq> seen (s_state st')"
  using assms(1-3,5,6)
proof (induction "work st" arbitrary: st rule: less_induct)
  case less
  show ?case
  proof (cases "s_queue st")
    case Nil
    then have "st' = st\<lparr>s_state := finished vis (s_state st)\<rparr>" using less.prems(5) by (simp add: bfs_twoway_loop.simps [of vis st])
    moreover have "seen (s_state st) \<subseteq> seen (finished vis (s_state st))" using bfs_invariant.finished_I [OF seen_kept subset_refl] .
    ultimately show ?thesis using Nil less.prems(4) found_all [OF less.prems(1,2) Nil less.prems(3)] by (auto simp: all_seen_def)
  next
    case (Cons u Q)
    let ?p = "bfs_pop vis u Q st"
    note pop = bfs_pop_correct [OF less.prems(1,2) Cons]
    have "u \<in> nonwhite ?p" using pop(3,4) by simp
    from bfs_visit_twoway_correct [OF pop(1,2) ok this pop(5)] no_goal
    obtain st1 where 1: "bfs_visit_twoway vis u ?p = Inr (False, st1)" "advances srcs wanted m0 ?p (bfs_succ g bwd fwd u) st1" "closed {} st1"
      by (auto split: if_splits)
    have "all_seen st1"
      using advances_seen [OF 1(2) _ pop_seen [OF less.prems(1) Cons less.prems(4)]] bfs_invariant.visit_twoway_I [OF seen_kept 1(1)] by blast
    moreover have "work st1 < work st" using bfs_visit_work(1) [OF 1(1)] Cons by (simp add: bfs_pop_def work_def)
    moreover have "sound srcs wanted m0 st1" "set srcs \<subseteq> nonwhite st1" using 1(2) less.prems(3) pop(3) by (auto simp: advances_def)
    moreover have "bfs_twoway_loop vis st1 = Inr (b, st')" using less.prems(5) Cons 1(1) by (simp add: bfs_twoway_loop.simps [of vis st])
    ultimately show ?thesis using less.hyps 1(3) by blast
  qed
qed

lemma twoway_examined:
  assumes "inv s" and "capacity g \<le> color_cap cs" and "\<forall>v\<in>set srcs. v < capacity g" and "srcs \<noteq> []" and "edges_ok g"
    and "bfs_found g bwd fwd explore srcs \<subseteq> U"
  obtains cs' t where "breadth_first_search_twoway vis srcs cs s = Inr (False, cs', finished vis t)" "inv t"
    "{v \<in> bfs_found g bwd fwd explore srcs. explore v} \<subseteq> seen (finished vis t)"
proof -
  let ?st = "\<lparr>s_colors = color_init cs, s_queue = [], s_state = s\<rparr>"
  note init = sound_init [OF assms(1,2,6)]
  obtain st1 where 1: "bfs_sources (is_wanted_vertex vis) vis srcs ?st = Inr (False, st1)" "advances srcs wanted (mark s) ?st (set srcs) st1"
    using bfs_sources_correct [OF init(1) want_ok_vis subset_refl assms(3)] no_goal by (auto split: if_splits)
  obtain cs' t where run: "breadth_first_search_twoway vis srcs cs s = Inr (False, cs', finished vis t)" "inv t"
    by (rule twoway_visits_all [OF assms no_goal])
  then obtain st2 where 2: "bfs_twoway_loop vis st1 = Inr (False, st2)" "s_state st2 = finished vis t"
    using 1(1) assms(4) by (auto simp: breadth_first_search_twoway_def bind_outcome_Inr_iff split: if_splits)
  have "seen s \<subseteq> seen (s_state st1)"
    using bfs_invariant.sources_I [OF seen_kept 1(1) _ bfs_invariant.want_I [OF seen_kept]] by simp
  then have "all_seen st1" using advances_seen [OF 1(2)] init(2) by (simp add: all_seen_def)
  moreover have "closed {} st1" using advances_closed [OF 1(2), of "{}"] by (simp add: closed_def init(2))
  moreover have "sound srcs wanted (mark s) st1" "set srcs \<subseteq> nonwhite st1" using 1(2) by (auto simp: advances_def)
  ultimately have "{v \<in> bfs_found g bwd fwd explore srcs. explore v} \<subseteq> seen (finished vis t)"
    using loop_seen [OF _ _ _ assms(5) _ 2(1)] 2(2) by metis
  with run show thesis by (rule that)
qed

end

section \<open>The size of the colour map\<close>

abbreviation search_cap :: "'s search \<Rightarrow> nat" where
  "search_cap st \<equiv> color_cap (s_colors st)"

lemma enter_cap: "bfs_enter want vis v st = Inr (b, st') \<Longrightarrow> search_cap st' = search_cap st"
  by (auto simp: bfs_enter_def bind_outcome_Inr_iff color_put_fast_iff cm.cap_put split: prod.splits if_splits)

lemma sources_cap: "bfs_sources want vis ss st = Inr (b, st') \<Longrightarrow> search_cap st' = search_cap st"
  by (induction ss arbitrary: st) (auto simp: bind_outcome_Inr_iff dest: enter_cap split: if_splits)

lemma edges_cap: "bfs_edges want vis examine far es st = Inr (b, st') \<Longrightarrow> search_cap st' = search_cap st"
proof (induction es arbitrary: st)
  case (Cons e es)
  obtain follow s where ex: "examine e (s_state st) = (follow, s)" by fastforce
  let ?t = "st\<lparr>s_state := tree_edge vis e s\<rparr>"
  from Cons.prems(1) ex consider "bfs_edges want vis examine far es (st\<lparr>s_state := s\<rparr>) = Inr (b, st')"
    | f st1 where "bfs_enter want vis (far e) ?t = Inr (f, st1)" "if f then st' = st1 else bfs_edges want vis examine far es st1 = Inr (b, st')"
    by (auto simp: bind_outcome_Inr_iff Let_def split: if_splits)
  then show ?case
  proof cases
    case 1
    from Cons.IH [OF this] show ?thesis by simp
  next
    case 2
    then show ?thesis using enter_cap [OF 2(1)] Cons.IH [of st1] by (auto split: if_splits)
  qed
qed simp

lemma finish_cap: "bfs_finish vis u st = Inr st' \<Longrightarrow> search_cap st' = search_cap st"
  by (auto simp: bfs_finish_def bind_outcome_Inr_iff color_put_fast_iff cm.cap_put)

lemma visit_forward_cap: "bfs_visit_forward vis u st = Inr (b, st') \<Longrightarrow> search_cap st' = search_cap st"
  by (auto simp: bfs_visit_forward_def bfs_forward_def bind_outcome_Inr_iff dest!: edges_cap finish_cap)

lemma loop_forward_cap: "bfs_forward_loop vis st = Inr st' \<Longrightarrow> search_cap st' = search_cap st"
proof (induction "work st" arbitrary: st rule: less_induct)
  case less
  show ?case
  proof (cases "s_queue st")
    case Nil
    then show ?thesis using less.prems by (auto simp: bfs_forward_loop.simps [of vis st])
  next
    case (Cons u Q)
    then obtain f st1 where 1: "bfs_visit_forward vis u (bfs_pop vis u Q st) = Inr (f, st1)" "bfs_forward_loop vis st1 = Inr st'"
      using less.prems(1) by (auto simp: bfs_forward_loop.simps [of vis st] split: sum.splits prod.splits)
    have "work st1 < work st" using bfs_visit_work(2) [OF 1(1)] Cons by (simp add: bfs_pop_def work_def)
    then show ?thesis using less.hyps [OF _ 1(2)] visit_forward_cap [OF 1(1)] by (simp add: bfs_pop_def)
  qed
qed

lemma forward_cap: "breadth_first_search_forward vis srcs cs s = Inr (cs', s') \<Longrightarrow> color_cap cs' = color_cap cs"
  by (auto simp: breadth_first_search_forward_def bind_outcome_Inr_iff cm.cap_init dest!: sources_cap loop_forward_cap split: if_splits)

end
