(* ===== verification/Pdg_Summary.thy ===== *)
theory Pdg_Summary
  imports Pdg_Marks Pdg_Creation Data_Driven_Scc Graph_Invariant
begin

text \<open>
  The reachability pass (\<^verbatim>\<open>cali-linker/passes/PDGReachabilityPass.cpp\<close>). It visits the strongly connected components of the call graph from callee to
  caller. Calls inside a component become data flow, calls of finished components copy the summary of the callee, and the summary of the component is
  computed by searches from the vertices of its signatures. Fuel bounds the depth of the recursive routines.
\<close>

section \<open>State of the pass\<close>

record reach_state =
  rpdg :: PDG
  rcolors :: ColorMap
  rscc :: scc_pass

definition on_pdg :: "(PDG, 'a) routine \<Rightarrow> (reach_state, 'a) routine" where
  "on_pdg m s = (case m (rpdg s) of (r, p) \<Rightarrow> (r, s\<lparr>rpdg := p\<rparr>))"

definition search_pdg :: "(ColorMap \<Rightarrow> PDG \<Rightarrow> ('a \<times> ColorMap \<times> PDG) outcome) \<Rightarrow> (reach_state, 'a) routine" where
  "search_pdg m s = (case m (rcolors s) (rpdg s) of Inl e \<Rightarrow> (Inl e, s) | Inr (x, cs, p) \<Rightarrow> (Inr x, s\<lparr>rcolors := cs, rpdg := p\<rparr>))"

definition on_scc :: "(scc_pass \<Rightarrow> ('a \<times> scc_pass) outcome) \<Rightarrow> (reach_state, 'a) routine" where
  "on_scc m s = (case m (rscc s) of Inl e \<Rightarrow> (Inl e, s) | Inr (x, c) \<Rightarrow> (Inr x, s\<lparr>rscc := c\<rparr>))"

definition new_colors :: "reach_state \<Rightarrow> reach_state" where
  "new_colors s = s\<lparr>rcolors := ColorMap_new (capacity (pgraph (rpdg s)))\<rparr>"

section \<open>Matching of two structures\<close>

text \<open>
  A loop over the edges of a vertex must not see the list change under it.
\<close>

definition stable :: "nat \<Rightarrow> PDGEdge Edge list \<Rightarrow> (PDG, unit) routine" where
  "stable v es p = (if out_edges (pgraph p) v = es then (Inr (), p) else (Inl Undefined_behaviour, p))"

text \<open>
  The map from the vertices of the callee to those of the call, ordered by the former.
\<close>

type_synonym matching = "(nat \<times> nat) list"

fun matchSubnodes :: "nat \<Rightarrow> matching \<Rightarrow> nat \<Rightarrow> nat \<Rightarrow> (PDG, matching) routine"
  and match_edges :: "nat \<Rightarrow> PDGEdge Edge list \<Rightarrow> matching \<Rightarrow> nat \<Rightarrow> nat \<Rightarrow> PDGEdge Edge list \<Rightarrow> (PDG, matching) routine" where
  "matchSubnodes 0 m key val = throw Out_of_fuel"
| "matchSubnodes (Suc n) m key val =
     (case map_of m key of
        None \<Rightarrow>
          seq (reads (\<lambda>p. out_edges (pgraph p) key)) (\<lambda>es. match_edges n es (insort_key fst (key, val) m) key val es)
      | Some val2 \<Rightarrow>
          seq (addSubnodeEdges n val2 val 0) (\<lambda>_. seq (addSubnodeEdges n val val2 0) (\<lambda>_. ret m)))"
| "match_edges n all m key val [] = ret m"
| "match_edges n all m key val (e # es) =
     seq (case etype (edge_property e) of
            Deref \<Rightarrow> seq (reads (\<lambda>p. getDerefOpt p val)) (\<lambda>r. case r of Some v \<Rightarrow> matchSubnodes n m (target e) v | None \<Rightarrow> ret m)
          | Part \<Rightarrow> seq (reads (\<lambda>p. getPartOpt p val (eindex (edge_property e)))) (\<lambda>r.
              case r of Some v \<Rightarrow> matchSubnodes n m (target e) v | None \<Rightarrow> ret m)
          | _ \<Rightarrow> ret m)
       (\<lambda>m. seq (stable key all) (\<lambda>_. match_edges n all m key val es))"

section \<open>Known functions\<close>

definition call_arg :: "llvm \<Rightarrow> llvm_value \<Rightarrow> nat \<Rightarrow> (PDG, llvm_value) routine" where
  "call_arg L call i = (if i < length (call_args L call) then ret (call_args L call ! i) else throw Undefined_behaviour)"

definition flow_if_both :: "nat \<Rightarrow> nat option \<Rightarrow> nat option \<Rightarrow> (PDG, unit) routine" where
  "flow_if_both n srcMemory dstMemory = (case (srcMemory, dstMemory) of (Some s, Some d) \<Rightarrow> addSubnodeEdges n s d 0 | _ \<Rightarrow> ret ())"

text \<open>
  The loop over the first members of the string class, at most six rounds.
\<close>

fun unite_members :: "nat \<Rightarrow> nat \<Rightarrow> nat \<Rightarrow> nat option \<Rightarrow> (PDG, unit) routine" where
  "unite_members n counter resultMemory None = ret ()"
| "unite_members n counter resultMemory (Some str) =
     seq (reads (\<lambda>p. getDerefOpt p str)) (\<lambda>mem.
       seq (case mem of Some w \<Rightarrow> uniteSubnodes n resultMemory w | None \<Rightarrow> ret ()) (\<lambda>_.
         seq (reads (\<lambda>p. getPartOpt p str 0)) (\<lambda>next_str.
           case counter of 0 \<Rightarrow> ret () | Suc c \<Rightarrow> unite_members n c resultMemory next_str)))"

definition c_str_summary :: "nat \<Rightarrow> llvm \<Rightarrow> llvm_value \<Rightarrow> (PDG, unit) routine" where
  "c_str_summary n L call =
     seq (getVertex L call None) (\<lambda>v. seq (reads (\<lambda>p. getDerefOpt p v)) (\<lambda>r.
       case r of
         None \<Rightarrow> ret ()
       | Some resultMemory \<Rightarrow>
           seq (call_arg L call 0) (\<lambda>a. seq (getVertex L a None) (\<lambda>w. seq (reads (\<lambda>p. getDerefOpt p w)) (\<lambda>s.
             case s of
               None \<Rightarrow> ret ()
             | Some str \<Rightarrow>
                 seq (reads (\<lambda>p. bind_opt (getPartOpt p str 2) (\<lambda>some_union. getPartOpt p some_union 1))) (\<lambda>d.
                   seq (case d of Some data_from_union \<Rightarrow> uniteSubnodes n resultMemory data_from_union | None \<Rightarrow> ret ()) (\<lambda>_.
                     unite_members n 5 resultMemory (Some str))))))))"

definition addKnownFunctionSummary :: "nat \<Rightarrow> llvm \<Rightarrow> llvm_function \<Rightarrow> llvm_value \<Rightarrow> (PDG, bool) routine" where
  "addKnownFunctionSummary n L f call =
     (if startswith (function_name L f) ''llvm.memcpy.'' then
        seq (call_arg L call 1) (\<lambda>a1. seq (getVertex L a1 None) (\<lambda>src. seq (reads (\<lambda>p. getDerefOpt p src)) (\<lambda>srcMemory.
          seq (call_arg L call 0) (\<lambda>a0. seq (getVertex L a0 None) (\<lambda>dst. seq (reads (\<lambda>p. getDerefOpt p dst)) (\<lambda>dstMemory.
            seq (flow_if_both n srcMemory dstMemory) (\<lambda>_. ret True)))))))
      else if function_name L f = ''realloc'' then
        seq (call_arg L call 0) (\<lambda>a0. seq (getVertex L a0 None) (\<lambda>src. seq (reads (\<lambda>p. getDerefOpt p src)) (\<lambda>srcMemory.
          seq (getVertex L call None) (\<lambda>dst. seq (reads (\<lambda>p. getDerefOpt p dst)) (\<lambda>dstMemory.
            seq (flow_if_both n srcMemory dstMemory) (\<lambda>_. ret True))))))
      else if endswith (function_name L f) ''basic_stringIcSt11char_traitsIcESaIcEE5c_strEv'' then
        seq (c_str_summary n L call) (\<lambda>_. ret False)
      else ret False)"

section \<open>Calls\<close>

definition isVarArg :: "llvm \<Rightarrow> llvm_function \<Rightarrow> bool" where
  "isVarArg L f = snd (snd (function_type L f))"

text \<open>
  A call inside the component: the arguments flow into the parameters, the return value into the call.
\<close>

fun direct_params :: "nat \<Rightarrow> llvm \<Rightarrow> llvm_function \<Rightarrow> nat \<Rightarrow> nat \<Rightarrow> llvm_value list \<Rightarrow> (PDG, unit) routine" where
  "direct_params n L caller vFunc i [] = ret ()"
| "direct_params n L caller vFunc i (a # as) =
     seq (reads (\<lambda>p. getParamOpt p vFunc i)) (\<lambda>r.
       seq (case r of
              Some vFuncParam \<Rightarrow>
                if isIgnoredOperand L a then ret () else seq (getVertex L a (Some caller)) (\<lambda>v. addSubnodeEdges n v vFuncParam 1)
            | None \<Rightarrow> ret ())
         (\<lambda>_. direct_params n L caller vFunc (Suc i) as))"

definition direct_call :: "nat \<Rightarrow> llvm \<Rightarrow> llvm_function \<Rightarrow> llvm_function \<Rightarrow> llvm_value \<Rightarrow> (PDG, unit) routine" where
  "direct_call n L caller f call =
     seq (getVertex L call None) (\<lambda>vCall. seq (getVertex L (function_value L f) None) (\<lambda>vFunc.
       seq (direct_params n L caller vFunc 0 (call_args L call)) (\<lambda>_. seq (reads (\<lambda>p. getReturnOpt p vFunc)) (\<lambda>r.
         case r of Some vFuncRet \<Rightarrow> addSubnodeEdges n vFuncRet vCall 0 | None \<Rightarrow> ret ()))))"

text \<open>
  A call of a finished component. Signature and call are matched, variable arguments with the one vertex that stands for them.
\<close>

definition match_param :: "nat \<Rightarrow> llvm \<Rightarrow> llvm_function \<Rightarrow> llvm_function \<Rightarrow> nat \<Rightarrow> nat \<Rightarrow> llvm_value \<Rightarrow> matching \<Rightarrow> (PDG, matching) routine" where
  "match_param n L caller f vFunc i a m =
     (if isIgnoredOperand L a then ret m
      else if isVarArg L f \<and> length (function_args L f) \<le> i then
        seq (reads (\<lambda>p. getParamOpt p vFunc (length (function_args L f)))) (\<lambda>r.
          case r of
            Some vFuncParam \<Rightarrow>
              seq (getVertex L a (Some caller)) (\<lambda>v. seq (matchSubnodes n m vFuncParam v) (\<lambda>m. seq (get_node vFuncParam) (\<lambda>x.
                seq (when_do (reaches_ipc_sink x) (seq (getVertex L a (Some caller)) (\<lambda>v. markSubnodesReachingIpc n v))) (\<lambda>_. ret m))))
          | None \<Rightarrow> ret m)
      else
        seq (reads (\<lambda>p. getParamOpt p vFunc i)) (\<lambda>r.
          case r of
            Some vFuncParam \<Rightarrow> seq (getVertex L a (Some caller)) (\<lambda>v. matchSubnodes n m vFuncParam v)
          | None \<Rightarrow> ret m))"

fun match_params :: "nat \<Rightarrow> llvm \<Rightarrow> llvm_function \<Rightarrow> llvm_function \<Rightarrow> nat \<Rightarrow> nat \<Rightarrow> llvm_value list \<Rightarrow> matching \<Rightarrow> (PDG, matching) routine" where
  "match_params n L caller f vFunc i [] m = ret m"
| "match_params n L caller f vFunc i (a # as) m =
     seq (match_param n L caller f vFunc i a m) (\<lambda>m. match_params n L caller f vFunc (Suc i) as m)"

text \<open>
  The summary of the callee is copied to the call: marks, summary edges as flow, and invocations of parameters as invocations at a vertex that stands for the
  call.
\<close>

fun copy_params :: "matching \<Rightarrow> nat \<Rightarrow> PDGEdge Edge list \<Rightarrow> (PDG, unit) routine" where
  "copy_params m dummyCallNode [] = ret ()"
| "copy_params m dummyCallNode (e2 # es) =
     seq (if etype (edge_property e2) = Param then
            (case map_of m (source e2) of
               Some w \<Rightarrow> pdg_add_edge w dummyCallNode (pdg_edge Param (eindex (edge_property e2)))
             | None \<Rightarrow> ret ())
          else ret ())
       (\<lambda>_. copy_params m dummyCallNode es)"

definition copy_edge :: "llvm \<Rightarrow> llvm_value \<Rightarrow> matching \<Rightarrow> nat \<Rightarrow> PDGEdge Edge \<Rightarrow> (PDG, unit) routine" where
  "copy_edge L call m w e =
     (let t = etype (edge_property e) in
      seq (if t = Summary_Equals \<or> t = Summary_Data then
             (case map_of m (target e) of
                Some callsideDest \<Rightarrow> pdg_add_edge w callsideDest (pdg_edge (if t = Summary_Equals then Equals else Data) 0)
              | None \<Rightarrow> ret ())
           else ret ())
        (\<lambda>_. if t = Invocation \<or> t = Summary_Invocation then
           seq (createDummyVertex L call (instruction_function L call)) (\<lambda>dummyCallNode.
             seq (pdg_add_edge w dummyCallNode (pdg_edge Invocation 0)) (\<lambda>_.
               seq (reads (\<lambda>p. in_edges (pgraph p) (target e))) (\<lambda>es. copy_params m dummyCallNode es)))
         else ret ()))"

fun copy_edges :: "llvm \<Rightarrow> llvm_value \<Rightarrow> matching \<Rightarrow> nat \<Rightarrow> nat \<Rightarrow> PDGEdge Edge list \<Rightarrow> PDGEdge Edge list \<Rightarrow> (PDG, unit) routine" where
  "copy_edges L call m k w all [] = ret ()"
| "copy_edges L call m k w all (e # es) =
     seq (copy_edge L call m w e) (\<lambda>_. seq (stable k all) (\<lambda>_. copy_edges L call m k w all es))"

definition copy_marks :: "nat \<Rightarrow> nat \<Rightarrow> (PDG, unit) routine" where
  "copy_marks k w =
     seq (get_node k) (\<lambda>x. seq (when_do (reaches_ipc_sink x \<or> ipcsink x) (set_node w (\<lambda>y. y\<lparr>reaches_ipc_sink := True\<rparr>))) (\<lambda>_.
       seq (get_node k) (\<lambda>x. seq (get_node w) (\<lambda>y.
         when_do (filedescriptor x \<and> isFileDescriptorType (ntype y)) (set_node w (\<lambda>y. y\<lparr>filedescriptor := True\<rparr>))))))"

fun copy_summary :: "llvm \<Rightarrow> llvm_value \<Rightarrow> matching \<Rightarrow> matching \<Rightarrow> (PDG, unit) routine" where
  "copy_summary L call m [] = ret ()"
| "copy_summary L call m ((k, w) # ps) =
     seq (copy_marks k w) (\<lambda>_. seq (reads (\<lambda>p. out_edges (pgraph p) k)) (\<lambda>es.
       seq (copy_edges L call m k w es es) (\<lambda>_. copy_summary L call m ps)))"

definition summary_call :: "nat \<Rightarrow> llvm \<Rightarrow> llvm_function \<Rightarrow> llvm_function \<Rightarrow> llvm_value \<Rightarrow> (PDG, unit) routine" where
  "summary_call n L caller f call =
     seq (getVertex L call None) (\<lambda>vCall. seq (getVertex L (function_value L f) None) (\<lambda>vFunc.
       seq (match_params n L caller f vFunc 0 (call_args L call) []) (\<lambda>m. seq (reads (\<lambda>p. getReturnOpt p vFunc)) (\<lambda>r.
         seq (case r of Some vFuncRet \<Rightarrow> matchSubnodes n m vFuncRet vCall | None \<Rightarrow> ret m) (\<lambda>m. copy_summary L call m m)))))"

definition handleCallTarget :: "nat \<Rightarrow> llvm \<Rightarrow> llvm_function option list \<Rightarrow> llvm_function \<Rightarrow> llvm_value \<Rightarrow> llvm_function \<Rightarrow> (PDG, unit) routine" where
  "handleCallTarget n L fs caller call f =
     seq (addKnownFunctionSummary n L f call) (\<lambda>known.
       seq (if known then ret () else if Some f \<in> set fs then direct_call n L caller f call else summary_call n L caller f call) (\<lambda>_.
         seq (getVertex L (function_value L f) None) (\<lambda>v. seq (get_node v) (\<lambda>x. when_do (ipcfunction x) (markIpcCall n L call)))))"

fun handle_targets :: "nat \<Rightarrow> llvm \<Rightarrow> llvm_function option list \<Rightarrow> llvm_function \<Rightarrow> llvm_value \<Rightarrow> llvm_function list \<Rightarrow> (PDG, unit) routine" where
  "handle_targets n L fs caller call [] = ret ()"
| "handle_targets n L fs caller call (f # ts) =
     seq (if function_name L f = [] then ret False
          else seq (getVertex L (function_value L f) None) (\<lambda>v. seq (get_node v) (\<lambda>x. ret (nfunction x \<noteq> None)))) (\<lambda>valid.
       seq (when_do valid (handleCallTarget n L fs caller call f)) (\<lambda>_. handle_targets n L fs caller call ts))"

text \<open>
  The result tells whether the call is indirect.
\<close>

definition handleCall :: "nat \<Rightarrow> llvm \<Rightarrow> YamlConfig \<Rightarrow> llvm_function option list \<Rightarrow> llvm_function \<Rightarrow> llvm_value \<Rightarrow> (reach_state, bool) routine" where
  "handleCall n L config fs caller call =
     (case getCalledFunction L call of
        Some f \<Rightarrow> seq (on_pdg (handleCallTarget n L fs caller call f)) (\<lambda>_. ret False)
      | None \<Rightarrow>
          seq (if strongFPAnalysis config then
                 seq (on_scc (getPossibleIndirectFunctions n L call)) (\<lambda>ts. on_pdg (handle_targets n L fs caller call ts))
               else ret ()) (\<lambda>_. ret True))"

section \<open>Summary edges\<close>

text \<open>
  The vertices of a signature: parameters and return value with those parts of their structure that belong to the function.
\<close>

fun collectSubnodesForFunction :: "nat \<Rightarrow> llvm_function \<Rightarrow> PDG \<Rightarrow> nat \<Rightarrow> nat set \<Rightarrow> nat set outcome"
  and collect_targets :: "nat \<Rightarrow> llvm_function \<Rightarrow> PDG \<Rightarrow> PDGEdge Edge list \<Rightarrow> nat set \<Rightarrow> nat set outcome" where
  "collectSubnodesForFunction 0 f p v nodes = Inl Out_of_fuel"
| "collectSubnodesForFunction (Suc n) f p v nodes =
     (if v \<in> nodes then Inr nodes else collect_targets n f p (out_edges (pgraph p) v) (insert v nodes))"
| "collect_targets n f p [] nodes = Inr nodes"
| "collect_targets n f p (e # es) nodes =
     bind_outcome
       (if structural e \<and> nfunction (node p (target e)) = Some f then collectSubnodesForFunction n f p (target e) nodes else Inr nodes)
       (collect_targets n f p es)"

fun collect_signature :: "nat \<Rightarrow> llvm_function \<Rightarrow> PDG \<Rightarrow> PDGEdge Edge list \<Rightarrow> nat set \<Rightarrow> nat set outcome" where
  "collect_signature n f p [] nodes = Inr nodes"
| "collect_signature n f p (e # es) nodes =
     bind_outcome
       (if etype (edge_property e) = Return \<or> etype (edge_property e) = Param then collectSubnodesForFunction n f p (target e) nodes else Inr nodes)
       (collect_signature n f p es)"

definition collectFunctionSignatureNodes :: "nat \<Rightarrow> llvm \<Rightarrow> llvm_function \<Rightarrow> nat set \<Rightarrow> (PDG, nat set) routine" where
  "collectFunctionSignatureNodes n L f nodes =
     seq (getVertex L (function_value L f) None) (\<lambda>v p. (collect_signature n f p (out_edges (pgraph p) v) nodes, p))"

text \<open>
  The summary of a function is needed when some call of it is outside of the component.
\<close>

definition summary_needed :: "llvm \<Rightarrow> llvm_function option list \<Rightarrow> llvm_function \<Rightarrow> bool" where
  "summary_needed L fs f =
     list_ex (\<lambda>u. is_call L u \<and> getCalledFunction L u = Some f \<and> considerCall L u True \<and> instruction_function L u \<notin> set fs)
       (users L (function_value L f))"

fun signature_nodes :: "nat \<Rightarrow> llvm \<Rightarrow> llvm_function option list \<Rightarrow> llvm_function list \<Rightarrow> nat set \<Rightarrow> (PDG, nat set) routine" where
  "signature_nodes n L fs [] nodes = ret nodes"
| "signature_nodes n L fs (f # scc) nodes =
     seq (if summary_needed L fs f then collectFunctionSignatureNodes n L f nodes else ret nodes) (\<lambda>nodes. signature_nodes n L fs scc nodes)"

text \<open>
  The visitors carry the list of found vertices beside the graph.
\<close>

definition in_component :: "llvm_function option list \<Rightarrow> PDG \<Rightarrow> nat \<Rightarrow> bool" where
  "in_component fs p v \<longleftrightarrow> \<not> (nfunction (node p v) \<noteq> None \<and> nfunction (node p v) \<notin> set fs)"

definition DataSummaryVisitor :: "nat \<Rightarrow> nat set \<Rightarrow> llvm_function option list \<Rightarrow> (PDG \<times> nat list, PDGNode, PDGEdge) bfs_visitor" where
  "DataSummaryVisitor start nodes fs = (default_bfs_visitor (\<lambda>s. pgraph (fst s)))\<lparr>
     examine_forwards_edge := (\<lambda>e s. (label_in [Data, Summary_Data, Part] e, s)),
     examine_backwards_edge := (\<lambda>e s. (False, s)),
     bfs_visitor.discover_vertex := (\<lambda>v (p, new_edges).
       if v \<noteq> start then
         (if v \<in> nodes then (True, p, new_edges @ [v]) else (in_component fs p v, p, new_edges))
       else (True, p, new_edges))\<rparr>"

definition InvocationSummaryVisitor :: "nat \<Rightarrow> nat set \<Rightarrow> llvm_function option list \<Rightarrow> (PDG \<times> nat list, PDGNode, PDGEdge) bfs_visitor" where
  "InvocationSummaryVisitor start nodes fs = (default_bfs_visitor (\<lambda>s. pgraph (fst s)))\<lparr>
     examine_forwards_edge := (\<lambda>e s. (label_in [Data] e, s)),
     examine_backwards_edge := (\<lambda>e s. (False, s)),
     bfs_visitor.discover_vertex := (\<lambda>v (p, new_edges).
       if v \<noteq> start then
         (if v \<in> nodes then (True, p, new_edges @ map target (filter (label_in [Invocation]) (out_edges (pgraph p) v)))
          else (in_component fs p v, p, new_edges))
       else (True, p, new_edges))\<rparr>"

definition summary_search :: "(PDG \<times> nat list, PDGNode, PDGEdge) bfs_visitor \<Rightarrow> nat \<Rightarrow> ColorMap \<Rightarrow> PDG \<Rightarrow> (nat list \<times> ColorMap \<times> PDG) outcome" where
  "summary_search vis start cs p =
     bind_outcome (breadth_first_search_forward vis [start] cs (p, [])) (\<lambda>(cs, p, new_edges). Inr (new_edges, cs, p))"

text \<open>
  \<^verbatim>\<open>finished\<close> of the two visitors, which runs as the last step of a search. When the memory behind a found vertex is shared, so is the memory behind the start.
\<close>

fun data_finished :: "nat \<Rightarrow> nat \<Rightarrow> nat option \<Rightarrow> nat list \<Rightarrow> (PDG, unit) routine" where
  "data_finished n start derefStart [] = ret ()"
| "data_finished n start derefStart (t # ts) =
     seq (pdg_add_edge start t (pdg_edge Summary_Data 0)) (\<lambda>_.
       seq (case derefStart of
              Some d \<Rightarrow>
                seq (get_node d) (\<lambda>x.
                  if reaches_ipc_sink x then ret ()
                  else seq (reads (\<lambda>p. getDerefOpt p t)) (\<lambda>r.
                    case r of
                      Some derefTarget \<Rightarrow> seq (get_node derefTarget) (\<lambda>y. when_do (reaches_ipc_sink y \<or> ipcsink y) (markAsShared n d))
                    | None \<Rightarrow> ret ()))
            | None \<Rightarrow> ret ())
         (\<lambda>_. data_finished n start derefStart ts))"

fun invocation_finished :: "nat \<Rightarrow> nat list \<Rightarrow> (PDG, unit) routine" where
  "invocation_finished start [] = ret ()"
| "invocation_finished start (t # ts) = seq (pdg_add_edge start t (pdg_edge Summary_Invocation 0)) (\<lambda>_. invocation_finished start ts)"

definition node_summary :: "nat \<Rightarrow> YamlConfig \<Rightarrow> llvm_function option list \<Rightarrow> nat set \<Rightarrow> nat \<Rightarrow> (reach_state, unit) routine" where
  "node_summary n config fs nodes v =
     seq (search_pdg (summary_search (DataSummaryVisitor v nodes fs) v)) (\<lambda>new_edges.
       seq (on_pdg (seq (reads (\<lambda>p. getDerefOpt p v)) (\<lambda>d. data_finished n v d new_edges))) (\<lambda>_.
         if strongFPAnalysis config then
           seq (on_pdg (get_node v)) (\<lambda>x.
             case ntype x of
               None \<Rightarrow> throw Undefined_behaviour
             | Some t \<Rightarrow>
                 if isPointerTy t \<or> isFunctionTy t then
                   seq (search_pdg (summary_search (InvocationSummaryVisitor v nodes fs) v)) (\<lambda>new_edges. on_pdg (invocation_finished v new_edges))
                 else ret ())
         else ret ()))"

fun node_summaries :: "nat \<Rightarrow> YamlConfig \<Rightarrow> llvm_function option list \<Rightarrow> nat set \<Rightarrow> nat list \<Rightarrow> (reach_state, unit) routine" where
  "node_summaries n config fs nodes [] = ret ()"
| "node_summaries n config fs nodes (v # vs) = seq (node_summary n config fs nodes v) (\<lambda>_. node_summaries n config fs nodes vs)"

definition calculateSummaryEdges :: "nat \<Rightarrow> llvm \<Rightarrow> YamlConfig \<Rightarrow> llvm_function list \<Rightarrow> (reach_state, unit) routine" where
  "calculateSummaryEdges n L config functions =
     (let fs = map Some functions in
      seq (on_pdg (signature_nodes n L fs functions {})) (\<lambda>nodes. node_summaries n config fs nodes (sorted_list_of_set nodes)))"

section \<open>The pass\<close>

fun calculateIpcFunctionCalls :: "nat \<Rightarrow> llvm \<Rightarrow> llvm_value list \<Rightarrow> (reach_state, unit) routine" where
  "calculateIpcFunctionCalls n L [] = ret ()"
| "calculateIpcFunctionCalls n L (call # cs) =
     seq (on_pdg (getVertex L (called_value L call) None)) (\<lambda>src.
       seq (search_pdg (reachesIpcFunction src)) (\<lambda>found.
         seq (when_do found (on_pdg (markIpcCall n L call))) (\<lambda>_. calculateIpcFunctionCalls n L cs)))"

fun handle_calls :: "nat \<Rightarrow> llvm \<Rightarrow> YamlConfig \<Rightarrow> llvm_function option list \<Rightarrow> llvm_function \<Rightarrow> llvm_value list \<Rightarrow>
    llvm_value list \<times> llvm_value list \<Rightarrow> (reach_state, llvm_value list \<times> llvm_value list) routine" where
  "handle_calls n L config fs caller [] found = ret found"
| "handle_calls n L config fs caller (ins # inss) (indirectCalls, indirectInvokes) =
     seq (if is_call L ins then handleCall n L config fs caller ins else ret False) (\<lambda>indirect.
       handle_calls n L config fs caller inss
         (if indirect \<and> kind L ins = CallInst then indirectCalls @ [ins] else indirectCalls,
          if indirect \<and> kind L ins = InvokeInst then indirectInvokes @ [ins] else indirectInvokes))"

definition vararg_node :: "llvm \<Rightarrow> llvm_function \<Rightarrow> (PDG, nat list) routine" where
  "vararg_node L f =
     (if isVarArg L f then
        seq (getVertex L (function_value L f) None) (\<lambda>vf.
          seq (pdg_add_vertex (PDGNode_new\<lparr>nfunction := Some f, ntype := Some VoidTy, subnode := True\<rparr>)) (\<lambda>newNode.
            seq (pdg_add_edge vf newNode (pdg_edge Param (length (function_args L f)))) (\<lambda>_. ret [newNode])))
      else ret [])"

fun scc_calls :: "nat \<Rightarrow> llvm \<Rightarrow> YamlConfig \<Rightarrow> llvm_function option list \<Rightarrow> llvm_function list \<Rightarrow> llvm_value list \<times> llvm_value list \<Rightarrow> nat list \<Rightarrow>
    (reach_state, (llvm_value list \<times> llvm_value list) \<times> nat list) routine" where
  "scc_calls n L config fs [] found varargNodes = ret (found, varargNodes)"
| "scc_calls n L config fs (f # scc) found varargNodes =
     seq (handle_calls n L config fs f (function_instructions L f) found) (\<lambda>found.
       seq (on_pdg (vararg_node L f)) (\<lambda>vs. scc_calls n L config fs scc found (varargNodes @ vs)))"

fun mark_nodes :: "nat list \<Rightarrow> (PDG, unit) routine" where
  "mark_nodes [] = ret ()"
| "mark_nodes (v # vs) = seq (set_node v (\<lambda>x. x\<lparr>reaches_ipc_sink := True\<rparr>)) (\<lambda>_. mark_nodes vs)"

text \<open>
  A set of functions is visited in the order of its elements.
\<close>

definition function_set :: "llvm_function list \<Rightarrow> llvm_function list" where
  "function_set scc = sorted_list_of_set (set scc)"

definition runOnSCC :: "nat \<Rightarrow> llvm \<Rightarrow> YamlConfig \<Rightarrow> llvm_function list \<Rightarrow> (reach_state, unit) routine" where
  "runOnSCC n L config scc =
     (let fs = map Some (function_set scc) in
      seq (scc_calls n L config fs scc ([], []) []) (\<lambda>((indirectCalls, indirectInvokes), varargNodes).
      seq (modify new_colors) (\<lambda>_.
      seq (calculateIpcFunctionCalls n L indirectCalls) (\<lambda>_.
      seq (calculateIpcFunctionCalls n L indirectInvokes) (\<lambda>_.
      seq (search_pdg (calculateSinkReachability fs)) (\<lambda>count.
      seq (when_do (0 < count) (on_pdg (mark_nodes varargNodes))) (\<lambda>_.
      seq (search_pdg (\<lambda>cs. calculateFDReachability L fs cs (strongFDAnalysis config))) (\<lambda>_.
        calculateSummaryEdges n L config (function_set scc)))))))))"

definition runOnGlobal :: "llvm \<Rightarrow> YamlConfig \<Rightarrow> (reach_state, unit) routine" where
  "runOnGlobal L config =
     seq (modify new_colors) (\<lambda>_. seq (search_pdg (calculateSinkReachability [None])) (\<lambda>_.
       seq (search_pdg (\<lambda>cs. calculateFDReachability L [None] cs (strongFDAnalysis config))) (\<lambda>_. ret ())))"

fun runOnSCCs :: "nat \<Rightarrow> llvm \<Rightarrow> YamlConfig \<Rightarrow> llvm_function list list \<Rightarrow> (reach_state, unit) routine" where
  "runOnSCCs n L config [] = ret ()"
| "runOnSCCs n L config (scc # sccs) = seq (runOnSCC n L config scc) (\<lambda>_. runOnSCCs n L config sccs)"

fun fdOnSCCs :: "llvm \<Rightarrow> YamlConfig \<Rightarrow> llvm_function list list \<Rightarrow> (reach_state, unit) routine" where
  "fdOnSCCs L config [] = ret ()"
| "fdOnSCCs L config (scc # sccs) =
     seq (search_pdg (\<lambda>cs. calculateFDReachability L (map Some (function_set scc)) cs (strongFDAnalysis config))) (\<lambda>_. fdOnSCCs L config sccs)"

definition reach_runOnModule :: "nat \<Rightarrow> llvm \<Rightarrow> YamlConfig \<Rightarrow> (reach_state, unit) routine" where
  "reach_runOnModule n L config =
     seq (runOnGlobal L config) (\<lambda>_. seq (reads (\<lambda>s. dataSCCs (rscc s))) (\<lambda>sccs.
       seq (runOnSCCs n L config sccs) (\<lambda>_.
         seq (when_do (strongFDAnalysis config) (fdOnSCCs L config sccs)) (\<lambda>_. runOnGlobal L config))))"

section \<open>The index stays complete\<close>

lemma pdg_inv_upd_node:
  assumes "pdg_inv p" and "\<And>n. nfunction (f n) = nfunction n"
  shows "pdg_inv (upd_node v f p)"
proof (cases "v < capacity (pgraph p)")
  case True
  then show ?thesis using keepsD [OF keeps_set_node [of f v, OF assms(2)] assms(1)] by (simp add: set_node_def)
next
  case False
  then have "upd_node v f p = p" by (simp add: upd_node_def upd_vertex_def capacity_def list_update_beyond)
  then show ?thesis using assms(1) by simp
qed

lemma pdg_inv_checkIfFDMarker: "pdg_inv p \<Longrightarrow> pdg_inv (checkIfFDMarkerIsInteresting v p)"
  using differ_in_inv [OF _ differ_in_check [OF differ_in_refl], of p "\<lambda>n. n"] by simp

lemmas visitor_defs = FullDataReachability_def InfluenceReachability_def FdReachability_def IpcFunctionReachability_def
  DataSummaryVisitor_def InvocationSummaryVisitor_def default_bfs_visitor_def

interpretation sink_inv: bfs_invariant "FullDataReachability fs" pdg_inv for fs
  by unfold_locales (simp_all add: visitor_defs pdg_inv_upd_node Let_def)

interpretation influence_inv: bfs_invariant "InfluenceReachability fs" pdg_inv for fs
  by unfold_locales (simp_all add: visitor_defs pdg_inv_upd_node Let_def)

interpretation fd_inv: bfs_invariant "FdReachability L fs heuristic" pdg_inv for L fs heuristic
  by unfold_locales (simp_all add: visitor_defs pdg_inv_upd_node pdg_inv_checkIfFDMarker Let_def)

interpretation ipcfun_inv: bfs_invariant IpcFunctionReachability pdg_inv
  by unfold_locales (simp_all add: visitor_defs)

interpretation data_inv: bfs_invariant "DataSummaryVisitor start nodes fs" "\<lambda>s. I (fst s)" for start nodes fs I
  by unfold_locales (auto simp: visitor_defs)

interpretation invocation_inv: bfs_invariant "InvocationSummaryVisitor start nodes fs" "\<lambda>s. I (fst s)" for start nodes fs I
  by unfold_locales (auto simp: visitor_defs)

lemma mark_known_fields_inv: "pdg_inv p \<Longrightarrow> pdg_inv (mark_known_fields v p)"
proof -
  have field: "pdg_inv p \<Longrightarrow> pdg_inv (mark_field v i p)" for i p
    by (simp add: mark_field_def pdg_inv_upd_node split: option.split)
  have "pdg_inv p \<Longrightarrow> pdg_inv (fold (mark_field v) is p)" for "is" p by (induction "is" arbitrary: p) (simp_all add: field)
  then show "pdg_inv p \<Longrightarrow> pdg_inv (mark_known_fields v p)" by (simp add: mark_known_fields_def split: option.split llvm_type.split)
qed

lemma fold_known_fields_inv: "pdg_inv p \<Longrightarrow> pdg_inv (fold mark_known_fields vs p)"
  by (induction vs arbitrary: p) (simp_all add: mark_known_fields_inv)

text \<open>
  The searches, as operations that keep the invariant when they end without error.
\<close>

definition search_keeps :: "(PDG \<Rightarrow> bool) \<Rightarrow> (ColorMap \<Rightarrow> PDG \<Rightarrow> ('a \<times> ColorMap \<times> PDG) outcome) \<Rightarrow> bool" where
  "search_keeps I m \<longleftrightarrow> (\<forall>cs p x cs' p'. I p \<longrightarrow> m cs p = Inr (x, cs', p') \<longrightarrow> I p')"

lemma search_keeps_all [keeps_intros]:
  "search_keeps pdg_inv (calculateSinkReachability fs)"
  "search_keeps pdg_inv (calculateReachability fs)"
  "search_keeps pdg_inv (\<lambda>cs. calculateFDReachability L fs cs heuristic)"
  "search_keeps pdg_inv (reachesIpcFunction v)"
  "search_keeps pdg_inv (summary_search (DataSummaryVisitor start nodes fs) v)"
  "search_keeps pdg_inv (summary_search (InvocationSummaryVisitor start nodes fs) v)"
  using sink_inv.twoway_I influence_inv.forward_I fd_inv.forward_I [OF _ fold_known_fields_inv] fd_inv.forward_I ipcfun_inv.twoway_I
    data_inv.forward_I [where I = pdg_inv] invocation_inv.forward_I [where I = pdg_inv]
  by (fastforce simp: search_keeps_def calculateSinkReachability_def calculateReachability_def calculateFDReachability_def reachesIpcFunction_def
    summary_search_def bind_outcome_Inr_iff Let_def split: if_splits)+

abbreviation reach_inv :: "reach_state \<Rightarrow> bool" where
  "reach_inv s \<equiv> pdg_inv (rpdg s)"

lemma keeps_reach [keeps_intros]:
  "keeps pdg_inv m \<Longrightarrow> keeps reach_inv (on_pdg m)"
  "search_keeps pdg_inv r \<Longrightarrow> keeps reach_inv (search_pdg r)"
  "keeps reach_inv (on_scc c)"
  by (auto simp: keeps_def on_pdg_def search_pdg_def on_scc_def search_keeps_def split: prod.split sum.split)

lemma keeps_stable [keeps_intros]: "keeps I (stable v es)"
  by (simp add: keeps_def stable_def)

lemma keeps_case_edge [keeps_intros]:
  assumes "keeps I m1" "keeps I m2" "keeps I m3"
  shows "keeps I (case t of Deref \<Rightarrow> m1 | Part \<Rightarrow> m2 | _ \<Rightarrow> m3)"
  using assms by (cases t) simp_all

lemma keeps_mark_structure:
  assumes "\<And>n. nfunction (mark n) = nfunction n"
  shows "keeps pdg_inv (mark_structure marked mark n v)"
proof (induction n arbitrary: v)
  case (Suc n)
  have "keeps pdg_inv (mark_targets marked mark n es)" for es by (induction es) (auto intro!: keeps_intros Suc.IH)
  then show ?case by (auto intro!: keeps_intros assms)
qed (simp add: keeps_intros)

lemma keeps_markAs [keeps_intros]: "keeps pdg_inv (markAsShared n v)" "keeps pdg_inv (markSubnodesReachingIpc n v)"
  unfolding markAsShared_def markSubnodesReachingIpc_def by (rule keeps_mark_structure, simp)+

lemma keeps_markAsPointerToShared [keeps_intros]: "keeps pdg_inv (markAsPointerToShared n v)"
proof (induction n arbitrary: v)
  case (Suc n)
  have "keeps pdg_inv (pointer_targets n es)" for es by (induction es) (auto intro!: keeps_intros Suc.IH)
  then show ?case by (auto intro!: keeps_intros)
qed (simp add: keeps_intros)

lemma keeps_markIpcCall [keeps_intros]: "keeps pdg_inv (markIpcCall n L call)"
proof -
  have "keeps pdg_inv (ipc_args n L v i as)" for v i as by (induction as arbitrary: i) (auto intro!: keeps_intros)
  then show ?thesis unfolding markIpcCall_def by (auto intro!: keeps_intros)
qed

lemma keeps_matchSubnodes [keeps_intros]: "keeps pdg_inv (matchSubnodes n m key val)"
proof (induction n arbitrary: m key val)
  case (Suc n)
  have "keeps pdg_inv (match_edges n all m key val es)" for all m es by (induction es arbitrary: m) (auto intro!: keeps_intros Suc.IH)
  then show ?case by (auto intro!: keeps_intros)
qed (simp add: keeps_intros)

lemma keeps_call_arg [keeps_intros]: "keeps I (call_arg L call i)"
  unfolding call_arg_def by (intro keeps_intros)

lemma keeps_unite_members [keeps_intros]: "keeps pdg_inv (unite_members n c v str)"
  by (induction n c v str rule: unite_members.induct) (auto intro!: keeps_intros split: nat.split)

lemma keeps_addKnownFunctionSummary [keeps_intros]: "keeps pdg_inv (addKnownFunctionSummary n L f call)"
  unfolding addKnownFunctionSummary_def flow_if_both_def c_str_summary_def by (intro keeps_intros)

lemma keeps_direct_call [keeps_intros]: "keeps pdg_inv (direct_call n L caller f call)"
proof -
  have "keeps pdg_inv (direct_params n L caller vFunc i as)" for vFunc i as by (induction as arbitrary: i) (auto intro!: keeps_intros)
  then show ?thesis unfolding direct_call_def by (auto intro!: keeps_intros)
qed

lemma keeps_match_params [keeps_intros]: "keeps pdg_inv (match_params n L caller f vFunc i as m)"
  by (induction as arbitrary: i m) (auto simp: match_param_def intro!: keeps_intros)

lemma keeps_copy_summary [keeps_intros]: "keeps pdg_inv (copy_summary L call m ps)"
proof -
  have params: "keeps pdg_inv (copy_params m d es)" for d es by (induction es) (auto intro!: keeps_intros)
  have "keeps pdg_inv (copy_edges L call m k w all es)" for k w all es
    by (induction es) (auto simp: copy_edge_def Let_def intro!: keeps_intros params)
  then show ?thesis by (induction ps) (auto simp: copy_marks_def intro!: keeps_intros)
qed

lemma keeps_handleCallTarget [keeps_intros]: "keeps pdg_inv (handleCallTarget n L fs caller call f)"
  unfolding handleCallTarget_def summary_call_def by (intro keeps_intros)

lemma keeps_handleCall [keeps_intros]: "keeps reach_inv (handleCall n L config fs caller call)"
proof -
  have "keeps pdg_inv (handle_targets n L fs caller call ts)" for ts by (induction ts) (auto intro!: keeps_intros)
  then show ?thesis unfolding handleCall_def by (auto intro!: keeps_intros)
qed

lemma keeps_signature_nodes [keeps_intros]: "keeps pdg_inv (signature_nodes n L fs scc nodes)"
  by (induction scc arbitrary: nodes) (auto simp: collectFunctionSignatureNodes_def intro!: keeps_intros keeps_pure)

lemma keeps_finished [keeps_intros]: "keeps pdg_inv (data_finished n start d ts)" "keeps pdg_inv (invocation_finished start ts)"
  by (induction ts) (auto intro!: keeps_intros)

lemma keeps_calculateSummaryEdges [keeps_intros]: "keeps reach_inv (calculateSummaryEdges n L config scc)"
proof -
  have "keeps reach_inv (node_summaries n config fs nodes vs)" for fs nodes vs
    by (induction vs) (auto simp: node_summary_def intro!: keeps_intros split: option.split)
  then show ?thesis unfolding calculateSummaryEdges_def by (auto simp: Let_def intro!: keeps_intros)
qed

lemma keeps_calculateIpcFunctionCalls [keeps_intros]: "keeps reach_inv (calculateIpcFunctionCalls n L cs)"
  by (induction cs) (auto intro!: keeps_intros)

lemma keeps_scc_calls [keeps_intros]: "keeps reach_inv (scc_calls n L config fs scc found vs)"
proof -
  have "keeps reach_inv (handle_calls n L config fs caller inss found)" for caller inss found
    by (induction n L config fs caller inss found rule: handle_calls.induct) (auto intro!: keeps_intros)
  then show ?thesis by (induction scc arbitrary: found vs) (auto simp: vararg_node_def intro!: keeps_intros)
qed

lemma keeps_mark_nodes [keeps_intros]: "keeps pdg_inv (mark_nodes vs)"
  by (induction vs) (auto intro!: keeps_intros)

lemma keeps_new_colors [keeps_intros]: "keeps reach_inv (modify new_colors)"
  by (rule keeps_modify) (simp add: new_colors_def)

lemma keeps_runOnSCC [keeps_intros]: "keeps reach_inv (runOnSCC n L config scc)" "keeps reach_inv (runOnGlobal L config)"
  by (auto simp: runOnSCC_def runOnGlobal_def Let_def intro!: keeps_intros split: prod.split)

lemma keeps_reach_runOnModule [keeps_intros]: "keeps reach_inv (reach_runOnModule n L config)"
proof -
  have "keeps reach_inv (runOnSCCs n L config sccs)" "keeps reach_inv (fdOnSCCs L config sccs)" for sccs
    by (induction sccs) (auto intro!: keeps_intros)
  then show ?thesis unfolding reach_runOnModule_def by (auto intro!: keeps_intros)
qed

end
