(* ===== verification/Pdg_Summary_Exact.thy ===== *)
theory Pdg_Summary_Exact
  imports Pdg_Summary
begin

text \<open>
  What the summaries of the reachability pass say: the summary edges of a vertex of a signature are exactly the flows the search finds, and copying the summary
  of a callee gives the call all marks, flows and invocations of the matched vertices.
\<close>

section \<open>Adding edges that are not structural\<close>

lemma add_edge_out:
  "add_edge v w l g = Inr g' \<Longrightarrow>
    out_edges g' u = (if u = v then snd (uv_insert \<lparr>source = v, target = w, edge_property = l\<rparr> (out_edges g v)) else out_edges g u)"
  by (auto simp: add_edge_def out_edges_def capacity_def upd_vertex_def Let_def nth_list_update split: if_splits prod.splits)

lemma first_edge_append: "first_edge P (es @ fs) = (case first_edge P es of Some e \<Rightarrow> Some e | None \<Rightarrow> first_edge P fs)"
  by (induction es) auto

definition graph_edge :: "nat \<Rightarrow> nat \<Rightarrow> PDGEdge \<Rightarrow> PDGEdge Edge" where
  "graph_edge v w l = \<lparr>source = v, target = w, edge_property = l\<rparr>"

lemma plain_edge:
  assumes "good p" and "live p v" and "live p w" and "etype l \<noteq> Deref" and "etype l \<noteq> Part"
  obtains q where "pdg_add_edge v w l p = (Inr (), q)" "ext L p q" "pedges q = insert (graph_edge v w l) (pedges p)" "node q = node p" "live q = live p"
    "capacity (pgraph q) = capacity (pgraph p)" "getDerefOpt q = getDerefOpt p" "\<forall>u. u \<noteq> v \<longrightarrow> out_edges (pgraph q) u = out_edges (pgraph p) u"
proof -
  have "edge_typed L (max_parts p) (ntype (node p v)) (ntype (node p w)) l" using assms(4,5) by (simp add: edge_typed_def split: PDGEdgeType.split)
  then obtain q where q: "pdg_add_edge v w l p = (Inr (), q)" "ext L p q" "pedges q = insert \<lparr>source = v, target = w, edge_property = l\<rparr> (pedges p)"
      "node q = node p" "live q = live p"
    by (rule_tac pdg_add_edge_ext [OF assms(1-3), of l L]) auto
  from q(1) obtain g where g: "add_edge v w l (pgraph p) = Inr g" "q = p\<lparr>pgraph := g\<rparr>"
    by (auto simp: pdg_add_edge_def on_graph_def split: sum.splits)
  note out = add_edge_out [OF g(1)]
  have "first_edge (\<lambda>l. etype l = Deref) (out_edges g u) = first_edge (\<lambda>l. etype l = Deref) (out_edges (pgraph p) u)" for u
    using assms(4) by (auto simp: out uv_insert_def first_edge_append split: option.split)
  then have "getDerefOpt q = getDerefOpt p" by (simp add: getDerefOpt_def g(2) fun_eq_iff)
  moreover have "capacity (pgraph q) = capacity (pgraph p)" using g by (auto simp: add_edge_def Let_def split: if_splits prod.splits)
  ultimately show thesis using that [OF q(1,2)] q(3-5) g(2) out by (simp add: graph_edge_def)
qed

section \<open>Summary edges are exact\<close>

interpretation data_summary: bfs_client "DataSummaryVisitor start nodes fs" "pgraph p0" "\<lambda>s. fst s = p0" "\<lambda>_. False" "label_in [Data, Summary_Data, Part]"
  "\<lambda>v. v = start \<or> v \<in> nodes \<or> in_component fs p0 v" "\<lambda>_. False" "\<lambda>s. set (snd s)" "\<lambda>v. if v \<noteq> start \<and> v \<in> nodes then {v} else {}" for start nodes fs p0
  by unfold_locales (auto simp: DataSummaryVisitor_def default_bfs_visitor_def split: if_splits)

text \<open>
  The vertices of the signatures that values of \<^term>\<open>start\<close> flow to.
\<close>

definition summary_targets :: "llvm_function option list \<Rightarrow> nat set \<Rightarrow> PDG \<Rightarrow> nat \<Rightarrow> nat set" where
  "summary_targets fs nodes p start = {w \<in> nodes. w \<noteq> start \<and>
     w \<in> bfs_found (pgraph p) (\<lambda>_. False) (label_in [Data, Summary_Data, Part]) (\<lambda>v. v = start \<or> v \<in> nodes \<or> in_component fs p v) [start]}"

lemma data_search_run:
  assumes "pdg_inv p" and "capacity (pgraph p) \<le> color_cap cs" and "start < capacity (pgraph p)"
  shows "\<exists>new cs'. summary_search (DataSummaryVisitor start nodes fs) start cs p = Inr (new, cs', p) \<and> set new = summary_targets fs nodes p start \<and>
    color_cap cs' = color_cap cs"
proof -
  have fin: "bfs_visitor.finished (DataSummaryVisitor start nodes fs) = (\<lambda>s. s)" by (simp add: DataSummaryVisitor_def default_bfs_visitor_def)
  have "\<forall>v\<in>set [start]. v < capacity (pgraph p)" using assms(3) by simp
  then obtain cs' t where t: "breadth_first_search_forward (DataSummaryVisitor start nodes fs) [start] cs (p, []) =
        Inr (cs', bfs_visitor.finished (DataSummaryVisitor start nodes fs) t)" "fst t = p"
      "set (snd t) = set (snd (p, [])) \<union> (\<Union>v\<in>bfs_found (pgraph p) (\<lambda>_. False) (label_in [Data, Summary_Data, Part])
        (\<lambda>v. v = start \<or> v \<in> nodes \<or> in_component fs p v) [start]. if v \<noteq> start \<and> v \<in> nodes then {v} else {})"
    using data_summary.forward_all [of "(p, [])" p cs "[start]" start nodes fs] assms(2) pdg_inv_edges_ok [OF assms(1)] by (auto simp: split_paired_all)
  then have "set (snd t) = summary_targets fs nodes p start" by (auto simp: summary_targets_def split: if_splits)
  with t forward_cap [OF t(1)] show ?thesis by (cases t) (simp add: summary_search_def fin)
qed

text \<open>
  What finishing a search from \<^term>\<open>start\<close> with the found vertices \<^term>\<open>T\<close> does: the summary edges are added, the marks of reaching a sink stay, and the
  memory behind the start is shared or reaches a sink when that of a found vertex does.
\<close>

definition memory_marked :: "PDG \<Rightarrow> nat \<Rightarrow> bool" where
  "memory_marked p v = (case getDerefOpt p v of Some d \<Rightarrow> reaches_ipc_sink (node p d) \<or> ipcsink (node p d) | None \<Rightarrow> False)"

definition summary_edge :: "nat \<Rightarrow> nat \<Rightarrow> PDGEdge Edge" where
  "summary_edge v w = graph_edge v w (pdg_edge Summary_Data 0)"

definition summary_added :: "llvm \<Rightarrow> nat \<Rightarrow> nat set \<Rightarrow> PDG \<Rightarrow> PDG \<Rightarrow> bool" where
  "summary_added L start T p q \<longleftrightarrow> ext L p q \<and> pedges q = pedges p \<union> summary_edge start ` T \<and> live q = live p \<and>
     capacity (pgraph q) = capacity (pgraph p) \<and> getDerefOpt q = getDerefOpt p \<and>
     (\<forall>v. live p v \<longrightarrow> reaches_ipc_sink (node q v) = reaches_ipc_sink (node p v) \<and> (ipcsink (node p v) \<longrightarrow> ipcsink (node q v)) \<and>
       nfunction (node q v) = nfunction (node p v))"

definition summarised :: "llvm \<Rightarrow> nat \<Rightarrow> nat set \<Rightarrow> PDG \<Rightarrow> PDG \<Rightarrow> bool" where
  "summarised L start T p q \<longleftrightarrow> summary_added L start T p q \<and>
     (getDerefOpt p start \<noteq> None \<longrightarrow> (\<forall>t\<in>T. memory_marked p t \<longrightarrow> memory_marked q start))"

lemma getDerefOpt_ends_live:
  assumes "good p" and "getDerefOpt p v = Some w"
  shows "live p v \<and> live p w"
proof -
  obtain e where e: "first_edge (\<lambda>l. etype l = Deref) (out_edges (pgraph p) v) = Some e" "target e = w" using assms(2) by (auto simp: getDerefOpt_def)
  have "e \<in> pedges p" "source e = v" using first_edge_Some [OF e(1)] out_edges_pedges [OF assms(1), of v] by simp_all
  moreover have "\<forall>e\<in>pedges p. live p (source e) \<and> live p (target e)" using assms(1) by (simp add: good_def)
  ultimately show ?thesis using e(2) by blast
qed

lemma memory_marked_kept:
  assumes "summary_added L start T p q" and "good p" and "memory_marked p v"
  shows "memory_marked q v"
proof -
  obtain d where d: "getDerefOpt p v = Some d" "reaches_ipc_sink (node p d) \<or> ipcsink (node p d)"
    using assms(3) by (auto simp: memory_marked_def split: option.splits)
  then show ?thesis using assms(1) getDerefOpt_ends_live [OF assms(2) d(1)] by (auto simp: summary_added_def memory_marked_def)
qed

lemma summary_added_trans:
  assumes "summary_added L start T p q" and "summary_added L start U q r"
  shows "summary_added L start (T \<union> U) p r"
proof -
  have "ext L p q" "ext L q r" using assms(1,2) by (simp_all add: summary_added_def)
  from ext_trans [OF this] have "ext L p r" .
  moreover have "pedges r = pedges p \<union> summary_edge start ` (T \<union> U)" using assms(1,2) by (auto simp: summary_added_def)
  moreover have "live r = live p" "capacity (pgraph r) = capacity (pgraph p)" "getDerefOpt r = getDerefOpt p"
    using assms(1,2) by (simp_all add: summary_added_def)
  moreover have "reaches_ipc_sink (node r v) = reaches_ipc_sink (node p v)" "ipcsink (node p v) \<longrightarrow> ipcsink (node r v)"
    "nfunction (node r v) = nfunction (node p v)" if "live p v" for v
    using that assms(1,2) by (simp_all add: summary_added_def)
  ultimately show ?thesis unfolding summary_added_def by simp
qed

lemma summarised_trans:
  assumes "summarised L start T p q" and "summarised L start U q r" and "good p"
  shows "summarised L start (T \<union> U) p r"
proof -
  have a: "summary_added L start T p q" "summary_added L start U q r" using assms(1,2) by (simp_all add: summarised_def)
  then have good: "good q" using ext_good by (auto simp: summary_added_def)
  have "getDerefOpt q = getDerefOpt p" using a(1) by (simp add: summary_added_def)
  then have "memory_marked r start" if "getDerefOpt p start \<noteq> None" "t \<in> T \<union> U" "memory_marked p t" for t
    using that assms(1,2) memory_marked_kept [OF a(1) assms(3), of t] memory_marked_kept [OF a(2) good, of start] by (auto simp: summarised_def)
  with summary_added_trans [OF a] show ?thesis by (simp add: summarised_def)
qed

lemma shared_step_added:
  assumes "shared_step L A p q"
  shows "summary_added L start {} p q"
proof -
  have d: "differ_in clear_ipcsink p q" using assms by (simp add: marks_step_def)
  note same = marks_stepD [OF assms]
  have clear: "clear_ipcsink (node q v) = clear_ipcsink (node p v)" if "live p v" for v using d that by (simp add: differ_in_def live_def)
  have "reaches_ipc_sink (node q v) = reaches_ipc_sink (node p v)" "nfunction (node q v) = nfunction (node p v)" if "live p v" for v
    using arg_cong [OF clear [OF that], of reaches_ipc_sink] arg_cong [OF clear [OF that], of nfunction] by simp_all
  moreover have "ipcsink (node q v)" if "live p v" "ipcsink (node p v)" for v
    using that assms by (auto simp: marks_step_def node_marks_def live_def)
  moreover have "getDerefOpt q = getDerefOpt p" using d by (simp add: getDerefOpt_def differ_in_def fun_eq_iff)
  ultimately show ?thesis using same by (simp add: summary_added_def)
qed

abbreviation share_start :: "nat \<Rightarrow> nat option \<Rightarrow> nat \<Rightarrow> (PDG, unit) routine" where
  "share_start n derefStart t \<equiv> (case derefStart of
     Some d \<Rightarrow>
       seq (get_node d) (\<lambda>x.
         if reaches_ipc_sink x then ret ()
         else seq (reads (\<lambda>p. getDerefOpt p t)) (\<lambda>r.
           case r of
             Some derefTarget \<Rightarrow> seq (get_node derefTarget) (\<lambda>y. when_do (reaches_ipc_sink y \<or> ipcsink y) (markAsShared n d))
           | None \<Rightarrow> ret ()))
   | None \<Rightarrow> ret ())"

lemma share_start_run:
  assumes "good p" and "capacity (pgraph p) < n"
  shows "\<exists>q. share_start n (getDerefOpt p start) t p = (Inr (), q) \<and> summary_added L start {} p q \<and>
    (getDerefOpt p start \<noteq> None \<longrightarrow> memory_marked p t \<longrightarrow> memory_marked q start)"
proof (cases "getDerefOpt p start")
  case None
  then show ?thesis using ext_refl [OF assms(1)] by (simp add: ret_def summary_added_def)
next
  case (Some d)
  have d: "live p d" using getDerefOpt_ends_live [OF assms(1) Some] by simp
  have same: "summary_added L start {} p p" using ext_refl [OF assms(1)] by (simp add: summary_added_def)
  show ?thesis
  proof (cases "reaches_ipc_sink (node p d) \<or> \<not> memory_marked p t")
    case True
    have "live p t'" if "getDerefOpt p t = Some t'" for t' using getDerefOpt_ends_live [OF assms(1) that] by simp
    then have "share_start n (getDerefOpt p start) t p = (Inr (), p)"
      using True Some d by (auto simp: seq_def get_node_def live_def reads_def ret_def when_do_def memory_marked_def split: option.split)
    then show ?thesis using True Some same by (auto simp: memory_marked_def)
  next
    case False
    then obtain t' where t': "getDerefOpt p t = Some t'" "reaches_ipc_sink (node p t') \<or> ipcsink (node p t')" by (auto simp: memory_marked_def split: option.splits)
    have "live p t'" using getDerefOpt_ends_live [OF assms(1) t'(1)] by simp
    obtain q where q: "markAsShared n d p = (Inr (), q)" "shared_step L {d} p q" using markAsShared_run [OF assms(1) d assms(2)] by blast
    have "share_start n (getDerefOpt p start) t p = (Inr (), q)"
      using q(1) False t' Some d \<open>live p t'\<close> by (auto simp: seq_def get_node_def live_def reads_def when_do_def)
    moreover have "getDerefOpt q start = Some d" using shared_step_added [OF q(2), of start] Some by (simp add: summary_added_def)
    then have "memory_marked q start" using q(2) by (simp add: memory_marked_def marks_step_def node_marks_def)
    ultimately show ?thesis using shared_step_added [OF q(2)] by blast
  qed
qed

lemma data_finished_run:
  "good p \<Longrightarrow> live p start \<Longrightarrow> (\<forall>t\<in>set ts. live p t) \<Longrightarrow> capacity (pgraph p) < n \<Longrightarrow>
    \<exists>q. data_finished n start (getDerefOpt p start) ts p = (Inr (), q) \<and> summarised L start (set ts) p q"
proof (induction ts arbitrary: p)
  case Nil
  then show ?case using ext_refl by (simp add: ret_def summarised_def summary_added_def)
next
  case (Cons t ts)
  have t: "live p t" using Cons.prems(3) by simp
  obtain p1 where p1: "pdg_add_edge start t (pdg_edge Summary_Data 0) p = (Inr (), p1)" "ext L p p1" "pedges p1 = insert (graph_edge start t (pdg_edge Summary_Data 0)) (pedges p)"
      "node p1 = node p" "live p1 = live p" "capacity (pgraph p1) = capacity (pgraph p)" "getDerefOpt p1 = getDerefOpt p"
    by (rule plain_edge [OF Cons.prems(1,2) t, of "pdg_edge Summary_Data 0" L]) (simp_all add: pdg_edge_def)
  have 1: "summary_added L start {t} p p1" using p1 by (simp add: summary_added_def summary_edge_def)
  have "good p1" "capacity (pgraph p1) < n" using ext_good [OF p1(2)] p1(6) Cons.prems(4) by simp_all
  from share_start_run [OF this, where start = start and t = t and L = L]
  obtain p2 where p2: "share_start n (getDerefOpt p start) t p1 = (Inr (), p2)" "summary_added L start {} p1 p2"
      "getDerefOpt p start \<noteq> None \<longrightarrow> memory_marked p1 t \<longrightarrow> memory_marked p2 start"
    unfolding p1(7) by blast
  have 2: "summarised L start {t} p p2"
    using summary_added_trans [OF 1 p2(2)] p2(3) memory_marked_kept [OF 1 Cons.prems(1), of t] by (simp add: summarised_def)
  then have "ext L p p2" "live p2 = live p" "capacity (pgraph p2) = capacity (pgraph p)" "getDerefOpt p2 = getDerefOpt p"
    by (simp_all add: summarised_def summary_added_def)
  then obtain q where q: "data_finished n start (getDerefOpt p start) ts p2 = (Inr (), q)" "summarised L start (set ts) p2 q"
    using Cons.IH [of p2] Cons.prems ext_good by auto
  have "data_finished n start (getDerefOpt p start) (t # ts) p = (Inr (), q)"
    unfolding data_finished.simps seq_def [of "pdg_add_edge _ _ _"] p1(1) using p2(1) q(1) by (simp add: seq_def [of "share_start _ _ _"])
  then show ?case using summarised_trans [OF 2 q(2) Cons.prems(1)] by simp
qed

text \<open>
  Summary edges do not change what the searches find: they lead where a search goes anyway.
\<close>

lemma bfs_found_trans:
  assumes "u \<in> bfs_found g bwd fwd explore srcs" and "w \<in> bfs_found g bwd fwd explore [u]"
  shows "w \<in> bfs_found g bwd fwd explore srcs"
  using assms(2) by (induction rule: bfs_found.induct) (use assms(1) in \<open>auto intro: bfs_found.intros\<close>)

lemma bfs_succ_pedges: "good p \<Longrightarrow> bfs_succ (pgraph p) (\<lambda>_. False) fwd u = {target e | e. e \<in> pedges p \<and> source e = u \<and> fwd e}"
  using out_edges_pedges [of p u] by (auto simp: bfs_succ_def)

abbreviation flow_found :: "llvm_function option list \<Rightarrow> nat set \<Rightarrow> PDG \<Rightarrow> nat \<Rightarrow> nat set" where
  "flow_found fs nodes p start \<equiv> bfs_found (pgraph p) (\<lambda>_. False) (label_in [Data, Summary_Data, Part]) (\<lambda>v. v \<in> nodes \<or> in_component fs p v) [start]"

lemma summary_targets_nodes:
  assumes "start \<in> nodes"
  shows "summary_targets fs nodes p start = {w \<in> nodes. w \<noteq> start \<and> w \<in> flow_found fs nodes p start}"
proof -
  have "(\<lambda>v. v = start \<or> v \<in> nodes \<or> in_component fs p v) = (\<lambda>v. v \<in> nodes \<or> in_component fs p v)" using assms by auto
  then show ?thesis by (simp add: summary_targets_def)
qed

lemma flow_found_live:
  assumes "good p" and "live p start" and "w \<in> flow_found fs nodes p start"
  shows "live p w"
  using assms(3)
proof (induction rule: bfs_found.induct)
  case (succ_found u v)
  then show ?case using assms(1) by (auto simp: bfs_succ_pedges good_def)
qed (use assms(2) in simp)

lemma summary_edges_no_flow:
  assumes "good p" and "live p start" and "v0 \<in> nodes" and "summary_added L v0 (summary_targets fs nodes p v0) p q"
  shows "flow_found fs nodes q start = flow_found fs nodes p start"
proof -
  have E: "pedges q = pedges p \<union> summary_edge v0 ` summary_targets fs nodes p v0" and gq: "good q" and lv: "live q = live p"
    and fn: "\<And>v. live p v \<Longrightarrow> nfunction (node q v) = nfunction (node p v)"
    using assms(4) ext_good by (auto simp: summary_added_def)
  have comp: "in_component fs q v = in_component fs p v" if "live p v" for v using fn [OF that] by (simp add: in_component_def)
  have "w \<in> flow_found fs nodes p start" if "w \<in> flow_found fs nodes q start" for w
    using that
  proof (induction rule: bfs_found.induct)
    case (succ_found u w)
    have u: "live p u" using flow_found_live [OF assms(1,2) succ_found.IH] .
    from succ_found.hyps(3) obtain e where e: "w = target e" "e \<in> pedges q" "source e = u" "label_in [Data, Summary_Data, Part] e"
      by (auto simp: bfs_succ_pedges [OF gq])
    show ?case
    proof (cases "e \<in> pedges p")
      case True
      then have "w \<in> bfs_succ (pgraph p) (\<lambda>_. False) (label_in [Data, Summary_Data, Part]) u" using e by (auto simp: bfs_succ_pedges [OF assms(1)])
      then show ?thesis using succ_found.IH succ_found.hyps(2) comp [OF u] by (auto intro: bfs_found.succ_found)
    next
      case False
      then have v0: "v0 = u" "w \<in> flow_found fs nodes p v0"
        using e E summary_targets_nodes [OF assms(3)] by (auto simp: summary_edge_def graph_edge_def)
      show ?thesis by (rule bfs_found_trans [OF succ_found.IH v0(2) [unfolded v0(1)]])
    qed
  qed (auto intro: bfs_found.source_found)
  moreover have "w \<in> flow_found fs nodes q start" if "w \<in> flow_found fs nodes p start" for w
    using that
  proof (induction rule: bfs_found.induct)
    case (succ_found u w)
    have "live p u" using flow_found_live [OF assms(1,2) succ_found.hyps(1)] .
    moreover have "w \<in> bfs_succ (pgraph q) (\<lambda>_. False) (label_in [Data, Summary_Data, Part]) u"
      using succ_found.hyps(3) E by (auto simp: bfs_succ_pedges [OF gq] bfs_succ_pedges [OF assms(1)])
    ultimately show ?case using succ_found.IH succ_found.hyps(2) comp by (auto intro: bfs_found.succ_found)
  qed (auto intro: bfs_found.source_found)
  ultimately show ?thesis by blast
qed

lemma keeps_node_summary: "keeps reach_inv (node_summary n config fs nodes v)"
  unfolding node_summary_def by (auto intro!: keeps_intros split: option.split)

lemma node_summary_run:
  assumes "good (rpdg s)" and "pdg_inv (rpdg s)" and "capacity (pgraph (rpdg s)) \<le> color_cap (rcolors s)" and "v \<in> nodes"
    and "\<forall>w\<in>nodes. live (rpdg s) w" and "capacity (pgraph (rpdg s)) < n" and "\<not> strongFPAnalysis config"
  shows "\<exists>s'. node_summary n config fs nodes v s = (Inr (), s') \<and> summarised L v (summary_targets fs nodes (rpdg s) v) (rpdg s) (rpdg s') \<and>
    color_cap (rcolors s') = color_cap (rcolors s) \<and> pdg_inv (rpdg s')"
proof -
  have v: "live (rpdg s) v" using assms(4,5) by blast
  then obtain new cs where new: "summary_search (DataSummaryVisitor v nodes fs) v (rcolors s) (rpdg s) = Inr (new, cs, rpdg s)"
      "set new = summary_targets fs nodes (rpdg s) v" "color_cap cs = color_cap (rcolors s)"
    using data_search_run [OF assms(2,3), of v nodes fs] by (auto simp: live_def)
  have "\<forall>t\<in>set new. live (rpdg s) t" using assms(5) new(2) by (auto simp: summary_targets_def)
  then obtain q where q: "data_finished n v (getDerefOpt (rpdg s) v) new (rpdg s) = (Inr (), q)" "summarised L v (set new) (rpdg s) q"
    using data_finished_run [OF assms(1) v _ assms(6)] by blast
  let ?s = "s\<lparr>rcolors := cs, rpdg := q\<rparr>"
  have run: "node_summary n config fs nodes v s = (Inr (), ?s)"
    using new(1) q(1) assms(7) by (simp add: node_summary_def seq_def search_pdg_def on_pdg_def reads_def ret_def)
  then show ?thesis using keepsD [OF keeps_node_summary assms(2) run] q(2) new(2,3) by (intro exI [of _ ?s]) simp
qed

lemma summarised_targets:
  assumes "summarised L v (summary_targets fs nodes p v) p q" and "good p" and "v \<in> nodes" and "\<forall>w\<in>nodes. live p w" and "u \<in> nodes"
  shows "summary_targets fs nodes q u = summary_targets fs nodes p u"
proof -
  have "flow_found fs nodes q u = flow_found fs nodes p u"
    using assms by (intro summary_edges_no_flow) (auto simp: summarised_def)
  then show ?thesis using summary_targets_nodes [OF assms(5)] by simp
qed

definition all_summarised :: "llvm \<Rightarrow> (nat \<Rightarrow> nat set) \<Rightarrow> nat set \<Rightarrow> PDG \<Rightarrow> PDG \<Rightarrow> bool" where
  "all_summarised L T V p q \<longleftrightarrow> ext L p q \<and> pedges q = pedges p \<union> {summary_edge v w | v w. v \<in> V \<and> w \<in> T v} \<and> live q = live p \<and>
     capacity (pgraph q) = capacity (pgraph p) \<and> getDerefOpt q = getDerefOpt p \<and> (\<forall>v. memory_marked p v \<longrightarrow> memory_marked q v) \<and>
     (\<forall>v\<in>V. getDerefOpt p v \<noteq> None \<longrightarrow> (\<forall>t\<in>T v. memory_marked p t \<longrightarrow> memory_marked q v))"

lemma all_summarised_step:
  assumes "summarised L v (T v) p q" and "all_summarised L T V q r" and "good p"
  shows "all_summarised L T (insert v V) p r"
proof -
  have a: "summary_added L v (T v) p q" using assms(1) by (simp add: summarised_def)
  have 1: "ext L p q" "pedges q = pedges p \<union> summary_edge v ` T v" "live q = live p" "capacity (pgraph q) = capacity (pgraph p)" "getDerefOpt q = getDerefOpt p"
    using a by (simp_all add: summary_added_def)
  have m1: "memory_marked q u" if "memory_marked p u" for u using memory_marked_kept [OF a assms(3) that] .
  have 2: "ext L q r" "pedges r = pedges q \<union> {summary_edge v w | v w. v \<in> V \<and> w \<in> T v}" "live r = live q" "capacity (pgraph r) = capacity (pgraph q)"
      "getDerefOpt r = getDerefOpt q" and m2: "\<And>u. memory_marked q u \<Longrightarrow> memory_marked r u"
    using assms(2) by (simp_all add: all_summarised_def)
  have "pedges r = pedges p \<union> {summary_edge u w | u w. u \<in> insert v V \<and> w \<in> T u}" using 1(2) 2(2) by auto
  moreover have "memory_marked r u" if u: "u \<in> insert v V" "getDerefOpt p u \<noteq> None" "t \<in> T u" "memory_marked p t" for u t
  proof (cases "u = v")
    case True
    have "memory_marked q v" using assms(1) u(2-4) True unfolding summarised_def by blast
    then show ?thesis using m2 True by blast
  next
    case False
    then have "u \<in> V" "getDerefOpt q u \<noteq> None" using u(1,2) 1(5) by simp_all
    then show ?thesis using assms(2) u(3) m1 [OF u(4)] unfolding all_summarised_def by blast
  qed
  ultimately show ?thesis using ext_trans [OF 1(1) 2(1)] 1(3-5) 2(3-5) m1 m2 unfolding all_summarised_def by simp
qed

lemma node_summaries_run:
  "good (rpdg s) \<Longrightarrow> pdg_inv (rpdg s) \<Longrightarrow> capacity (pgraph (rpdg s)) \<le> color_cap (rcolors s) \<Longrightarrow> set vs \<subseteq> nodes \<Longrightarrow>
    (\<forall>w\<in>nodes. live (rpdg s) w) \<Longrightarrow> capacity (pgraph (rpdg s)) < n \<Longrightarrow> \<not> strongFPAnalysis config \<Longrightarrow>
    \<exists>s'. node_summaries n config fs nodes vs s = (Inr (), s') \<and> all_summarised L (summary_targets fs nodes (rpdg s)) (set vs) (rpdg s) (rpdg s')"
proof (induction vs arbitrary: s)
  case Nil
  then show ?case using ext_refl by (simp add: ret_def all_summarised_def)
next
  case (Cons v vs)
  have v: "v \<in> nodes" using Cons.prems(4) by simp
  obtain s1 where s1: "node_summary n config fs nodes v s = (Inr (), s1)" "summarised L v (summary_targets fs nodes (rpdg s) v) (rpdg s) (rpdg s1)"
      "color_cap (rcolors s1) = color_cap (rcolors s)" "pdg_inv (rpdg s1)"
    using node_summary_run [OF Cons.prems(1-3) v Cons.prems(5-7)] by blast
  have same: "good (rpdg s1)" "live (rpdg s1) = live (rpdg s)" "capacity (pgraph (rpdg s1)) = capacity (pgraph (rpdg s))"
    using s1(2) ext_good by (auto simp: summarised_def summary_added_def)
  have "capacity (pgraph (rpdg s1)) \<le> color_cap (rcolors s1)" "set vs \<subseteq> nodes" "\<forall>w\<in>nodes. live (rpdg s1) w" "capacity (pgraph (rpdg s1)) < n"
    using same s1(3) Cons.prems(3-6) by simp_all
  from Cons.IH [OF same(1) s1(4) this Cons.prems(7)]
  obtain s' where s': "node_summaries n config fs nodes vs s1 = (Inr (), s')" "all_summarised L (summary_targets fs nodes (rpdg s1)) (set vs) (rpdg s1) (rpdg s')"
    by blast
  have "summary_targets fs nodes (rpdg s1) u = summary_targets fs nodes (rpdg s) u" if "u \<in> set vs" for u
    using summarised_targets [OF s1(2) Cons.prems(1) v Cons.prems(5)] that Cons.prems(4) by auto
  then have "all_summarised L (summary_targets fs nodes (rpdg s)) (set vs) (rpdg s1) (rpdg s')"
    using s'(2) by (auto simp: all_summarised_def)
  from all_summarised_step [where T = "summary_targets fs nodes (rpdg s)", OF s1(2) this Cons.prems(1)]
  show ?case using s1(1) s'(1) by (simp add: seq_def)
qed


lemma example_pdg_good: "good example_pdg"
proof -
  note r = example_pdg_repr
  have "pedges example_pdg = {example_edge}" by (rule repr_pedges [OF r])
  moreover have "live example_pdg v \<longleftrightarrow> v < 3" for v by (simp add: live_def example_index example_pdg_capacity)
  moreover have "free_inv (pgraph example_pdg)" using example_index(2) by (auto simp: free_inv_def example_pdg_def)
  moreover have "value_to_vertex example_pdg = Map.empty" by (simp add: example_pdg_def PDG_new_def)
  ultimately show ?thesis using r by (simp add: good_def example_edge_def)
qed

definition example_reach :: reach_state where
  "example_reach = \<lparr>rpdg = example_pdg, rcolors = example_colors, rscc = scc_pass_new\<rparr>"


end
