(* ===== verification/Pdg_Call_Copy.thy ===== *)
theory Pdg_Call_Copy
  imports Pdg_Summary_Exact
begin

text \<open>
  The copy of a summary to a call (\<^verbatim>\<open>handleCall\<close> of \<^verbatim>\<open>cali-linker/passes/PDGReachabilityPass.cpp\<close>) takes over all marks, flows and invocations of the matched
  vertices.
\<close>

section \<open>Later states\<close>

definition later :: "llvm \<Rightarrow> nat set \<Rightarrow> PDG \<Rightarrow> PDG \<Rightarrow> bool" where
  "later L K p q \<longleftrightarrow> ext L p q \<and> (\<forall>k\<in>K. out_edges (pgraph q) k = out_edges (pgraph p) k) \<and>
     (\<forall>v. live p v \<longrightarrow> (reaches_ipc_sink (node p v) \<longrightarrow> reaches_ipc_sink (node q v)) \<and> (ipcsink (node p v) \<longrightarrow> ipcsink (node q v)))"

lemma later_refl: "good p \<Longrightarrow> later L K p p"
  by (simp add: later_def ext_refl)

lemma later_trans:
  assumes "later L K p q" and "later L K q r"
  shows "later L K p r"
proof -
  have e: "ext L p q" "ext L q r" using assms by (simp_all add: later_def)
  have "live q v" if "live p v" for v using ext_live [OF e(1) that] by simp
  with ext_trans [OF e] show ?thesis using assms unfolding later_def by simp
qed

lemma laterD:
  assumes "later L K p q"
  shows "ext L p q" "good q" "live p v \<Longrightarrow> live q v" "e \<in> pedges p \<Longrightarrow> e \<in> pedges q"
proof -
  show e: "ext L p q" using assms by (simp add: later_def)
  show "good q" "e \<in> pedges p \<Longrightarrow> e \<in> pedges q" using e by (auto simp: ext_def)
  show "live p v \<Longrightarrow> live q v" using ext_live [OF e] by blast
qed

lemma later_edge:
  assumes "good p" and "live p v" and "live p w" and "etype l \<noteq> Deref" and "etype l \<noteq> Part" and "v \<notin> K"
  shows "\<exists>q. pdg_add_edge v w l p = (Inr (), q) \<and> later L K p q \<and> graph_edge v w l \<in> pedges q"
proof -
  obtain q where q: "pdg_add_edge v w l p = (Inr (), q)" "ext L p q" "pedges q = insert (graph_edge v w l) (pedges p)" "node q = node p"
      "\<forall>u. u \<noteq> v \<longrightarrow> out_edges (pgraph q) u = out_edges (pgraph p) u"
    by (rule plain_edge [OF assms(1-5), of L])
  then have "later L K p q" using assms(6) by (auto simp: later_def)
  with q(1,3) show ?thesis by blast
qed

lemma add_vertex_out:
  assumes "add_vertex n g = Inr (v, g')" and "u < capacity g"
  shows "out_edges g' u = out_edges g u"
  using assms(1)
proof (cases rule: add_vertex_cases)
  case (reuse st)
  then show ?thesis using assms(2) by (simp add: out_edges_def upd_vertex_def nth_list_update capacity_def)
next
  case (append st)
  then show ?thesis using assms(2) by (simp add: out_edges_def nth_append capacity_def)
qed

lemma later_vertex:
  assumes "good p" and "\<forall>k\<in>K. live p k"
  shows "\<exists>v q. pdg_add_vertex n p = (Inr v, q) \<and> later L K p q \<and> live q v"
proof -
  obtain v q where q: "pdg_add_vertex n p = (Inr v, q)" "ext L p q" "live q v" "node q v = n" "pedges q = pedges p" "\<not> live p v"
      "value_to_vertex q = value_to_vertex p" "max_parts q = max_parts p" "\<forall>w. live q w \<longleftrightarrow> live p w \<or> w = v" "\<forall>w. live p w \<longrightarrow> node q w = node p w"
      "subnode_limit q = subnode_limit p"
    by (rule pdg_add_vertex_ext [OF assms(1)])
  from q(1) obtain g where g: "add_vertex n (pgraph p) = Inr (v, g)" "pgraph q = g"
    by (auto simp: pdg_add_vertex_def split: sum.splits)
  have "out_edges g k = out_edges (pgraph p) k" if "k \<in> K" for k using add_vertex_out [OF g(1)] that assms(2) by (simp add: live_def)
  then have "later L K p q" using q(2,10) by (simp add: later_def g(2))
  with q(1,3) show ?thesis by blast
qed

section \<open>One edge\<close>

text \<open>
  What the copy of the edge \<^term>\<open>e\<close> of a vertex that is matched with \<^term>\<open>w\<close> leaves: a summary edge gives a flow, an invocation gives an invocation at a
  vertex for the call, with the matched parameters.
\<close>

definition invocation_copied :: "matching \<Rightarrow> nat \<Rightarrow> PDGEdge Edge \<Rightarrow> PDG \<Rightarrow> PDG \<Rightarrow> bool" where
  "invocation_copied m w e p q \<longleftrightarrow> (\<exists>d. graph_edge w d (pdg_edge Invocation 0) \<in> pedges q \<and>
     (\<forall>e2\<in>pedges p. \<forall>u. target e2 = target e \<longrightarrow> etype (edge_property e2) = Param \<longrightarrow> map_of m (source e2) = Some u \<longrightarrow>
        graph_edge u d (pdg_edge Param (eindex (edge_property e2))) \<in> pedges q))"

definition edge_copied :: "matching \<Rightarrow> nat \<Rightarrow> PDGEdge Edge \<Rightarrow> PDG \<Rightarrow> PDG \<Rightarrow> bool" where
  "edge_copied m w e p q \<longleftrightarrow>
     (etype (edge_property e) = Summary_Data \<longrightarrow> (\<forall>w'. map_of m (target e) = Some w' \<longrightarrow> graph_edge w w' (pdg_edge Data 0) \<in> pedges q)) \<and>
     (etype (edge_property e) = Summary_Equals \<longrightarrow> (\<forall>w'. map_of m (target e) = Some w' \<longrightarrow> graph_edge w w' (pdg_edge Equals 0) \<in> pedges q)) \<and>
     (etype (edge_property e) = Invocation \<or> etype (edge_property e) = Summary_Invocation \<longrightarrow> invocation_copied m w e p q)"

lemma edge_copied_mono:
  assumes "edge_copied m w e p' q'" and "pedges p \<subseteq> pedges p'" and "pedges q' \<subseteq> pedges q"
  shows "edge_copied m w e p q"
proof -
  have "invocation_copied m w e p q" if "invocation_copied m w e p' q'"
    using that assms(2,3) unfolding invocation_copied_def by blast
  then show ?thesis using assms(1,3) unfolding edge_copied_def by blast
qed

text \<open>
  A matching whose vertices are in the graph, with those of the callee apart from those of the call.
\<close>

definition matching_ok :: "matching \<Rightarrow> PDG \<Rightarrow> bool" where
  "matching_ok m p \<longleftrightarrow> (\<forall>(k, w)\<in>set m. live p k \<and> live p w \<and> w \<notin> fst ` set m)"

lemma matching_okD: "matching_ok m p \<Longrightarrow> map_of m k = Some w \<Longrightarrow> live p k \<and> live p w \<and> w \<notin> fst ` set m"
  unfolding matching_ok_def by (auto dest: map_of_SomeD)

lemma matching_ok_later: "matching_ok m p \<Longrightarrow> later L K p q \<Longrightarrow> matching_ok m q"
  using laterD(3) unfolding matching_ok_def by blast

abbreviation keys :: "matching \<Rightarrow> nat set" where
  "keys m \<equiv> fst ` set m"

lemma copy_params_run:
  "good p \<Longrightarrow> matching_ok m p \<Longrightarrow> live p d \<Longrightarrow> \<exists>q. copy_params m d es p = (Inr (), q) \<and> later L (keys m) p q \<and>
    (\<forall>e\<in>set es. \<forall>u. etype (edge_property e) = Param \<longrightarrow> map_of m (source e) = Some u \<longrightarrow> graph_edge u d (pdg_edge Param (eindex (edge_property e))) \<in> pedges q)"
proof (induction es arbitrary: p)
  case Nil
  then show ?case using later_refl by (simp add: ret_def)
next
  case (Cons e es)
  let ?step = "if etype (edge_property e) = Param then
    (case map_of m (source e) of Some w \<Rightarrow> pdg_add_edge w d (pdg_edge Param (eindex (edge_property e))) | None \<Rightarrow> ret ()) else ret ()"
  have "\<exists>p1. ?step p = (Inr (), p1) \<and> later L (keys m) p p1 \<and>
      (\<forall>u. etype (edge_property e) = Param \<longrightarrow> map_of m (source e) = Some u \<longrightarrow> graph_edge u d (pdg_edge Param (eindex (edge_property e))) \<in> pedges p1)"
  proof (cases "etype (edge_property e) = Param \<and> map_of m (source e) \<noteq> None")
    case True
    then obtain u where u: "map_of m (source e) = Some u" by blast
    have "\<exists>p1. pdg_add_edge u d (pdg_edge Param (eindex (edge_property e))) p = (Inr (), p1) \<and> later L (keys m) p p1 \<and>
        graph_edge u d (pdg_edge Param (eindex (edge_property e))) \<in> pedges p1"
      using matching_okD [OF Cons.prems(2) u] Cons.prems(1,3) by (intro later_edge) (simp_all add: pdg_edge_def)
    then show ?thesis using True u by auto
  next
    case False
    then have "?step p = (Inr (), p)" by (auto simp: ret_def)
    with False show ?thesis using later_refl [OF Cons.prems(1)] by auto
  qed
  then obtain p1 where p1: "?step p = (Inr (), p1)" "later L (keys m) p p1"
      "\<forall>u. etype (edge_property e) = Param \<longrightarrow> map_of m (source e) = Some u \<longrightarrow> graph_edge u d (pdg_edge Param (eindex (edge_property e))) \<in> pedges p1"
    by blast
  from Cons.IH [OF laterD(2) [OF p1(2)] matching_ok_later [OF Cons.prems(2) p1(2)] laterD(3) [OF p1(2) Cons.prems(3)]]
  obtain q where q: "copy_params m d es p1 = (Inr (), q)" "later L (keys m) p1 q"
      "\<forall>e\<in>set es. \<forall>u. etype (edge_property e) = Param \<longrightarrow> map_of m (source e) = Some u \<longrightarrow> graph_edge u d (pdg_edge Param (eindex (edge_property e))) \<in> pedges q"
    by blast
  have "copy_params m d (e # es) p = (Inr (), q)" using p1(1) q(1) by (simp add: seq_def)
  then show ?case using later_trans [OF p1(2) q(2)] p1(3) q(3) laterD(4) [OF q(2)] by auto
qed

lemma copy_invocation_run:
  assumes "good p" and "matching_ok m p" and "live p w" and "w \<notin> keys m"
  shows "\<exists>q. seq (createDummyVertex L call f) (\<lambda>d. seq (pdg_add_edge w d (pdg_edge Invocation 0)) (\<lambda>_.
      seq (reads (\<lambda>p. in_edges (pgraph p) (target e))) (\<lambda>es. copy_params m d es))) p = (Inr (), q) \<and>
    later L (keys m) p q \<and> invocation_copied m w e p q"
proof -
  have "\<forall>k\<in>keys m. live p k" using assms(2) by (auto simp: matching_ok_def)
  then obtain d p1 where p1: "createDummyVertex L call f p = (Inr d, p1)" "later L (keys m) p p1" "live p1 d"
    using later_vertex [OF assms(1), of "keys m" "(value_node L call f)\<lparr>dummy := True\<rparr>" L] unfolding createDummyVertex_def by blast
  have "\<exists>p2. pdg_add_edge w d (pdg_edge Invocation 0) p1 = (Inr (), p2) \<and> later L (keys m) p1 p2 \<and> graph_edge w d (pdg_edge Invocation 0) \<in> pedges p2"
    using laterD(2,3) [OF p1(2)] p1(3) assms(3,4) by (intro later_edge) (simp_all add: pdg_edge_def)
  then obtain p2 where p2: "pdg_add_edge w d (pdg_edge Invocation 0) p1 = (Inr (), p2)" "later L (keys m) p1 p2" "graph_edge w d (pdg_edge Invocation 0) \<in> pedges p2" by blast
  note l2 = later_trans [OF p1(2) p2(2)]
  from copy_params_run [OF laterD(2) [OF l2] matching_ok_later [OF assms(2) l2] laterD(3) [OF p2(2) p1(3)], of "in_edges (pgraph p2) (target e)" L]
  obtain q where q: "copy_params m d (in_edges (pgraph p2) (target e)) p2 = (Inr (), q)" "later L (keys m) p2 q"
      "\<forall>e2\<in>set (in_edges (pgraph p2) (target e)). \<forall>u. etype (edge_property e2) = Param \<longrightarrow> map_of m (source e2) = Some u \<longrightarrow>
        graph_edge u d (pdg_edge Param (eindex (edge_property e2))) \<in> pedges q"
    by blast
  have "set (in_edges (pgraph p2) (target e)) = {e2 \<in> pedges p2. target e2 = target e}" using laterD(2) [OF l2] by (simp add: good_def repr_def)
  then have "invocation_copied m w e p q"
    unfolding invocation_copied_def using q(3) p2(3) laterD(4) [OF q(2)] laterD(4) [OF l2] by (intro exI [of _ d]) auto
  moreover have "seq (createDummyVertex L call f) (\<lambda>d. seq (pdg_add_edge w d (pdg_edge Invocation 0)) (\<lambda>_.
      seq (reads (\<lambda>p. in_edges (pgraph p) (target e))) (\<lambda>es. copy_params m d es))) p = (Inr (), q)"
    using p1(1) p2(1) q(1) by (simp add: seq_def reads_def)
  ultimately show ?thesis using later_trans [OF l2 q(2)] by blast
qed

lemma copy_edge_run:
  assumes "good p" and "matching_ok m p" and "live p w" and "w \<notin> keys m"
  shows "\<exists>q. copy_edge L call m w e p = (Inr (), q) \<and> later L (keys m) p q \<and> edge_copied m w e p q"
proof -
  let ?t = "etype (edge_property e)"
  let ?flow = "if ?t = Summary_Equals \<or> ?t = Summary_Data then
    (case map_of m (target e) of Some w' \<Rightarrow> pdg_add_edge w w' (pdg_edge (if ?t = Summary_Equals then Equals else Data) 0) | None \<Rightarrow> ret ()) else ret ()"
  show ?thesis
  proof (cases "(?t = Summary_Equals \<or> ?t = Summary_Data) \<and> map_of m (target e) \<noteq> None")
    case True
    then obtain w' where w': "map_of m (target e) = Some w'" by blast
    let ?l = "pdg_edge (if ?t = Summary_Equals then Equals else Data) 0"
    have "\<exists>q. pdg_add_edge w w' ?l p = (Inr (), q) \<and> later L (keys m) p q \<and> graph_edge w w' ?l \<in> pedges q"
      using matching_okD [OF assms(2) w'] assms by (intro later_edge) (simp_all add: pdg_edge_def)
    then obtain q where q: "pdg_add_edge w w' ?l p = (Inr (), q)" "later L (keys m) p q" "graph_edge w w' ?l \<in> pedges q" by blast
    then have "copy_edge L call m w e p = (Inr (), q)" using True w' by (auto simp: copy_edge_def seq_def ret_def)
    moreover have "edge_copied m w e p q" using True w' q(3) by (auto simp: edge_copied_def)
    ultimately show ?thesis using q(2) by blast
  next
    case False
    then have flow: "?flow p = (Inr (), p)" by (auto simp: ret_def)
    show ?thesis
    proof (cases "?t = Invocation \<or> ?t = Summary_Invocation")
      case True
      then show ?thesis using copy_invocation_run [OF assms, of L call "instruction_function L call" e] flow
        by (auto simp: copy_edge_def ret_seq edge_copied_def)
    next
      case no: False
      then have "edge_copied m w e p p" using False by (auto simp: edge_copied_def)
      moreover have "copy_edge L call m w e p = (Inr (), p)" unfolding copy_edge_def Let_def seq_def flow using no by (simp add: ret_def)
      ultimately show ?thesis using later_refl [OF assms(1)] by blast
    qed
  qed
qed

section \<open>All edges and all matched vertices\<close>

lemma copy_edges_run:
  "good p \<Longrightarrow> matching_ok m p \<Longrightarrow> live p w \<Longrightarrow> w \<notin> keys m \<Longrightarrow> k \<in> keys m \<Longrightarrow> out_edges (pgraph p) k = all \<Longrightarrow>
    \<exists>q. copy_edges L call m k w all es p = (Inr (), q) \<and> later L (keys m) p q \<and> (\<forall>e\<in>set es. edge_copied m w e p q)"
proof (induction es arbitrary: p)
  case Nil
  then show ?case using later_refl by (simp add: ret_def)
next
  case (Cons e es)
  obtain p1 where p1: "copy_edge L call m w e p = (Inr (), p1)" "later L (keys m) p p1" "edge_copied m w e p p1"
    using copy_edge_run [OF Cons.prems(1-4)] by blast
  have out: "out_edges (pgraph p1) k = all" using p1(2) Cons.prems(5,6) unfolding later_def by blast
  from Cons.IH [OF laterD(2) [OF p1(2)] matching_ok_later [OF Cons.prems(2) p1(2)] laterD(3) [OF p1(2) Cons.prems(3)] Cons.prems(4,5) out]
  obtain q where q: "copy_edges L call m k w all es p1 = (Inr (), q)" "later L (keys m) p1 q" "\<forall>e\<in>set es. edge_copied m w e p1 q" by blast
  have sub: "pedges p \<subseteq> pedges p1" "pedges p1 \<subseteq> pedges q" using laterD(4) [OF p1(2)] laterD(4) [OF q(2)] by blast+
  have "copy_edges L call m k w all (e # es) p = (Inr (), q)" using p1(1) q(1) out by (simp add: seq_def stable_def)
  moreover have "\<forall>e'\<in>set (e # es). edge_copied m w e' p q"
    using edge_copied_mono [OF p1(3) order_refl sub(2)] q(3) edge_copied_mono [OF _ sub(1) order_refl] by auto
  ultimately show ?case using later_trans [OF p1(2) q(2)] by blast
qed

definition marks_copied :: "nat \<Rightarrow> nat \<Rightarrow> PDG \<Rightarrow> PDG \<Rightarrow> bool" where
  "marks_copied k w p q \<longleftrightarrow> (reaches_ipc_sink (node p k) \<or> ipcsink (node p k) \<longrightarrow> reaches_ipc_sink (node q w)) \<and>
     (filedescriptor (node p k) \<and> isFileDescriptorType (ntype (node p w)) \<longrightarrow> filedescriptor (node q w))"

lemma later_set_node:
  assumes "good p" and "live p v" and "\<And>n. keeps_vertex n (f n)" and "\<And>n. reaches_ipc_sink n \<Longrightarrow> reaches_ipc_sink (f n)" and "\<And>n. ipcsink n \<Longrightarrow> ipcsink (f n)"
  shows "set_node v f p = (Inr (), upd_node v f p)" and "later L K p (upd_node v f p)" and "node (upd_node v f p) v = f (node p v)"
proof -
  have v: "v < capacity (pgraph p)" using assms(2) by (simp add: live_def)
  obtain q where q: "set_node v f p = (Inr (), q)" "ext L p q" "q = upd_node v f p" by (rule set_node_ext [OF assms(1-3)])
  show "set_node v f p = (Inr (), upd_node v f p)" using q by simp
  show "node (upd_node v f p) v = f (node p v)" using v by (simp add: node_upd_node)
  show "later L K p (upd_node v f p)" using q(2,3) v assms(4,5) by (auto simp: later_def node_upd_node)
qed

lemma copy_marks_run:
  assumes "good p" and "live p k" and "live p w" and "k \<noteq> w"
  shows "\<exists>q. copy_marks k w p = (Inr (), q) \<and> later L K p q \<and> marks_copied k w p q"
proof -
  let ?f = "\<lambda>y. y\<lparr>reaches_ipc_sink := True\<rparr>" and ?g = "\<lambda>y. y\<lparr>filedescriptor := True\<rparr>"
  let ?b = "reaches_ipc_sink (node p k) \<or> ipcsink (node p k)"
  define p1 where "p1 = (if ?b then upd_node w ?f p else p)"
  have w: "w < capacity (pgraph p)" "k < capacity (pgraph p)" using assms(2,3) by (simp_all add: live_def)
  have f: "set_node w ?f p = (Inr (), upd_node w ?f p)" "later L K p (upd_node w ?f p)"
    using later_set_node [OF assms(1,3), of ?f] by (simp_all add: keeps_vertex_def)
  have l1: "later L K p p1" using f(2) later_refl [OF assms(1)] by (simp add: p1_def)
  have k1: "node p1 k = node p k" "ntype (node p1 w) = ntype (node p w)" "?b \<Longrightarrow> reaches_ipc_sink (node p1 w)"
    using w assms(4) by (simp_all add: p1_def node_upd_node)
  note live1 = laterD(3) [OF l1 assms(3)]
  have c: "w < capacity (pgraph p1)" "k < capacity (pgraph p1)" using live1 laterD(3) [OF l1 assms(2)] by (simp_all add: live_def)
  let ?c = "filedescriptor (node p k) \<and> isFileDescriptorType (ntype (node p w))"
  define q where "q = (if ?c then upd_node w ?g p1 else p1)"
  have g: "set_node w ?g p1 = (Inr (), upd_node w ?g p1)" "later L K p1 (upd_node w ?g p1)"
    using later_set_node [OF laterD(2) [OF l1] live1, of ?g] by (simp_all add: keeps_vertex_def)
  have l2: "later L K p1 q" using g(2) later_refl [OF laterD(2) [OF l1]] by (simp add: q_def)
  have "copy_marks k w p = (Inr (), q)"
    using w c f(1) g(1) k1 by (simp add: copy_marks_def seq_def get_node_def when_do_def ret_def p1_def [symmetric] q_def split: if_splits) (auto simp: p1_def)
  moreover have "reaches_ipc_sink (node q w)" if ?b using l2 live1 k1(3) [OF that] by (simp add: later_def)
  then have "marks_copied k w p q" using c by (auto simp: marks_copied_def q_def node_upd_node)
  ultimately show ?thesis using later_trans [OF l1 l2] by blast
qed

lemma marks_copied_mono:
  assumes "marks_copied k w p1 q1" and "later L K p p1" and "later L K q1 q" and "live p k" and "live p w" and "live q1 w"
  shows "marks_copied k w p q"
proof -
  have "keeps_vertex (node p k) (node p1 k)" "keeps_vertex (node p w) (node p1 w)" "keeps_vertex (node q1 w) (node q w)"
    using ext_live [OF laterD(1) [OF assms(2)]] ext_live [OF laterD(1) [OF assms(3)]] assms(4-6) by blast+
  then show ?thesis using assms by (auto simp: marks_copied_def later_def keeps_vertex_def)
qed

lemma copy_summary_run:
  "good p \<Longrightarrow> matching_ok m p \<Longrightarrow> set ps \<subseteq> set m \<Longrightarrow>
    \<exists>q. copy_summary L call m ps p = (Inr (), q) \<and> later L (keys m) p q \<and>
      (\<forall>(k, w)\<in>set ps. marks_copied k w p q \<and> (\<forall>e\<in>pedges p. source e = k \<longrightarrow> edge_copied m w e p q))"
proof (induction ps arbitrary: p)
  case Nil
  then show ?case using later_refl by (simp add: ret_def)
next
  case (Cons kw ps)
  obtain k w where kw: "kw = (k, w)" by fastforce
  have m: "(k, w) \<in> set m" using Cons.prems(3) kw by simp
  then have k: "live p k" "live p w" "w \<notin> keys m" "k \<in> keys m" using Cons.prems(2) by (force simp: matching_ok_def)+
  then have "k \<noteq> w" by blast
  then obtain p1 where p1: "copy_marks k w p = (Inr (), p1)" "later L (keys m) p p1" "marks_copied k w p p1"
    using copy_marks_run [OF Cons.prems(1) k(1,2)] by blast
  let ?es = "out_edges (pgraph p1) k"
  from copy_edges_run [OF laterD(2) [OF p1(2)] matching_ok_later [OF Cons.prems(2) p1(2)] laterD(3) [OF p1(2) k(2)] k(3,4) refl, of L call ?es]
  obtain p2 where p2: "copy_edges L call m k w ?es ?es p1 = (Inr (), p2)" "later L (keys m) p1 p2" "\<forall>e\<in>set ?es. edge_copied m w e p1 p2" by blast
  note l2 = later_trans [OF p1(2) p2(2)]
  have "set ps \<subseteq> set m" using Cons.prems(3) by simp
  from Cons.IH [OF laterD(2) [OF l2] matching_ok_later [OF Cons.prems(2) l2] this]
  obtain q where q: "copy_summary L call m ps p2 = (Inr (), q)" "later L (keys m) p2 q"
      "\<And>k w. (k, w) \<in> set ps \<Longrightarrow> marks_copied k w p2 q \<and> (\<forall>e\<in>pedges p2. source e = k \<longrightarrow> edge_copied m w e p2 q)" by blast
  have sub: "pedges p \<subseteq> pedges p1" "pedges p \<subseteq> pedges p2" "pedges p2 \<subseteq> pedges q" using laterD(4) [OF p1(2)] laterD(4) [OF l2] laterD(4) [OF q(2)] by blast+
  have es: "set ?es = {e \<in> pedges p1. source e = k}" by (rule out_edges_pedges [OF laterD(2) [OF p1(2)]])
  have first: "edge_copied m w e p q" if "e \<in> pedges p" "source e = k" for e
    using edge_copied_mono [OF _ sub(1,3)] p2(3) that sub(1) es by blast
  have first_marks: "marks_copied k w p q"
    using marks_copied_mono [OF p1(3) later_refl [OF Cons.prems(1)] later_trans [OF p2(2) q(2)] k(1,2) laterD(3) [OF p1(2) k(2)]] .
  have rest: "marks_copied k' w' p q \<and> (\<forall>e\<in>pedges p. source e = k' \<longrightarrow> edge_copied m w' e p q)" if "(k', w') \<in> set ps" for k' w'
  proof -
    have live: "live p k'" "live p w'" using Cons.prems(2,3) that by (auto simp: matching_ok_def)
    have "later L (keys m) q q" by (rule later_refl [OF laterD(2) [OF q(2)]])
    then have "marks_copied k' w' p q"
      using marks_copied_mono [OF _ l2 _ live] q(3) [OF that] laterD(3) [OF q(2) laterD(3) [OF l2 live(2)]] by blast
    then show ?thesis using q(3) [OF that] edge_copied_mono [OF _ sub(2) order_refl] sub(2) by blast
  qed
  have "copy_summary L call m (kw # ps) p = (Inr (), q)" using p1(1) p2(1) q(1) by (simp add: kw seq_def reads_def)
  then show ?case using later_trans [OF l2 q(2)] first first_marks rest kw by (intro exI [of _ q]) auto
qed

text \<open>
  C36: A call of a finished component takes over the summary of the callee. When the vertices of the callee's signature are matched with vertices of the call, none of
  which is itself in a signature position of the match, the copy ends without error and keeps the graph. Each vertex of the call reaches a sink when its match
  reaches or is one, and is a descriptor when its match is one and its type allows it. Each summary edge between matched vertices becomes a flow, and each
  invocation of a matched vertex becomes an invocation at a vertex for the call, with a parameter edge for each matched parameter.
\<close>

theorem copy_summary_complete:
  assumes "good p" and "matching_ok m p"
  shows "\<exists>q. copy_summary L call m m p = (Inr (), q) \<and> ext L p q \<and>
    (\<forall>(k, w)\<in>set m. marks_copied k w p q \<and> (\<forall>e\<in>pedges p. source e = k \<longrightarrow> edge_copied m w e p q))"
  using copy_summary_run [OF assms order_refl, of L call] laterD(1) by blast

text \<open>
  The example graph with vertex 1 marked and a call that matches it with vertex 0.
\<close>

theorem copy_summary_complete_witness:
  "\<exists>q. copy_summary empty_llvm 5 [(1, 0)] [(1, 0)] example_pdg = (Inr (), q) \<and> \<not> reaches_ipc_sink (node example_pdg 0) \<and> reaches_ipc_sink (node q 0)"
proof -
  have "matching_ok [(1, 0)] example_pdg" by (simp add: matching_ok_def live_def example_index example_pdg_capacity)
  from copy_summary_complete [OF example_pdg_good this, of empty_llvm 5]
  obtain q where q: "copy_summary empty_llvm 5 [(1, 0)] [(1, 0)] example_pdg = (Inr (), q)" "marks_copied 1 0 example_pdg q" by auto
  have "reaches_ipc_sink (node q 0)" "\<not> reaches_ipc_sink (node example_pdg 0)" using q(2) unfolding marks_copied_def example_nodes by (simp_all add: PDGNode_new_def)
  with q(1) show ?thesis by blast
qed

end
