(* ===== verification/Pdg_Shared_Reach.thy ===== *)
theory Pdg_Shared_Reach
  imports Pdg_Summary
begin

text \<open>
  The shared reachability pass (\<^verbatim>\<open>cali-linker/passes/PDGSharedReachabilityPass.cpp\<close>): which values may be influenced by shared memory. Influence spreads
  inside a component by search, from callee to caller in a first phase and from caller to callee in a second one; calls of influenced function pointers are
  reported.
\<close>

section \<open>Influence at a call\<close>

text \<open>
  The pass has its own copy of the matching of structures.
\<close>

definition shared_matchSubnodes :: "nat \<Rightarrow> matching \<Rightarrow> nat \<Rightarrow> nat \<Rightarrow> (PDG, matching) routine" where
  "shared_matchSubnodes n m key val = matchSubnodes n m key val"

text \<open>
  A vertex is marked; the result tells whether any mark is new.
\<close>

definition mark_influenced :: "nat \<Rightarrow> bool \<Rightarrow> (PDG, bool) routine" where
  "mark_influenced v anyMark =
     seq (get_node v) (\<lambda>x. seq (set_node v (\<lambda>x. x\<lparr>influenced_by_shared := True\<rparr>)) (\<lambda>_. ret (anyMark \<or> \<not> influenced_by_shared x)))"

definition influence_param :: "nat \<Rightarrow> llvm \<Rightarrow> bool \<Rightarrow> llvm_function option \<Rightarrow> llvm_function \<Rightarrow> nat \<Rightarrow> nat \<Rightarrow> llvm_value \<Rightarrow> matching \<times> bool \<Rightarrow>
    (PDG, matching \<times> bool) routine" where
  "influence_param n L toCaller caller f vFunc i a = (\<lambda>(m, anyMark).
     if isIgnoredOperand L a then ret (m, anyMark)
     else if isVarArg L f \<and> length (function_args L f) \<le> i then
       seq (reads (\<lambda>p. getParamOpt p vFunc (length (function_args L f)))) (\<lambda>r.
         case r of
           Some vFuncParam \<Rightarrow>
             seq (getVertex L a caller) (\<lambda>v. seq (shared_matchSubnodes n m vFuncParam v) (\<lambda>m. seq (get_node vFuncParam) (\<lambda>x.
               if toCaller then
                 (if influenced_by_shared x then
                    seq (getVertex L a caller) (\<lambda>v. seq (mark_influenced v anyMark) (\<lambda>anyMark. ret (m, anyMark)))
                  else ret (m, anyMark))
               else
                 seq (getVertex L a caller) (\<lambda>v. seq (get_node v) (\<lambda>y.
                   if influenced_by_shared y then seq (mark_influenced vFuncParam anyMark) (\<lambda>anyMark. ret (m, anyMark))
                   else ret (m, anyMark))))))
         | None \<Rightarrow> ret (m, anyMark))
     else
       seq (reads (\<lambda>p. getParamOpt p vFunc i)) (\<lambda>r.
         case r of
           Some vFuncParam \<Rightarrow> seq (getVertex L a caller) (\<lambda>v. seq (shared_matchSubnodes n m vFuncParam v) (\<lambda>m. ret (m, anyMark)))
         | None \<Rightarrow> ret (m, anyMark)))"

fun influence_params :: "nat \<Rightarrow> llvm \<Rightarrow> bool \<Rightarrow> llvm_function option \<Rightarrow> llvm_function \<Rightarrow> nat \<Rightarrow> nat \<Rightarrow> llvm_value list \<Rightarrow> matching \<times> bool \<Rightarrow>
    (PDG, matching \<times> bool) routine" where
  "influence_params n L toCaller caller f vFunc i [] r = ret r"
| "influence_params n L toCaller caller f vFunc i (a # as) r =
     seq (influence_param n L toCaller caller f vFunc i a r) (\<lambda>r. influence_params n L toCaller caller f vFunc (Suc i) as r)"

definition influence_source :: "PDGNode \<Rightarrow> bool" where
  "influence_source x \<longleftrightarrow> reaches_ipc_sink x \<or> ipcsink x \<or> influenced_by_shared x"

fun copy_influence :: "bool \<Rightarrow> matching \<Rightarrow> bool \<Rightarrow> (PDG, bool) routine" where
  "copy_influence toCaller [] anyMark = ret anyMark"
| "copy_influence toCaller ((k, w) # ps) anyMark =
     (let (src, dst) = (if toCaller then (k, w) else (w, k)) in
      seq (get_node src) (\<lambda>x. seq (if influence_source x then mark_influenced dst anyMark else ret anyMark) (\<lambda>anyMark.
        copy_influence toCaller ps anyMark)))"

definition propagateCallInfluence :: "nat \<Rightarrow> llvm \<Rightarrow> llvm_value \<Rightarrow> bool \<Rightarrow> (PDG, bool) routine" where
  "propagateCallInfluence n L call toCaller =
     (case getCalledFunction L call of
        None \<Rightarrow> ret False
      | Some f \<Rightarrow>
          seq (getVertex L call None) (\<lambda>vCall. seq (getVertex L (function_value L f) None) (\<lambda>vFunc.
            seq (influence_params n L toCaller (instruction_function L call) f vFunc 0 (call_args L call) ([], False)) (\<lambda>(m, anyMark).
              seq (reads (\<lambda>p. getReturnOpt p vFunc)) (\<lambda>r.
                seq (case r of Some vFuncRet \<Rightarrow> shared_matchSubnodes n m vFuncRet vCall | None \<Rightarrow> ret m) (\<lambda>m.
                  copy_influence toCaller m anyMark))))))"

section \<open>The pass\<close>

definition influence_considerFunction :: "llvm \<Rightarrow> ContextConfig \<Rightarrow> llvm_function \<Rightarrow> bool" where
  "influence_considerFunction L ctx f \<longleftrightarrow> \<not> isDeclaration L f \<and> function_name L f \<noteq> ''free'' \<and> functionBehavior ctx (function_name L f) \<noteq> Some ''free''"

text \<open>
  The calls of a function among its users, in order; the result collects whether any mark was new.
\<close>

fun user_influence :: "nat \<Rightarrow> llvm \<Rightarrow> bool \<Rightarrow> llvm_function \<Rightarrow> llvm_value list \<Rightarrow> bool \<Rightarrow> (PDG, bool) routine" where
  "user_influence n L toCaller f [] anyMark = ret anyMark"
| "user_influence n L toCaller f (u # us) anyMark =
     seq (if is_call L u \<and> getCalledFunction L u = Some f then propagateCallInfluence n L u toCaller else ret False) (\<lambda>b.
       user_influence n L toCaller f us (anyMark \<or> b))"

fun scc_influence :: "nat \<Rightarrow> llvm \<Rightarrow> ContextConfig \<Rightarrow> bool \<Rightarrow> llvm_function list \<Rightarrow> bool \<Rightarrow> (PDG, bool) routine" where
  "scc_influence n L ctx toCaller [] anyMark = ret anyMark"
| "scc_influence n L ctx toCaller (f # fs) anyMark =
     seq (if influence_considerFunction L ctx f then user_influence n L toCaller f (users L (function_value L f)) anyMark else ret anyMark) (\<lambda>anyMark.
       scc_influence n L ctx toCaller fs anyMark)"

definition propagateInfluenceToCallers :: "nat \<Rightarrow> llvm \<Rightarrow> ContextConfig \<Rightarrow> llvm_function list \<Rightarrow> (PDG, unit) routine" where
  "propagateInfluenceToCallers n L ctx functions = seq (scc_influence n L ctx True functions False) (\<lambda>_. ret ())"

text \<open>
  The routine collects whether any mark was propagated and returns false.
\<close>

definition propagateInfluenceFromCallers :: "nat \<Rightarrow> llvm \<Rightarrow> ContextConfig \<Rightarrow> llvm_function list \<Rightarrow> (PDG, bool) routine" where
  "propagateInfluenceFromCallers n L ctx functions = seq (scc_influence n L ctx False functions False) (\<lambda>anyMarkPropagated. ret False)"

definition dangerous_call :: "llvm \<Rightarrow> PDG \<Rightarrow> llvm_value \<Rightarrow> bool" where
  "dangerous_call L p ins \<longleftrightarrow>
     (kind L ins = CallInst \<and> \<not> inline_asm L ins \<or> kind L ins = InvokeInst) \<and> as_function L (called_value L ins) = None \<and>
     (case getVertexOpt p (called_value L ins) of Some v \<Rightarrow> influenced_by_shared (node p v) | None \<Rightarrow> False)"

text \<open>
  The reported calls, in order.
\<close>

definition warnForPossiblyDangerousActions :: "llvm \<Rightarrow> PDG \<Rightarrow> llvm_value list" where
  "warnForPossiblyDangerousActions L p =
     concat (map (\<lambda>f. filter (dangerous_call L p) (function_instructions L f)) (filter (\<lambda>f. \<not> isDeclaration L f) (module_functions L)))"

fun influence_up :: "nat \<Rightarrow> llvm \<Rightarrow> ContextConfig \<Rightarrow> llvm_function list list \<Rightarrow> (reach_state, unit) routine" where
  "influence_up n L ctx [] = ret ()"
| "influence_up n L ctx (scc # sccs) =
     seq (search_pdg (calculateReachability (map Some (function_set scc)))) (\<lambda>_.
       seq (on_pdg (propagateInfluenceToCallers n L ctx scc)) (\<lambda>_. influence_up n L ctx sccs))"

fun influence_down :: "nat \<Rightarrow> llvm \<Rightarrow> ContextConfig \<Rightarrow> llvm_function list list \<Rightarrow> (reach_state, unit) routine" where
  "influence_down n L ctx [] = ret ()"
| "influence_down n L ctx (scc # sccs) =
     seq (on_pdg (propagateInfluenceFromCallers n L ctx scc)) (\<lambda>anyMark.
       seq (when_do anyMark (seq (search_pdg (calculateReachability (map Some (function_set scc)))) (\<lambda>_. ret ()))) (\<lambda>_.
         influence_down n L ctx sccs))"

definition influence_runOnModule :: "nat \<Rightarrow> llvm \<Rightarrow> ContextConfig \<Rightarrow> (reach_state, llvm_value list) routine" where
  "influence_runOnModule n L ctx =
     seq (modify new_colors) (\<lambda>_. seq (reads (\<lambda>s. dataSCCs (rscc s))) (\<lambda>sccs.
       seq (influence_up n L ctx sccs) (\<lambda>_. seq (influence_down n L ctx (rev sccs)) (\<lambda>_.
         reads (\<lambda>s. warnForPossiblyDangerousActions L (rpdg s))))))"

section \<open>The index stays complete\<close>

lemma keeps_mark_influenced [keeps_intros]: "keeps pdg_inv (mark_influenced v b)"
  unfolding mark_influenced_def by (intro keeps_intros) simp

lemma keeps_influence_param [keeps_intros]: "keeps pdg_inv (influence_param n L toCaller caller f vFunc i a r)"
  by (cases r) (auto simp: influence_param_def shared_matchSubnodes_def intro!: keeps_intros)

lemma keeps_influence_params [keeps_intros]: "keeps pdg_inv (influence_params n L toCaller caller f vFunc i as r)"
  by (induction as arbitrary: i r) (auto intro!: keeps_intros)

lemma keeps_copy_influence [keeps_intros]: "keeps pdg_inv (copy_influence toCaller ps b)"
  by (induction toCaller ps b rule: copy_influence.induct) (auto intro!: keeps_intros)

lemma keeps_propagateCallInfluence [keeps_intros]: "keeps pdg_inv (propagateCallInfluence n L call toCaller)"
  by (auto simp: propagateCallInfluence_def shared_matchSubnodes_def intro!: keeps_intros)

lemma keeps_scc_influence [keeps_intros]: "keeps pdg_inv (scc_influence n L ctx toCaller fs b)"
proof -
  have "keeps pdg_inv (user_influence n L toCaller f us b)" for f us b by (induction us arbitrary: b) (auto intro!: keeps_intros)
  then show ?thesis by (induction fs arbitrary: b) (auto intro!: keeps_intros)
qed

lemma keeps_influence_runOnModule [keeps_intros]: "keeps reach_inv (influence_runOnModule n L ctx)"
proof -
  have "keeps reach_inv (influence_up n L ctx sccs)" "keeps reach_inv (influence_down n L ctx sccs)" for sccs
    by (induction sccs) (auto simp: propagateInfluenceToCallers_def propagateInfluenceFromCallers_def intro!: keeps_intros)
  then show ?thesis unfolding influence_runOnModule_def by (auto intro!: keeps_intros)
qed

section \<open>Influence over a match\<close>

definition flow_ends :: "bool \<Rightarrow> nat \<times> nat \<Rightarrow> nat \<times> nat" where
  "flow_ends toCaller kw = (if toCaller then kw else (snd kw, fst kw))"

lemma mark_influenced_run:
  assumes "v < capacity (pgraph p)"
  shows "mark_influenced v b p = (Inr (b \<or> v \<notin> node_marks influenced_by_shared p), upd_node v (\<lambda>x. x\<lparr>influenced_by_shared := True\<rparr>) p)"
  using assms by (simp add: mark_influenced_def seq_def get_node_def set_node_def ret_def node_marks_def)

lemma copy_influence_run:
  "(\<forall>(k, w)\<in>set m. k < capacity (pgraph p) \<and> w < capacity (pgraph p)) \<Longrightarrow>
    \<exists>b' q. copy_influence toCaller m b p = (Inr b', q) \<and> differ_in clear_influence p q \<and> node_marks influenced_by_shared p \<subseteq> node_marks influenced_by_shared q \<and>
      (\<forall>kw\<in>set m. case flow_ends toCaller kw of (src, dst) \<Rightarrow> influence_source (node p src) \<longrightarrow> dst \<in> node_marks influenced_by_shared q) \<and>
      node_marks influenced_by_shared q \<subseteq> node_marks influenced_by_shared p \<union> (\<lambda>kw. snd (flow_ends toCaller kw)) ` set m \<and>
      (b' \<longleftrightarrow> b \<or> node_marks influenced_by_shared q \<noteq> node_marks influenced_by_shared p)"
proof (induction m arbitrary: p b)
  case Nil
  then show ?case using differ_in_refl by (simp add: ret_def)
next
  case (Cons kw m)
  let ?M = "node_marks influenced_by_shared"
  obtain k w where kw: "kw = (k, w)" by fastforce
  obtain src dst where ends: "(if toCaller then (k, w) else (w, k)) = (src, dst)" "flow_ends toCaller kw = (src, dst)"
    by (cases toCaller) (simp_all add: flow_ends_def kw)
  have cap: "src < capacity (pgraph p)" "dst < capacity (pgraph p)" using Cons.prems ends kw by (auto split: if_splits)
  let ?mark = "\<lambda>x. x\<lparr>influenced_by_shared := True\<rparr>"
  define p1 where "p1 = (if influence_source (node p src) then upd_node dst ?mark p else p)"
  define b1 where "b1 = (b \<or> influence_source (node p src) \<and> dst \<notin> ?M p)"
  have d1: "differ_in clear_influence p p1" using differ_in_upd [OF differ_in_refl, of clear_influence ?mark dst p] differ_in_refl cap(2) by (simp add: p1_def)
  have M1: "?M p1 = (if influence_source (node p src) then insert dst (?M p) else ?M p)" using cap(2) by (simp add: p1_def node_marks_upd)
  have step: "copy_influence toCaller (kw # m) b p = copy_influence toCaller m b1 p1"
    using cap mark_influenced_run [OF cap(2), of b] by (simp add: kw ends(1) seq_def get_node_def p1_def b1_def ret_def)
  have "\<forall>(k, w)\<in>set m. k < capacity (pgraph p1) \<and> w < capacity (pgraph p1)" using Cons.prems differ_in_structure(4) [OF d1] by simp
  from Cons.IH [OF this, of b1]
  obtain b' q where q: "copy_influence toCaller m b1 p1 = (Inr b', q)" "differ_in clear_influence p1 q" "?M p1 \<subseteq> ?M q"
      "\<And>kw src dst. kw \<in> set m \<Longrightarrow> flow_ends toCaller kw = (src, dst) \<Longrightarrow> influence_source (node p1 src) \<Longrightarrow> dst \<in> ?M q"
      "?M q \<subseteq> ?M p1 \<union> (\<lambda>kw. snd (flow_ends toCaller kw)) ` set m" "b' \<longleftrightarrow> b1 \<or> ?M q \<noteq> ?M p1"
    by (auto split: prod.splits)
  have src: "influence_source (node p1 v)" if "influence_source (node p v)" for v
    using that cap(2) by (simp add: p1_def node_upd_node influence_source_def)
  have all: "\<forall>kw\<in>set (kw # m). case flow_ends toCaller kw of (src, dst) \<Rightarrow> influence_source (node p src) \<longrightarrow> dst \<in> ?M q"
    using q(3,4) M1 src ends(2) by (auto split: prod.splits if_splits)
  have new: "b' \<longleftrightarrow> b \<or> ?M q \<noteq> ?M p" using q(3,6) M1 by (auto simp: b1_def)
  have "?M q \<subseteq> ?M p \<union> (\<lambda>kw. snd (flow_ends toCaller kw)) ` set (kw # m)" using q(5) M1 ends(2) by (auto split: if_splits)
  then show ?case using step q(1) differ_in_trans [OF d1 q(2)] all new M1 q(3) by (intro exI [of _ b'] exI [of _ q]) (auto split: if_splits)
qed

section \<open>The second phase does not spread influence\<close>

lemma propagateInfluenceFromCallers_False: "fst (propagateInfluenceFromCallers n L ctx fs p) \<noteq> Inr True"
  by (auto simp: propagateInfluenceFromCallers_def seq_def ret_def split: prod.split sum.split)

text \<open>
  Function 1 calls function 2 with an influenced argument. The parameter of function 2 flows to a value that the function calls.
\<close>

definition callback_module :: llvm where
  "callback_module = empty_llvm\<lparr>module_functions := [1, 2], function_args := (\<lambda>f. if f = 2 then [10] else []),
     function_instructions := (\<lambda>f. if f = 2 then [12] else [20]), kind := (\<lambda>v. if v = 12 \<or> v = 20 then CallInst else OtherValue),
     users := (\<lambda>v. if v = 2 then [20] else []), direct_callee := (\<lambda>v. if v = 20 then Some 2 else None), called_value := (\<lambda>v. if v = 12 then 11 else 2),
     as_function := (\<lambda>v. if v = 1 \<or> v = 2 then Some v else None), instruction_function := (\<lambda>v. if v = 12 then Some 2 else Some 1),
     call_args := (\<lambda>v. if v = 20 then [21] else [])\<rparr>"

definition callback_pdg :: "(PDG, unit) routine" where
  "callback_pdg =
     seq (getVertex callback_module 2 None) (\<lambda>f. seq (getVertex callback_module 10 (Some 2)) (\<lambda>param. seq (getVertex callback_module 11 (Some 2)) (\<lambda>callee.
     seq (getVertex callback_module 20 (Some 1)) (\<lambda>call. seq (getVertex callback_module 21 (Some 1)) (\<lambda>arg.
     seq (pdg_add_edge f param (pdg_edge Param 0)) (\<lambda>_. seq (pdg_add_edge param callee (pdg_edge Data 0)) (\<lambda>_.
       set_node arg (\<lambda>x. x\<lparr>influenced_by_shared := True\<rparr>))))))))"

definition callback_state :: reach_state where
  "callback_state = \<lparr>rpdg = snd (callback_pdg (PDG_new None)), rcolors = ColorMap_new 0, rscc = scc_pass_new\<lparr>dataSCCs := [[2], [1]]\<rparr>\<rparr>"

text \<open>
  The phase from callers to callees stops at the parameters. The propagation from callers never reports a new mark, although its comment says that it does, so
  the search inside the component of the callee is not run again. In the example the influenced argument makes the parameter influenced, the parameter flows to the
  called value, but that value is not influenced and no call is reported.
\<close>

theorem influence_stops_at_parameters:
  "fst (propagateInfluenceFromCallers n L ctx fs p) \<noteq> Inr True \<and>
   (case influence_runOnModule 9 callback_module ContextConfig_new callback_state of (r, s) \<Rightarrow>
      r = Inr [] \<and> getVertexOpt (rpdg s) 10 = Some 1 \<and> getVertexOpt (rpdg s) 11 = Some 2 \<and> map target (out_edges (pgraph (rpdg s)) 1) = [2] \<and>
      influenced_by_shared (node (rpdg s) 1) \<and> \<not> influenced_by_shared (node (rpdg s) 2))"
  by (rule conjI [OF propagateInfluenceFromCallers_False]) code_simp

end
