(* ===== verification/Pdg_Shared_Memory.thy ===== *)
theory Pdg_Shared_Memory
  imports Pdg_Summary
begin

text \<open>
  The pass that moves allocations to shared memory (\<^verbatim>\<open>cali-linker/passes/PDGSharedMemoryPass.cpp\<close>). It reads the marks of the dependence graph and rewrites the module:
  calls of allocation functions get a counterpart for shared memory, variables on the stack become blocks that are freed on return, global variables go to a
  section of their own. It also notes which parameters of the functions of other contexts are descriptors.
\<close>

section \<open>Edits of a module\<close>

text \<open>
  The changes that the pass asks LLVM for, in order. A function that is inserted is named; a block that replaces a variable on the stack is named by the variable.
\<close>

datatype ir_global = Existing llvm_value | Inserted string

datatype block_size = Bytes nat | Operand llvm_value | Scaled llvm_value nat

datatype ir_edit =
    InsertFunction string llvm_type
  | SetCalledFunction llvm_value string
  | AllocateShared llvm_value block_size
  | FreeShared llvm_value llvm_value
  | EraseInstruction llvm_value
  | InsertGlobal string
  | SetInitializer ir_global nat
  | SetSection ir_global string
  | SetAlignment ir_global nat
  | SetOperand llvm_value nat string

text \<open>
  Further questions to LLVM: the size of the type that is allocated, properties of instructions and global variables, the type \<^verbatim>\<open>i8*\<close> and a pointer to
  it, the functions of the module by name, and the uses of a function as pairs of a user and the number of its operand.
\<close>

record ir_memory =
  getTypeAllocSize :: "llvm_value \<Rightarrow> nat"
  isArrayAllocation :: "llvm_value \<Rightarrow> bool"
  getAlignment :: "llvm_value \<Rightarrow> nat"
  in_entry_block :: "llvm_value \<Rightarrow> bool"
  declared_global :: "llvm_value \<Rightarrow> bool"
  int8ptr :: llvm_type
  int8ptrptr :: llvm_type
  getFunction :: "string \<Rightarrow> llvm_function option"
  function_uses :: "llvm_function \<Rightarrow> (llvm_value \<times> nat) list"

record memory_pass =
  edits :: "ir_edit list"
  myaml :: YamlConfig

definition emit :: "ir_edit \<Rightarrow> (memory_pass, unit) routine" where
  "emit e = modify (\<lambda>s. s\<lparr>edits := edits s @ [e]\<rparr>)"

fun emits :: "ir_edit list \<Rightarrow> (memory_pass, unit) routine" where
  "emits [] = ret ()"
| "emits (e # es) = seq (emit e) (\<lambda>_. emits es)"

section \<open>Decisions\<close>

definition shouldBeShared :: "PDG \<Rightarrow> llvm_value \<Rightarrow> bool" where
  "shouldBeShared p def =
     (case value_to_vertex p def of
        None \<Rightarrow> False
      | Some v \<Rightarrow>
          if \<not> nsource (node p v) then False
          else
            (case getMemoryForSource p v of
               None \<Rightarrow> False
             | Some vMemory \<Rightarrow> ipcsink (node p vMemory) \<or> reaches_ipc_sink (node p vMemory)))"

definition addSharedMemoryFunctions :: "ir_memory \<Rightarrow> (memory_pass, unit) routine" where
  "addSharedMemoryFunctions M =
     (let ptrtype = int8ptr M; ptr2type = int8ptrptr M; int64type = IntTy 64; int32type = IntTy 32 in
      emits
        [InsertFunction ''shm_malloc'' (FunctionTy ptrtype [int64type] False),
         InsertFunction ''shm_calloc'' (FunctionTy ptrtype [int64type, int64type] False),
         InsertFunction ''realloc_to_shm'' (FunctionTy ptrtype [ptrtype, int64type] False),
         InsertFunction ''shm_free'' (FunctionTy VoidTy [ptrtype] False),
         InsertFunction ''posix_shm_memalign'' (FunctionTy int32type [ptr2type, int64type, int64type] False),
         InsertFunction ''shm_mmap_share'' (FunctionTy ptrtype [ptrtype, int64type, int32type, int32type, int32type, int64type] False)])"

definition getSharedMemoryReplacementFunc :: "llvm \<Rightarrow> llvm_function \<Rightarrow> string \<Rightarrow> (memory_pass, string option) routine" where
  "getSharedMemoryReplacementFunc L f name =
     seq (emit (InsertFunction name (case function_type L f of (r, ts, vararg) \<Rightarrow> FunctionTy r ts vararg))) (\<lambda>_. ret (Some name))"

text \<open>
  The name that decides: without the prefix of specialised functions, and replaced by its configured behaviour.
\<close>

definition alloc_name :: "ContextConfig option \<Rightarrow> string \<Rightarrow> string" where
  "alloc_name ctx name =
     (let funcname = (if startswith name ''__ipc_specialized_'' then drop 18 name else name) in
      case ctx of
        None \<Rightarrow> funcname
      | Some c \<Rightarrow> (case functionBehavior c funcname of None \<Rightarrow> funcname | Some b \<Rightarrow> b))"

definition getSharedMemoryFunction :: "llvm \<Rightarrow> ContextConfig option \<Rightarrow> llvm_function \<Rightarrow> (memory_pass, string option) routine" where
  "getSharedMemoryFunction L ctx f =
     (let funcname = alloc_name ctx (function_name L f) in
      if funcname = ''malloc'' then ret (Some ''shm_malloc'')
      else if funcname = ''calloc'' then ret (Some ''shm_calloc'')
      else if funcname = ''realloc'' then ret (Some ''realloc_to_shm'')
      else if funcname = ''posix_memalign'' then ret (Some ''posix_shm_memalign'')
      else if funcname = ''asprintf'' then getSharedMemoryReplacementFunc L f ''shm_asprintf''
      else if funcname = ''vasprintf'' then getSharedMemoryReplacementFunc L f ''shm_vasprintf''
      else if funcname = ''getenv'' then getSharedMemoryReplacementFunc L f ''shm_getenv''
      else if funcname = ''strdup'' then getSharedMemoryReplacementFunc L f ''shm_strdup''
      else if funcname = ''mmap'' \<or> funcname = ''mmap64'' then ret (Some ''shm_mmap_share'')
      else ret None)"

section \<open>Rewriting\<close>

text \<open>
  The result is the name of the new callee, if there is one. The callee is not checked for null.
\<close>

definition makeAllocCallShared :: "llvm \<Rightarrow> ContextConfig option \<Rightarrow> llvm_value \<Rightarrow> (memory_pass, string option) routine" where
  "makeAllocCallShared L ctx call =
     (case direct_callee L call of
        None \<Rightarrow> throw Undefined_behaviour
      | Some callee \<Rightarrow>
          seq (getSharedMemoryFunction L ctx callee) (\<lambda>f.
            case f of Some name \<Rightarrow> seq (emit (SetCalledFunction call name)) (\<lambda>_. ret f) | None \<Rightarrow> ret None))"

definition makeStackAllocaShared :: "llvm \<Rightarrow> ir_memory \<Rightarrow> llvm_value \<Rightarrow> (memory_pass, unit) routine" where
  "makeStackAllocaShared L M ins =
     (if isArrayAllocation M ins then
        (case operands L ins of
           [] \<Rightarrow> throw Undefined_behaviour
         | sizeValue # _ \<Rightarrow>
             emit (AllocateShared ins (if getTypeAllocSize M ins \<noteq> 1 then Scaled sizeValue (getTypeAllocSize M ins) else Operand sizeValue)))
      else emit (AllocateShared ins (Bytes (getTypeAllocSize M ins + (if 16 < getAlignment M ins then getAlignment M ins else 0)))))"

fun section_globals :: "bool \<Rightarrow> ir_global list \<Rightarrow> (memory_pass, unit) routine" where
  "section_globals align [] = ret ()"
| "section_globals align (gv # vars) =
     seq (emit (SetSection gv ''shm_data'')) (\<lambda>_.
       seq (when_do align (emit (SetAlignment gv 4096))) (\<lambda>_. section_globals False vars))"

definition makeGlobalVariablesShared :: "ir_global list \<Rightarrow> (memory_pass, unit) routine" where
  "makeGlobalVariablesShared vars =
     seq (if vars = [] then
            seq (emits [InsertGlobal ''__stop_shm_data'', SetInitializer (Inserted ''__stop_shm_data'') 0]) (\<lambda>_. ret [Inserted ''__stop_shm_data''])
          else ret vars) (\<lambda>vars.
       seq (section_globals True vars) (\<lambda>_.
         let v = Inserted ''__last_shm_data_variable'' in
         emits [InsertGlobal ''__last_shm_data_variable'', SetInitializer v 0, SetSection v ''shm_data'', SetAlignment v 4096]))"

text \<open>
  The position of a descriptor is recorded once; the result has the position -1.
\<close>

definition add_fd :: "string \<Rightarrow> int \<Rightarrow> (memory_pass, unit) routine" where
  "add_fd name i = modify (\<lambda>s.
     let vec = (case filedescriptors (myaml s) name of None \<Rightarrow> [] | Some vec \<Rightarrow> vec) in
     s\<lparr>myaml := (myaml s)\<lparr>filedescriptors := (filedescriptors (myaml s))(name \<mapsto> (if i \<in> set vec then vec else vec @ [i]))\<rparr>\<rparr>)"

fun fd_params :: "llvm \<Rightarrow> PDG \<Rightarrow> llvm_value \<Rightarrow> string \<Rightarrow> PDGEdge Edge list \<Rightarrow> (memory_pass, unit) routine" where
  "fd_params L p call name [] = ret ()"
| "fd_params L p call name (e # es) =
     seq (when_do (etype (edge_property e) = Param \<and> eindex (edge_property e) < length (call_args L call) \<and> filedescriptor (node p (source e)))
            (add_fd name (int (eindex (edge_property e)))))
       (\<lambda>_. fd_params L p call name es)"

definition checkForFileDescriptorParameters :: "llvm \<Rightarrow> string list \<Rightarrow> PDG \<Rightarrow> llvm_value \<Rightarrow> string option \<Rightarrow> (memory_pass, unit) routine" where
  "checkForFileDescriptorParameters L externalSymbols p call function =
     (case getVertexOpt p call of
        None \<Rightarrow> ret ()
      | Some v \<Rightarrow>
          (case function of
             None \<Rightarrow> ret ()
           | Some name \<Rightarrow>
               if name = [] \<or> name \<notin> set externalSymbols then ret ()
               else seq (fd_params L p call name (in_edges (pgraph p) v)) (\<lambda>_. when_do (filedescriptor (node p v)) (add_fd name (- 1)))))"

section \<open>The pass\<close>

text \<open>
  One instruction. The three lists are the blocks to free on return, the returns and the instructions to remove. A call is checked for descriptors with the
  callee it has after its replacement.
\<close>

definition visit_instruction :: "llvm \<Rightarrow> ir_memory \<Rightarrow> ContextConfig option \<Rightarrow> string list \<Rightarrow> PDG \<Rightarrow> llvm_value \<Rightarrow>
    llvm_value list \<times> llvm_value list \<times> llvm_value list \<Rightarrow> (memory_pass, llvm_value list \<times> llvm_value list \<times> llvm_value list) routine" where
  "visit_instruction L M ctx externalSymbols p ins = (\<lambda>(freeOnReturn, returns, remove).
     case kind L ins of
       CallInst \<Rightarrow>
         seq (if shouldBeShared p ins then makeAllocCallShared L ctx ins else ret None) (\<lambda>r.
           seq (checkForFileDescriptorParameters L externalSymbols p ins
                  (case r of Some name \<Rightarrow> Some name | None \<Rightarrow> map_option (function_name L) (getCalledFunction L ins)))
             (\<lambda>_. ret (freeOnReturn, returns, remove)))
     | AllocaInst \<Rightarrow>
         if shouldBeShared p ins then
           seq (makeStackAllocaShared L M ins) (\<lambda>_.
             ret (if in_entry_block M ins then freeOnReturn @ [ins] else freeOnReturn, returns, remove @ [ins]))
         else ret (freeOnReturn, returns, remove)
     | ReturnInst _ \<Rightarrow> ret (freeOnReturn, returns @ [ins], remove)
     | _ \<Rightarrow> ret (freeOnReturn, returns, remove))"

fun visit_instructions :: "llvm \<Rightarrow> ir_memory \<Rightarrow> ContextConfig option \<Rightarrow> string list \<Rightarrow> PDG \<Rightarrow> llvm_value list \<Rightarrow>
    llvm_value list \<times> llvm_value list \<times> llvm_value list \<Rightarrow> (memory_pass, llvm_value list \<times> llvm_value list \<times> llvm_value list) routine" where
  "visit_instructions L M ctx externalSymbols p [] r = ret r"
| "visit_instructions L M ctx externalSymbols p (ins # rest) r =
     seq (visit_instruction L M ctx externalSymbols p ins r) (\<lambda>r. visit_instructions L M ctx externalSymbols p rest r)"

definition share_function :: "llvm \<Rightarrow> ir_memory \<Rightarrow> ContextConfig option \<Rightarrow> string list \<Rightarrow> PDG \<Rightarrow> llvm_function \<Rightarrow> (memory_pass, unit) routine" where
  "share_function L M ctx externalSymbols p f =
     seq (visit_instructions L M ctx externalSymbols p (function_instructions L f) ([], [], [])) (\<lambda>(freeOnReturn, returns, remove).
       seq (emits (concat (map (\<lambda>r. map (FreeShared r) freeOnReturn) returns))) (\<lambda>_. emits (map EraseInstruction remove)))"

fun share_functions :: "llvm \<Rightarrow> ir_memory \<Rightarrow> ContextConfig option \<Rightarrow> string list \<Rightarrow> PDG \<Rightarrow> llvm_function list \<Rightarrow> (memory_pass, unit) routine" where
  "share_functions L M ctx externalSymbols p [] = ret ()"
| "share_functions L M ctx externalSymbols p (f # fs) =
     seq (share_function L M ctx externalSymbols p f) (\<lambda>_. share_functions L M ctx externalSymbols p fs)"

definition shared_globals :: "llvm \<Rightarrow> ir_memory \<Rightarrow> PDG \<Rightarrow> llvm_value list" where
  "shared_globals L M p = filter (\<lambda>g. \<not> constant_global L g \<and> \<not> declared_global M g \<and> shouldBeShared p g) (module_globals L)"

text \<open>
  Uses of an allocation function other than as the callee of a call get the counterpart for shared memory. The configured behaviours come in the order of the
  names; the uses are those of the module before the pass.
\<close>

definition indirect_use :: "llvm \<Rightarrow> llvm_function \<Rightarrow> llvm_value \<times> nat \<Rightarrow> bool" where
  "indirect_use L f u \<longleftrightarrow> \<not> ((kind L (fst u) = CallInst \<or> kind L (fst u) = InvokeInst) \<and> direct_callee L (fst u) = Some f)"

fun makeIndirectFunctionsShared :: "llvm \<Rightarrow> ir_memory \<Rightarrow> ContextConfig option \<Rightarrow> (string \<times> string) list \<Rightarrow> (memory_pass, unit) routine" where
  "makeIndirectFunctionsShared L M ctx [] = ret ()"
| "makeIndirectFunctionsShared L M ctx ((name, behavior) # bs) =
     seq (case getFunction M behavior of
            None \<Rightarrow> ret ()
          | Some realfunc \<Rightarrow>
              seq (getSharedMemoryFunction L ctx realfunc) (\<lambda>replacement.
                case (replacement, getFunction M name) of
                  (Some g, Some f) \<Rightarrow> emits (map (\<lambda>u. SetOperand (fst u) (snd u) g) (filter (indirect_use L f) (function_uses M f)))
                | _ \<Rightarrow> ret ()))
       (\<lambda>_. makeIndirectFunctionsShared L M ctx bs)"

definition memory_runOnModule :: "llvm \<Rightarrow> ir_memory \<Rightarrow> ContextConfig option \<Rightarrow> (string \<times> string) list \<Rightarrow> string list \<Rightarrow> PDG \<Rightarrow> (memory_pass, unit) routine" where
  "memory_runOnModule L M ctx behaviors externalSymbols p =
     seq (addSharedMemoryFunctions M) (\<lambda>_.
       seq (share_functions L M ctx externalSymbols p (module_functions L)) (\<lambda>_.
         seq (makeGlobalVariablesShared (map Existing (shared_globals L M p))) (\<lambda>_.
           if ctx = None then throw Undefined_behaviour else makeIndirectFunctionsShared L M ctx behaviors)))"

section \<open>What the pass writes\<close>

text \<open>
  The counterparts of the allocation functions, and the edits that the rewriting of one function amounts to. Insertions of declarations are left aside.
\<close>

definition counterparts :: "(string \<times> string) list" where
  "counterparts =
     [(''malloc'', ''shm_malloc''), (''calloc'', ''shm_calloc''), (''realloc'', ''realloc_to_shm''), (''posix_memalign'', ''posix_shm_memalign''),
      (''asprintf'', ''shm_asprintf''), (''vasprintf'', ''shm_vasprintf''), (''getenv'', ''shm_getenv''), (''strdup'', ''shm_strdup''),
      (''mmap'', ''shm_mmap_share''), (''mmap64'', ''shm_mmap_share'')]"

definition counterpart :: "llvm \<Rightarrow> ContextConfig option \<Rightarrow> llvm_function \<Rightarrow> string option" where
  "counterpart L ctx f = map_of counterparts (alloc_name ctx (function_name L f))"

definition rewriting :: "ir_edit list \<Rightarrow> ir_edit list" where
  "rewriting es = filter (\<lambda>e. case e of InsertFunction _ _ \<Rightarrow> False | _ \<Rightarrow> True) es"

definition shared_variables :: "llvm \<Rightarrow> PDG \<Rightarrow> llvm_function \<Rightarrow> llvm_value list" where
  "shared_variables L p f = filter (\<lambda>a. kind L a = AllocaInst \<and> shouldBeShared p a) (function_instructions L f)"

definition block_of :: "llvm \<Rightarrow> ir_memory \<Rightarrow> llvm_value \<Rightarrow> block_size" where
  "block_of L M a =
     (if isArrayAllocation M a then
        (if getTypeAllocSize M a = 1 then Operand (hd (operands L a)) else Scaled (hd (operands L a)) (getTypeAllocSize M a))
      else if getAlignment M a \<le> 16 then Bytes (getTypeAllocSize M a) else Bytes (getTypeAllocSize M a + getAlignment M a))"

definition sharing_edit :: "llvm \<Rightarrow> ir_memory \<Rightarrow> ContextConfig option \<Rightarrow> PDG \<Rightarrow> llvm_value \<Rightarrow> ir_edit list" where
  "sharing_edit L M ctx p ins =
     (if \<not> shouldBeShared p ins then []
      else if kind L ins = AllocaInst then [AllocateShared ins (block_of L M ins)]
      else if kind L ins = CallInst then
        (case Option.bind (direct_callee L ins) (counterpart L ctx) of Some g \<Rightarrow> [SetCalledFunction ins g] | None \<Rightarrow> [])
      else [])"

definition is_return :: "llvm \<Rightarrow> llvm_value \<Rightarrow> bool" where
  "is_return L ins \<longleftrightarrow> (case kind L ins of ReturnInst _ \<Rightarrow> True | _ \<Rightarrow> False)"

definition function_edits :: "llvm \<Rightarrow> ir_memory \<Rightarrow> ContextConfig option \<Rightarrow> PDG \<Rightarrow> llvm_function \<Rightarrow> ir_edit list" where
  "function_edits L M ctx p f =
     concat (map (sharing_edit L M ctx p) (function_instructions L f)) @
     concat (map (\<lambda>r. map (FreeShared r) (filter (in_entry_block M) (shared_variables L p f))) (filter (is_return L) (function_instructions L f))) @
     map EraseInstruction (shared_variables L p f)"

text \<open>
  What the rewriting relies on: a call that is marked as a source of memory has a direct callee, and a variable of variable size has an operand.
\<close>

definition rewritable :: "llvm \<Rightarrow> PDG \<Rightarrow> llvm_value \<Rightarrow> bool" where
  "rewritable L p ins \<longleftrightarrow> (shouldBeShared p ins \<longrightarrow>
     (kind L ins = CallInst \<longrightarrow> direct_callee L ins \<noteq> None) \<and> (kind L ins = AllocaInst \<longrightarrow> operands L ins \<noteq> []))"

lemma rewriting_simps [simp]:
  "rewriting [] = []" "rewriting (es @ es') = rewriting es @ rewriting es'" "rewriting (InsertFunction n t # es) = rewriting es"
  "rewriting (SetCalledFunction c n # es) = SetCalledFunction c n # rewriting es" "rewriting (AllocateShared c b # es) = AllocateShared c b # rewriting es"
  "rewriting (FreeShared r c # es) = FreeShared r c # rewriting es" "rewriting (EraseInstruction c # es) = EraseInstruction c # rewriting es"
  "rewriting (SetSection g n # es) = SetSection g n # rewriting es" "rewriting (SetAlignment g k # es) = SetAlignment g k # rewriting es"
  "rewriting (InsertGlobal n # es) = InsertGlobal n # rewriting es" "rewriting (SetInitializer g k # es) = SetInitializer g k # rewriting es"
  "rewriting (SetOperand u k n # es) = SetOperand u k n # rewriting es"
  by (simp_all add: rewriting_def)

lemma rewriting_frees [simp]:
  "rewriting (concat (map (\<lambda>r. map (FreeShared r) as) rs)) = concat (map (\<lambda>r. map (FreeShared r) as) rs)"
  "rewriting (map EraseInstruction as) = map EraseInstruction as"
proof -
  have "rewriting (map (FreeShared r) as) = map (FreeShared r) as" for r by (induction as) simp_all
  then show "rewriting (concat (map (\<lambda>r. map (FreeShared r) as) rs)) = concat (map (\<lambda>r. map (FreeShared r) as) rs)" by (induction rs) simp_all
  show "rewriting (map EraseInstruction as) = map EraseInstruction as" by (induction as) simp_all
qed

interpretation written: observation "\<lambda>s. rewriting (edits s)" "(@)" "[]"
  by unfold_locales simp_all

abbreviation writes :: "(memory_pass, 'a) routine \<Rightarrow> 'a \<Rightarrow> ir_edit list \<Rightarrow> bool" where
  "writes \<equiv> effect (\<lambda>s. rewriting (edits s)) (@)"

lemma writes_emit: "writes (emit e) () (rewriting [e])"
  unfolding emit_def by (rule written.effect_modify) simp

lemmas writes_edit = writes_emit [of "AllocateShared a b" for a b, simplified] writes_emit [of "SetCalledFunction a n" for a n, simplified]
  writes_emit [of "InsertFunction n t" for n t, simplified]

lemma writes_emits: "writes (emits es) () (rewriting es)"
proof (induction es)
  case (Cons e es)
  have "rewriting (e # es) = rewriting [e] @ rewriting es" by (simp add: rewriting_def)
  then show ?case using written.effect_seq [OF writes_emit Cons.IH] by simp
qed (simp add: written.effect_ret)

lemma writes_emits_eq: "rewriting es = es' \<Longrightarrow> writes (emits es) () es'"
  using writes_emits [of es] by simp

lemma getSharedMemoryFunction_writes: "writes (getSharedMemoryFunction L ctx f) (counterpart L ctx f) []"
proof -
  have insert: "writes (getSharedMemoryReplacementFunc L f name) (Some name) []" for name
    unfolding getSharedMemoryReplacementFunc_def by (rule written.effect_seq_eq [OF writes_edit(3) written.effect_ret]) simp
  show ?thesis
    by (auto simp: getSharedMemoryFunction_def counterpart_def counterparts_def Let_def insert written.effect_ret)
qed

lemma makeAllocCallShared_writes:
  assumes "direct_callee L call = Some f"
  shows "writes (makeAllocCallShared L ctx call) (counterpart L ctx f)
    (case counterpart L ctx f of Some g \<Rightarrow> [SetCalledFunction call g] | None \<Rightarrow> [])"
proof -
  have "writes (case counterpart L ctx f of Some name \<Rightarrow> seq (emit (SetCalledFunction call name)) (\<lambda>_. ret (counterpart L ctx f)) | None \<Rightarrow> ret None)
      (counterpart L ctx f) (case counterpart L ctx f of Some g \<Rightarrow> [SetCalledFunction call g] | None \<Rightarrow> [])"
    by (auto intro: written.effect_ret written.effect_seq_eq [OF writes_edit(2) written.effect_ret] split: option.split)
  then show ?thesis unfolding makeAllocCallShared_def assms option.case by (rule written.effect_seq_eq [OF getSharedMemoryFunction_writes]) simp
qed

lemma makeStackAllocaShared_writes:
  "operands L a \<noteq> [] \<Longrightarrow> writes (makeStackAllocaShared L M a) () [AllocateShared a (block_of L M a)]"
  by (auto simp: makeStackAllocaShared_def block_of_def writes_edit neq_Nil_conv)

lemma checkForFileDescriptorParameters_writes: "writes (checkForFileDescriptorParameters L syms p call f) () []"
proof -
  have add: "writes (add_fd name i) () []" for name i unfolding add_fd_def by (rule written.effect_modify) (simp add: Let_def)
  have cond: "writes (when_do b (add_fd name i)) () []" for b name i by (simp add: when_do_def add written.effect_ret)
  have "writes (fd_params L p call name es) () []" for name es
    by (induction es) (auto intro: written.effect_ret written.effect_seq_eq [OF cond])
  then show ?thesis
    by (auto simp: checkForFileDescriptorParameters_def intro!: written.effect_ret written.effect_seq_eq [OF _ cond] split: option.split)
qed

lemma visit_instruction_writes:
  assumes "rewritable L p ins"
  shows "writes (visit_instruction L M ctx syms p ins (as, rs, es))
    (as @ filter (in_entry_block M) (filter (\<lambda>a. kind L a = AllocaInst \<and> shouldBeShared p a) [ins]), rs @ filter (is_return L) [ins],
     es @ filter (\<lambda>a. kind L a = AllocaInst \<and> shouldBeShared p a) [ins]) (sharing_edit L M ctx p ins)"
proof (cases "shouldBeShared p ins")
  case False
  then show ?thesis
    by (auto simp: visit_instruction_def sharing_edit_def is_return_def
      intro!: written.effect_ret written.effect_seq_eq [OF written.effect_ret written.effect_seq [OF checkForFileDescriptorParameters_writes written.effect_ret]] split: value_kind.split)
next
  case True
  consider (call) f where "kind L ins = CallInst" "direct_callee L ins = Some f" | (stack) "kind L ins = AllocaInst" "operands L ins \<noteq> []"
    | (other) "kind L ins \<noteq> CallInst" "kind L ins \<noteq> AllocaInst"
    using assms True by (auto simp: rewritable_def)
  then show ?thesis
  proof cases
    case call
    then show ?thesis using True
      by (auto simp: visit_instruction_def sharing_edit_def is_return_def
        intro!: written.effect_seq_eq [OF makeAllocCallShared_writes [OF call(2)] written.effect_seq [OF checkForFileDescriptorParameters_writes written.effect_ret]]
        split: option.split)
  next
    case stack
    then show ?thesis using True
      by (auto simp: visit_instruction_def sharing_edit_def is_return_def
        intro!: written.effect_seq_eq [OF makeStackAllocaShared_writes [OF stack(2)] written.effect_ret])
  next
    case other
    then show ?thesis by (auto simp: visit_instruction_def sharing_edit_def is_return_def intro: written.effect_ret split: value_kind.split)
  qed
qed

lemma visit_instructions_writes:
  "\<forall>i\<in>set is. rewritable L p i \<Longrightarrow> writes (visit_instructions L M ctx syms p is (as, rs, es))
    (as @ filter (in_entry_block M) (filter (\<lambda>a. kind L a = AllocaInst \<and> shouldBeShared p a) is), rs @ filter (is_return L) is,
     es @ filter (\<lambda>a. kind L a = AllocaInst \<and> shouldBeShared p a) is) (concat (map (sharing_edit L M ctx p) is))"
proof (induction "is" arbitrary: as rs es)
  case (Cons i "is")
  let ?new = "\<lambda>is. filter (\<lambda>a. kind L a = AllocaInst \<and> shouldBeShared p a) is"
  have i: "rewritable L p i" and "is": "\<forall>i\<in>set is. rewritable L p i" using Cons.prems by simp_all
  have split: "filter P (i # is) = filter P [i] @ filter P is" for P by simp
  have "writes (visit_instructions L M ctx syms p is (as @ filter (in_entry_block M) (?new [i]), rs @ filter (is_return L) [i], es @ ?new [i]))
      (as @ filter (in_entry_block M) (?new (i # is)), rs @ filter (is_return L) (i # is), es @ ?new (i # is)) (concat (map (sharing_edit L M ctx p) is))"
    using Cons.IH [OF "is", of "as @ filter (in_entry_block M) (?new [i])" "rs @ filter (is_return L) [i]" "es @ ?new [i]"]
    by (simp only: split filter_append append_assoc)
  then show ?case unfolding visit_instructions.simps list.map concat.simps by (rule written.effect_seq [OF visit_instruction_writes [OF i]])
qed (simp add: written.effect_ret)

lemma share_function_writes:
  assumes "\<forall>i\<in>set (function_instructions L f). rewritable L p i"
  shows "writes (share_function L M ctx syms p f) () (function_edits L M ctx p f)"
proof -
  have "writes (visit_instructions L M ctx syms p (function_instructions L f) ([], [], []))
      (filter (in_entry_block M) (shared_variables L p f), filter (is_return L) (function_instructions L f), shared_variables L p f)
      (concat (map (sharing_edit L M ctx p) (function_instructions L f)))"
    using visit_instructions_writes [OF assms, of M ctx syms "[]" "[]" "[]"] by (simp add: shared_variables_def)
  then show ?thesis
    unfolding share_function_def function_edits_def by (rule written.effect_seq) (simp only: prod.case, rule written.effect_seq_eq [OF writes_emits writes_emits], simp)
qed

lemma share_functions_writes:
  "\<forall>f\<in>set fs. \<forall>i\<in>set (function_instructions L f). rewritable L p i \<Longrightarrow> writes (share_functions L M ctx syms p fs) () (concat (map (function_edits L M ctx p) fs))"
  by (induction fs) (simp_all add: written.effect_ret written.effect_seq [OF share_function_writes])

text \<open>
  The edits for the global variables and for the indirect uses of allocation functions.
\<close>

definition section_edits :: "ir_global list \<Rightarrow> ir_edit list" where
  "section_edits vars = SetSection (hd vars) ''shm_data'' # SetAlignment (hd vars) 4096 # map (\<lambda>g. SetSection g ''shm_data'') (tl vars)"

definition global_edits :: "ir_global list \<Rightarrow> ir_edit list" where
  "global_edits vars =
     (let stop = Inserted ''__stop_shm_data''; last = Inserted ''__last_shm_data_variable'' in
      (if vars = [] then [InsertGlobal ''__stop_shm_data'', SetInitializer stop 0] @ section_edits [stop] else section_edits vars) @
      [InsertGlobal ''__last_shm_data_variable'', SetInitializer last 0, SetSection last ''shm_data'', SetAlignment last 4096])"

definition indirect_edits :: "llvm \<Rightarrow> ir_memory \<Rightarrow> ContextConfig option \<Rightarrow> string \<times> string \<Rightarrow> ir_edit list" where
  "indirect_edits L M ctx b =
     (case (Option.bind (getFunction M (snd b)) (counterpart L ctx), getFunction M (fst b)) of
        (Some g, Some f) \<Rightarrow> map (\<lambda>u. SetOperand (fst u) (snd u) g) (filter (indirect_use L f) (function_uses M f))
      | _ \<Rightarrow> [])"

lemma section_globals_writes:
  "writes (section_globals False vars) () (map (\<lambda>g. SetSection g ''shm_data'') vars)"
  "vars \<noteq> [] \<Longrightarrow> writes (section_globals True vars) () (section_edits vars)"
proof -
  have plain: "writes (section_globals False vars) () (map (\<lambda>g. SetSection g ''shm_data'') vars)" for vars
  proof (induction vars)
    case (Cons g vars)
    have "writes (when_do False (emit (SetAlignment g 4096))) () []" by (simp add: when_do_def written.effect_ret)
    from written.effect_seq [OF writes_emit [of "SetSection g ''shm_data''"] written.effect_seq [OF this Cons.IH]] show ?case by simp
  qed (simp add: written.effect_ret)
  then show "writes (section_globals False vars) () (map (\<lambda>g. SetSection g ''shm_data'') vars)" .
  assume "vars \<noteq> []"
  then obtain g gs where vars: "vars = g # gs" by (cases vars) auto
  have "writes (when_do True (emit (SetAlignment g 4096))) () [SetAlignment g 4096]" using writes_emit [of "SetAlignment g 4096"] by (simp add: when_do_def)
  from written.effect_seq [OF writes_emit [of "SetSection g ''shm_data''"] written.effect_seq [OF this plain]] show "writes (section_globals True vars) () (section_edits vars)"
    by (simp add: vars section_edits_def)
qed

lemma makeGlobalVariablesShared_writes: "writes (makeGlobalVariablesShared vars) () (global_edits vars)"
proof -
  let ?stop = "[InsertGlobal ''__stop_shm_data'', SetInitializer (Inserted ''__stop_shm_data'') 0]"
  let ?vars = "if vars = [] then [Inserted ''__stop_shm_data''] else vars" and ?es = "if vars = [] then ?stop else []"
  have "writes (seq (emits ?stop) (\<lambda>_. ret [Inserted ''__stop_shm_data''])) [Inserted ''__stop_shm_data''] ?stop"
  proof (rule written.effect_seq_eq)
    show "writes (emits ?stop) () ?stop" by (rule writes_emits_eq) simp
  qed (simp_all add: written.effect_ret)
  then have start: "writes (if vars = [] then seq (emits ?stop) (\<lambda>_. ret [Inserted ''__stop_shm_data'']) else ret vars) ?vars ?es"
    by (simp add: written.effect_ret)
  let ?v = "Inserted ''__last_shm_data_variable''"
  let ?last = "[InsertGlobal ''__last_shm_data_variable'', SetInitializer ?v 0, SetSection ?v ''shm_data'', SetAlignment ?v 4096]"
  have "writes (emits ?last) () ?last" by (rule writes_emits_eq) simp
  then have rest: "writes (seq (section_globals True ?vars) (\<lambda>_. emits ?last)) () (section_edits ?vars @ ?last)"
    by (intro written.effect_seq [OF section_globals_writes(2)]) simp_all
  have "writes (makeGlobalVariablesShared vars) () (?es @ section_edits ?vars @ ?last)"
    unfolding makeGlobalVariablesShared_def Let_def by (rule written.effect_seq [OF start]) (rule rest)
  then show ?thesis by (auto simp: global_edits_def Let_def)
qed

lemma makeIndirectFunctionsShared_writes:
  "writes (makeIndirectFunctionsShared L M ctx bs) () (concat (map (indirect_edits L M ctx) bs))"
proof (induction bs)
  case (Cons b bs)
  obtain name behavior where b: "b = (name, behavior)" by (cases b)
  have plain: "rewriting (map (\<lambda>u. SetOperand (fst u) (snd u) g) us) = map (\<lambda>u. SetOperand (fst u) (snd u) g) us" for g us
    by (induction us) simp_all
  have uses: "writes (emits (map (\<lambda>u. SetOperand (fst u) (snd u) g) us)) () (map (\<lambda>u. SetOperand (fst u) (snd u) g) us)" for g us
    using writes_emits [of "map (\<lambda>u. SetOperand (fst u) (snd u) g) us"] unfolding plain .
  show ?case unfolding b makeIndirectFunctionsShared.simps list.map concat.simps
    by (rule written.effect_seq [where r = "()"])
      (auto simp: indirect_edits_def uses written.effect_ret Cons.IH intro!: written.effect_seq_eq [OF getSharedMemoryFunction_writes] split: option.split)
qed (simp add: written.effect_ret)

lemma memory_runOnModule_run:
  assumes "\<forall>f\<in>set (module_functions L). \<forall>i\<in>set (function_instructions L f). rewritable L p i"
  shows "\<exists>t. memory_runOnModule L M (Some ctx) behaviors externalSymbols p s = (Inr (), t) \<and>
    rewriting (edits t) = rewriting (edits s) @ concat (map (function_edits L M (Some ctx) p) (module_functions L)) @
      global_edits (map Existing (shared_globals L M p)) @ concat (map (indirect_edits L M (Some ctx)) behaviors)"
proof -
  have "writes (addSharedMemoryFunctions M) () []"
    unfolding addSharedMemoryFunctions_def Let_def by (rule writes_emits_eq) simp
  from written.effect_seq [OF this written.effect_seq [OF share_functions_writes [OF assms]
      written.effect_seq [OF makeGlobalVariablesShared_writes makeIndirectFunctionsShared_writes]]]
  have "writes (memory_runOnModule L M (Some ctx) behaviors externalSymbols p) ()
      (concat (map (function_edits L M (Some ctx) p) (module_functions L)) @ global_edits (map Existing (shared_globals L M p)) @
       concat (map (indirect_edits L M (Some ctx)) behaviors))"
    by (simp add: memory_runOnModule_def)
  then show ?thesis by (rule written.effect_run)
qed


section \<open>Descriptors\<close>

text \<open>
  The recorded positions of descriptors, and what one call adds to them.
\<close>

definition recorded :: "memory_pass \<Rightarrow> string \<Rightarrow> int set" where
  "recorded s name = (case filedescriptors (myaml s) name of None \<Rightarrow> {} | Some vec \<Rightarrow> set vec)"

definition callee_after :: "llvm \<Rightarrow> ContextConfig option \<Rightarrow> PDG \<Rightarrow> llvm_value \<Rightarrow> string option" where
  "callee_after L ctx p call =
     (case if shouldBeShared p call then Option.bind (direct_callee L call) (counterpart L ctx) else None of
        Some g \<Rightarrow> Some g
      | None \<Rightarrow> map_option (function_name L) (getCalledFunction L call))"

definition fd_positions :: "llvm \<Rightarrow> PDG \<Rightarrow> llvm_value \<Rightarrow> nat \<Rightarrow> int set" where
  "fd_positions L p call v =
     {int (eindex (edge_property e)) | e. e \<in> set (in_edges (pgraph p) v) \<and> etype (edge_property e) = Param \<and>
        eindex (edge_property e) < length (call_args L call) \<and> filedescriptor (node p (source e))} \<union>
     (if filedescriptor (node p v) then {- 1} else {})"

definition checked_fds :: "llvm \<Rightarrow> string list \<Rightarrow> PDG \<Rightarrow> llvm_value \<Rightarrow> string option \<Rightarrow> string \<Rightarrow> int set" where
  "checked_fds L syms p call callee name =
     (case getVertexOpt p call of
        Some v \<Rightarrow> if callee = Some name \<and> name \<noteq> [] \<and> name \<in> set syms then fd_positions L p call v else {}
      | None \<Rightarrow> {})"

definition instruction_fds :: "llvm \<Rightarrow> ContextConfig option \<Rightarrow> string list \<Rightarrow> PDG \<Rightarrow> llvm_value \<Rightarrow> string \<Rightarrow> int set" where
  "instruction_fds L ctx syms p ins = (if kind L ins = CallInst then checked_fds L syms p ins (callee_after L ctx p ins) else (\<lambda>_. {}))"

definition join_fds :: "(string \<Rightarrow> int set) \<Rightarrow> (string \<Rightarrow> int set) \<Rightarrow> string \<Rightarrow> int set" where
  "join_fds a b name = a name \<union> b name"

interpretation noted: observation recorded join_fds "\<lambda>_. {}"
  by unfold_locales (auto simp: join_fds_def fun_eq_iff)

abbreviation notes_fds :: "(memory_pass, 'a) routine \<Rightarrow> 'a \<Rightarrow> (string \<Rightarrow> int set) \<Rightarrow> bool" where
  "notes_fds \<equiv> effect recorded join_fds"

lemma notes_emit: "notes_fds (emit e) () (\<lambda>_. {})"
  unfolding emit_def by (rule noted.effect_modify) (auto simp: recorded_def join_fds_def fun_eq_iff)

lemma notes_emits: "notes_fds (emits es) () (\<lambda>_. {})"
  by (induction es) (auto intro: noted.effect_ret noted.effect_seq_none [OF notes_emit])

lemma notes_add_fd: "notes_fds (add_fd name i) () ((\<lambda>_. {})(name := {i}))"
  unfolding add_fd_def by (rule noted.effect_modify) (auto simp: recorded_def join_fds_def Let_def fun_eq_iff split: option.split)

lemma notes_fd_params:
  "notes_fds (fd_params L p call name es) () ((\<lambda>_. {})(name := {int (eindex (edge_property e)) | e. e \<in> set es \<and>
     etype (edge_property e) = Param \<and> eindex (edge_property e) < length (call_args L call) \<and> filedescriptor (node p (source e))}))"
proof (induction es)
  case Nil
  then show ?case using noted.effect_ret [of "()"] by (simp add: fun_upd_idem)
next
  case (Cons e es)
  show ?case unfolding fd_params.simps by (rule noted.effect_seq_eq [OF noted.effect_when [OF notes_add_fd] Cons.IH]) (auto simp: join_fds_def fun_eq_iff)
qed

lemma notes_check: "notes_fds (checkForFileDescriptorParameters L syms p call callee) () (checked_fds L syms p call callee)"
proof (cases "\<exists>v name. getVertexOpt p call = Some v \<and> callee = Some name \<and> name \<noteq> [] \<and> name \<in> set syms")
  case True
  then obtain v name where v: "getVertexOpt p call = Some v" "callee = Some name" "name \<noteq> []" "name \<in> set syms" by blast
  have "checked_fds L syms p call callee = (\<lambda>_. {})(name := fd_positions L p call v)" using v by (auto simp: checked_fds_def fun_eq_iff)
  then show ?thesis using v unfolding checkForFileDescriptorParameters_def
    by (auto simp: fd_positions_def join_fds_def fun_eq_iff intro!: noted.effect_seq_eq [OF notes_fd_params noted.effect_when [OF notes_add_fd]])
next
  case False
  then have "checked_fds L syms p call callee = (\<lambda>_. {})" by (auto simp: checked_fds_def fun_eq_iff split: option.split)
  then show ?thesis using False by (auto simp: checkForFileDescriptorParameters_def noted.effect_ret split: option.split)
qed

lemma notes_getSharedMemoryFunction: "notes_fds (getSharedMemoryFunction L ctx f) (counterpart L ctx f) (\<lambda>_. {})"
proof -
  have "notes_fds (getSharedMemoryReplacementFunc L f name) (Some name) (\<lambda>_. {})" for name
    unfolding getSharedMemoryReplacementFunc_def by (rule noted.effect_seq_none [OF notes_emit noted.effect_ret])
  then show ?thesis by (auto simp: getSharedMemoryFunction_def counterpart_def counterparts_def Let_def noted.effect_ret)
qed

lemma notes_makeAllocCallShared:
  assumes "direct_callee L call = Some f"
  shows "notes_fds (makeAllocCallShared L ctx call) (counterpart L ctx f) (\<lambda>_. {})"
proof -
  have "notes_fds (case counterpart L ctx f of Some name \<Rightarrow> seq (emit (SetCalledFunction call name)) (\<lambda>_. ret (counterpart L ctx f)) | None \<Rightarrow> ret None)
      (counterpart L ctx f) (\<lambda>_. {})"
    by (auto intro: noted.effect_ret noted.effect_seq_none [OF notes_emit noted.effect_ret] split: option.split)
  then show ?thesis
    unfolding makeAllocCallShared_def assms option.case by (rule noted.effect_seq_none [OF notes_getSharedMemoryFunction])
qed

lemma notes_makeStackAllocaShared: "operands L a \<noteq> [] \<Longrightarrow> notes_fds (makeStackAllocaShared L M a) () (\<lambda>_. {})"
  by (auto simp: makeStackAllocaShared_def notes_emit neq_Nil_conv)

lemma notes_visit_instruction:
  assumes "rewritable L p ins"
  shows "\<exists>r'. notes_fds (visit_instruction L M ctx syms p ins r) r' (instruction_fds L ctx syms p ins)"
proof -
  obtain as rs es where r: "r = (as, rs, es)" by (cases r)
  consider (call) "kind L ins = CallInst" | (stack) "kind L ins = AllocaInst" "shouldBeShared p ins" "operands L ins \<noteq> []"
    | (other) "kind L ins \<noteq> CallInst" "kind L ins \<noteq> AllocaInst \<or> \<not> shouldBeShared p ins"
    using assms by (auto simp: rewritable_def)
  then show ?thesis
  proof cases
    case call
    let ?c = "if shouldBeShared p ins then Option.bind (direct_callee L ins) (counterpart L ctx) else None"
    have "notes_fds (if shouldBeShared p ins then makeAllocCallShared L ctx ins else ret None) ?c (\<lambda>_. {})"
      using assms call notes_makeAllocCallShared [of L ins] by (auto simp: rewritable_def noted.effect_ret)
    from noted.effect_seq [OF this, where f = "\<lambda>r. seq (checkForFileDescriptorParameters L syms p ins
        (case r of Some name \<Rightarrow> Some name | None \<Rightarrow> map_option (function_name L) (getCalledFunction L ins))) (\<lambda>_. ret (as, rs, es))",
        OF noted.effect_seq [OF notes_check noted.effect_ret]]
    have "notes_fds (visit_instruction L M ctx syms p ins r) (as, rs, es) (instruction_fds L ctx syms p ins)"
      by (simp add: r call visit_instruction_def instruction_fds_def callee_after_def noted.join_none noted.none_join)
    then show ?thesis by blast
  next
    case stack
    have "notes_fds (visit_instruction L M ctx syms p ins r) (if in_entry_block M ins then as @ [ins] else as, rs, es @ [ins]) (\<lambda>_. {})"
      using stack unfolding r visit_instruction_def
      by (auto intro!: noted.effect_seq_none [OF notes_makeStackAllocaShared noted.effect_ret])
    then show ?thesis using stack(1) by (auto simp: instruction_fds_def)
  next
    case other
    then show ?thesis by (auto simp: r visit_instruction_def instruction_fds_def intro: noted.effect_ret split: value_kind.split)
  qed
qed

lemma notes_visit_instructions:
  "\<forall>i\<in>set is. rewritable L p i \<Longrightarrow>
    \<exists>r'. notes_fds (visit_instructions L M ctx syms p is r) r' (\<lambda>name. \<Union>i\<in>set is. instruction_fds L ctx syms p i name)"
proof (induction "is" arbitrary: r)
  case (Cons i "is")
  obtain r1 where 1: "notes_fds (visit_instruction L M ctx syms p i r) r1 (instruction_fds L ctx syms p i)"
    using notes_visit_instruction Cons.prems by (metis list.set_intros(1))
  obtain r2 where 2: "notes_fds (visit_instructions L M ctx syms p is r1) r2 (\<lambda>name. \<Union>i\<in>set is. instruction_fds L ctx syms p i name)"
    using Cons by fastforce
  have "notes_fds (visit_instructions L M ctx syms p (i # is) r) r2 (\<lambda>name. \<Union>i\<in>set (i # is). instruction_fds L ctx syms p i name)"
    unfolding visit_instructions.simps by (rule noted.effect_seq_eq [OF 1]) (rule 2, simp add: join_fds_def fun_eq_iff)
  then show ?case by blast
qed (auto intro: noted.effect_ret)

lemma notes_share_functions:
  "\<forall>f\<in>set fs. \<forall>i\<in>set (function_instructions L f). rewritable L p i \<Longrightarrow> notes_fds (share_functions L M ctx syms p fs) ()
    (\<lambda>name. \<Union>f\<in>set fs. \<Union>i\<in>set (function_instructions L f). instruction_fds L ctx syms p i name)"
proof (induction fs)
  case (Cons f fs)
  have i: "\<forall>i\<in>set (function_instructions L f). rewritable L p i" using Cons.prems by simp
  from notes_visit_instructions [OF this, of M ctx syms "([], [], [])"] obtain as rs es where
    v: "notes_fds (visit_instructions L M ctx syms p (function_instructions L f) ([], [], [])) (as, rs, es)
      (\<lambda>name. \<Union>i\<in>set (function_instructions L f). instruction_fds L ctx syms p i name)" by (metis prod_cases3)
  have "notes_fds (share_function L M ctx syms p f) () (\<lambda>name. \<Union>i\<in>set (function_instructions L f). instruction_fds L ctx syms p i name)"
    unfolding share_function_def
    by (rule noted.effect_seq_eq [OF v]) (auto intro!: noted.effect_seq [OF notes_emits notes_emits] simp: join_fds_def fun_eq_iff)
  moreover have "notes_fds (share_functions L M ctx syms p fs) () (\<lambda>name. \<Union>f\<in>set fs. \<Union>i\<in>set (function_instructions L f). instruction_fds L ctx syms p i name)"
    using Cons by simp
  ultimately show ?case unfolding share_functions.simps by (rule noted.effect_seq_eq) (auto simp: join_fds_def fun_eq_iff)
qed (simp add: noted.effect_ret)

lemma notes_addSharedMemoryFunctions: "notes_fds (addSharedMemoryFunctions M) () (\<lambda>_. {})"
  unfolding addSharedMemoryFunctions_def Let_def by (rule notes_emits)

lemma notes_makeGlobalVariablesShared: "notes_fds (makeGlobalVariablesShared vars) () (\<lambda>_. {})"
proof -
  have sections: "notes_fds (section_globals b vars) () (\<lambda>_. {})" for b vars
  proof (induction vars arbitrary: b)
    case (Cons g vars)
    show ?case unfolding section_globals.simps
      by (rule noted.effect_seq_none [OF notes_emit], rule noted.effect_seq_none [where r = "()"])
        (simp_all add: when_do_def notes_emit noted.effect_ret Cons.IH)
  qed (simp add: noted.effect_ret)
  let ?vars = "if vars = [] then [Inserted ''__stop_shm_data''] else vars"
  have start: "notes_fds (if vars = [] then seq (emits es) (\<lambda>_. ret [Inserted ''__stop_shm_data'']) else ret vars) ?vars (\<lambda>_. {})" for es
    by (cases "vars = []") (simp_all only: simp_thms if_True if_False noted.effect_ret, rule noted.effect_seq_none [OF notes_emits noted.effect_ret])
  show ?thesis unfolding makeGlobalVariablesShared_def Let_def
    by (rule noted.effect_seq_none [OF start]) (rule noted.effect_seq_none [OF sections notes_emits])
qed

lemma notes_makeIndirectFunctionsShared: "notes_fds (makeIndirectFunctionsShared L M ctx bs) () (\<lambda>_. {})"
proof (induction bs)
  case (Cons b bs)
  obtain name behavior where b: "b = (name, behavior)" by (cases b)
  show ?case unfolding b makeIndirectFunctionsShared.simps
    by (rule noted.effect_seq_none [where r = "()"])
      (auto simp: notes_emits noted.effect_ret Cons.IH intro!: noted.effect_seq_none [OF notes_getSharedMemoryFunction] split: option.split)
qed (simp add: noted.effect_ret)

definition distinct_fds :: "memory_pass \<Rightarrow> bool" where
  "distinct_fds s \<longleftrightarrow> (\<forall>name vec. filedescriptors (myaml s) name = Some vec \<longrightarrow> distinct vec)"

lemma keeps_emit [keeps_intros]: "keeps distinct_fds (emit e)"
  unfolding emit_def by (rule keeps_modify) (simp add: distinct_fds_def)

lemma keeps_emits [keeps_intros]: "keeps distinct_fds (emits es)"
  by (induction es) (auto intro!: keeps_intros)

lemma keeps_add_fd [keeps_intros]: "keeps distinct_fds (add_fd name i)"
  unfolding add_fd_def by (rule keeps_modify) (auto simp: distinct_fds_def Let_def split: option.splits if_splits)

lemma keeps_fd_params [keeps_intros]: "keeps distinct_fds (fd_params L p call name es)"
  by (induction es) (auto intro!: keeps_intros)

lemma keeps_getSharedMemoryFunction [keeps_intros]: "keeps distinct_fds (getSharedMemoryFunction L ctx f)"
  by (auto simp: getSharedMemoryFunction_def getSharedMemoryReplacementFunc_def Let_def intro!: keeps_intros)

lemma keeps_visit_instruction [keeps_intros]: "keeps distinct_fds (visit_instruction L M ctx syms p ins r)"
  by (auto simp: visit_instruction_def makeAllocCallShared_def makeStackAllocaShared_def checkForFileDescriptorParameters_def
    intro!: keeps_intros split: prod.split value_kind.split option.split list.split)

lemma keeps_visit_instructions [keeps_intros]: "keeps distinct_fds (visit_instructions L M ctx syms p is r)"
  by (induction "is" arbitrary: r) (auto intro!: keeps_intros)

lemma keeps_share_functions [keeps_intros]: "keeps distinct_fds (share_functions L M ctx syms p fs)"
  by (induction fs) (auto simp: share_function_def intro!: keeps_intros split: prod.split)

lemma keeps_makeGlobalVariablesShared [keeps_intros]: "keeps distinct_fds (makeGlobalVariablesShared vars)"
proof -
  have "keeps distinct_fds (section_globals b vars)" for b vars by (induction vars arbitrary: b) (auto intro!: keeps_intros)
  then show ?thesis by (auto simp: makeGlobalVariablesShared_def Let_def intro!: keeps_intros)
qed

lemma keeps_makeIndirectFunctionsShared [keeps_intros]: "keeps distinct_fds (makeIndirectFunctionsShared L M ctx bs)"
  by (induction bs) (auto intro!: keeps_intros split: option.split)

lemma keeps_memory_runOnModule: "keeps distinct_fds (memory_runOnModule L M ctx bs syms p)"
  by (auto simp: memory_runOnModule_def addSharedMemoryFunctions_def Let_def intro!: keeps_intros)

text \<open>
  C31: The shared memory pass records exactly the descriptors in calls of other contexts. When the pass has run, the positions recorded for a name are those
  recorded before and those that a call of that name in the module has: the numbers of the parameters whose values are marked as descriptors, and -1 when the
  result is one. Only names of other contexts get positions, and no position is recorded twice.
\<close>

theorem memory_runOnModule_descriptors:
  assumes "\<forall>f\<in>set (module_functions L). \<forall>i\<in>set (function_instructions L f). rewritable L p i"
  shows "\<exists>t. memory_runOnModule L M (Some ctx) behaviors externalSymbols p s = (Inr (), t) \<and>
    (\<forall>name. recorded t name = recorded s name \<union>
      (\<Union>f\<in>set (module_functions L). \<Union>i\<in>set (function_instructions L f). instruction_fds L (Some ctx) externalSymbols p i name)) \<and>
    (distinct_fds s \<longrightarrow> distinct_fds t)"
proof -
  let ?D = "\<lambda>name. \<Union>f\<in>set (module_functions L). \<Union>i\<in>set (function_instructions L f). instruction_fds L (Some ctx) externalSymbols p i name"
  have "notes_fds (memory_runOnModule L M (Some ctx) behaviors externalSymbols p) () ?D"
    unfolding memory_runOnModule_def
    by (rule noted.effect_seq_none [OF notes_addSharedMemoryFunctions noted.effect_none_seq [OF notes_share_functions [OF assms]
      noted.effect_seq_none [OF notes_makeGlobalVariablesShared]]]) (simp add: notes_makeIndirectFunctionsShared)
  from noted.effect_run [OF this, of s] obtain t where t: "memory_runOnModule L M (Some ctx) behaviors externalSymbols p s = (Inr (), t)"
    "recorded t = join_fds (recorded s) ?D" by blast
  moreover have "distinct_fds s \<longrightarrow> distinct_fds t" using keepsD [OF keeps_memory_runOnModule] t(1) by blast
  ultimately show ?thesis by (auto simp: join_fds_def)
qed

section \<open>From the call to the block\<close>

text \<open>
  The two lists of allocation functions agree: the calls that the construction of the graph takes for sources of memory are those for which this pass has a
  counterpart.
\<close>

lemma memory_sources_have_counterparts:
  assumes "kind L call = CallInst" and "direct_callee L call = Some f" and "\<not> startswith (function_name L f) ''__ipc_specialized_''"
  shows "isMemorySource L call (functionBehavior ctx) \<noteq> 0 \<longleftrightarrow> counterpart L (Some ctx) f \<noteq> None"
  using assms by (simp add: isMemorySource_def counterpart_def counterparts_def alloc_name_def Let_def split: option.split)

text \<open>
  The sources of memory of a graph as the construction leaves them: a call that is a source has a direct callee, and variables on the stack have an operand.
\<close>

definition sources_direct :: "llvm \<Rightarrow> PDG \<Rightarrow> bool" where
  "sources_direct L p \<longleftrightarrow> (\<forall>v c. live p v \<longrightarrow> nsource (node p v) \<longrightarrow> instruction (node p v) = Some c \<longrightarrow>
     (kind L c = CallInst \<longrightarrow> direct_callee L c \<noteq> None) \<and> (kind L c = AllocaInst \<longrightarrow> operands L c \<noteq> []))"

lemma sources_direct_rewritable:
  assumes "sharing_kept L p q" and "sources_direct L p"
  shows "rewritable L q ins"
  unfolding rewritable_def
proof
  have e: "ext L p q" using assms(1) by (simp add: sharing_kept_def)
  assume "shouldBeShared q ins"
  then obtain v where v: "value_to_vertex q ins = Some v" "nsource (node q v)" by (auto simp: shouldBeShared_def split: option.splits if_splits)
  then have q: "live q v" "instruction (node q v) = Some ins" using ext_good [OF e] by (simp_all add: good_def)
  then have p: "live p v" "origin_of (node q v) = origin_of (node p v)" using assms(1) v(2) by (simp_all add: sharing_kept_def)
  moreover have "instruction (node p v) = Some ins" using ext_live [OF e p(1)] q(2) by (simp add: keeps_vertex_def)
  ultimately show "(kind L ins = CallInst \<longrightarrow> direct_callee L ins \<noteq> None) \<and> (kind L ins = AllocaInst \<longrightarrow> operands L ins \<noteq> [])"
    using assms(2) v(2) by (simp add: sources_direct_def origin_of_def)
qed

lemma shares_memory_shouldBeShared:
  assumes "sharing_kept L p q" and "good p" and "value_to_vertex p a = Some v" and "origin_of (node p v) = (True, 1)"
    and "getDerefOpt p v \<noteq> None" and "shares_memory q a"
  shows "shouldBeShared q a"
proof -
  have e: "ext L p q" and o: "origin_of (node q v) = (True, 1)" using assms(1-4) by (auto simp: sharing_kept_def good_def)
  have v: "value_to_vertex q a = Some v" using ext_index [OF e assms(3)] .
  obtain x where "x \<in> set (out_edges (pgraph p) v)" "etype (edge_property x) = Deref"
    using assms(5) by (auto simp: getDerefOpt_def dest: first_edge_Some)
  then have "x \<in> pedges q" "source x = v" using e out_edges_pedges [OF assms(2)] by (auto simp: ext_def)
  then have "x \<in> set (out_edges (pgraph q) v)" using out_edges_pedges [OF ext_good [OF e]] by simp
  then obtain y where y: "first_edge (\<lambda>l. etype l = Deref) (out_edges (pgraph q) v) = Some y"
    using \<open>etype (edge_property x) = Deref\<close> first_edge_None [of "\<lambda>l. etype l = Deref" "out_edges (pgraph q) v"] by fastforce
  have "y \<in> pedges q" "source y = v" "etype (edge_property y) = Deref"
    using first_edge_Some [OF y] out_edges_pedges [OF ext_good [OF e]] by simp_all
  then have "target y \<in> memory_of q v" by (auto simp: memory_of_def)
  then have "ipcsink (node q (target y))" using shares_memoryD [OF assms(6)] v by (auto simp: node_marks_def)
  then show ?thesis using v o y by (simp add: shouldBeShared_def getMemoryForSource_def getDerefOpt_def origin_of_def)
qed

text \<open>
  C29: A variable on the stack whose address is passed to another context is moved to shared memory. On a well-typed graph with closed marks whose sources have direct
  callees, marking a call of another context succeeds with enough fuel. On the graph it leaves, the shared memory pass returns, and every variable that is an
  argument of the call and a source of memory in the graph becomes a block in shared memory; when it is in the entry block, the block is freed before every return
  of its function.
\<close>

theorem ipc_argument_shared:
  assumes "good p" and "typed L p" and "marks_closed ipcsink p" and "sources_direct L p"
  shows "\<exists>q n0. (\<forall>n\<ge>n0. markIpcCall n L call p = (Inr (), q)) \<and>
    (\<exists>t. memory_runOnModule L M (Some ctx) behaviors externalSymbols q s = (Inr (), t) \<and>
      (\<forall>f a v. f \<in> set (module_functions L) \<and> a \<in> set (function_instructions L f) \<and> kind L a = AllocaInst \<and> a \<in> set (call_args L call) \<and>
         value_to_vertex p a = Some v \<and> origin_of (node p v) = (True, 1) \<and> getDerefOpt p v \<noteq> None \<longrightarrow>
         AllocateShared a (block_of L M a) \<in> set (edits t) \<and>
         (in_entry_block M a \<longrightarrow> (\<forall>r\<in>set (function_instructions L f). is_return L r \<longrightarrow> FreeShared r a \<in> set (edits t)))))"
proof -
  obtain q n0 where q: "\<forall>n\<ge>n0. markIpcCall n L call p = (Inr (), q)" "sharing_kept L p q"
      "\<forall>a\<in>set (call_args L call). isIgnoredOperand L a \<or> shares_memory q a"
    using markIpcCall_run [OF assms(1-3)] by blast
  have "\<forall>f\<in>set (module_functions L). \<forall>i\<in>set (function_instructions L f). rewritable L q i" using sources_direct_rewritable [OF q(2) assms(4)] by blast
  from memory_runOnModule_run [OF this, of M ctx behaviors externalSymbols s] obtain t where
    t: "memory_runOnModule L M (Some ctx) behaviors externalSymbols q s = (Inr (), t)"
      "rewriting (edits t) = rewriting (edits s) @ concat (map (function_edits L M (Some ctx) q) (module_functions L)) @
        global_edits (map Existing (shared_globals L M q)) @ concat (map (indirect_edits L M (Some ctx)) behaviors)" by blast
  have written: "set (function_edits L M (Some ctx) q f) \<subseteq> set (edits t)" if "f \<in> set (module_functions L)" for f
  proof -
    have "set (function_edits L M (Some ctx) q f) \<subseteq> set (rewriting (edits t))" using that by (auto simp: t(2))
    then show ?thesis by (auto simp: rewriting_def)
  qed
  have "AllocateShared a (block_of L M a) \<in> set (edits t) \<and>
      (in_entry_block M a \<longrightarrow> (\<forall>r\<in>set (function_instructions L f). is_return L r \<longrightarrow> FreeShared r a \<in> set (edits t)))"
    if a: "f \<in> set (module_functions L)" "a \<in> set (function_instructions L f)" "kind L a = AllocaInst" "a \<in> set (call_args L call)"
      "value_to_vertex p a = Some v" "origin_of (node p v) = (True, 1)" "getDerefOpt p v \<noteq> None" for f a v
  proof -
    have "\<not> isIgnoredOperand L a" using a(3) by (simp add: isIgnoredOperand_def)
    then have "shouldBeShared q a" using shares_memory_shouldBeShared [OF q(2) assms(1) a(5-7)] q(3) a(4) by blast
    then have "AllocateShared a (block_of L M a) \<in> set (function_edits L M (Some ctx) q f) \<and>
        (in_entry_block M a \<longrightarrow> (\<forall>r\<in>set (function_instructions L f). is_return L r \<longrightarrow> FreeShared r a \<in> set (function_edits L M (Some ctx) q f)))"
      using a(2,3) by (auto simp: function_edits_def sharing_edit_def shared_variables_def)
    then show ?thesis using written [OF a(1)] by blast
  qed
  then show ?thesis using q(1) t(1) by blast
qed

section \<open>An example\<close>

text \<open>
  A function that passes the address of a variable to a function of another context and returns.
\<close>

definition stack_module :: llvm where
  "stack_module = empty_llvm\<lparr>module_functions := [0], function_instructions := (\<lambda>f. if f = 0 then [1, 2, 3] else []),
     kind := (\<lambda>v. if v = 1 then AllocaInst else if v = 2 then CallInst else if v = 3 then ReturnInst None else OtherValue),
     value_type := (\<lambda>v. if v = 1 then PtrTy 0 else VoidTy), operands := (\<lambda>v. if v = 1 then [4] else []),
     call_args := (\<lambda>v. if v = 2 then [1] else []), direct_callee := (\<lambda>v. if v = 2 then Some 5 else None),
     function_name := (\<lambda>f. if f = 5 then ''lib_read'' else ''main'')\<rparr>"

definition stack_memory :: ir_memory where
  "stack_memory = \<lparr>getTypeAllocSize = (\<lambda>_. 8), isArrayAllocation = (\<lambda>_. False), getAlignment = (\<lambda>_. 8), in_entry_block = (\<lambda>_. True),
     declared_global = (\<lambda>_. False), int8ptr = PtrTy 1, int8ptrptr = PtrTy 2, getFunction = Map.empty, function_uses = (\<lambda>_. [])\<rparr>"

definition stack_source :: "(PDG, unit) routine" where
  "stack_source = seq (getVertex stack_module 1 (Some 0)) (\<lambda>v. set_node v (\<lambda>n. n\<lparr>nsource := True, source_type := 1\<rparr>))"

definition stack_pdg :: PDG where
  "stack_pdg = snd (stack_source (PDG_new None))"

definition stack_start :: memory_pass where
  "stack_start = \<lparr>edits = [], myaml = YamlConfig_new\<rparr>"

lemma stack_pdg_values:
  "value_to_vertex stack_pdg 1 = Some 0" "getDerefOpt stack_pdg 0 = Some 1" "origin_of (node stack_pdg 0) = (True, 1)"
  "capacity (pgraph stack_pdg) = 2" "instruction (node stack_pdg 0) = Some 1" "\<not> nsource (node stack_pdg 1)"
  by code_simp+

lemma stack_pdg_ready:
  "good stack_pdg" "typed stack_module stack_pdg" "marks_closed ipcsink stack_pdg" "sources_direct stack_module stack_pdg"
proof -
  obtain v p1 where p1: "getVertex stack_module 1 (Some 0) (PDG_new None) = (Inr v, p1)" "pdg_grows stack_module {} (PDG_new None) p1"
      "value_to_vertex p1 1 = Some v"
    using getVertex_grows [OF good_new(1), of stack_module 1 "Some 0" None] by blast
  have g1: "good p1" "live p1 v" using ext_good [OF pdg_grows_ext [OF p1(2)]] p1(3) by (simp_all add: good_def)
  let ?f = "\<lambda>n. n\<lparr>nsource := True, source_type := 1\<rparr>"
  obtain p2 where p2: "set_node v ?f p1 = (Inr (), p2)" "ext stack_module p1 p2" "p2 = upd_node v ?f p1"
    by (rule set_node_ext [OF g1, of ?f stack_module]) (simp add: keeps_vertex_def)
  have p: "stack_pdg = p2" using p1(1) p2(1) by (simp add: stack_pdg_def stack_source_def seq_def)
  note e = ext_trans [OF pdg_grows_ext [OF p1(2)] p2(2)]
  show "good stack_pdg" using ext_good [OF e] by (simp add: p)
  show "typed stack_module stack_pdg" using e good_new(2) by (simp add: p ext_def)
  have "node_marks ipcsink p2 = node_marks ipcsink p1" "struct_succ p2 = struct_succ p1"
    using g1(2) by (auto simp: p2(3) node_marks_def node_upd_node struct_succ_def pedges_def live_def)
  then show "marks_closed ipcsink stack_pdg" using marks_closed_grows [OF p1(2) marks_closed_new good_new(1)] by (simp add: p marks_closed_def)
  have "v < 2" if "live stack_pdg v" for v using that stack_pdg_values(4) by (simp add: live_def)
  then show "sources_direct stack_module stack_pdg"
    using stack_pdg_values(5,6) by (auto simp: sources_direct_def stack_module_def numeral_2_eq_2 less_Suc_eq)
qed

theorem ipc_argument_shared_witness:
  "\<exists>q n0 t. (\<forall>n\<ge>n0. markIpcCall n stack_module 2 stack_pdg = (Inr (), q)) \<and>
    memory_runOnModule stack_module stack_memory (Some ContextConfig_new) [] [''lib_read''] q stack_start = (Inr (), t) \<and>
    AllocateShared 1 (Bytes 8) \<in> set (edits t) \<and> FreeShared 3 1 \<in> set (edits t)"
proof -
  have "block_of stack_module stack_memory 1 = Bytes 8" "is_return stack_module 3"
    by (simp_all add: block_of_def stack_memory_def is_return_def stack_module_def)
  moreover have "0 \<in> set (module_functions stack_module)" "1 \<in> set (function_instructions stack_module 0)" "3 \<in> set (function_instructions stack_module 0)"
      "kind stack_module 1 = AllocaInst" "1 \<in> set (call_args stack_module 2)" "in_entry_block stack_memory 1"
    by (simp_all add: stack_module_def stack_memory_def)
  ultimately show ?thesis
    using ipc_argument_shared [OF stack_pdg_ready, of 2 stack_memory ContextConfig_new "[]" "[''lib_read'']" stack_start] stack_pdg_values(1-3)
    by (metis option.distinct(1))
qed

text \<open>
  The graph after the call has been marked, with the argument marked as a descriptor as well.
\<close>

definition marked_pdg :: PDG where
  "marked_pdg = snd (seq (set_node 0 (\<lambda>n. n\<lparr>filedescriptor := True\<rparr>)) (\<lambda>_. markIpcCall 9 stack_module 2) stack_pdg)"

lemma marked_pdg_rewritable: "\<forall>f\<in>set (module_functions stack_module). \<forall>i\<in>set (function_instructions stack_module f). rewritable stack_module marked_pdg i"
  by code_simp


theorem memory_runOnModule_descriptors_witness:
  "\<exists>t. memory_runOnModule stack_module stack_memory (Some ContextConfig_new) [] [''lib_read''] marked_pdg stack_start = (Inr (), t) \<and>
    0 \<in> recorded t ''lib_read'' \<and> distinct_fds t"
proof -
  have "kind stack_module 2 = CallInst" "callee_after stack_module (Some ContextConfig_new) marked_pdg 2 = Some ''lib_read''"
      "getVertexOpt marked_pdg 2 = Some 2"
      "\<exists>e\<in>set (in_edges (pgraph marked_pdg) 2). etype (edge_property e) = Param \<and> eindex (edge_property e) = 0 \<and>
         0 < length (call_args stack_module 2) \<and> filedescriptor (node marked_pdg (source e))"
    by code_simp+
  then have "0 \<in> instruction_fds stack_module (Some ContextConfig_new) [''lib_read''] marked_pdg 2 ''lib_read''"
    by (force simp: instruction_fds_def checked_fds_def fd_positions_def)
  moreover have "0 \<in> set (module_functions stack_module)" "2 \<in> set (function_instructions stack_module 0)" by (simp_all add: stack_module_def)
  moreover have "distinct_fds stack_start" by (simp add: distinct_fds_def stack_start_def YamlConfig_new_def)
  ultimately show ?thesis
    using memory_runOnModule_descriptors [OF marked_pdg_rewritable, of stack_memory ContextConfig_new "[]" "[''lib_read'']" stack_start] by blast
qed

end
