(* ===== verification/Pdg_Specialization.thy ===== *)
theory Pdg_Specialization
  imports Pdg_Summary
begin

text \<open>
  The specialisation pass (\<^verbatim>\<open>cali-linker/passes/PDGSpecializationPass.cpp\<close>). A function whose result or arguments are shared memory at some call is cloned, with its part of
  the dependence graph; the calls that need it are directed to the clone, and the marks of the calls are carried into it. From caller to callee the pass also
  carries the marks of file descriptors.
\<close>

section \<open>Changes of the module\<close>

text \<open>
  What the pass asks LLVM for. The uses of a function are pairs of a user and the number of its operand. A clone comes with the map from the values of the
  function to those of the clone; cloning may fail.
\<close>

record llvm_edit =
  uses_of :: "llvm \<Rightarrow> llvm_function \<Rightarrow> (llvm_value \<times> nat) list"
  find_function :: "llvm \<Rightarrow> string \<Rightarrow> llvm_function option"
  clone_function :: "llvm \<Rightarrow> llvm_function \<Rightarrow> string \<Rightarrow> (llvm_function \<times> (llvm_value \<times> llvm_value) list \<times> llvm) option"
  set_called_function :: "llvm_value \<Rightarrow> llvm_function \<Rightarrow> llvm \<Rightarrow> llvm"
  set_operand :: "llvm_value \<Rightarrow> nat \<Rightarrow> llvm_value \<Rightarrow> llvm \<Rightarrow> llvm"
  erase_function :: "llvm_function \<Rightarrow> llvm \<Rightarrow> llvm"

record spec_state =
  smod :: llvm
  sreach :: reach_state

definition on_reach :: "(reach_state, 'a) routine \<Rightarrow> (spec_state, 'a) routine" where
  "on_reach m s = (case m (sreach s) of (r, t) \<Rightarrow> (r, s\<lparr>sreach := t\<rparr>))"

abbreviation on_spdg :: "(PDG, 'a) routine \<Rightarrow> (spec_state, 'a) routine" where
  "on_spdg m \<equiv> on_reach (on_pdg m)"

definition change_module :: "(llvm \<Rightarrow> llvm) \<Rightarrow> (spec_state, unit) routine" where
  "change_module f = modify (\<lambda>s. s\<lparr>smod := f (smod s)\<rparr>)"

text \<open>
  Maps ordered by their keys, with the assignment of \<^verbatim>\<open>operator[]\<close>.
\<close>

definition map_assign :: "nat \<Rightarrow> nat \<Rightarrow> matching \<Rightarrow> matching" where
  "map_assign k v m = insort_key fst (k, v) (filter (\<lambda>x. fst x \<noteq> k) m)"

section \<open>Which functions need a clone\<close>

text \<open>
  Is there a shared vertex behind \<^term>\<open>v\<close>? The limit counts dereferences; marks count from zero on, and vertices more than five dereferences further are
  not looked at.
\<close>

fun isShared :: "nat \<Rightarrow> PDG \<Rightarrow> nat \<Rightarrow> int \<Rightarrow> nat set \<Rightarrow> (bool \<times> nat set) outcome"
  and any_shared :: "nat \<Rightarrow> PDG \<Rightarrow> int \<Rightarrow> PDGEdge Edge list \<Rightarrow> nat set \<Rightarrow> (bool \<times> nat set) outcome" where
  "isShared 0 p v limit visited = Inl Out_of_fuel"
| "isShared (Suc n) p v limit visited =
     (if 0 \<le> limit \<and> (reaches_ipc_sink (node p v) \<or> ipcsink (node p v)) then Inr (True, visited)
      else if 5 < limit \<or> v \<in> visited then Inr (False, visited)
      else any_shared n p limit (out_edges (pgraph p) v) (insert v visited))"
| "any_shared n p limit [] visited = Inr (False, visited)"
| "any_shared n p limit (e # es) visited =
     bind_outcome
       (if etype (edge_property e) = Deref then isShared n p (target e) (limit + 1) visited
        else if etype (edge_property e) = Part then isShared n p (target e) limit visited
        else Inr (False, visited))
       (\<lambda>(b, visited). if b then Inr (True, visited) else any_shared n p limit es visited)"

definition shared_from :: "nat \<Rightarrow> nat \<Rightarrow> int \<Rightarrow> (PDG, bool) routine" where
  "shared_from n v limit = seq (reads (\<lambda>p. isShared n p v limit {})) (\<lambda>r. seq (lift_outcome r) (\<lambda>(b, _). ret b))"

fun args_shared :: "nat \<Rightarrow> llvm \<Rightarrow> llvm_value list \<Rightarrow> (PDG, bool) routine" where
  "args_shared n L [] = ret False"
| "args_shared n L (a # as) =
     seq (getVertex L a None) (\<lambda>v. seq (shared_from n v (- 2)) (\<lambda>b. if b then ret True else args_shared n L as))"

definition instructionRequiresSpecialization :: "nat \<Rightarrow> llvm \<Rightarrow> llvm_value \<Rightarrow> llvm_function \<Rightarrow> (PDG, bool) routine" where
  "instructionRequiresSpecialization n L ins f =
     (if getCalledFunction L ins \<noteq> Some f then
        (case getCalledFunction L ins of
           None \<Rightarrow> ret False
         | Some f2 \<Rightarrow>
             reads (\<lambda>p. case getVertexOpt p (function_value L f2) of
                None \<Rightarrow> False
              | Some v \<Rightarrow> ipcfunction (node p v) \<and> isPointerTy (fst (function_type L f))))
      else
        seq (getVertex L ins None) (\<lambda>v. seq (shared_from n v (- 1)) (\<lambda>b. if b then ret True else args_shared n L (call_args L ins))))"

fun params_shared :: "nat \<Rightarrow> PDGEdge Edge list \<Rightarrow> (PDG, bool) routine" where
  "params_shared n [] = ret False"
| "params_shared n (e # es) =
     seq (if etype (edge_property e) = Param then shared_from n (source e) (- 2) else ret False) (\<lambda>b. if b then ret True else params_shared n es)"

definition vertexRequiresSpecialization :: "nat \<Rightarrow> nat \<Rightarrow> (PDG, bool) routine" where
  "vertexRequiresSpecialization n v =
     seq (shared_from n v (- 1)) (\<lambda>b. if b then ret True else seq (reads (\<lambda>p. in_edges (pgraph p) v)) (\<lambda>es. params_shared n es))"

fun uses_require :: "nat \<Rightarrow> llvm \<Rightarrow> llvm_function \<Rightarrow> (llvm_value \<times> nat) list \<Rightarrow> (PDG, bool) routine" where
  "uses_require n L f [] = ret False"
| "uses_require n L f (u # us) =
     seq (if is_call L (fst u) then instructionRequiresSpecialization n L (fst u) f else ret False) (\<lambda>b. if b then ret True else uses_require n L f us)"

definition is_invocation :: "PDGEdge Edge \<Rightarrow> bool" where
  "is_invocation e \<longleftrightarrow> etype (edge_property e) = Invocation \<or> etype (edge_property e) = Summary_Invocation"

fun invocations_require :: "nat \<Rightarrow> PDGEdge Edge list \<Rightarrow> (PDG, bool) routine" where
  "invocations_require n [] = ret False"
| "invocations_require n (e # es) =
     seq (if is_invocation e then vertexRequiresSpecialization n (target e) else ret False) (\<lambda>b. if b then ret True else invocations_require n es)"

fun isSpecializationRequired :: "nat \<Rightarrow> llvm_edit \<Rightarrow> llvm \<Rightarrow> llvm_function list \<Rightarrow> (PDG, bool) routine" where
  "isSpecializationRequired n X L [] = ret False"
| "isSpecializationRequired n X L (f # scc) =
     (if isDeclaration L f then isSpecializationRequired n X L scc
      else
        seq (uses_require n L f (uses_of X L f)) (\<lambda>b.
          if b then ret True
          else seq (getVertex L (function_value L f) None) (\<lambda>v. seq (reads (\<lambda>p. out_edges (pgraph p) v)) (\<lambda>es.
            seq (invocations_require n es) (\<lambda>b. if b then ret True else isSpecializationRequired n X L scc)))))"

section \<open>Cloning\<close>

definition getSpecializedName :: "string \<Rightarrow> string" where
  "getSpecializedName oldName = ''__ipc_specialized_'' @ oldName"

text \<open>
  The search that copies the vertices of a function. A failure to add a vertex is noted in the state.
\<close>

record clone_state =
  cpdg :: PDG
  cmap :: matching
  cfail :: "failure option"

definition cloned_value :: "(llvm_value \<times> llvm_value) list \<Rightarrow> PDGNode \<Rightarrow> llvm_value option" where
  "cloned_value value_map info = (case instruction info of None \<Rightarrow> None | Some i \<Rightarrow> map_of value_map i)"

definition cloned_node :: "llvm \<Rightarrow> llvm_function \<Rightarrow> llvm_function \<Rightarrow> (llvm_value \<times> llvm_value) list \<Rightarrow> PDGNode \<Rightarrow> PDGNode" where
  "cloned_node L oldFunction newFunction value_map info =
     (let n = (case cloned_value value_map info of Some w \<Rightarrow> info\<lparr>instruction := Some w\<rparr> | None \<Rightarrow> info) in
      case (case instruction n of None \<Rightarrow> None | Some i \<Rightarrow> as_function L i) of
        Some f \<Rightarrow> n\<lparr>nfunction := Some f\<rparr>
      | None \<Rightarrow> if nfunction info = Some oldFunction then n\<lparr>nfunction := Some newFunction\<rparr> else n)"

definition clone_vertex :: "llvm \<Rightarrow> llvm_function \<Rightarrow> llvm_function \<Rightarrow> (llvm_value \<times> llvm_value) list \<Rightarrow> nat \<Rightarrow> clone_state \<Rightarrow> clone_state" where
  "clone_vertex L oldFunction newFunction value_map v s =
     (let info = node (cpdg s) v in
      case pdg_add_vertex (cloned_node L oldFunction newFunction value_map info) (cpdg s) of
        (Inl e, p) \<Rightarrow> s\<lparr>cpdg := p, cfail := Some e\<rparr>
      | (Inr v2, p) \<Rightarrow>
          s\<lparr>cpdg := (case cloned_value value_map info of Some w \<Rightarrow> p\<lparr>value_to_vertex := (value_to_vertex p)(w \<mapsto> v2)\<rparr> | None \<Rightarrow> p),
            cmap := map_assign v v2 (cmap s)\<rparr>)"

definition ClonedFunctionGen :: "llvm \<Rightarrow> llvm_function \<Rightarrow> llvm_function \<Rightarrow> (llvm_value \<times> llvm_value) list \<Rightarrow> (clone_state, PDGNode, PDGEdge) bfs_visitor" where
  "ClonedFunctionGen L oldFunction newFunction value_map = (default_bfs_visitor (\<lambda>s. pgraph (cpdg s)))\<lparr>
     bfs_visitor.discover_vertex := (\<lambda>v s.
       (instruction (node (cpdg s) v) = Some (function_value L oldFunction) \<or> nfunction (node (cpdg s) v) = Some oldFunction, s)),
     examine_vertex := clone_vertex L oldFunction newFunction value_map\<rparr>"

definition cloneGraphForSCCFunction :: "llvm \<Rightarrow> llvm_function \<Rightarrow> llvm_function \<Rightarrow> (llvm_value \<times> llvm_value) list \<Rightarrow> matching \<Rightarrow> (PDG, matching) routine" where
  "cloneGraphForSCCFunction L oldFunction newFunction value_map vertex_map =
     seq (getVertex L (function_value L oldFunction) None) (\<lambda>v p.
       let sources = v # List.map_filter (\<lambda>it. getVertexOpt p (fst it)) value_map in
       case breadth_first_search_twoway (ClonedFunctionGen L oldFunction newFunction value_map) sources (ColorMap_new (capacity (pgraph p)))
           \<lparr>cpdg = p, cmap = vertex_map, cfail = None\<rparr> of
         Inl e \<Rightarrow> (Inl e, p)
       | Inr (_, _, s) \<Rightarrow> (case cfail s of Some e \<Rightarrow> (Inl e, cpdg s) | None \<Rightarrow> (Inr (cmap s), cpdg s)))"

text \<open>
  The edges of the copies. Edges inside of the component are copied inside, edges to and from other vertices keep their other end.
\<close>

definition pdg_add_edge_unique :: "nat \<Rightarrow> nat \<Rightarrow> PDGEdge \<Rightarrow> (PDG, unit) routine" where
  "pdg_add_edge_unique v1 v2 e = on_graph (add_edge_unique v1 v2 e)"

fun clone_out_edges :: "matching \<Rightarrow> nat \<Rightarrow> PDGEdge Edge list \<Rightarrow> (PDG, unit) routine" where
  "clone_out_edges vertex_map w [] = ret ()"
| "clone_out_edges vertex_map w (e # es) =
     seq (pdg_add_edge_unique w (case map_of vertex_map (target e) of Some v2 \<Rightarrow> v2 | None \<Rightarrow> target e) (edge_property e))
       (\<lambda>_. clone_out_edges vertex_map w es)"

fun clone_in_edges :: "matching \<Rightarrow> nat \<Rightarrow> PDGEdge Edge list \<Rightarrow> (PDG, unit) routine" where
  "clone_in_edges vertex_map w [] = ret ()"
| "clone_in_edges vertex_map w (e # es) =
     seq (if map_of vertex_map (source e) = None then pdg_add_edge_unique (source e) w (edge_property e) else ret ())
       (\<lambda>_. clone_in_edges vertex_map w es)"

fun clone_edges :: "matching \<Rightarrow> matching \<Rightarrow> (PDG, unit) routine" where
  "clone_edges vertex_map [] = ret ()"
| "clone_edges vertex_map ((v, w) # its) =
     seq (reads (\<lambda>p. out_edges (pgraph p) v)) (\<lambda>es. seq (clone_out_edges vertex_map w es) (\<lambda>_.
       seq (reads (\<lambda>p. in_edges (pgraph p) v)) (\<lambda>es. seq (clone_in_edges vertex_map w es) (\<lambda>_. clone_edges vertex_map its))))"

definition cloneGraphForSCCEdges :: "matching \<Rightarrow> (PDG, unit) routine" where
  "cloneGraphForSCCEdges vertex_map = clone_edges vertex_map vertex_map"

text \<open>
  The functions of a component, with the map from old to new functions and the map of vertices. A function that has a specialised version in the module
  is not cloned.
\<close>

fun clone_functions :: "llvm_edit \<Rightarrow> llvm_function list \<Rightarrow> matching \<times> matching \<Rightarrow> (spec_state, matching \<times> matching) routine" where
  "clone_functions X [] r = ret r"
| "clone_functions X (f # scc) (old_to_new, vertex_map) =
     seq (reads smod) (\<lambda>L. let newName = getSpecializedName (function_name L f) in
       case find_function X L newName of
         Some g \<Rightarrow> clone_functions X scc (map_assign f g old_to_new, vertex_map)
       | None \<Rightarrow>
           (case clone_function X L f newName of
              None \<Rightarrow> throw (Runtime_error ''std::exception'')
            | Some (g, value_map, L') \<Rightarrow>
                seq (change_module (\<lambda>_. L')) (\<lambda>_.
                  seq (on_spdg (cloneGraphForSCCFunction L' f g (value_map @ [(function_value L f, function_value L' g)]) vertex_map)) (\<lambda>vertex_map.
                    clone_functions X scc (map_assign f g old_to_new, vertex_map)))))"

definition inner_calls :: "llvm_edit \<Rightarrow> llvm \<Rightarrow> value_kind \<Rightarrow> matching \<Rightarrow> llvm_value list" where
  "inner_calls X L k old_to_new =
     concat (map (\<lambda>it. map fst (filter (\<lambda>u. kind L (fst u) = k \<and> getCalledFunction L (fst u) = Some (fst it) \<and>
       instruction_function L (fst u) \<in> Some ` snd ` set old_to_new) (uses_of X L (fst it)))) old_to_new)"

text \<open>
  A call that has been directed to its new callee already is looked up under that callee, which the map does not have.
\<close>

fun retarget :: "llvm_edit \<Rightarrow> matching \<Rightarrow> llvm_value list \<Rightarrow> (spec_state, unit) routine" where
  "retarget X old_to_new [] = ret ()"
| "retarget X old_to_new (ins # inss) =
     seq (reads smod) (\<lambda>L.
       seq (case (case getCalledFunction L ins of None \<Rightarrow> None | Some f \<Rightarrow> map_of old_to_new f) of
              None \<Rightarrow> throw Undefined_behaviour
            | Some g \<Rightarrow> change_module (set_called_function X ins g)) (\<lambda>_. retarget X old_to_new inss))"

definition cloneSCC :: "llvm_edit \<Rightarrow> llvm_function list \<Rightarrow> (spec_state, matching) routine" where
  "cloneSCC X scc =
     seq (clone_functions X scc ([], [])) (\<lambda>(old_to_new, vertex_map).
       seq (on_spdg (cloneGraphForSCCEdges vertex_map)) (\<lambda>_.
         seq (reads smod) (\<lambda>L. let new_calls = inner_calls X L CallInst old_to_new; new_invokes = inner_calls X L InvokeInst old_to_new in
           seq (retarget X old_to_new new_calls) (\<lambda>_. seq (retarget X old_to_new new_invokes) (\<lambda>_. ret old_to_new)))))"

section \<open>Taint from the calls\<close>

text \<open>
  Marks go from the vertices of a call to those of the signature. The counter of dereferences starts below zero, so that the values themselves do not count.
\<close>

fun taint_subnodes :: "nat \<Rightarrow> matching \<Rightarrow> nat \<Rightarrow> nat \<Rightarrow> int \<Rightarrow> bool \<Rightarrow> (PDG, matching \<times> bool) routine"
  and taint_edges :: "nat \<Rightarrow> matching \<Rightarrow> nat \<Rightarrow> int \<Rightarrow> bool \<Rightarrow> PDGEdge Edge list \<Rightarrow> (PDG, matching \<times> bool) routine" where
  "taint_subnodes 0 m funcParam callArg derefCounter reaches = throw Out_of_fuel"
| "taint_subnodes (Suc n) m funcParam callArg derefCounter reaches =
     (if map_of m funcParam \<noteq> None then ret (m, reaches)
      else
        seq (get_node callArg) (\<lambda>x.
          seq (if 0 \<le> derefCounter \<and> (reaches_ipc_sink x \<or> ipcsink x) then
                 seq (set_node funcParam (\<lambda>n. n\<lparr>reaches_ipc_sink := True\<rparr>)) (\<lambda>_. ret True)
               else ret reaches) (\<lambda>reaches.
            seq (reads (\<lambda>p. out_edges (pgraph p) funcParam)) (\<lambda>es.
              taint_edges n (insort_key fst (funcParam, callArg) m) callArg derefCounter reaches es))))"
| "taint_edges n m callArg derefCounter reaches [] = ret (m, reaches)"
| "taint_edges n m callArg derefCounter reaches (e # es) =
     seq (case etype (edge_property e) of
            Deref \<Rightarrow> seq (reads (\<lambda>p. getDerefOpt p callArg)) (\<lambda>v2.
              case v2 of Some v2 \<Rightarrow> taint_subnodes n m (target e) v2 (derefCounter + 1) reaches | None \<Rightarrow> ret (m, reaches))
          | Part \<Rightarrow> seq (reads (\<lambda>p. getPartOpt p callArg (eindex (edge_property e)))) (\<lambda>v2.
              case v2 of Some v2 \<Rightarrow> taint_subnodes n m (target e) v2 derefCounter reaches | None \<Rightarrow> ret (m, reaches))
          | _ \<Rightarrow> ret (m, reaches))
       (\<lambda>(m, reaches). taint_edges n m callArg derefCounter reaches es)"

definition taint_from :: "nat \<Rightarrow> nat \<Rightarrow> nat \<Rightarrow> int \<Rightarrow> bool \<Rightarrow> (PDG, bool) routine" where
  "taint_from n funcParam callArg derefCounter reaches = seq (taint_subnodes n [] funcParam callArg derefCounter reaches) (\<lambda>(_, reaches). ret reaches)"

text \<open>
  Further arguments of a function with variable arguments belong to one parameter.
\<close>

definition param_number :: "llvm \<Rightarrow> llvm_function \<Rightarrow> nat \<Rightarrow> nat" where
  "param_number L f i = (if isVarArg L f \<and> length (function_args L f) \<le> i then length (function_args L f) else i)"

fun taint_args :: "nat \<Rightarrow> llvm \<Rightarrow> llvm_function \<Rightarrow> llvm_function option \<Rightarrow> nat \<Rightarrow> nat \<Rightarrow> llvm_value list \<Rightarrow> bool \<Rightarrow> (PDG, bool) routine" where
  "taint_args n L oldFunction caller vFunc i [] reaches = ret reaches"
| "taint_args n L oldFunction caller vFunc i (a # as) reaches =
     seq (reads (\<lambda>p. getParamOpt p vFunc (param_number L oldFunction i))) (\<lambda>r.
       seq (case r of
              Some vFuncParam \<Rightarrow> seq (getVertex L a caller) (\<lambda>v. taint_from n vFuncParam v (- 2) reaches)
            | None \<Rightarrow> ret reaches)
         (\<lambda>reaches. taint_args n L oldFunction caller vFunc (Suc i) as reaches))"

text \<open>
  The result tells whether the call is to be directed to the new function.
\<close>

definition matchAndPropagateTaint :: "nat \<Rightarrow> llvm \<Rightarrow> llvm_value \<Rightarrow> llvm_function \<Rightarrow> llvm_function \<Rightarrow> (PDG, bool) routine" where
  "matchAndPropagateTaint n L call oldFunction newFunction =
     (if getCalledFunction L call \<noteq> Some oldFunction then ret False
      else
        seq (getVertex L (function_value L newFunction) None) (\<lambda>vFunc.
          seq (reads (\<lambda>p. getReturnOpt p vFunc)) (\<lambda>r.
            seq (case r of Some vFuncRet \<Rightarrow> seq (getVertex L call None) (\<lambda>v. taint_from n vFuncRet v (- 1) False) | None \<Rightarrow> ret False) (\<lambda>reaches.
              taint_args n L oldFunction (instruction_function L call) vFunc 0 (call_args L call) reaches))))"

fun taint_params :: "nat \<Rightarrow> llvm \<Rightarrow> llvm_function \<Rightarrow> nat \<Rightarrow> PDGEdge Edge list \<Rightarrow> bool \<Rightarrow> (PDG, bool) routine" where
  "taint_params n L oldFunction vFunc [] reaches = ret reaches"
| "taint_params n L oldFunction vFunc (e # es) reaches =
     seq (if etype (edge_property e) \<noteq> Param then ret reaches
          else seq (reads (\<lambda>p. getParamOpt p vFunc (param_number L oldFunction (eindex (edge_property e))))) (\<lambda>r.
            case r of
              Some vFuncParam \<Rightarrow> taint_from n vFuncParam (source e) (- 2) reaches
            | None \<Rightarrow> ret reaches))
       (\<lambda>reaches. taint_params n L oldFunction vFunc es reaches)"

definition matchAndPropagateTaintGraphwise :: "nat \<Rightarrow> llvm \<Rightarrow> nat \<Rightarrow> llvm_function \<Rightarrow> llvm_function \<Rightarrow> (PDG, bool) routine" where
  "matchAndPropagateTaintGraphwise n L callVertex oldFunction newFunction =
     seq (getVertex L (function_value L newFunction) None) (\<lambda>vFunc.
       seq (reads (\<lambda>p. getReturnOpt p vFunc)) (\<lambda>r.
         seq (case r of Some vFuncRet \<Rightarrow> taint_from n vFuncRet callVertex (- 1) False | None \<Rightarrow> ret False) (\<lambda>reaches.
           seq (reads (\<lambda>p. in_edges (pgraph p) callVertex)) (\<lambda>es. taint_params n L oldFunction vFunc es reaches))))"

text \<open>
  A function that is passed to another context as a callback. A callee without a vertex is not expected.
\<close>

definition taintForCallArgument :: "nat \<Rightarrow> llvm \<Rightarrow> llvm_value \<Rightarrow> llvm_function \<Rightarrow> llvm_function \<Rightarrow> (PDG, bool) routine" where
  "taintForCallArgument n L call oldFunction newFunction =
     (case getCalledFunction L call of
        None \<Rightarrow> ret False
      | Some f \<Rightarrow>
          seq (reads (\<lambda>p. getVertexOpt p (function_value L f))) (\<lambda>r.
            case r of
              None \<Rightarrow> throw Undefined_behaviour
            | Some v \<Rightarrow>
                seq (get_node v) (\<lambda>x.
                  if \<not> ipcfunction x then ret False
                  else if \<not> isPointerTy (fst (function_type L oldFunction)) then ret False
                  else seq (getVertex L (function_value L newFunction) None) (\<lambda>w. seq (reads (\<lambda>p. getReturnOpt p w)) (\<lambda>returnValue.
                    case returnValue of
                      Some rv \<Rightarrow> seq (markAsPointerToShared n rv) (\<lambda>_. ret True)
                    | None \<Rightarrow> ret False)))))"

section \<open>Directing calls to the clones\<close>

type_synonym indirect_use = "llvm_value \<times> nat \<times> PDGEdge Edge option"

fun taint_invocations :: "nat \<Rightarrow> llvm \<Rightarrow> llvm_value \<times> nat \<Rightarrow> llvm_function \<Rightarrow> llvm_function \<Rightarrow> PDGEdge Edge list \<Rightarrow> (PDG, indirect_use list) routine" where
  "taint_invocations n L u oldFunction newFunction [] = ret []"
| "taint_invocations n L u oldFunction newFunction (e # es) =
     seq (if is_invocation e then
            seq (get_node (target e)) (\<lambda>x.
              if instruction x = Some (fst u) then matchAndPropagateTaintGraphwise n L (target e) oldFunction newFunction else ret False)
          else ret False) (\<lambda>b.
       seq (taint_invocations n L u oldFunction newFunction es) (\<lambda>us. ret (if b then (fst u, snd u, Some e) # us else us)))"

fun taint_uses :: "nat \<Rightarrow> llvm \<Rightarrow> llvm_function \<Rightarrow> llvm_function \<Rightarrow> (llvm_value \<times> nat) list \<Rightarrow> llvm_value list \<times> llvm_value list \<times> indirect_use list \<Rightarrow>
    (PDG, llvm_value list \<times> llvm_value list \<times> indirect_use list) routine" where
  "taint_uses n L oldFunction newFunction [] r = ret r"
| "taint_uses n L oldFunction newFunction (u # us) (newCalls, newInvokes, newIndirectUses) =
     seq (if kind L (fst u) = CallInst \<and> direct_callee L (fst u) = Some oldFunction then
            seq (matchAndPropagateTaint n L (fst u) oldFunction newFunction) (\<lambda>b.
              ret (if b then newCalls @ [fst u] else newCalls, newInvokes, newIndirectUses))
          else if kind L (fst u) = InvokeInst \<and> direct_callee L (fst u) = Some oldFunction then
            seq (matchAndPropagateTaint n L (fst u) oldFunction newFunction) (\<lambda>b.
              ret (newCalls, if b then newInvokes @ [fst u] else newInvokes, newIndirectUses))
          else
            seq (getVertex L (function_value L oldFunction) None) (\<lambda>v. seq (reads (\<lambda>p. out_edges (pgraph p) v)) (\<lambda>es.
              seq (taint_invocations n L u oldFunction newFunction es) (\<lambda>found.
                seq (if kind L (fst u) = CallInst then taintForCallArgument n L (fst u) oldFunction newFunction else ret False) (\<lambda>b.
                  ret (newCalls, newInvokes, newIndirectUses @ found @ (if b then [(fst u, snd u, None)] else [])))))))
       (\<lambda>r. taint_uses n L oldFunction newFunction us r)"

fun set_callees :: "llvm_edit \<Rightarrow> llvm_function \<Rightarrow> llvm_value list \<Rightarrow> (spec_state, unit) routine" where
  "set_callees X newFunction [] = ret ()"
| "set_callees X newFunction (c # cs) = seq (change_module (set_called_function X c newFunction)) (\<lambda>_. set_callees X newFunction cs)"

fun move_edges :: "llvm \<Rightarrow> llvm_function \<Rightarrow> PDGEdge Edge list \<Rightarrow> (PDG, unit) routine" where
  "move_edges L newFunction [] = ret ()"
| "move_edges L newFunction (e # es) =
     seq (on_graph (remove_edge e)) (\<lambda>_. seq (getVertex L (function_value L newFunction) None) (\<lambda>v.
       seq (pdg_add_edge v (target e) (edge_property e)) (\<lambda>_. move_edges L newFunction es)))"

definition edges_to_move :: "llvm \<Rightarrow> llvm_function \<Rightarrow> indirect_use \<Rightarrow> (PDG, PDGEdge Edge list) routine" where
  "edges_to_move L oldFunction = (\<lambda>(user, i, e_op).
     seq (getVertex L user None) (\<lambda>v. seq (getVertex L (function_value L oldFunction) None) (\<lambda>w.
       reads (\<lambda>p. (case e_op of Some e \<Rightarrow> [e] | None \<Rightarrow> []) @ filter (\<lambda>e. target e = v \<and> eindex (edge_property e) = i) (out_edges (pgraph p) w)))))"

fun replace_uses :: "llvm_edit \<Rightarrow> llvm_function \<Rightarrow> llvm_function \<Rightarrow> indirect_use list \<Rightarrow> (spec_state, unit) routine" where
  "replace_uses X oldFunction newFunction [] = ret ()"
| "replace_uses X oldFunction newFunction (u # us) =
     seq (reads smod) (\<lambda>L. seq (change_module (set_operand X (fst u) (fst (snd u)) (function_value L newFunction))) (\<lambda>_.
       seq (reads smod) (\<lambda>L. seq (on_spdg (seq (edges_to_move L oldFunction u) (\<lambda>es. move_edges L newFunction es))) (\<lambda>_.
         replace_uses X oldFunction newFunction us))))"

definition specializeCalls :: "nat \<Rightarrow> llvm_edit \<Rightarrow> llvm_function \<Rightarrow> llvm_function \<Rightarrow> (spec_state, unit) routine" where
  "specializeCalls n X oldFunction newFunction =
     seq (reads smod) (\<lambda>L.
       seq (on_spdg (taint_uses n L oldFunction newFunction (uses_of X L oldFunction) ([], [], []))) (\<lambda>(newCalls, newInvokes, newIndirectUses).
         seq (set_callees X newFunction newCalls) (\<lambda>_. seq (set_callees X newFunction newInvokes) (\<lambda>_.
           replace_uses X oldFunction newFunction newIndirectUses))))"

definition removeIfDead :: "llvm_edit \<Rightarrow> llvm_function \<Rightarrow> (spec_state, bool) routine" where
  "removeIfDead X f =
     seq (reads smod) (\<lambda>L.
       if num_uses L (function_value L f) = 0 then
         seq (on_spdg (removeFunction (Some f))) (\<lambda>_. seq (change_module (erase_function X f)) (\<lambda>_. ret True))
       else ret False)"

section \<open>File descriptors\<close>

fun fd_subnodes :: "nat \<Rightarrow> matching \<Rightarrow> nat \<Rightarrow> nat \<Rightarrow> bool \<Rightarrow> (PDG, matching \<times> bool) routine"
  and fd_edges :: "nat \<Rightarrow> matching \<Rightarrow> nat \<Rightarrow> bool \<Rightarrow> PDGEdge Edge list \<Rightarrow> (PDG, matching \<times> bool) routine" where
  "fd_subnodes 0 m funcParam callArg has_fd = throw Out_of_fuel"
| "fd_subnodes (Suc n) m funcParam callArg has_fd =
     (if map_of m funcParam \<noteq> None then ret (m, has_fd)
      else
        seq (get_node callArg) (\<lambda>x. seq (get_node funcParam) (\<lambda>y.
          seq (if filedescriptor x \<and> isFileDescriptorType (ntype y) then
                 seq (set_node funcParam (\<lambda>n. n\<lparr>filedescriptor := True\<rparr>)) (\<lambda>_. ret True)
               else ret has_fd) (\<lambda>has_fd.
            seq (reads (\<lambda>p. out_edges (pgraph p) funcParam)) (\<lambda>es.
              fd_edges n (insort_key fst (funcParam, callArg) m) callArg has_fd es)))))"
| "fd_edges n m callArg has_fd [] = ret (m, has_fd)"
| "fd_edges n m callArg has_fd (e # es) =
     seq (case etype (edge_property e) of
            Deref \<Rightarrow> seq (reads (\<lambda>p. getDerefOpt p callArg)) (\<lambda>v2.
              case v2 of Some v2 \<Rightarrow> fd_subnodes n m (target e) v2 has_fd | None \<Rightarrow> ret (m, has_fd))
          | Part \<Rightarrow> seq (reads (\<lambda>p. getPartOpt p callArg (eindex (edge_property e)))) (\<lambda>v2.
              case v2 of Some v2 \<Rightarrow> fd_subnodes n m (target e) v2 has_fd | None \<Rightarrow> ret (m, has_fd))
          | _ \<Rightarrow> ret (m, has_fd))
       (\<lambda>(m, has_fd). fd_edges n m callArg has_fd es)"

fun fd_args :: "nat \<Rightarrow> llvm \<Rightarrow> nat \<Rightarrow> nat \<Rightarrow> llvm_value list \<Rightarrow> bool \<Rightarrow> (PDG, bool) routine" where
  "fd_args n L vFunc i [] has_fd = ret has_fd"
| "fd_args n L vFunc i (a # as) has_fd =
     seq (reads (\<lambda>p. if isIgnoredOperand L a then None else
            (case getParamOpt p vFunc i of None \<Rightarrow> None | Some f \<Rightarrow> map_option (\<lambda>v. (f, v)) (getVertexOpt p a)))) (\<lambda>r.
       seq (case r of Some (vFuncParam, v) \<Rightarrow> seq (fd_subnodes n [] vFuncParam v has_fd) (\<lambda>(_, b). ret b) | None \<Rightarrow> ret has_fd)
         (\<lambda>has_fd. fd_args n L vFunc (Suc i) as has_fd))"

definition copyFileDescriptors :: "nat \<Rightarrow> llvm \<Rightarrow> llvm_value \<Rightarrow> llvm_function \<Rightarrow> (PDG, bool) routine" where
  "copyFileDescriptors n L call f =
     seq (getVertex L (function_value L f) None) (\<lambda>vFunc. seq (reads (\<lambda>p. getReturnOpt p vFunc)) (\<lambda>r.
       seq (case r of
              Some vFuncRet \<Rightarrow> seq (getVertex L call None) (\<lambda>v. seq (fd_subnodes n [] vFuncRet v False) (\<lambda>(_, b). ret b))
            | None \<Rightarrow> ret False)
         (\<lambda>has_fd. fd_args n L vFunc 0 (call_args L call) has_fd)))"

text \<open>
  The instructions of one kind that use a value, also through casts.
\<close>

fun getCallsToFunction :: "nat \<Rightarrow> llvm \<Rightarrow> value_kind \<Rightarrow> llvm_value list \<Rightarrow> llvm_value list outcome" where
  "getCallsToFunction n L k [] = Inr []"
| "getCallsToFunction n L k (u # us) =
     bind_outcome
       (if kind L u = k then Inr [u]
        else if isBitCastOperator (kind L u) then (case n of 0 \<Rightarrow> Inl Out_of_fuel | Suc n \<Rightarrow> getCallsToFunction n L k (users L u))
        else Inr []) (\<lambda>cs. bind_outcome (getCallsToFunction n L k us) (\<lambda>ds. Inr (cs @ ds)))"

fun copy_all_fds :: "nat \<Rightarrow> llvm \<Rightarrow> llvm_function \<Rightarrow> llvm_value list \<Rightarrow> bool \<Rightarrow> (PDG, bool) routine" where
  "copy_all_fds n L f [] upd = ret upd"
| "copy_all_fds n L f (c # cs) upd = seq (copyFileDescriptors n L c f) (\<lambda>b. copy_all_fds n L f cs (upd \<or> b))"

fun function_fds :: "nat \<Rightarrow> llvm \<Rightarrow> YamlConfig \<Rightarrow> llvm_function list \<Rightarrow> bool \<Rightarrow> (reach_state, bool) routine" where
  "function_fds n L config [] upd = ret upd"
| "function_fds n L config (f # scc) upd =
     seq (lift_outcome (getCallsToFunction n L CallInst (users L (function_value L f)))) (\<lambda>cs. seq (on_pdg (copy_all_fds n L f cs upd)) (\<lambda>upd.
     seq (lift_outcome (getCallsToFunction n L InvokeInst (users L (function_value L f)))) (\<lambda>cs. seq (on_pdg (copy_all_fds n L f cs upd)) (\<lambda>upd.
     seq (if strongFPAnalysis config then
            seq (on_scc (\<lambda>c. Inr (getPossibleIndirectCalls f c))) (\<lambda>cs. on_pdg (copy_all_fds n L f (filter (is_call L) cs) upd))
          else ret upd) (\<lambda>upd. function_fds n L config scc upd)))))"

definition propagateFileDescriptors :: "nat \<Rightarrow> llvm \<Rightarrow> YamlConfig \<Rightarrow> llvm_function list \<Rightarrow> (reach_state, unit) routine" where
  "propagateFileDescriptors n L config scc =
     seq (function_fds n L config scc False) (\<lambda>upd.
       when_do upd (seq (modify new_colors) (\<lambda>_.
         seq (search_pdg (\<lambda>cs. calculateFDReachability L (map Some (function_set scc)) cs (strongFDAnalysis config))) (\<lambda>_. ret ()))))"

section \<open>The pass\<close>

fun specialize_pairs :: "nat \<Rightarrow> llvm_edit \<Rightarrow> matching \<Rightarrow> (spec_state, unit) routine" where
  "specialize_pairs n X [] = ret ()"
| "specialize_pairs n X ((f, g) # ps) = seq (specializeCalls n X f g) (\<lambda>_. specialize_pairs n X ps)"

fun specialize_sccs :: "nat \<Rightarrow> llvm_edit \<Rightarrow> YamlConfig \<Rightarrow> llvm_function list list \<Rightarrow> bool \<times> matching \<Rightarrow> (spec_state, bool \<times> matching) routine" where
  "specialize_sccs n X config [] r = ret r"
| "specialize_sccs n X config (scc # sccs) (result, all_old_to_new) =
     seq (reads smod) (\<lambda>L. seq (on_reach (propagateFileDescriptors n L config scc)) (\<lambda>_.
       seq (on_spdg (isSpecializationRequired n X L scc)) (\<lambda>required.
         if \<not> required then specialize_sccs n X config sccs (result, all_old_to_new)
         else
           seq (cloneSCC X scc) (\<lambda>old_to_new. seq (specialize_pairs n X old_to_new) (\<lambda>_.
             seq (on_reach (seq (modify new_colors) (\<lambda>_. search_pdg (calculateSinkReachability (map Some (function_set (map snd old_to_new))))))) (\<lambda>_.
               specialize_sccs n X config sccs (True, fold (\<lambda>(f, g). map_assign f g) old_to_new all_old_to_new)))))))"

fun remove_dead :: "llvm_edit \<Rightarrow> matching \<Rightarrow> (spec_state, unit) routine" where
  "remove_dead X [] = ret ()"
| "remove_dead X ((f, g) # ps) =
     seq (removeIfDead X g) (\<lambda>b.
       seq (if b then on_spdg (removeFunction (Some g))
            else seq (removeIfDead X f) (\<lambda>b. when_do b (on_spdg (removeFunction (Some f))))) (\<lambda>_. remove_dead X ps))"

definition spec_runOnModule :: "nat \<Rightarrow> llvm_edit \<Rightarrow> YamlConfig \<Rightarrow> (spec_state, bool) routine" where
  "spec_runOnModule n X config =
     seq (reads (\<lambda>s. dataSCCs (rscc (sreach s)))) (\<lambda>sccs. seq (specialize_sccs n X config (rev sccs) (False, [])) (\<lambda>(result, all_old_to_new).
       seq (remove_dead X all_old_to_new) (\<lambda>_. ret result)))"

section \<open>The decision is exact\<close>

text \<open>
  A level gives every vertex its number of dereferences. The search goes on from vertices of level five at most; it looks for a vertex of level zero or more that is
  marked.
\<close>

definition graded :: "PDG \<Rightarrow> (nat \<Rightarrow> int) \<Rightarrow> bool" where
  "graded p level \<longleftrightarrow> (\<forall>e\<in>pedges p. structural e \<longrightarrow> level (target e) = level (source e) + (if etype (edge_property e) = Deref then 1 else 0))"

definition near_succ :: "PDG \<Rightarrow> (nat \<Rightarrow> int) \<Rightarrow> (nat \<times> nat) set" where
  "near_succ p level = {(source e, target e) | e. e \<in> pedges p \<and> structural e \<and> level (source e) \<le> 5}"

definition hot :: "PDG \<Rightarrow> (nat \<Rightarrow> int) \<Rightarrow> nat \<Rightarrow> bool" where
  "hot p level w \<longleftrightarrow> 0 \<le> level w \<and> (reaches_ipc_sink (node p w) \<or> ipcsink (node p w))"

text \<open>
  What a search without success leaves: nothing it has visited is hot or leads to something hot at once, and near successors have been visited.
\<close>

definition cold :: "PDG \<Rightarrow> (nat \<Rightarrow> int) \<Rightarrow> nat set \<Rightarrow> nat set \<Rightarrow> nat set \<Rightarrow> bool" where
  "cold p level V W T \<longleftrightarrow> V \<subseteq> W \<and> W \<subseteq> V \<union> {v. live p v} \<and> (\<forall>w\<in>T. \<not> hot p level w \<and> (level w \<le> 5 \<longrightarrow> w \<in> W)) \<and>
     (\<forall>u\<in>W - V. \<not> hot p level u \<and> (\<forall>w\<in>near_succ p level `` {u}. \<not> hot p level w \<and> (level w \<le> 5 \<longrightarrow> w \<in> W)))"

lemma cold_trans: "cold p level U V S \<Longrightarrow> cold p level V W T \<Longrightarrow> cold p level U W (S \<union> T)"
  unfolding cold_def by blast

lemma cold_refl: "cold p level V V {}"
  by (simp add: cold_def)

lemma finite_live: "finite {v. live p v}"
  by (rule finite_subset [of _ "{..<capacity (pgraph p)}"]) (auto simp: live_def)

lemma card_live_mono: "V \<subseteq> W \<Longrightarrow> card ({v. live p v} - W) \<le> card ({v. live p v} - V)"
  using finite_live [of p] by (intro card_mono) auto

lemma any_shared_cases:
  assumes "good p" and "graded p level" and u: "level u \<le> 5"
    and one: "\<And>v visited. live p v \<Longrightarrow> card ({v. live p v} - visited) < n \<Longrightarrow> \<exists>b visited'. isShared n p v (level v) visited = Inr (b, visited') \<and>
      (if b then \<exists>w. (v, w) \<in> (near_succ p level)\<^sup>* \<and> hot p level w else cold p level visited visited' {v})"
  shows "\<forall>e\<in>set es. e \<in> pedges p \<and> source e = u \<Longrightarrow> card ({v. live p v} - visited) < n \<Longrightarrow>
      \<exists>b visited'. any_shared n p (level u) es visited = Inr (b, visited') \<and>
        (if b then \<exists>w. (u, w) \<in> (near_succ p level)\<^sup>* \<and> hot p level w else cold p level visited visited' (target ` {e \<in> set es. structural e}))"
proof (induction es arbitrary: visited)
  case (Cons e es)
  have e: "e \<in> pedges p" "source e = u" using Cons.prems by simp_all
  have live: "live p (target e)" using e assms(1) by (simp add: good_def)
  let ?first = "if etype (edge_property e) = Deref then isShared n p (target e) (level u + 1) visited
    else if etype (edge_property e) = Part then isShared n p (target e) (level u) visited else Inr (False, visited)"
  have "\<exists>b V. ?first = Inr (b, V) \<and>
      (if b then \<exists>w. (u, w) \<in> (near_succ p level)\<^sup>* \<and> hot p level w else cold p level visited V (target ` {x. x = e \<and> structural x}))"
  proof (cases "structural e")
    case True
    then have "level (target e) = level u + (if etype (edge_property e) = Deref then 1 else 0)" using e assms(2) by (auto simp: graded_def)
    then have first: "?first = isShared n p (target e) (level (target e)) visited" using True by (auto simp: structural_def)
    obtain b V where b: "?first = Inr (b, V)"
      "if b then \<exists>w. (target e, w) \<in> (near_succ p level)\<^sup>* \<and> hot p level w else cold p level visited V {target e}"
      using one [OF live Cons.prems(2)] unfolding first by blast
    have "(u, target e) \<in> near_succ p level" using e True u by (auto simp: near_succ_def)
    then have "(u, w) \<in> (near_succ p level)\<^sup>*" if "(target e, w) \<in> (near_succ p level)\<^sup>*" for w using that by (rule converse_rtrancl_into_rtrancl)
    moreover have "target ` {x. x = e \<and> structural x} = {target e}" using True by auto
    ultimately show ?thesis using b by (auto split: if_splits)
  next
    case False
    then have "target ` {x. x = e \<and> structural x} = {}" by auto
    moreover have "?first = Inr (False, visited)" using False by (simp add: structural_def)
    ultimately show ?thesis by (intro exI [of _ False] exI [of _ visited]) (simp only: cold_refl if_False simp_thms)
  qed
  then obtain b V where first: "?first = Inr (b, V)"
    "if b then \<exists>w. (u, w) \<in> (near_succ p level)\<^sup>* \<and> hot p level w else cold p level visited V (target ` {x. x = e \<and> structural x})" by blast
  show ?case
  proof (cases b)
    case True
    then show ?thesis using first by (intro exI [of _ True] exI [of _ V]) simp
  next
    case False
    then have c: "cold p level visited V (target ` {x. x = e \<and> structural x})" using first by simp
    then have "visited \<subseteq> V" by (simp add: cold_def)
    then have "card ({v. live p v} - V) < n" using card_live_mono [of visited V p] Cons.prems(2) by simp
    moreover have "\<forall>e\<in>set es. e \<in> pedges p \<and> source e = u" using Cons.prems(1) by simp
    ultimately obtain b' W where r: "any_shared n p (level u) es V = Inr (b', W)"
      "if b' then \<exists>w. (u, w) \<in> (near_succ p level)\<^sup>* \<and> hot p level w else cold p level V W (target ` {e \<in> set es. structural e})"
      using Cons.IH by blast
    have "target ` {x \<in> set (e # es). structural x} = target ` {x. x = e \<and> structural x} \<union> target ` {x \<in> set es. structural x}" by auto
    then show ?thesis using first(1) False r cold_trans [OF c] by (intro exI [of _ b'] exI [of _ W]) (cases b', simp_all)
  qed
next
  case Nil
  then show ?case by (intro exI [of _ False] exI [of _ visited]) (simp add: cold_refl)
qed

lemma isShared_cases:
  assumes "good p" and "graded p level"
  shows "live p v \<Longrightarrow> card ({v. live p v} - visited) < n \<Longrightarrow> \<exists>b visited'. isShared n p v (level v) visited = Inr (b, visited') \<and>
    (if b then \<exists>w. (v, w) \<in> (near_succ p level)\<^sup>* \<and> hot p level w else cold p level visited visited' {v})"
proof (induction n arbitrary: v visited)
  case (Suc n)
  consider (hot) "hot p level v" | (far) "\<not> hot p level v" "5 < level v \<or> v \<in> visited" | (near) "\<not> hot p level v" "level v \<le> 5" "v \<notin> visited" by linarith
  then show ?case
  proof cases
    case hot
    then show ?thesis by (auto simp: hot_def)
  next
    case far
    then have "cold p level visited visited {v}" by (auto simp: cold_def)
    moreover have "isShared (Suc n) p v (level v) visited = Inr (False, visited)" using far by (auto simp: hot_def)
    ultimately show ?thesis by auto
  next
    case near
    have "{v. live p v} - insert v visited \<subset> {v. live p v} - visited" using Suc.prems(1) near(3) by auto
    then have "card ({v. live p v} - insert v visited) < card ({v. live p v} - visited)" using finite_live by (intro psubset_card_mono) auto
    then have "card ({v. live p v} - insert v visited) < n" using Suc.prems(2) by simp
    moreover have "\<forall>e\<in>set (out_edges (pgraph p) v). e \<in> pedges p \<and> source e = v" using out_edges_pedges [OF assms(1)] by simp
    ultimately obtain b W where r: "any_shared n p (level v) (out_edges (pgraph p) v) (insert v visited) = Inr (b, W)"
      "if b then \<exists>w. (v, w) \<in> (near_succ p level)\<^sup>* \<and> hot p level w
       else cold p level (insert v visited) W (target ` {e \<in> set (out_edges (pgraph p) v). structural e})"
      using any_shared_cases [OF assms near(2) Suc.IH] by blast
    have run: "isShared (Suc n) p v (level v) visited = Inr (b, W)" using near r(1) by (auto simp: hot_def)
    have succ: "near_succ p level `` {v} = target ` {e \<in> set (out_edges (pgraph p) v). structural e}"
      using near(2) out_edges_pedges [OF assms(1)] by (auto simp: near_succ_def)
    have "cold p level visited W {v}" if "\<not> b"
    proof -
      have c: "cold p level (insert v visited) W (near_succ p level `` {v})" using that r(2) by (simp add: succ)
      then have "W - visited = insert v (W - insert v visited)" using near(3) by (auto simp: cold_def)
      with c near(1) Suc.prems(1) show ?thesis unfolding cold_def by simp blast
    qed
    with r(2) have "if b then \<exists>w. (v, w) \<in> (near_succ p level)\<^sup>* \<and> hot p level w else cold p level visited W {v}" by (cases b) simp_all
    with run show ?thesis by blast
  qed
qed simp

text \<open>
  C34: The test whether a value leads to shared memory ends and is exact. On a graph whose vertices have a level, that is where all ways to a vertex take the same
  number of dereferences, with fuel for one more step than there are vertices, the test returns. It is positive exactly when some vertex of level zero or more that is
  marked as shared or as reaching shared memory can be reached along dereferences and parts through vertices of level five at most.
\<close>

theorem isShared_exact:
  assumes "good p" and "graded p level" and "live p v" and "capacity (pgraph p) < n"
  shows "\<exists>b visited. isShared n p v (level v) {} = Inr (b, visited) \<and> (b \<longleftrightarrow> (\<exists>w. (v, w) \<in> (near_succ p level)\<^sup>* \<and> hot p level w))"
proof -
  have "card ({v. live p v} - {}) \<le> card {..<capacity (pgraph p)}" by (intro card_mono) (auto simp: live_def)
  then obtain b W where r: "isShared n p v (level v) {} = Inr (b, W)"
    "if b then \<exists>w. (v, w) \<in> (near_succ p level)\<^sup>* \<and> hot p level w else cold p level {} W {v}"
    using isShared_cases [OF assms(1-3), of "{}" n] assms(4) by auto
  have "\<not> hot p level w \<and> (level w \<le> 5 \<longrightarrow> w \<in> W)" if "\<not> b" "(v, w) \<in> (near_succ p level)\<^sup>*" for w
    using that(2)
  proof induction
    case base
    then show ?case using that(1) r(2) by (simp add: cold_def)
  next
    case (step x y)
    then have "x \<in> W" by (auto simp: near_succ_def)
    then show ?case using that(1) r(2) step.hyps(2) by (auto simp: cold_def)
  qed
  then show ?thesis using r by (cases b) (simp_all, blast)
qed

text \<open>
  A function with its vertex, which stands for a pointer to shared memory.
\<close>

definition callee_module :: llvm where
  "callee_module = empty_llvm\<lparr>value_type := (\<lambda>_. PtrTy 0)\<rparr>"

definition callee_pdg :: PDG where
  "callee_pdg = snd (seq (getVertex callee_module 0 (Some 0)) (\<lambda>_. set_node 1 (\<lambda>n. n\<lparr>reaches_ipc_sink := True\<rparr>)) (PDG_new None))"

definition callee_edge :: "PDGEdge Edge" where
  "callee_edge = \<lparr>source = 0, target = 1, edge_property = pdg_edge Deref 0\<rparr>"

lemma callee_pdg_values:
  "capacity (pgraph callee_pdg) = 2" "out_edges (pgraph callee_pdg) 0 = [callee_edge]" "out_edges (pgraph callee_pdg) 1 = []"
  "value_to_vertex callee_pdg 0 = Some 0" "instruction (node callee_pdg 0) = Some 0" "nfunction (node callee_pdg 1) = Some 0" "reaches_ipc_sink (node callee_pdg 1)"
  "\<not> is_empty (pgraph callee_pdg) 0" "\<not> is_empty (pgraph callee_pdg) 1"
  by code_simp+

lemma callee_pdg_good: "good callee_pdg"
proof -
  obtain v p1 where p1: "getVertex callee_module 0 (Some 0) (PDG_new None) = (Inr v, p1)" "pdg_grows callee_module {} (PDG_new None) p1"
    using getVertex_grows [OF good_new(1), of callee_module 0 "Some 0" None] by blast
  have g1: "good p1" by (rule ext_good [OF pdg_grows_ext [OF p1(2)]])
  have "p1 = snd (getVertex callee_module 0 (Some 0) (PDG_new None))" using p1(1) by simp
  moreover have "1 < capacity (pgraph (snd (getVertex callee_module 0 (Some 0) (PDG_new None)))) \<and>
      \<not> is_empty (pgraph (snd (getVertex callee_module 0 (Some 0) (PDG_new None)))) 1" by code_simp
  ultimately have "live p1 1" by (simp add: live_def)
  then obtain p2 where p2: "set_node 1 (\<lambda>n. n\<lparr>reaches_ipc_sink := True\<rparr>) p1 = (Inr (), p2)" "ext callee_module p1 p2"
    using set_node_ext [OF g1, of 1 "\<lambda>n. n\<lparr>reaches_ipc_sink := True\<rparr>" callee_module] by (auto simp: keeps_vertex_def)
  then have "callee_pdg = p2" using p1(1) by (simp add: callee_pdg_def seq_def)
  with ext_good [OF p2(2)] show ?thesis by simp
qed

lemma callee_pdg_edges: "pedges callee_pdg = {callee_edge}"
proof -
  have "source e < 2" if "e \<in> pedges callee_pdg" for e
    using that callee_pdg_good callee_pdg_values(1) by (auto simp: good_def live_def)
  then have "e = callee_edge" if "e \<in> pedges callee_pdg" for e
    using that callee_pdg_values(2,3) by (cases "source e") (fastforce simp: pedges_def numeral_2_eq_2 less_Suc_eq)+
  moreover have "callee_edge \<in> pedges callee_pdg" using callee_pdg_values(2) by (simp add: pedges_def callee_edge_def)
  ultimately show ?thesis by blast
qed

definition callee_level :: "nat \<Rightarrow> int" where
  "callee_level v = int v - 1"

theorem isShared_exact_witness: "\<exists>visited. isShared 3 callee_pdg 0 (- 1) {} = Inr (True, visited)"
proof -
  have graded: "graded callee_pdg callee_level"
    by (simp add: graded_def callee_pdg_edges callee_edge_def callee_level_def pdg_edge_def)
  have "(0, 1) \<in> near_succ callee_pdg callee_level"
    by (auto simp: near_succ_def callee_pdg_edges callee_edge_def structural_def pdg_edge_def callee_level_def intro!: exI [of _ callee_edge])
  moreover have "hot callee_pdg callee_level 1" using callee_pdg_values(7) by (simp add: hot_def callee_level_def)
  ultimately have "\<exists>w. (0, w) \<in> (near_succ callee_pdg callee_level)\<^sup>* \<and> hot callee_pdg callee_level w" by blast
  then show ?thesis using isShared_exact [OF callee_pdg_good graded, of 0 3] callee_pdg_values(1,8) by (auto simp: live_def callee_level_def)
qed

section \<open>Removing functions\<close>

lemma remove_vertex_free: "remove_vertex v g = Inr g' \<Longrightarrow> free_vertices g' = v # free_vertices g \<and> capacity g' = capacity g"
proof -
  have f: "free_vertices (fold drop_out es g) = free_vertices g" "free_vertices (fold drop_in es g) = free_vertices g"
    "capacity (fold drop_out es g) = capacity g" "capacity (fold drop_in es g) = capacity g" for es and g :: "('a, 'b) BaseGraph"
    by (induction es arbitrary: g) (simp_all add: drop_out_def drop_in_def upd_vertex_def capacity_def)
  assume "remove_vertex v g = Inr g'"
  moreover have "free_vertices (upd_vertex v h g) = free_vertices g" for h and g :: "('a, 'b) BaseGraph" by (simp add: upd_vertex_def)
  ultimately show ?thesis by (auto simp: remove_vertex_def Let_def f split: if_splits)
qed

lemma remove_vertices_run:
  assumes "\<forall>v\<in>set vs. v < capacity (pgraph p)"
  shows "\<exists>p'. remove_vertices vs p = (Inr (), p') \<and> free_vertices (pgraph p') = rev vs @ free_vertices (pgraph p) \<and>
    capacity (pgraph p') = capacity (pgraph p) \<and> function_to_vertices p' = function_to_vertices p"
  using assms
proof (induction vs arbitrary: p)
  case (Cons v vs)
  let ?p = "case instruction (node p v) of Some i \<Rightarrow> (if value_to_vertex p i = Some v then p\<lparr>value_to_vertex := (value_to_vertex p)(i := None)\<rparr> else p) | None \<Rightarrow> p"
  have p: "pgraph ?p = pgraph p" "function_to_vertices ?p = function_to_vertices p" by (simp_all split: option.split)
  obtain g where g: "remove_vertex v (pgraph p) = Inr g" using Cons.prems by (simp add: remove_vertex_def Let_def)
  note free = remove_vertex_free [OF g]
  obtain p' where "remove_vertices vs (?p\<lparr>pgraph := g\<rparr>) = (Inr (), p')" "free_vertices (pgraph p') = rev vs @ free_vertices g"
    "capacity (pgraph p') = capacity g" "function_to_vertices p' = function_to_vertices ?p"
    using Cons.IH [of "?p\<lparr>pgraph := g\<rparr>"] Cons.prems free by auto
  then show ?case using Cons.prems g free p
    by (intro exI [of _ p']) (simp add: seq_def get_node_def modify_def on_graph_def)
qed (simp add: ret_def)

lemma removeFunction_run:
  assumes "pdg_inv p"
  obtains p' where "removeFunction f p = (Inr (), p')" "capacity (pgraph p') = capacity (pgraph p)" "function_to_vertices p' = function_to_vertices p"
    "free_vertices (pgraph p') = rev (sorted_list_of_set (function_to_vertices p f)) @ free_vertices (pgraph p)" "pdg_inv p'"
proof -
  have "finite (function_to_vertices p f)" "\<forall>v\<in>function_to_vertices p f. v < capacity (pgraph p)"
    using pdg_inv_finite [OF assms] assms by (auto simp: pdg_inv_def)
  then obtain p' where p': "removeFunction f p = (Inr (), p')" "capacity (pgraph p') = capacity (pgraph p)" "function_to_vertices p' = function_to_vertices p"
    "free_vertices (pgraph p') = rev (sorted_list_of_set (function_to_vertices p f)) @ free_vertices (pgraph p)"
    using remove_vertices_run [of "sorted_list_of_set (function_to_vertices p f)" p]
    by (auto simp: removeFunction_def getVerticesForFunction_def seq_def reads_def)
  moreover have "pdg_inv p'" using keeps_removeFunction [of f] assms p'(1) by (auto simp: keeps_def)
  ultimately show thesis by (rule that)
qed

text \<open>
  C40: A clone that is not used is removed from the graph twice: once when it is found dead and once more by the caller. Its vertices stay in the index of the function, so each of
  them is put on the list of free vertices twice; where the clone has one vertex, the next two vertices that are added get the same number.
\<close>

theorem dead_clone_freed_twice:
  assumes "pdg_inv (rpdg (sreach s))" and "num_uses (smod s) (function_value (smod s) g) = 0"
  shows "\<exists>s'. remove_dead X [(f, g)] s = (Inr (), s') \<and>
    free_vertices (pgraph (rpdg (sreach s'))) = rev (sorted_list_of_set (function_to_vertices (rpdg (sreach s)) (Some g))) @
      rev (sorted_list_of_set (function_to_vertices (rpdg (sreach s)) (Some g))) @ free_vertices (pgraph (rpdg (sreach s))) \<and>
    (\<forall>v n1 n2. function_to_vertices (rpdg (sreach s)) (Some g) = {v} \<longrightarrow>
      fst (seq (pdg_add_vertex n1) (\<lambda>a. seq (pdg_add_vertex n2) (\<lambda>b. ret (a, b))) (rpdg (sreach s'))) = Inr (v, v))"
proof -
  let ?p = "rpdg (sreach s)"
  obtain p1 where 1: "removeFunction (Some g) ?p = (Inr (), p1)" "capacity (pgraph p1) = capacity (pgraph ?p)" "function_to_vertices p1 = function_to_vertices ?p"
    "free_vertices (pgraph p1) = rev (sorted_list_of_set (function_to_vertices ?p (Some g))) @ free_vertices (pgraph ?p)" "pdg_inv p1"
    by (rule removeFunction_run [OF assms(1)])
  obtain p2 where 2: "removeFunction (Some g) p1 = (Inr (), p2)" "capacity (pgraph p2) = capacity (pgraph p1)" "function_to_vertices p2 = function_to_vertices p1"
    "free_vertices (pgraph p2) = rev (sorted_list_of_set (function_to_vertices p1 (Some g))) @ free_vertices (pgraph p1)" "pdg_inv p2"
    by (rule removeFunction_run [OF 1(5)])
  let ?s = "s\<lparr>smod := erase_function X g (smod s), sreach := (sreach s)\<lparr>rpdg := p2\<rparr>\<rparr>"
  have run: "remove_dead X [(f, g)] s = (Inr (), ?s)"
    using 1(1) 2(1) assms(2) by (simp add: removeIfDead_def seq_def reads_def on_reach_def on_pdg_def change_module_def modify_def ret_def)
  have free: "free_vertices (pgraph p2) = rev (sorted_list_of_set (function_to_vertices ?p (Some g))) @
      rev (sorted_list_of_set (function_to_vertices ?p (Some g))) @ free_vertices (pgraph ?p)" using 1(3,4) 2(4) by simp
  have "fst (seq (pdg_add_vertex n1) (\<lambda>a. seq (pdg_add_vertex n2) (\<lambda>b. ret (a, b))) p2) = Inr (v, v)"
    if V: "function_to_vertices ?p (Some g) = {v}" for v n1 n2
  proof -
    have v: "v < capacity (pgraph p2)" using assms(1) V 1(2) 2(2) by (auto simp: pdg_inv_def)
    have "free_vertices (pgraph p2) = v # v # free_vertices (pgraph ?p)" using free V by simp
    with v show ?thesis by (simp add: pdg_add_vertex_def add_vertex_def Let_def seq_def ret_def upd_vertex_def capacity_def index_insert_def)
  qed
  then show ?thesis using run free by (intro exI [of _ ?s]) simp
qed

definition plain_edit :: llvm_edit where
  "plain_edit = \<lparr>uses_of = (\<lambda>_ _. []), find_function = (\<lambda>_ _. None), clone_function = (\<lambda>_ _ _. None), set_called_function = (\<lambda>_ _ L. L),
     set_operand = (\<lambda>_ _ _ L. L), erase_function = (\<lambda>_ L. L)\<rparr>"

definition unused_clone :: spec_state where
  "unused_clone = \<lparr>smod = empty_llvm, sreach = \<lparr>rpdg = snd (getVertex empty_llvm 5 (Some 5) (PDG_new None)), rcolors = ColorMap_new 1, rscc = scc_pass_new\<rparr>\<rparr>"

theorem dead_clone_freed_twice_witness:
  "\<exists>s'. remove_dead plain_edit [(4, 5)] unused_clone = (Inr (), s') \<and>
     fst (seq (pdg_add_vertex PDGNode_new) (\<lambda>a. seq (pdg_add_vertex PDGNode_new) (\<lambda>b. ret (a, b))) (rpdg (sreach s'))) = Inr (0, 0)"
proof -
  have "pdg_inv (rpdg (sreach unused_clone))"
    using keeps_getVertex [of empty_llvm 5 "Some 5"] pdg_inv_new [of None] by (simp add: keeps_def unused_clone_def)
  moreover have "num_uses (smod unused_clone) (function_value (smod unused_clone) 5) = 0" by (simp add: unused_clone_def empty_llvm_def)
  moreover have "function_to_vertices (rpdg (sreach unused_clone)) (Some 5) = {0}" by code_simp
  ultimately show ?thesis using dead_clone_freed_twice [of unused_clone 5 plain_edit 4] by blast
qed

end
