(* ===== verification/Pdg_Clone.thy ===== *)
theory Pdg_Clone
  imports Pdg_Specialization Pdg_Summary_Exact
begin

text \<open>
  The clone of a function in the dependence graph is a copy. The search of \<^verbatim>\<open>cloneGraphForSCCFunction\<close> copies exactly the vertices of the
  function that hang together with its signature and its values, \<^verbatim>\<open>cloneGraphForSCCEdges\<close> gives the copies exactly the edges of the originals.
\<close>

section \<open>Edges of the copies\<close>

text \<open>
  A later state with the same vertices.
\<close>

definition same_vertices :: "PDG \<Rightarrow> PDG \<Rightarrow> bool" where
  "same_vertices p p' \<longleftrightarrow> good p' \<and> node p' = node p \<and> live p' = live p \<and> p' = p\<lparr>pgraph := pgraph p'\<rparr>"

lemma same_vertices_trans: "same_vertices p p1 \<Longrightarrow> same_vertices p1 p2 \<Longrightarrow> same_vertices p p2"
  unfolding same_vertices_def by (metis PDG.surjective PDG.update_convs(1))

text \<open>
  Inserting without the test for duplicates is inserting where the edge is new.
\<close>

lemma add_edge_unique_new:
  assumes "repr g E" and "\<lparr>source = v1, target = v2, edge_property = l\<rparr> \<notin> E"
  shows "add_edge_unique v1 v2 l g = add_edge v1 v2 l g"
proof (cases "v1 < capacity g \<and> v2 < capacity g")
  case True
  let ?e = "\<lparr>source = v1, target = v2, edge_property = l\<rparr>"
  have out: "?e \<notin> set (out_edges g v1)" and inn: "?e \<notin> set (in_edges g v2)" using assms by (simp_all add: repr_def)
  let ?g1 = "upd_vertex v1 (\<lambda>x. x\<lparr>vout_edges := out_edges g v1 @ [?e]\<rparr>) g"
  have in1: "vin_edges (vertices ?g1 ! v2) = in_edges g v2"
    using True vin_edges_nth [of v2 ?g1] by (simp add: edges_upd vin_edges_nth)
  have g1: "upd_vertex v1 (\<lambda>x. x\<lparr>vout_edges := vout_edges x @ [?e]\<rparr>) g = ?g1"
    using True by (simp add: upd_vertex_def vout_edges_nth)
  show ?thesis using True out inn in1 g1
    by (simp add: add_edge_def add_edge_unique_def uv_insert_def uv_insert_unique_def vout_edges_nth Let_def) (simp add: upd_vertex_def)
qed (auto simp: add_edge_def add_edge_unique_def)

lemma pdg_add_edge_unique_run:
  assumes "good p" and "live p v" and "live p w" and "\<lparr>source = v, target = w, edge_property = l\<rparr> \<notin> pedges p"
  obtains p' where "pdg_add_edge_unique v w l p = (Inr (), p')" "same_vertices p p'"
    "pedges p' = insert \<lparr>source = v, target = w, edge_property = l\<rparr> (pedges p)"
proof -
  let ?e = "\<lparr>source = v, target = w, edge_property = l\<rparr>" and ?g = "pgraph p"
  have g: "repr ?g (pedges p)" using assms(1) by (simp add: good_def)
  obtain g' where g': "add_edge v w l ?g = Inr g'" "repr g' (insert ?e (pedges p))" "capacity g' = capacity ?g" "free_vertices g' = free_vertices ?g"
      "\<And>v. is_empty g' v = is_empty ?g v"
    using assms(2,3) by (auto simp: live_def intro: add_edge_step [OF g, of v w _ l])
  let ?p = "p\<lparr>pgraph := g'\<rparr>"
  have E: "pedges ?p = insert ?e (pedges p)" using g'(2) repr_pedges [of ?p] by simp
  have live: "live ?p = live p" using g'(3,5) by (auto simp: live_def fun_eq_iff)
  have node: "node ?p = node p" using add_edge_property [OF g'(1)] by (simp add: node_def fun_eq_iff)
  have "good ?p" using assms(1-3) g'(2-5) by (auto simp: good_def E live node free_inv_def)
  then have "same_vertices p ?p" by (simp add: same_vertices_def live node)
  moreover have "pdg_add_edge_unique v w l p = (Inr (), ?p)"
    using g'(1) add_edge_unique_new [OF g assms(4)] by (simp add: pdg_add_edge_unique_def on_graph_def)
  ultimately show thesis using that E by blast
qed

fun add_unique_edges :: "PDGEdge Edge list \<Rightarrow> (PDG, unit) routine" where
  "add_unique_edges [] = ret ()"
| "add_unique_edges (e # es) = seq (pdg_add_edge_unique (source e) (target e) (edge_property e)) (\<lambda>_. add_unique_edges es)"

lemma edge_eta: "\<lparr>source = source e, target = target e, edge_property = edge_property e\<rparr> = e"
  by simp

lemma add_unique_edges_run:
  assumes "good p" and "distinct es" and "\<forall>e\<in>set es. e \<notin> pedges p \<and> live p (source e) \<and> live p (target e)"
  shows "\<exists>p'. add_unique_edges es p = (Inr (), p') \<and> same_vertices p p' \<and> pedges p' = set es \<union> pedges p"
  using assms
proof (induction es arbitrary: p)
  case (Cons e es)
  obtain p1 where 1: "pdg_add_edge_unique (source e) (target e) (edge_property e) p = (Inr (), p1)" "same_vertices p p1" "pedges p1 = insert e (pedges p)"
    using pdg_add_edge_unique_run [of p "source e" "target e" "edge_property e"] Cons.prems by (auto simp: edge_eta)
  have "good p1" "\<forall>x\<in>set es. x \<notin> pedges p1 \<and> live p1 (source x) \<and> live p1 (target x)"
    using 1(2,3) Cons.prems by (auto simp: same_vertices_def)
  from Cons.IH [OF this(1) _ this(2)] Cons.prems(2)
  obtain p' where "add_unique_edges es p1 = (Inr (), p')" "same_vertices p1 p'" "pedges p' = set es \<union> pedges p1" by auto
  then show ?case using 1 same_vertices_trans by (auto simp: seq_def)
qed (auto simp: ret_def same_vertices_def)

text \<open>
  The edge of the copy: ends that have copies are replaced.
\<close>

definition copy_of :: "matching \<Rightarrow> nat \<Rightarrow> nat" where
  "copy_of m v = (case map_of m v of Some w \<Rightarrow> w | None \<Rightarrow> v)"

definition copied_edge :: "matching \<Rightarrow> PDGEdge Edge \<Rightarrow> PDGEdge Edge" where
  "copied_edge m e = \<lparr>source = copy_of m (source e), target = copy_of m (target e), edge_property = edge_property e\<rparr>"

lemma clone_out_edges_eq:
  "map_of m v = Some w \<Longrightarrow> \<forall>e\<in>set es. source e = v \<Longrightarrow> clone_out_edges m w es = add_unique_edges (map (copied_edge m) es)"
  by (induction es) (auto simp: copied_edge_def copy_of_def)

lemma clone_in_edges_eq:
  "map_of m v = Some w \<Longrightarrow> \<forall>e\<in>set es. target e = v \<Longrightarrow>
     clone_in_edges m w es = add_unique_edges (map (copied_edge m) (filter (\<lambda>e. map_of m (source e) = None) es))"
  by (induction es) (auto simp: copied_edge_def copy_of_def ret_seq)

text \<open>
  The copies are new: no edge leads to or from them.
\<close>

definition fresh_copies :: "matching \<Rightarrow> PDG \<Rightarrow> bool" where
  "fresh_copies m p \<longleftrightarrow> distinct (map fst m) \<and> distinct (map snd m) \<and> fst ` set m \<inter> snd ` set m = {} \<and>
     (\<forall>(v, w)\<in>set m. live p v \<and> live p w) \<and> (\<forall>e\<in>pedges p. source e \<notin> snd ` set m \<and> target e \<notin> snd ` set m)"

abbreviation originals :: "matching \<Rightarrow> nat set" where
  "originals m \<equiv> fst ` set m"

abbreviation copies :: "matching \<Rightarrow> nat set" where
  "copies m \<equiv> snd ` set m"

lemma copy_of_cases:
  assumes "fresh_copies m p"
  shows "v \<in> originals m \<Longrightarrow> copy_of m v \<in> copies m" "v \<notin> originals m \<Longrightarrow> copy_of m v = v" "copy_of m v \<notin> originals m"
proof -
  show in1: "copy_of m v \<in> copies m" if "v \<in> originals m" for v
  proof -
    from that have "v \<in> dom (map_of m)" by (simp add: dom_map_of_conv_image_fst)
    then obtain w where w: "map_of m v = Some w" by blast
    then have "snd (v, w) \<in> copies m" using map_of_SomeD by (intro imageI)
    then show ?thesis using w by (simp add: copy_of_def)
  qed
  show out1: "copy_of m v = v" if "v \<notin> originals m" for v
  proof -
    have "map_of m v = None" using that by (simp add: map_of_eq_None_iff)
    then show ?thesis by (simp add: copy_of_def)
  qed
  show "copy_of m v \<notin> originals m" using in1 [of v] out1 [of v] assms by (cases "v \<in> originals m") (auto simp: fresh_copies_def)
qed

lemma copy_of_inj:
  assumes "fresh_copies m p" and "copy_of m u = copy_of m v" and "u \<notin> copies m" and "v \<notin> copies m"
  shows "u = v"
proof (cases "u \<in> originals m")
  case True
  then have "v \<in> originals m" using copy_of_cases [OF assms(1)] assms(2,4) by metis
  with True obtain x y where "(u, x) \<in> set m" "(v, y) \<in> set m" by auto
  moreover from this have "x = y" using assms(1,2) by (simp add: fresh_copies_def copy_of_def)
  moreover have "inj_on snd (set m)" using assms(1) by (simp add: fresh_copies_def distinct_map)
  ultimately show ?thesis using inj_onD [of snd "set m" "(u, x)" "(v, y)"] by simp
next
  case False
  then show ?thesis using copy_of_cases [OF assms(1)] assms(2,3) by metis
qed

lemma copied_edge_inj: "fresh_copies m p \<Longrightarrow> inj_on (copied_edge m) (pedges p)"
proof (rule inj_onI)
  fix e e' assume m: "fresh_copies m p" and e: "e \<in> pedges p" "e' \<in> pedges p" and eq: "copied_edge m e = copied_edge m e'"
  have "source e = source e'" "target e = target e'"
    using copy_of_inj [OF m] m e eq by (auto simp: fresh_copies_def copied_edge_def)
  then show "e = e'" using eq by (simp add: copied_edge_def)
qed

lemma copied_edge_new:
  assumes m: "fresh_copies m p" and e: "source e \<in> originals m \<or> target e \<in> originals m"
  shows "copied_edge m e \<notin> pedges p"
proof
  assume "copied_edge m e \<in> pedges p"
  with m have "source (copied_edge m e) \<notin> copies m \<and> target (copied_edge m e) \<notin> copies m" unfolding fresh_copies_def by blast
  then have "copy_of m (source e) \<notin> copies m" "copy_of m (target e) \<notin> copies m" by (simp_all add: copied_edge_def)
  with e copy_of_cases(1) [OF m] show False by blast
qed

text \<open>
  The edges that have been copied when the vertices \<^term>\<open>D\<close> are done.
\<close>

definition touching :: "matching \<Rightarrow> PDG \<Rightarrow> nat set \<Rightarrow> PDGEdge Edge set" where
  "touching m p D = {e \<in> pedges p. source e \<in> D \<or> target e \<in> D \<and> source e \<notin> originals m}"

lemma live_copy_of: "fresh_copies m p \<Longrightarrow> live p v \<Longrightarrow> live p (copy_of m v)"
  using copy_of_cases [of m p v] by (cases "v \<in> originals m") (auto simp: fresh_copies_def)

lemma copy_batch:
  assumes "good p" and m: "fresh_copies m p" and q: "same_vertices p q" "pedges q = pedges p \<union> copied_edge m ` T"
    and T: "T \<subseteq> pedges p" and es: "distinct es" "set es \<subseteq> pedges p - T" "\<forall>e\<in>set es. source e \<in> originals m \<or> target e \<in> originals m"
  shows "\<exists>q'. add_unique_edges (map (copied_edge m) es) q = (Inr (), q') \<and> same_vertices p q' \<and> pedges q' = pedges p \<union> copied_edge m ` (T \<union> set es)"
proof -
  note inj = copied_edge_inj [OF m]
  have "distinct (map (copied_edge m) es)" using es inj_on_subset [OF inj] by (auto simp: distinct_map)
  moreover have "\<forall>e\<in>set (map (copied_edge m) es). e \<notin> pedges q \<and> live q (source e) \<and> live q (target e)"
  proof
    fix x assume "x \<in> set (map (copied_edge m) es)"
    then obtain e where e: "e \<in> pedges p" "e \<notin> T" "source e \<in> originals m \<or> target e \<in> originals m" "x = copied_edge m e" using es(2,3) by auto
    have "x \<notin> copied_edge m ` T" using e inj T by (auto dest: inj_onD)
    moreover have "live p (copy_of m (source e))" "live p (copy_of m (target e))" using e(1) assms(1) live_copy_of [OF m] by (simp_all add: good_def)
    ultimately show "x \<notin> pedges q \<and> live q (source x) \<and> live q (target x)"
      using copied_edge_new [OF m e(3)] q by (simp add: e(4) same_vertices_def copied_edge_def)
  qed
  moreover have "good q" using q(1) by (simp add: same_vertices_def)
  ultimately obtain q' where "add_unique_edges (map (copied_edge m) es) q = (Inr (), q')" "same_vertices q q'"
    "pedges q' = set (map (copied_edge m) es) \<union> pedges q" using add_unique_edges_run by blast
  then show ?thesis using same_vertices_trans [OF q(1)] q(2) by (auto simp: image_Un)
qed

lemma untouched_edges:
  assumes m: "fresh_copies m p" and v: "v \<in> originals m" and q: "good q" "pedges q = pedges p \<union> copied_edge m ` T"
  shows "set (out_edges (pgraph q) v) = {e \<in> pedges p. source e = v}" "set (in_edges (pgraph q) v) = {e \<in> pedges p. target e = v}"
    "distinct (out_edges (pgraph q) v)" "distinct (in_edges (pgraph q) v)"
proof -
  have r: "repr (pgraph q) (pedges q)" using q(1) by (simp add: good_def)
  have "source (copied_edge m e) \<noteq> v" "target (copied_edge m e) \<noteq> v" for e using copy_of_cases(3) [OF m] v by (auto simp: copied_edge_def)
  then show "set (out_edges (pgraph q) v) = {e \<in> pedges p. source e = v}" "set (in_edges (pgraph q) v) = {e \<in> pedges p. target e = v}"
    using r unfolding repr_def q(2) by auto
  show "distinct (out_edges (pgraph q) v)" "distinct (in_edges (pgraph q) v)" using r unfolding repr_def by simp_all
qed

lemma clone_edges_run:
  assumes "good p" and m: "fresh_copies m p"
  shows "set its \<subseteq> set m \<Longrightarrow> distinct (map fst its) \<Longrightarrow> D \<inter> originals its = {} \<Longrightarrow> D \<subseteq> originals m \<Longrightarrow>
    same_vertices p q \<Longrightarrow> pedges q = pedges p \<union> copied_edge m ` touching m p D \<Longrightarrow>
    \<exists>q'. clone_edges m its q = (Inr (), q') \<and> same_vertices p q' \<and> pedges q' = pedges p \<union> copied_edge m ` touching m p (D \<union> originals its)"
proof (induction its arbitrary: q D)
  case (Cons it its)
  obtain v w where it: "it = (v, w)" by fastforce
  have v: "v \<in> originals m" "v \<notin> D" using Cons.prems(1,3) by (force simp: it)+
  have vw: "map_of m v = Some w" using Cons.prems(1) m by (simp add: it fresh_copies_def)
  let ?outs = "out_edges (pgraph q) v"
  let ?T = "touching m p D"
  have gq: "good q" using Cons.prems(5) by (simp add: same_vertices_def)
  note outs = untouched_edges [OF m v(1) gq Cons.prems(6)]
  have T: "?T \<subseteq> pedges p" by (auto simp: touching_def)
  have "set ?outs \<subseteq> pedges p - ?T" using v outs(1) by (auto simp: touching_def)
  moreover have "\<forall>e\<in>set ?outs. source e \<in> originals m \<or> target e \<in> originals m" using v outs(1) by simp
  ultimately obtain q1 where 1: "add_unique_edges (map (copied_edge m) ?outs) q = (Inr (), q1)" "same_vertices p q1"
      "pedges q1 = pedges p \<union> copied_edge m ` (?T \<union> set ?outs)"
    using copy_batch [OF assms(1) m Cons.prems(5,6) T outs(3)] by blast
  have g1: "good q1" using 1(2) by (simp add: same_vertices_def)
  let ?ins = "filter (\<lambda>e. map_of m (source e) = None) (in_edges (pgraph q1) v)"
  note ins = untouched_edges [OF m v(1) g1 1(3)]
  have "set ?ins \<subseteq> pedges p - (?T \<union> set ?outs)"
    using v outs(1) ins(2) subsetD [OF Cons.prems(4)] by (auto simp: touching_def map_of_eq_None_iff)
  moreover have "\<forall>e\<in>set ?ins. source e \<in> originals m \<or> target e \<in> originals m" using v ins(2) by simp
  moreover have "?T \<union> set ?outs \<subseteq> pedges p" using T outs(1) by auto
  moreover have "distinct ?ins" using ins(4) by simp
  ultimately obtain q2 where 2: "add_unique_edges (map (copied_edge m) ?ins) q1 = (Inr (), q2)" "same_vertices p q2"
      "pedges q2 = pedges p \<union> copied_edge m ` (?T \<union> set ?outs \<union> set ?ins)"
    using copy_batch [OF assms(1) m 1(2,3)] by blast
  have run: "clone_edges m (it # its) q = clone_edges m its q2"
    using 1(1) 2(1) outs(1) ins(2) by (simp add: it seq_def reads_def clone_out_edges_eq [OF vw] clone_in_edges_eq [OF vw])
  have next_T: "?T \<union> set ?outs \<union> set ?ins = touching m p (insert v D)"
    using v outs(1) ins(2) by (auto simp: touching_def map_of_eq_None_iff)
  have "insert v D \<inter> originals its = {}" using Cons.prems(2,3) by (auto simp: it)
  with Cons.prems v have "\<exists>q'. clone_edges m its q2 = (Inr (), q') \<and> same_vertices p q' \<and>
      pedges q' = pedges p \<union> copied_edge m ` touching m p (insert v D \<union> originals its)"
    by (intro Cons.IH [OF _ _ _ _ 2(2) 2(3) [unfolded next_T]]) auto
  then show ?case unfolding run by (simp add: it)
qed (auto simp: ret_def)

text \<open>
  The copies of vertices get the edges of the originals. Where the copies are distinct live vertices without edges, the step ends without error; it adds exactly the edges
  of the graph that start or end at an original, with the ends that have copies replaced by them, each once. Vertices and indices stay as they are.
\<close>

theorem cloneGraphForSCCEdges_exact:
  assumes "good p" and "fresh_copies m p"
  shows "\<exists>p'. cloneGraphForSCCEdges m p = (Inr (), p') \<and> same_vertices p p' \<and>
    pedges p' = pedges p \<union> copied_edge m ` {e \<in> pedges p. source e \<in> originals m \<or> target e \<in> originals m}"
proof -
  have "same_vertices p p" "pedges p = pedges p \<union> copied_edge m ` touching m p {}" using assms(1) by (simp_all add: same_vertices_def touching_def)
  moreover have "distinct (map fst m)" using assms(2) by (simp add: fresh_copies_def)
  moreover have "touching m p ({} \<union> originals m) = {e \<in> pedges p. source e \<in> originals m \<or> target e \<in> originals m}" by (auto simp: touching_def)
  ultimately show ?thesis using clone_edges_run [OF assms subset_refl, of "{}"] by (simp add: cloneGraphForSCCEdges_def)
qed

section \<open>Copies of the vertices\<close>

definition of_function :: "llvm \<Rightarrow> llvm_function \<Rightarrow> PDG \<Rightarrow> nat \<Rightarrow> bool" where
  "of_function L f p v \<longleftrightarrow> instruction (node p v) = Some (function_value L f) \<or> nfunction (node p v) = Some f"

definition clone_sources :: "nat \<Rightarrow> (llvm_value \<times> llvm_value) list \<Rightarrow> PDG \<Rightarrow> nat list" where
  "clone_sources v value_map p = v # List.map_filter (\<lambda>it. getVertexOpt p (fst it)) value_map"

abbreviation clone_found :: "llvm \<Rightarrow> llvm_function \<Rightarrow> nat list \<Rightarrow> PDG \<Rightarrow> nat set" where
  "clone_found L f srcs p \<equiv> bfs_found (pgraph p) (\<lambda>_. True) (\<lambda>_. True) (of_function L f p) srcs"

text \<open>
  The vertices that get a copy: those of the function that can be reached from its vertex and from the vertices of its values along edges in either direction, through
  vertices of the function.
\<close>

definition clone_region :: "llvm \<Rightarrow> llvm_function \<Rightarrow> nat list \<Rightarrow> PDG \<Rightarrow> nat set" where
  "clone_region L f srcs p = {v \<in> clone_found L f srcs p. of_function L f p v}"

lemma map_assign_of: "map_of (map_assign k v m) x = (if x = k then Some v else map_of m x)"
proof -
  have add: "map_of (insort_key fst (k, v) m) x = (if x = k then Some v else map_of m x)" if "k \<notin> fst ` set m" for m
    using that by (induction m) auto
  have "map_of (filter (\<lambda>x. fst x \<noteq> k) m) x = (if x = k then None else map_of m x)" by (induction m) auto
  moreover have "k \<notin> fst ` set (filter (\<lambda>x. fst x \<noteq> k) m)" by auto
  ultimately show ?thesis using add by (simp add: map_assign_def)
qed

lemma map_assign_distinct: "distinct (map fst m) \<Longrightarrow> distinct (map fst (map_assign k v m))"
  by (auto simp: map_assign_def distinct_map distinct_insort set_insort_key inj_on_def)

lemma add_vertex_edges: "add_vertex n g = Inr (v, g') \<Longrightarrow> out_edges g' = out_edges g \<and> in_edges g' = in_edges g"
proof (erule add_vertex_cases)
  fix st assume "v < capacity g" "g' = upd_vertex v (\<lambda>x. x\<lparr>vempty := False, vertex_property := n\<rparr>) (g\<lparr>graph_size := graph_size g + 1, free_vertices := st\<rparr>)"
  then show ?thesis by (simp add: fun_eq_iff edges_upd vout_edges_nth vin_edges_nth)
next
  fix st assume "v = capacity g" "g' = g\<lparr>graph_size := graph_size g + 1, free_vertices := st, vertices := vertices g @
        [\<lparr>vout_edges = [], vin_edges = [], vertex_property = n, vempty = False\<rparr>]\<rparr>"
  then show ?thesis by (auto simp: fun_eq_iff out_edges_def in_edges_def capacity_def nth_append less_Suc_eq)
qed

text \<open>
  During the search: the graph that was there is kept, with its lists of edges, and the map has copies of vertices \<^term>\<open>K\<close>.
\<close>

definition cloning :: "(PDGNode \<Rightarrow> PDGNode) \<Rightarrow> PDG \<Rightarrow> matching \<Rightarrow> nat set \<Rightarrow> clone_state \<Rightarrow> bool" where
  "cloning c p m K s \<longleftrightarrow> cfail s = None \<and> good (cpdg s) \<and> out_edges (pgraph (cpdg s)) = out_edges (pgraph p) \<and> in_edges (pgraph (cpdg s)) = in_edges (pgraph p) \<and>
     (\<forall>v. live p v \<longrightarrow> live (cpdg s) v \<and> node (cpdg s) v = node p v) \<and> (distinct (map fst m) \<longrightarrow> distinct (map fst (cmap s))) \<and>
     (\<forall>v. v \<notin> K \<longrightarrow> map_of (cmap s) v = map_of m v) \<and>
     (\<forall>v\<in>K. \<forall>w. map_of (cmap s) v = Some w \<longrightarrow> \<not> live p w \<and> live (cpdg s) w \<and> node (cpdg s) w = c (node p v)) \<and>
     (\<forall>u\<in>K. \<forall>v\<in>K. \<forall>w. map_of (cmap s) u = Some w \<longrightarrow> map_of (cmap s) v = Some w \<longrightarrow> u = v)"

lemma cloned_node_instruction: "cloned_value vm n = Some w \<Longrightarrow> instruction (cloned_node L f g vm n) = Some w"
  by (simp add: cloned_node_def Let_def split: option.split)

lemma good_index:
  assumes "good p" and "live p v" and "instruction (node p v) = Some a"
  shows "good (p\<lparr>value_to_vertex := (value_to_vertex p)(a \<mapsto> v)\<rparr>)"
  using assms by (auto simp: good_def pedges_def live_def node_def)

lemma clone_vertex_keeps:
  assumes s: "cloning (cloned_node L f g vm) p m K s" and v: "v \<in> K" "live p v"
  shows "cloning (cloned_node L f g vm) p m K (clone_vertex L f g vm v s) \<and> map_of (cmap (clone_vertex L f g vm v s)) v \<noteq> None"
proof -
  let ?n = "cloned_node L f g vm (node p v)"
  have node: "node (cpdg s) v = node p v" and good: "good (cpdg s)" using s v by (simp_all add: cloning_def)
  obtain v2 q where q: "pdg_add_vertex ?n (cpdg s) = (Inr v2, q)" "ext L (cpdg s) q" "live q v2" "node q v2 = ?n" "pedges q = pedges (cpdg s)" "\<not> live (cpdg s) v2"
    "value_to_vertex q = value_to_vertex (cpdg s)" "max_parts q = max_parts (cpdg s)" "\<forall>w. live q w \<longleftrightarrow> live (cpdg s) w \<or> w = v2"
    "\<forall>w. live (cpdg s) w \<longrightarrow> node q w = node (cpdg s) w" "subnode_limit q = subnode_limit (cpdg s)"
    by (rule pdg_add_vertex_ext [OF good])
  have E: "out_edges (pgraph q) = out_edges (pgraph (cpdg s))" "in_edges (pgraph q) = in_edges (pgraph (cpdg s))"
    using q(1) by (auto simp: pdg_add_vertex_def dest!: add_vertex_edges split: sum.splits prod.splits)
  define r where "r = (case cloned_value vm (node p v) of Some w \<Rightarrow> q\<lparr>value_to_vertex := (value_to_vertex q)(w \<mapsto> v2)\<rparr> | None \<Rightarrow> q)"
  have r: "pgraph r = pgraph q" "live r = live q" "node r = node q" by (simp_all add: r_def live_def node_def fun_eq_iff split: option.split)
  have "good r" using ext_good [OF q(2)] good_index [OF ext_good [OF q(2)] q(3)] cloned_node_instruction [of vm "node p v" _ L f g] q(4)
    by (simp add: r_def split: option.split)
  moreover have run: "clone_vertex L f g vm v s = s\<lparr>cpdg := r, cmap := map_assign v v2 (cmap s)\<rparr>"
    by (simp add: clone_vertex_def Let_def node q(1) r_def)
  moreover have old: "live q w \<and> node q w = node (cpdg s) w" if "live (cpdg s) w" for w using q(9,10) that by simp
  moreover have new: "\<not> live p v2" using s q(6) by (auto simp: cloning_def)
  ultimately show ?thesis
    using s v q(3,4,6) by (auto simp: cloning_def r E map_assign_of map_assign_distinct)
qed

interpretation cloned: bfs_examiner "ClonedFunctionGen L f g vm" "pgraph p" "cloning (cloned_node L f g vm) p m (clone_region L f srcs p)"
  "\<lambda>_. True" "\<lambda>_. True" "of_function L f p" "\<lambda>_. False" "\<lambda>_. {} :: nat set" "\<lambda>_. {}" "{v \<in> clone_found L f srcs p. live p v}" "\<lambda>s. dom (map_of (cmap s))"
  for L f g vm p m srcs
proof (unfold_locales, goal_cases)
  case (4 s v)
  then show ?case using clone_vertex_keeps [of L f g vm p m "clone_region L f srcs p" s v] by (simp add: ClonedFunctionGen_def clone_region_def)
next
  case (9 s v)
  then show ?case using clone_vertex_keeps [of L f g vm p m "clone_region L f srcs p" s v] by (simp add: ClonedFunctionGen_def clone_region_def dom_def)
next
  case (12 A s v)
  then show ?case
    by (auto simp: ClonedFunctionGen_def clone_vertex_def Let_def map_assign_of split: prod.splits sum.splits)
qed (auto simp: ClonedFunctionGen_def default_bfs_visitor_def cloning_def of_function_def)

lemma clone_found_live:
  assumes "good p" and "\<forall>v\<in>set srcs. live p v"
  shows "clone_found L f srcs p \<subseteq> {v. live p v}"
proof
  fix v assume "v \<in> clone_found L f srcs p"
  then show "v \<in> {v. live p v}"
  proof induction
    case (succ_found u v)
    have "repr (pgraph p) (pedges p)" using assms(1) by (simp add: good_def)
    then have "\<exists>e\<in>pedges p. v = source e \<or> v = target e" using succ_found.hyps(3) by (auto simp: bfs_succ_def repr_def)
    then show ?case using assms(1) by (auto simp: good_def)
  qed (use assms(2) in simp)
qed

lemma clone_sources_live: "good p \<Longrightarrow> live p v \<Longrightarrow> \<forall>u\<in>set (clone_sources v vm p). live p u"
  by (auto simp: clone_sources_def List.map_filter_def getVertexOpt_def good_def split: option.splits)

lemma getVertex_known: "good p \<Longrightarrow> value_to_vertex p a = Some v \<Longrightarrow> getVertex L a None p = (Inr v, p)"
  by (auto simp: getVertex_def seq_def reads_def get_node_def when_do_def ret_def good_def live_def)

lemma cloneGraphForSCCFunction_run:
  assumes p: "good p" and v: "value_to_vertex p (function_value L f) = Some v"
    and m: "\<And>u. of_function L f p u \<Longrightarrow> map_of m u = None"
  shows "\<exists>s. cloneGraphForSCCFunction L f g vm m p = (Inr (cmap s), cpdg s) \<and>
    cloning (cloned_node L f g vm) p m (clone_region L f (clone_sources v vm p) p) s \<and> clone_region L f (clone_sources v vm p) p \<subseteq> dom (map_of (cmap s))"
proof -
  let ?srcs = "clone_sources v vm p" and ?s = "\<lparr>cpdg = p, cmap = m, cfail = None\<rparr>"
  have "live p v" using p v by (simp add: good_def)
  note srcs = clone_sources_live [OF p this, of vm]
  then have range: "\<forall>u\<in>set ?srcs. u < capacity (pgraph p)" by (simp add: live_def)
  have start: "cloning (cloned_node L f g vm) p m (clone_region L f ?srcs p) ?s" using p m by (auto simp: cloning_def clone_region_def)
  have ok: "edges_ok (pgraph p)" using p repr_edges_ok by (auto simp: good_def)
  have ne: "?srcs \<noteq> []" by (simp add: clone_sources_def)
  have within: "clone_found L f ?srcs p \<subseteq> {u \<in> clone_found L f ?srcs p. live p u}" using clone_found_live [OF p srcs] by blast
  obtain cs' t where
    t: "breadth_first_search_twoway (ClonedFunctionGen L f g vm) ?srcs (ColorMap_new (capacity (pgraph p))) ?s = Inr (False, cs', finished (ClonedFunctionGen L f g vm) t)"
      "cloning (cloned_node L f g vm) p m (clone_region L f ?srcs p) t"
      "{u \<in> clone_found L f ?srcs p. of_function L f p u} \<subseteq> dom (map_of (cmap (finished (ClonedFunctionGen L f g vm) t)))"
    by (rule cloned.twoway_examined [OF start ColorMap_new_cap range ne ok within])
  have "finished (ClonedFunctionGen L f g vm) t = t" by (simp add: ClonedFunctionGen_def default_bfs_visitor_def)
  moreover have "cfail t = None" using t(2) by (simp add: cloning_def)
  ultimately show ?thesis using t v getVertex_known [OF p v]
    by (intro exI [of _ t]) (simp add: cloneGraphForSCCFunction_def seq_def clone_sources_def clone_region_def)
qed

lemma entry_of: "distinct (map fst m) \<Longrightarrow> (u, w) \<in> set m \<Longrightarrow> u \<in> originals m \<and> map_of m u = Some w"
  by (simp add: rev_image_eqI)

lemma cloning_copy:
  "cloning c p m K s \<Longrightarrow> v \<in> K \<Longrightarrow> map_of (cmap s) v = Some w \<Longrightarrow> \<not> live p w \<and> live (cpdg s) w \<and> node (cpdg s) w = c (node p v)"
  unfolding cloning_def by blast

lemma cloning_inj:
  "cloning c p m K s \<Longrightarrow> u \<in> K \<Longrightarrow> v \<in> K \<Longrightarrow> map_of (cmap s) u = Some w \<Longrightarrow> map_of (cmap s) v = Some w \<Longrightarrow> u = v"
  unfolding cloning_def by blast

lemma cloning_fresh:
  assumes p: "good p" and s: "cloning c p [] K s" and K: "K \<subseteq> dom (map_of (cmap s))" "\<And>v. v \<in> K \<Longrightarrow> live p v"
  shows "originals (cmap s) = K" "pedges (cpdg s) = pedges p" "fresh_copies (cmap s) (cpdg s)"
proof -
  have keys: "distinct (map fst (cmap s))" using s by (simp add: cloning_def)
  have out: "map_of (cmap s) v = None" if "v \<notin> K" for v using s that by (simp add: cloning_def)
  have "originals (cmap s) = dom (map_of (cmap s))" by (simp add: dom_map_of_conv_image_fst)
  with out K(1) show orig: "originals (cmap s) = K" by blast
  show E: "pedges (cpdg s) = pedges p" using s by (simp add: pedges_def cloning_def)
  have entry: "u \<in> K \<and> map_of (cmap s) u = Some w" if "(u, w) \<in> set (cmap s)" for u w
    using entry_of [OF keys that] orig by simp
  have copy: "\<not> live p w \<and> live (cpdg s) w" if "(u, w) \<in> set (cmap s)" for u w
    using entry [OF that] cloning_copy [OF s] by blast
  have "u = v" if "(u, w) \<in> set (cmap s)" "(v, w) \<in> set (cmap s)" for u v w
    using entry [OF that(1)] entry [OF that(2)] cloning_inj [OF s] by blast
  then have inj: "x = y" if "x \<in> set (cmap s)" "y \<in> set (cmap s)" "snd x = snd y" for x y
    using that by (cases x, cases y) auto
  have "distinct (map snd (cmap s))" using keys inj by (auto simp: distinct_map inj_on_def)
  moreover have "originals (cmap s) \<inter> copies (cmap s) = {}" using copy K(2) unfolding orig by force
  moreover have "live (cpdg s) u" if "(u, w) \<in> set (cmap s)" for u w using entry [OF that] K(2) s by (simp add: cloning_def)
  moreover have "w \<notin> copies (cmap s)" if "live p w" for w using copy that by force
  ultimately show "fresh_copies (cmap s) (cpdg s)" using keys copy p by (auto simp: fresh_copies_def E good_def)
qed



theorem cloneGraphForSCCEdges_exact_witness:
  "\<exists>p'. cloneGraphForSCCEdges [(2, 0)] example_pdg = (Inr (), p') \<and> \<lparr>source = 0, target = 1, edge_property = pdg_edge Data 0\<rparr> \<in> pedges p'"
proof -
  have E: "pedges example_pdg = {example_edge}" by (rule repr_pedges [OF example_pdg_repr])
  have fresh: "fresh_copies [(2, 0)] example_pdg"
    by (simp add: fresh_copies_def E example_edge_def live_def example_index example_pdg_capacity)
  obtain p' where p': "cloneGraphForSCCEdges [(2, 0)] example_pdg = (Inr (), p')"
      "pedges p' = pedges example_pdg \<union> copied_edge [(2, 0)] ` {e \<in> pedges example_pdg. source e \<in> originals [(2, 0)] \<or> target e \<in> originals [(2, 0)]}"
    using cloneGraphForSCCEdges_exact [OF example_pdg_good fresh] by (elim exE conjE) (rule that; assumption)
  have "copied_edge [(2, 0)] example_edge \<in> pedges p'" unfolding p'(2) E by (intro UnI2 imageI) (simp add: example_edge_def)
  moreover have "copied_edge [(2, 0)] example_edge = \<lparr>source = 0, target = 1, edge_property = pdg_edge Data 0\<rparr>"
    by (simp add: copied_edge_def copy_of_def example_edge_def)
  ultimately show ?thesis using p'(1) by metis
qed

end
