(* ===== verification/Ipc_Module.thy ===== *)
theory Ipc_Module
  imports Linker_Config
begin

text \<open>
  The modules that the linker takes a program apart into (\<^verbatim>\<open>cali-linker/modules/ipc_module.cpp\<close>, \<^verbatim>\<open>binary_module.cpp\<close> and \<^verbatim>\<open>llvm_module.cpp\<close>): how the files of a context become one module, which symbols it imports and exports,
  and which files take the place of the old ones. LLVM, the archive reader and \<^verbatim>\<open>nm\<close> are parameters.
\<close>

section \<open>Strings\<close>

definition startsWith :: "string \<Rightarrow> string \<Rightarrow> bool" where
  "startsWith check prefix \<longleftrightarrow> take (length prefix) check = prefix"

definition endsWith :: "string \<Rightarrow> string \<Rightarrow> bool" where
  "endsWith fullString ending \<longleftrightarrow> length ending \<le> length fullString \<and> drop (length fullString - length ending) fullString = ending"

fun str_contains :: "string \<Rightarrow> string \<Rightarrow> bool" where
  "str_contains [] x \<longleftrightarrow> x = []"
| "str_contains (c # s) x \<longleftrightarrow> startsWith (c # s) x \<or> str_contains s x"

function to_string :: "nat \<Rightarrow> string" where
  "to_string n = (if n < 10 then [char_of (48 + n)] else to_string (n div 10) @ [char_of (48 + n mod 10)])"
  by auto
termination by (relation "measure id") auto

declare to_string.simps [simp del]

section \<open>What LLVM and the tools provide\<close>

text \<open>
  A use of a function: a call or an invocation that has it as callee, or any other reference. The user is an instruction of the program or one that the linker adds to the
  function named. The uses of a function are in the order of its list of uses.
\<close>

datatype ir_user = Instruction nat | Coverage_count string | Coverage_call string | Free_call string | Dlsym_call string

datatype ir_use = Call_use ir_user | Invoke_use ir_user | Reference_use ir_user

record ir_function =
  fn_name :: string
  fn_declaration :: bool
  fn_uses :: "ir_use list"

type_synonym ir_unit = "ir_function list"

record module_tools =
  m_exists :: "string \<Rightarrow> bool"
  m_absolute :: "string \<Rightarrow> string"
  file_content :: "string \<Rightarrow> string"
  parseIR :: "string \<Rightarrow> ir_unit option"
  libc_stubs :: "ir_unit option"
  archive_entries :: "string \<Rightarrow> (string \<times> string) list outcome"
  linkInModule :: "bool \<Rightarrow> ir_unit \<Rightarrow> ir_unit \<Rightarrow> ir_unit option"
  verifyModule :: "ir_unit \<Rightarrow> bool"
  nm_lines :: "string \<Rightarrow> string list outcome"
  run_passes :: "string set \<Rightarrow> ir_unit \<Rightarrow> ir_unit"
  isVarArg :: "string \<Rightarrow> bool"
  vararg_suffix :: "string \<Rightarrow> ir_use \<Rightarrow> string"
  unique_name :: "string list \<Rightarrow> string \<Rightarrow> string"

definition parseIRFile :: "module_tools \<Rightarrow> string \<Rightarrow> ir_unit option" where
  "parseIRFile F filename = parseIR F (file_content F filename)"

definition read_file_limit :: "module_tools \<Rightarrow> string \<Rightarrow> nat \<Rightarrow> string" where
  "read_file_limit F filename limit = take limit (file_content F filename)"

definition bitcode_magic :: string where
  "bitcode_magic = [CHR ''B'', CHR ''C'', CHR 0xC0, CHR 0xDE]"

definition elf_magic :: string where
  "elf_magic = CHR 0x7F # ''ELF''"

section \<open>Modules\<close>

datatype ipc_module =
    LlvmIpcModule string ir_unit "string set"
  | BinaryIpcModule string "string list"
  | CompositeIpcModule "ipc_module list"

definition BinaryIpcModule_new :: "string \<Rightarrow> bool \<Rightarrow> ipc_module" where
  "BinaryIpcModule_new source isMixedArchive = BinaryIpcModule source (if isMixedArchive then [source] else [])"

fun canRewrite :: "ipc_module \<Rightarrow> bool" where
  "canRewrite (LlvmIpcModule source u ignored) = True"
| "canRewrite (BinaryIpcModule source fs) = False"
| "canRewrite (CompositeIpcModule ms) = list_ex canRewrite ms"

fun rewrittenFilename :: "ipc_module \<Rightarrow> string list" where
  "rewrittenFilename (LlvmIpcModule source u ignored) = [take (length source - 3) source @ ''-ipc.bc'']"
| "rewrittenFilename (BinaryIpcModule source fs) = fs"
| "rewrittenFilename (CompositeIpcModule ms) = concat (map rewrittenFilename ms)"

section \<open>Composing a module\<close>

record compose =
  cunit :: ir_unit
  linked_modules :: nat
  seen_files :: "string set"
  ignored_names :: "string set"
  binary_modules :: "ipc_module list"

definition addLlvmModule :: "module_tools \<Rightarrow> YamlConfig \<Rightarrow> ir_unit option \<Rightarrow> compose \<Rightarrow> compose outcome" where
  "addLlvmModule F config m st =
     (case m of
        None \<Rightarrow> Inl Undefined_behaviour
      | Some u \<Rightarrow>
          (case linkInModule F (linkerOverride config) (cunit st) u of
             None \<Rightarrow> Inl (Runtime_error ''Could not link module'')
           | Some w \<Rightarrow> Inr (st\<lparr>cunit := w, linked_modules := Suc (linked_modules st)\<rparr>)))"

text \<open>
  The functions of the C++ library are not instrumented. A missing module is dereferenced.
\<close>

definition note_ignored :: "string \<Rightarrow> ir_unit option \<Rightarrow> compose \<Rightarrow> compose outcome" where
  "note_ignored filename m st =
     (if str_contains filename ''libstdc++'' then
        (case m of
           None \<Rightarrow> Inl Undefined_behaviour
         | Some u \<Rightarrow> Inr (st\<lparr>ignored_names := ignored_names st \<union> set (filter (\<lambda>x. x \<noteq> []) (map fn_name u))\<rparr>))
      else Inr st)"

definition object_entry :: "string \<Rightarrow> bool" where
  "object_entry name \<longleftrightarrow> endsWith name ''.o'' \<or> endsWith name ''.bc'' \<or> endsWith name ''.lo''"

fun add_entries :: "module_tools \<Rightarrow> YamlConfig \<Rightarrow> string \<Rightarrow> (string \<times> string) list \<Rightarrow> bool \<Rightarrow> compose \<Rightarrow> compose outcome" where
  "add_entries F config filename [] binary_added st = Inr st"
| "add_entries F config filename ((name, buffer) # es) binary_added st =
     (if object_entry name then
        if take 4 buffer = bitcode_magic then
          bind_outcome (note_ignored filename (parseIR F buffer) st) (\<lambda>st.
            bind_outcome (addLlvmModule F config (parseIR F buffer) st) (\<lambda>st. add_entries F config filename es binary_added st))
        else if take 4 buffer = elf_magic then
          add_entries F config filename es True
            (if binary_added then st else st\<lparr>binary_modules := binary_modules st @ [BinaryIpcModule_new filename True]\<rparr>)
        else add_entries F config filename es binary_added st
      else add_entries F config filename es binary_added st)"

definition add_file :: "module_tools \<Rightarrow> YamlConfig \<Rightarrow> string \<Rightarrow> compose \<Rightarrow> compose outcome" where
  "add_file F config filename st =
     (if \<not> m_exists F filename then Inr st
      else if m_absolute F filename \<in> seen_files st then Inr st
      else
        let st = st\<lparr>seen_files := insert (m_absolute F filename) (seen_files st)\<rparr> in
        if endsWith filename ''.so'' then Inr (st\<lparr>binary_modules := binary_modules st @ [BinaryIpcModule_new filename False]\<rparr>)
        else if endsWith filename ''.bc'' \<or> endsWith filename ''.ll'' then
          bind_outcome (note_ignored filename (parseIRFile F filename) st) (\<lambda>st. addLlvmModule F config (parseIRFile F filename) st)
        else if endsWith filename ''.o'' then
          let header = read_file_limit F filename 4 in
          if header = bitcode_magic then addLlvmModule F config (parseIRFile F filename) st
          else if header = elf_magic then Inr (st\<lparr>binary_modules := binary_modules st @ [BinaryIpcModule_new filename False]\<rparr>)
          else Inr st
        else if endsWith filename ''.a'' then
          bind_outcome (archive_entries F filename) (\<lambda>es. add_entries F config filename es False st)
        else Inr st)"

fun add_files :: "module_tools \<Rightarrow> YamlConfig \<Rightarrow> string list \<Rightarrow> compose \<Rightarrow> compose outcome" where
  "add_files F config [] st = Inr st"
| "add_files F config (f # fs) st = bind_outcome (add_file F config f st) (\<lambda>st. add_files F config fs st)"

text \<open>
  The number of compositions so far and the random part of the name are arguments.
\<close>

definition module_identifier :: "string \<Rightarrow> nat \<Rightarrow> string \<Rightarrow> string" where
  "module_identifier output_filename linked_things random =
     ''llvm-linked-things_'' @ output_filename @ ''_'' @ to_string linked_things @ ''-'' @ random @ ''.bc''"

definition newIpcModulesFromFiles :: "module_tools \<Rightarrow> string list \<Rightarrow> YamlConfig \<Rightarrow> string \<Rightarrow> nat \<Rightarrow> string \<Rightarrow> ipc_module outcome" where
  "newIpcModulesFromFiles F files config output_filename linked_things random =
     (case libc_stubs F of
        None \<Rightarrow> Inl Undefined_behaviour
      | Some stubs \<Rightarrow>
          bind_outcome (add_files F config files \<lparr>cunit = stubs, linked_modules = 0, seen_files = {}, ignored_names = {}, binary_modules = []\<rparr>) (\<lambda>st.
            let name = module_identifier output_filename linked_things random in
            if verifyModule F (cunit st) then Inl (Runtime_error ''linked module is broken!'')
            else if linked_modules st = 0 \<and> length (binary_modules st) = 1 then Inr (hd (binary_modules st))
            else if linked_modules st = 1 \<and> binary_modules st = [] then Inr (LlvmIpcModule name (cunit st) {})
            else Inr (CompositeIpcModule ((if 0 < linked_modules st then [LlvmIpcModule name (cunit st) (ignored_names st)] else []) @ binary_modules st))))"

section \<open>Symbols\<close>

text \<open>
  One line of the output of \<^verbatim>\<open>nm\<close>: the type is the first character after a space, the name starts two characters later. The result is the symbol with the
  mark of an import, or nothing.
\<close>

fun type_position :: "nat \<Rightarrow> string \<Rightarrow> nat option" where
  "type_position i (a # b # s) = (if a = CHR '' '' \<and> b \<noteq> CHR '' '' then Some i else type_position (Suc i) (b # s))"
| "type_position i s = None"

definition nm_line :: "string list \<Rightarrow> string \<Rightarrow> (bool \<times> string) option outcome" where
  "nm_line skip line =
     (if line \<noteq> [] \<and> last line = CHR '':'' \<and> CHR '' '' \<notin> set line then Inr None
      else
        case type_position 1 line of
          None \<Rightarrow> if line = [] then Inr None else Inl (Runtime_error ''Can't parse line'')
        | Some i \<Rightarrow>
            if length line < i + 2 then Inl Out_of_range
            else if drop (i + 2) line \<in> set skip then Inr None
            else Inr (Some (hd line = CHR '' '', drop (i + 2) line)))"

type_synonym symbols = "string set \<times> string set"

fun nm_symbols :: "string list \<Rightarrow> string list \<Rightarrow> symbols \<Rightarrow> symbols outcome" where
  "nm_symbols skip [] r = Inr r"
| "nm_symbols skip (line # lines) (imports, exports) =
     bind_outcome (nm_line skip line) (\<lambda>x.
       nm_symbols skip lines
         (case x of None \<Rightarrow> (imports, exports) | Some (isImport, s) \<Rightarrow> if isImport then (insert s imports, exports) else (imports, insert s exports)))"

definition declared_names :: "ir_unit \<Rightarrow> string set" where
  "declared_names u = set (map fn_name (filter fn_declaration u))"

definition defined_names :: "ir_unit \<Rightarrow> string set" where
  "defined_names u = set (map fn_name (filter (Not \<circ> fn_declaration) u))"

fun loadModuleFile :: "module_tools \<Rightarrow> string list \<Rightarrow> ipc_module \<Rightarrow> symbols outcome"
  and load_modules :: "module_tools \<Rightarrow> string list \<Rightarrow> ipc_module list \<Rightarrow> symbols \<Rightarrow> symbols outcome" where
  "loadModuleFile F skip (LlvmIpcModule source u ignored) = Inr (declared_names u, defined_names u)"
| "loadModuleFile F skip (BinaryIpcModule source fs) = bind_outcome (nm_lines F source) (\<lambda>lines. nm_symbols skip lines ({}, {}))"
| "loadModuleFile F skip (CompositeIpcModule ms) = load_modules F skip ms ({}, {})"
| "load_modules F skip [] r = Inr r"
| "load_modules F skip (m # ms) (imports, exports) =
     bind_outcome (loadModuleFile F skip m) (\<lambda>(i, e). load_modules F skip ms (imports \<union> i, exports \<union> e))"

section \<open>The files that are kept\<close>

lemma endsWith_last: "endsWith s e \<Longrightarrow> e \<noteq> [] \<Longrightarrow> last s = last e"
  by (metis endsWith_def append_take_drop_id last_appendR)

lemma endsWith_append: "endsWith (s @ e) e"
  by (simp add: endsWith_def)

text \<open>
  The files that are looked at: those that exist, each absolute path once.
\<close>

fun accepted :: "module_tools \<Rightarrow> string set \<Rightarrow> string list \<Rightarrow> string list" where
  "accepted F seen [] = []"
| "accepted F seen (f # fs) =
     (if \<not> m_exists F f \<or> m_absolute F f \<in> seen then accepted F seen fs else f # accepted F (insert (m_absolute F f) seen) fs)"

definition mixed_archive :: "module_tools \<Rightarrow> string \<Rightarrow> bool" where
  "mixed_archive F f \<longleftrightarrow> endsWith f ''.a'' \<and>
     (case archive_entries F f of Inr es \<Rightarrow> \<exists>(name, buffer)\<in>set es. object_entry name \<and> take 4 buffer = elf_magic | Inl e \<Rightarrow> False)"

definition kept :: "compose \<Rightarrow> string list" where
  "kept st = concat (map rewrittenFilename (binary_modules st))"

definition binaries_only :: "compose \<Rightarrow> bool" where
  "binaries_only st \<longleftrightarrow> list_all (Not \<circ> canRewrite) (binary_modules st)"

lemma addLlvmModule_kept:
  "addLlvmModule F config m st = Inr st' \<Longrightarrow> binary_modules st' = binary_modules st \<and> seen_files st' = seen_files st"
  by (auto simp: addLlvmModule_def split: option.splits)

lemma note_ignored_kept:
  "note_ignored f m st = Inr st' \<Longrightarrow> binary_modules st' = binary_modules st \<and> seen_files st' = seen_files st"
  by (auto simp: note_ignored_def split: option.splits if_splits)

lemma magic_distinct: "bitcode_magic \<noteq> elf_magic"
  by (simp add: bitcode_magic_def elf_magic_def)

lemma add_entries_kept:
  assumes "add_entries F config f es added st = Inr st'" and "binaries_only st"
  shows "seen_files st' = seen_files st \<and> binaries_only st' \<and>
    kept st' = kept st @ (if \<not> added \<and> (\<exists>(name, buffer)\<in>set es. object_entry name \<and> take 4 buffer = elf_magic) then [f] else [])"
  using assms
proof (induction F config f es added st arbitrary: st' rule: add_entries.induct)
  case (2 F config f name buffer es added st)
  consider (bitcode) "object_entry name" "take 4 buffer = bitcode_magic" | (elf) "object_entry name" "take 4 buffer = elf_magic"
    | (other) "\<not> (object_entry name \<and> (take 4 buffer = bitcode_magic \<or> take 4 buffer = elf_magic))" by blast
  then show ?case
  proof cases
    case bitcode
    then obtain st1 st2 where st: "note_ignored f (parseIR F buffer) st = Inr st1" "addLlvmModule F config (parseIR F buffer) st1 = Inr st2"
      "add_entries F config f es added st2 = Inr st'" using "2.prems"(1) by (auto simp: bind_outcome_Inr_iff)
    have same: "binary_modules st2 = binary_modules st" "seen_files st2 = seen_files st" using note_ignored_kept [OF st(1)] addLlvmModule_kept [OF st(2)] by simp_all
    then have "binaries_only st2" "kept st2 = kept st" using "2.prems"(2) by (simp_all add: binaries_only_def kept_def)
    then show ?thesis using "2.IH"(1) [OF bitcode st(1,2,3)] same(2) bitcode magic_distinct by auto
  next
    case elf
    let ?st = "if added then st else st\<lparr>binary_modules := binary_modules st @ [BinaryIpcModule_new f True]\<rparr>"
    have run: "add_entries F config f es True ?st = Inr st'" using "2.prems"(1) elf magic_distinct by auto
    have "binaries_only ?st" "kept ?st = kept st @ (if added then [] else [f])" "seen_files ?st = seen_files st"
      using "2.prems"(2) by (simp_all add: binaries_only_def kept_def BinaryIpcModule_new_def)
    then show ?thesis using "2.IH"(2) [OF elf(1) _ elf(2) run] elf magic_distinct by auto
  next
    case other
    then have run: "add_entries F config f es added st = Inr st'" using "2.prems"(1) by (auto split: if_splits)
    show ?thesis
    proof (cases "object_entry name")
      case True
      then show ?thesis using "2.IH"(3) [OF True _ _ run "2.prems"(2)] other by auto
    next
      case False
      then show ?thesis using "2.IH"(4) [OF False run "2.prems"(2)] by auto
    qed
  qed
qed (auto simp: kept_def)

lemma add_file_kept:
  assumes "add_file F config f st = Inr st'" and "binaries_only st"
  shows "binaries_only st' \<and>
    (if \<not> m_exists F f \<or> m_absolute F f \<in> seen_files st then st' = st
     else seen_files st' = insert (m_absolute F f) (seen_files st) \<and> kept st' = kept st @ (if mixed_archive F f then [f] else []))"
proof (cases "\<not> m_exists F f \<or> m_absolute F f \<in> seen_files st")
  case True
  then show ?thesis using assms by (cases "m_exists F f") (simp_all add: add_file_def)
next
  case False
  define st0 where "st0 = st\<lparr>seen_files := insert (m_absolute F f) (seen_files st)\<rparr>"
  have st0: "binaries_only st0" "kept st0 = kept st" "seen_files st0 = insert (m_absolute F f) (seen_files st)"
    using assms(2) by (simp_all add: st0_def binaries_only_def kept_def)
  show ?thesis
  proof (cases "endsWith f ''.a''")
    case True
    then have last: "last f = CHR ''a''" by (auto dest: endsWith_last)
    have no: "\<not> endsWith f ''.so''" "\<not> endsWith f ''.bc''" "\<not> endsWith f ''.ll''" "\<not> endsWith f ''.o''"
      using last by (auto dest: endsWith_last)
    obtain es where es: "archive_entries F f = Inr es" "add_entries F config f es False st0 = Inr st'"
      using assms(1) False True no by (auto simp: add_file_def st0_def Let_def bind_outcome_Inr_iff)
    then show ?thesis using add_entries_kept [OF es(2) st0(1)] st0 True False by (simp add: mixed_archive_def)
  next
    case no: False
    let ?b = "st0\<lparr>binary_modules := binary_modules st0 @ [BinaryIpcModule_new f False]\<rparr>"
    have b: "binaries_only ?b" "kept ?b = kept st0" using st0(1) by (simp_all add: binaries_only_def kept_def BinaryIpcModule_new_def)
    have run: "(if endsWith f ''.so'' then Inr ?b
        else if endsWith f ''.bc'' \<or> endsWith f ''.ll'' then
          bind_outcome (note_ignored f (parseIRFile F f) st0) (\<lambda>st. addLlvmModule F config (parseIRFile F f) st)
        else if endsWith f ''.o'' then
          if read_file_limit F f 4 = bitcode_magic then addLlvmModule F config (parseIRFile F f) st0
          else if read_file_limit F f 4 = elf_magic then Inr ?b else Inr st0
        else Inr st0) = Inr st'"
      using assms(1) False no unfolding add_file_def Let_def st0_def [symmetric] by (simp cong: if_cong split del: if_split)
    have bc: "binary_modules st' = binary_modules st0 \<and> seen_files st' = seen_files st0"
      if r: "bind_outcome (note_ignored f (parseIRFile F f) st0) (\<lambda>st. addLlvmModule F config (parseIRFile F f) st) = Inr st'"
    proof -
      from r obtain st1 where "note_ignored f (parseIRFile F f) st0 = Inr st1" "addLlvmModule F config (parseIRFile F f) st1 = Inr st'"
        by (auto simp: bind_outcome_Inr_iff)
      from note_ignored_kept [OF this(1)] addLlvmModule_kept [OF this(2)] show ?thesis by simp
    qed
    have "st' = ?b \<or> binary_modules st' = binary_modules st0 \<and> seen_files st' = seen_files st0"
    proof -
      consider "endsWith f ''.so''" | "\<not> endsWith f ''.so''" "endsWith f ''.bc'' \<or> endsWith f ''.ll''"
        | "\<not> endsWith f ''.so''" "\<not> (endsWith f ''.bc'' \<or> endsWith f ''.ll'')" by blast
      then show ?thesis
      proof cases
        case 1
        with run show ?thesis by simp
      next
        case 2
        with run have "bind_outcome (note_ignored f (parseIRFile F f) st0) (\<lambda>st. addLlvmModule F config (parseIRFile F f) st) = Inr st'" by (simp only: if_False if_True)
        from bc [OF this] show ?thesis by simp
      next
        case 3
        with run have "(if endsWith f ''.o'' then if read_file_limit F f 4 = bitcode_magic then addLlvmModule F config (parseIRFile F f) st0
          else if read_file_limit F f 4 = elf_magic then Inr ?b else Inr st0 else Inr st0) = Inr st'" by (simp only: if_False)
        then consider "addLlvmModule F config (parseIRFile F f) st0 = Inr st'" | "?b = st'" | "st0 = st'" by (auto simp only: sum.inject split: if_split_asm)
        then show ?thesis
        proof cases
          case 1
          from addLlvmModule_kept [OF this] show ?thesis by blast
        qed blast+
      qed
    qed
    moreover have "seen_files ?b = seen_files st0" by simp
    ultimately have "binaries_only st' \<and> kept st' = kept st0 \<and> seen_files st' = seen_files st0"
      using b st0(1) unfolding binaries_only_def kept_def by metis
    moreover have "\<not> mixed_archive F f" using no by (simp add: mixed_archive_def)
    ultimately show ?thesis using st0(2,3) False by simp
  qed
qed

lemma add_files_kept:
  "add_files F config fs st = Inr st' \<Longrightarrow> binaries_only st \<Longrightarrow>
     binaries_only st' \<and> kept st' = kept st @ filter (mixed_archive F) (accepted F (seen_files st) fs)"
proof (induction fs arbitrary: st)
  case (Cons f fs)
  then obtain st1 where 1: "add_file F config f st = Inr st1" "add_files F config fs st1 = Inr st'" by (auto simp: bind_outcome_Inr_iff)
  note f = add_file_kept [OF 1(1) Cons.prems(2)]
  from Cons.IH [OF 1(2)] f show ?case by (auto split: if_splits)
qed simp

text \<open>
  C28: Which files take the place of the files of a rewritten context. When the files of a context have been composed to a module that can be rewritten, the new files are
  the rewritten bitcode followed by exactly those archives among the files that have a native object inside, each once. In particular no native object
  file and no shared library of the context is kept: their code is lost when the context also has bitcode.
\<close>

theorem rewritten_files_exact:
  assumes "newIpcModulesFromFiles F files config output_filename n random = Inr m" and "canRewrite m"
  shows "rewrittenFilename m = (''llvm-linked-things_'' @ output_filename @ ''_'' @ to_string n @ ''-'' @ random @ ''-ipc.bc'') # filter (mixed_archive F) (accepted F {} files) \<and>
    (\<forall>f\<in>set (rewrittenFilename m). \<not> endsWith f ''.o'' \<and> \<not> endsWith f ''.so'')"
proof -
  obtain stubs st where st: "libc_stubs F = Some stubs"
    "add_files F config files \<lparr>cunit = stubs, linked_modules = 0, seen_files = {}, ignored_names = {}, binary_modules = []\<rparr> = Inr st"
    using assms(1) by (auto simp: newIpcModulesFromFiles_def bind_outcome_Inr_iff split: option.splits)
  have st': "binaries_only st" "kept st = filter (mixed_archive F) (accepted F {} files)"
    using add_files_kept [OF st(2)] by (simp_all add: binaries_only_def kept_def)
  let ?name = "module_identifier output_filename n random"
  have bin: "\<not> list_ex canRewrite (binary_modules st)" using st'(1) by (auto simp: binaries_only_def list_all_iff list_ex_iff)
  have one: "\<not> canRewrite (hd (binary_modules st))" if "length (binary_modules st) = 1" using that bin by (cases "binary_modules st") auto
  have run: "(if verifyModule F (cunit st) then Inl (Runtime_error ''linked module is broken!'')
      else if linked_modules st = 0 \<and> length (binary_modules st) = 1 then Inr (hd (binary_modules st))
      else if linked_modules st = 1 \<and> binary_modules st = [] then Inr (LlvmIpcModule ?name (cunit st) {})
      else Inr (CompositeIpcModule ((if 0 < linked_modules st then [LlvmIpcModule ?name (cunit st) (ignored_names st)] else []) @ binary_modules st))) = Inr m"
    using assms(1) st by (simp add: newIpcModulesFromFiles_def Let_def)
  have "\<exists>ig. m = LlvmIpcModule ?name (cunit st) ig \<and> kept st = [] \<or> m = CompositeIpcModule (LlvmIpcModule ?name (cunit st) ig # binary_modules st)"
    using run assms(2) bin one by (auto simp: kept_def split: if_splits)
  moreover have "rewrittenFilename (LlvmIpcModule ?name u ig) = [''llvm-linked-things_'' @ output_filename @ ''_'' @ to_string n @ ''-'' @ random @ ''-ipc.bc'']" for u ig
    by (simp add: module_identifier_def)
  ultimately have files: "rewrittenFilename m =
      (''llvm-linked-things_'' @ output_filename @ ''_'' @ to_string n @ ''-'' @ random @ ''-ipc.bc'') # filter (mixed_archive F) (accepted F {} files)"
    unfolding st'(2) [symmetric] by (auto simp: kept_def)
  have "\<not> endsWith f ''.o'' \<and> \<not> endsWith f ''.so''" if "f \<in> set (rewrittenFilename m)" for f
  proof -
    have "last f = CHR ''c'' \<or> last f = CHR ''a''" using that endsWith_last [of f "''.a''"] unfolding files by (auto simp: mixed_archive_def)
    then show ?thesis by (auto dest: endsWith_last)
  qed
  with files show ?thesis by blast
qed

definition sample_tools :: module_tools where
  "sample_tools = \<lparr>m_exists = (\<lambda>_. True), m_absolute = id, file_content = (\<lambda>f. if f = ''a.o'' then bitcode_magic else elf_magic),
     parseIR = (\<lambda>c. if take 4 c = bitcode_magic then Some [\<lparr>fn_name = ''main'', fn_declaration = False, fn_uses = []\<rparr>] else None),
     libc_stubs = Some [], archive_entries = (\<lambda>_. Inr []), linkInModule = (\<lambda>_ a b. Some (a @ b)), verifyModule = (\<lambda>_. False),
     nm_lines = (\<lambda>_. Inr []), run_passes = (\<lambda>_ u. u), isVarArg = (\<lambda>_. False),
     vararg_suffix = (\<lambda>_ _. []), unique_name = (\<lambda>_ s. s)\<rparr>"

theorem rewritten_files_exact_witness:
  "\<exists>m. newIpcModulesFromFiles sample_tools [''a.o'', ''b.o''] YamlConfig_new ''prog'' 0 ''x'' = Inr m \<and> canRewrite m \<and>
     rewrittenFilename m = [''llvm-linked-things_prog_0-x-ipc.bc''] \<and> ''b.o'' \<notin> set (rewrittenFilename m)"
proof -
  let ?m = "CompositeIpcModule [LlvmIpcModule ''llvm-linked-things_prog_0-x.bc'' [\<lparr>fn_name = ''main'', fn_declaration = False, fn_uses = []\<rparr>] {}, BinaryIpcModule ''b.o'' []]"
  have run: "newIpcModulesFromFiles sample_tools [''a.o'', ''b.o''] YamlConfig_new ''prog'' 0 ''x'' = Inr ?m" by code_simp
  moreover have can: "canRewrite ?m" by simp
  moreover have "filter (mixed_archive sample_tools) (accepted sample_tools {} [''a.o'', ''b.o'']) = []" by code_simp
  moreover have "to_string 0 = ''0''" by code_simp
  ultimately show ?thesis using rewritten_files_exact [OF run can] by (intro exI [of _ ?m]) simp
qed

section \<open>Symbols of native files\<close>

lemma type_position_skip: "CHR '' '' \<notin> set s \<Longrightarrow> b \<noteq> CHR '' '' \<Longrightarrow> type_position i (s @ CHR '' '' # b # r) = Some (i + length s)"
proof (induction s arbitrary: i)
  case (Cons a s)
  then show ?case by (cases s) auto
qed simp

lemma type_position_spaces: "b \<noteq> CHR '' '' \<Longrightarrow> type_position i (replicate (Suc k) (CHR '' '') @ b # r) = Some (i + k)"
  by (induction k arbitrary: i) auto

text \<open>
  The symbols that \<^verbatim>\<open>nm\<close> prints are read back. A line with an address, a type and a name is an export of that name, a line with spaces in place of the address is an
  import of the name, unless the configuration ignores it.
\<close>

theorem nm_line_roundtrip:
  assumes "CHR '' '' \<notin> set address" and "address \<noteq> []" and "t \<noteq> CHR '' ''" and "name \<notin> set skip"
  shows "nm_line skip (address @ '' '' @ [t] @ '' '' @ name) = Inr (Some (False, name)) \<and>
    nm_line skip (replicate (Suc k) (CHR '' '') @ [t] @ '' '' @ name) = Inr (Some (True, name))"
proof -
  have "type_position 1 (address @ '' '' @ [t] @ '' '' @ name) = Some (1 + length address)"
    using type_position_skip [OF assms(1,3), of 1 "'' '' @ name"] by simp
  moreover have "hd (address @ '' '' @ [t] @ '' '' @ name) \<noteq> CHR '' ''" using assms(1,2) by (cases address) auto
  ultimately have "nm_line skip (address @ '' '' @ [t] @ '' '' @ name) = Inr (Some (False, name))"
    using assms(4) by (simp add: nm_line_def)
  moreover have "type_position 1 (replicate (Suc k) (CHR '' '') @ [t] @ '' '' @ name) = Some (1 + k)"
    using type_position_spaces [OF assms(3), of 1 k "'' '' @ name"] by simp
  then have "nm_line skip (replicate (Suc k) (CHR '' '') @ [t] @ '' '' @ name) = Inr (Some (True, name))"
    using assms(4) by (simp add: nm_line_def)
  ultimately show ?thesis by blast
qed

theorem nm_line_roundtrip_witness:
  "nm_line [] ''0000000000201038 T compress'' = Inr (Some (False, ''compress'')) \<and> nm_line [] ''                 U malloc'' = Inr (Some (True, ''malloc''))"
proof -
  have "nm_line [] (''0000000000201038'' @ '' '' @ [CHR ''T''] @ '' '' @ ''compress'') = Inr (Some (False, ''compress''))"
    using nm_line_roundtrip [of "''0000000000201038''" "CHR ''T''" "''compress''" "[]" 0] by simp
  moreover have "nm_line [] (replicate (Suc 16) (CHR '' '') @ [CHR ''U''] @ '' '' @ ''malloc'') = Inr (Some (True, ''malloc''))"
    using nm_line_roundtrip [of "''0''" "CHR ''U''" "''malloc''" "[]" 16] by simp
  ultimately show ?thesis by (simp add: eval_nat_numeral)
qed

end
