(* ===== verification/Ipc_Redirect.thy ===== *)
theory Ipc_Redirect
  imports Ipc_Module "HOL-Library.List_Lexorder" "HOL-Library.Char_ord"
begin

text \<open>
  The rewriting of a bitcode module (\<^verbatim>\<open>LlvmIpcModule::rewriteFunctionCalls\<close> in \<^verbatim>\<open>cali-linker/modules/llvm_module.cpp\<close>, with the choice of wrappers in
  \<^verbatim>\<open>communication_pair.cpp\<close>): calls of functions of the other context are directed to wrappers, and functions that release memory are replaced. A module is the
  list of its functions with their uses. The bodies of the wrappers, the attributes of functions and the text of the log are not part of it.
\<close>

section \<open>Functions of a module\<close>

text \<open>
  A new function is added behind the others, and a new use in front of the other uses.
\<close>

definition getOrInsertFunction :: "string \<Rightarrow> ir_unit \<Rightarrow> ir_unit" where
  "getOrInsertFunction name u = (if name \<in> set (map fn_name u) then u else u @ [\<lparr>fn_name = name, fn_declaration = True, fn_uses = []\<rparr>])"

definition on_function :: "string \<Rightarrow> (ir_function \<Rightarrow> ir_function) \<Rightarrow> ir_unit \<Rightarrow> ir_unit" where
  "on_function name g u = map (\<lambda>f. if fn_name f = name then g f else f) u"

definition add_use :: "ir_use \<Rightarrow> ir_function \<Rightarrow> ir_function" where
  "add_use x f = f\<lparr>fn_uses := x # fn_uses f\<rparr>"

definition drop_use :: "ir_function \<Rightarrow> ir_function" where
  "drop_use f = f\<lparr>fn_uses := tl (fn_uses f)\<rparr>"

definition is_call_use :: "ir_use \<Rightarrow> bool" where
  "is_call_use u \<longleftrightarrow> (case u of Reference_use x \<Rightarrow> False | _ \<Rightarrow> True)"

section \<open>Wrappers\<close>

text \<open>
  The wrappers that exist are known by name. The name of a wrapper for a call with variable arguments has a suffix that stands for the types of the arguments.
  A reference to a function with variable arguments has no call to take the types from.
\<close>

record redirection =
  runit :: ir_unit
  wrappedFunctions :: "string set"
  next_coverage_id :: nat

definition wrapper_prefix :: string where
  "wrapper_prefix = ''__ipc_replacement_''"

definition wrappedName :: "module_tools \<Rightarrow> nat \<Rightarrow> string \<Rightarrow> ir_use \<Rightarrow> string" where
  "wrappedName T k callee x = wrapper_prefix @ to_string k @ ''_'' @ callee @ (if is_call_use x then vararg_suffix T callee x else [])"

definition getOrCreateWrapperFunction :: "module_tools \<Rightarrow> nat \<Rightarrow> string \<Rightarrow> ir_use \<Rightarrow> redirection \<Rightarrow> (string \<times> redirection) outcome" where
  "getOrCreateWrapperFunction T k callee x s =
     (let w = wrappedName T k callee x in
      if w \<notin> wrappedFunctions s \<and> isVarArg T callee \<and> \<not> is_call_use x then Inl Undefined_behaviour
      else Inr (w, s\<lparr>wrappedFunctions := insert w (wrappedFunctions s), runit := getOrInsertFunction w (runit s)\<rparr>))"

definition instrumentCoverageReplacement :: "string \<Rightarrow> redirection \<Rightarrow> string \<times> redirection" where
  "instrumentCoverageReplacement w s =
     (let c = ''__coverage_'' @ to_string (next_coverage_id s);
          u = getOrInsertFunction c (runit s);
          u = on_function c (\<lambda>f. f\<lparr>fn_declaration := False\<rparr>) u;
          u = getOrInsertFunction ''__coverage_count'' u;
          u = on_function ''__coverage_count'' (add_use (Call_use (Coverage_count c))) u;
          u = on_function w (add_use (Call_use (Coverage_call c))) u
      in (c, s\<lparr>runit := u, next_coverage_id := Suc (next_coverage_id s)\<rparr>))"

section \<open>Directing calls to the other process\<close>

text \<open>
  The uses of a function are replaced from the front of its list of uses. A use that is not a call is the last one to be replaced. The loop over
  the functions also visits those that are added meanwhile.
\<close>

definition replace_use :: "module_tools \<Rightarrow> nat \<Rightarrow> bool \<Rightarrow> string \<Rightarrow> ir_use \<Rightarrow> redirection \<Rightarrow> redirection outcome" where
  "replace_use T k coverage callee x s =
     bind_outcome (getOrCreateWrapperFunction T k callee x s) (\<lambda>(w, s).
       let (r, s) = (if coverage then instrumentCoverageReplacement w s else (w, s)) in
       Inr (s\<lparr>runit := on_function r (add_use x) (on_function callee drop_use (runit s))\<rparr>))"

fun rewrite_uses :: "module_tools \<Rightarrow> nat \<Rightarrow> bool \<Rightarrow> string \<Rightarrow> ir_use list \<Rightarrow> redirection \<Rightarrow> redirection outcome" where
  "rewrite_uses T k coverage callee [] s = Inr s"
| "rewrite_uses T k coverage callee (x # xs) s =
     bind_outcome (replace_use T k coverage callee x s) (\<lambda>s. if is_call_use x then rewrite_uses T k coverage callee xs s else Inr s)"

definition rewrite_function :: "module_tools \<Rightarrow> nat \<Rightarrow> bool \<Rightarrow> string set \<Rightarrow> ir_function \<Rightarrow> redirection \<Rightarrow> redirection outcome" where
  "rewrite_function T k coverage symbols f s =
     (if fn_declaration f \<and> fn_name f \<in> symbols then rewrite_uses T k coverage (fn_name f) (fn_uses f) s else Inr s)"

fun rewrite_functions :: "nat \<Rightarrow> module_tools \<Rightarrow> nat \<Rightarrow> bool \<Rightarrow> string set \<Rightarrow> nat \<Rightarrow> redirection \<Rightarrow> redirection outcome" where
  "rewrite_functions 0 T k coverage symbols i s = Inl Out_of_fuel"
| "rewrite_functions (Suc n) T k coverage symbols i s =
     (if i < length (runit s) then
        bind_outcome (rewrite_function T k coverage symbols (runit s ! i) s) (rewrite_functions n T k coverage symbols (Suc i))
      else Inr s)"

section \<open>Functions that release memory\<close>

text \<open>
  All uses are moved to the replacement one by one, which turns their order around. LLVM chooses a new name for a function when the name is taken.
\<close>

definition handleFreeFunction :: "module_tools \<Rightarrow> string \<Rightarrow> ir_unit \<Rightarrow> ir_unit" where
  "handleFreeFunction T name u =
     (case find (\<lambda>f. fn_name f = name) u of
        None \<Rightarrow> u
      | Some f \<Rightarrow>
          let u = getOrInsertFunction ''shm_free_wrapper'' u in
          if fn_declaration f then
            on_function ''shm_free_wrapper'' (add_use (Call_use (Free_call name)))
              (on_function ''dlsym'' (add_use (Call_use (Dlsym_call name)))
                (on_function name (\<lambda>f. f\<lparr>fn_declaration := False\<rparr>) (getOrInsertFunction ''dlsym'' u)))
          else
            let original = unique_name T (map fn_name u) (name @ ''_original'');
                u = on_function name (\<lambda>f. f\<lparr>fn_name := original, fn_uses := []\<rparr>) u @ [\<lparr>fn_name = name, fn_declaration = False, fn_uses = rev (fn_uses f)\<rparr>];
                u = on_function original (add_use (Reference_use (Free_call name))) u
            in on_function ''shm_free_wrapper'' (add_use (Call_use (Free_call name))) u)"

definition free_functions :: "ContextConfig \<Rightarrow> string list" where
  "free_functions c = filter (\<lambda>name. functionBehavior c name = Some ''free'') (sorted_list_of_set (dom (functionBehavior c)))"

section \<open>Modules\<close>

fun rewriteFunctionCalls :: "nat \<Rightarrow> module_tools \<Rightarrow> ContextConfig \<Rightarrow> nat \<Rightarrow> string set \<Rightarrow> string set \<Rightarrow> ipc_module \<Rightarrow> (string set \<times> ipc_module) outcome"
  and rewrite_modules :: "nat \<Rightarrow> module_tools \<Rightarrow> ContextConfig \<Rightarrow> nat \<Rightarrow> string set \<Rightarrow> string set \<Rightarrow> ipc_module list \<Rightarrow> (string set \<times> ipc_module list) outcome" where
  "rewriteFunctionCalls n T c k symbols wrapped (LlvmIpcModule source u ignored) =
     bind_outcome (rewrite_functions n T k (instrument_coverage c) symbols 0
         \<lparr>runit = run_passes T symbols u, wrappedFunctions = wrapped, next_coverage_id = 0\<rparr>) (\<lambda>s.
       Inr (wrappedFunctions s, LlvmIpcModule source (fold (handleFreeFunction T) (free_functions c) (runit s)) ignored))"
| "rewriteFunctionCalls n T c k symbols wrapped (BinaryIpcModule source fs) = Inl (Runtime_error ''NI'')"
| "rewriteFunctionCalls n T c k symbols wrapped (CompositeIpcModule ms) =
     bind_outcome (rewrite_modules n T c k symbols wrapped ms) (\<lambda>(wrapped, ms). Inr (wrapped, CompositeIpcModule ms))"
| "rewrite_modules n T c k symbols wrapped [] = Inr (wrapped, [])"
| "rewrite_modules n T c k symbols wrapped (m # ms) =
     bind_outcome (if canRewrite m then rewriteFunctionCalls n T c k symbols wrapped m else Inr (wrapped, m)) (\<lambda>(wrapped, m).
       bind_outcome (rewrite_modules n T c k symbols wrapped ms) (\<lambda>(wrapped, ms). Inr (wrapped, m # ms)))"

section \<open>Which uses are moved\<close>

text \<open>
  The uses of a function up to and including the first one that is not a call are moved; the others are left.
\<close>

definition moved_uses :: "ir_use list \<Rightarrow> ir_use list" where
  "moved_uses xs = takeWhile is_call_use xs @ take 1 (dropWhile is_call_use xs)"

definition left_uses :: "ir_use list \<Rightarrow> ir_use list" where
  "left_uses xs = drop 1 (dropWhile is_call_use xs)"

lemma moved_uses_simps [simp]:
  "moved_uses [] = []" "moved_uses (x # xs) = x # (if is_call_use x then moved_uses xs else [])"
  by (simp_all add: moved_uses_def)

lemma drop_moved_uses: "drop (length (moved_uses xs)) xs = left_uses xs"
  by (induction xs) (simp_all add: left_uses_def)

definition names :: "ir_unit \<Rightarrow> string set" where
  "names u = set (map fn_name u)"

lemma names_simps [simp]: "names [] = {}" "names (f # u) = insert (fn_name f) (names u)" "names (u @ v) = names u \<union> names v"
  by (simp_all add: names_def)

lemma getOrInsertFunction_append: "name \<notin> names u \<Longrightarrow> getOrInsertFunction name (u @ v) = u @ getOrInsertFunction name v"
  by (auto simp: getOrInsertFunction_def names_def)

lemma names_getOrInsertFunction [simp]: "names (getOrInsertFunction name u) = insert name (names u)"
  by (auto simp: getOrInsertFunction_def names_def)

lemma on_function_simps [simp]:
  "on_function name g [] = []" "on_function name g (f # u) = (if fn_name f = name then g f else f) # on_function name g u"
  "on_function name g (u @ v) = on_function name g u @ on_function name g v" "length (on_function name g u) = length u"
  by (simp_all add: on_function_def)

lemma on_function_other: "name \<notin> names u \<Longrightarrow> on_function name g u = u"
  by (induction u) auto

lemma on_function_compose: "(\<And>f. fn_name (g f) = fn_name f) \<Longrightarrow> on_function name h (on_function name g u) = on_function name (h \<circ> g) u"
  by (simp add: on_function_def)

lemma names_on_function: "(\<And>f. fn_name (g f) = fn_name f) \<Longrightarrow> names (on_function name g u) = names u"
  by (induction u) auto

lemma use_names [simp]: "fn_name (add_use x f) = fn_name f" "fn_name (drop_use f) = fn_name f"
  by (simp_all add: add_use_def drop_use_def)

text \<open>
  A name that no wrapper has, and the effect of moving one use on the list of the wrappers.
\<close>

definition plain :: "string \<Rightarrow> bool" where
  "plain name \<longleftrightarrow> \<not> startsWith name wrapper_prefix"

lemma plain_wrappedName [simp]: "\<not> plain (wrappedName T k callee x)"
  by (simp add: plain_def wrappedName_def startsWith_def)

definition direct :: "module_tools \<Rightarrow> nat \<Rightarrow> string \<times> ir_use \<Rightarrow> ir_unit \<Rightarrow> ir_unit" where
  "direct T k = (\<lambda>(callee, x) w. on_function (wrappedName T k callee x) (add_use x) (getOrInsertFunction (wrappedName T k callee x) w))"

lemma names_direct [simp]: "names (direct T k (callee, x) w) = insert (wrappedName T k callee x) (names w)"
  by (simp add: direct_def names_on_function)

lemma replace_use_run:
  assumes "\<forall>name\<in>names u. plain name" and "\<forall>name\<in>names w. \<not> plain name" and "plain callee" and "isVarArg T callee \<longrightarrow> is_call_use x"
  shows "replace_use T k False callee x \<lparr>runit = u @ w, wrappedFunctions = d, next_coverage_id = j\<rparr> =
    Inr \<lparr>runit = on_function callee drop_use u @ direct T k (callee, x) w, wrappedFunctions = insert (wrappedName T k callee x) d, next_coverage_id = j\<rparr>"
proof -
  let ?w = "wrappedName T k callee x"
  have other: "?w \<notin> names u" "?w \<notin> names (on_function callee drop_use u)" using assms(1) plain_wrappedName by (auto simp: names_on_function)
  have "callee \<notin> names (getOrInsertFunction ?w w)" using assms(2,3) plain_wrappedName [of T k callee x] by (metis names_getOrInsertFunction insertE)
  then have "on_function ?w (add_use x) (on_function callee drop_use (getOrInsertFunction ?w (u @ w))) = on_function callee drop_use u @ direct T k (callee, x) w"
    using other by (simp add: getOrInsertFunction_append on_function_other direct_def)
  then show ?thesis using assms(4) by (auto simp: replace_use_def getOrCreateWrapperFunction_def Let_def)
qed

lemma rewrite_uses_run:
  "\<lbrakk>\<forall>name\<in>names u. plain name; \<forall>name\<in>names w. \<not> plain name; plain callee; isVarArg T callee \<longrightarrow> list_all is_call_use xs\<rbrakk> \<Longrightarrow>
     \<exists>d'. rewrite_uses T k False callee xs \<lparr>runit = u @ w, wrappedFunctions = d, next_coverage_id = j\<rparr> =
       Inr \<lparr>runit = on_function callee (\<lambda>f. f\<lparr>fn_uses := drop (length (moved_uses xs)) (fn_uses f)\<rparr>) u @ fold (direct T k) (map (Pair callee) (moved_uses xs)) w,
         wrappedFunctions = d', next_coverage_id = j\<rparr>"
proof (induction xs arbitrary: u w d)
  case Nil
  then show ?case by (simp add: on_function_def cong: if_cong)
next
  case (Cons x xs)
  have run: "replace_use T k False callee x \<lparr>runit = u @ w, wrappedFunctions = d, next_coverage_id = j\<rparr> =
    Inr \<lparr>runit = on_function callee drop_use u @ direct T k (callee, x) w, wrappedFunctions = insert (wrappedName T k callee x) d, next_coverage_id = j\<rparr>"
    using Cons.prems by (intro replace_use_run) auto
  show ?case
  proof (cases "is_call_use x")
    case True
    have "on_function callee (\<lambda>f. f\<lparr>fn_uses := drop m (fn_uses f)\<rparr>) (on_function callee drop_use u) = on_function callee (\<lambda>f. f\<lparr>fn_uses := drop (Suc m) (fn_uses f)\<rparr>) u" for m
      by (simp add: on_function_compose comp_def) (simp add: drop_use_def drop_Suc)
    then show ?thesis using True run Cons.IH [of "on_function callee drop_use u" "direct T k (callee, x) w" "insert (wrappedName T k callee x) d"] Cons.prems
      by (simp add: names_on_function)
  next
    case False
    then show ?thesis using run by (simp add: drop_use_def [abs_def] drop_Suc)
  qed
qed

text \<open>
  What the loop makes of the functions, and the wrappers that it adds.
\<close>

definition redirected :: "string set \<Rightarrow> ir_function \<Rightarrow> bool" where
  "redirected symbols f \<longleftrightarrow> fn_declaration f \<and> fn_name f \<in> symbols"

definition redirect :: "string set \<Rightarrow> ir_function \<Rightarrow> ir_function" where
  "redirect symbols f = (if redirected symbols f then f\<lparr>fn_uses := left_uses (fn_uses f)\<rparr> else f)"

definition moves :: "string set \<Rightarrow> ir_unit \<Rightarrow> (string \<times> ir_use) list" where
  "moves symbols u = concat (map (\<lambda>f. map (Pair (fn_name f)) (moved_uses (fn_uses f))) (filter (redirected symbols) u))"

definition wrappers :: "module_tools \<Rightarrow> nat \<Rightarrow> (string \<times> ir_use) list \<Rightarrow> ir_unit \<Rightarrow> ir_unit" where
  "wrappers T k = fold (direct T k)"

lemma names_wrappers: "names (wrappers T k ms w) = (\<lambda>(callee, x). wrappedName T k callee x) ` set ms \<union> names w"
  unfolding wrappers_def by (induction ms arbitrary: w) auto

lemma length_wrappers: "length (wrappers T k ms w) \<le> length ms + length w"
  unfolding wrappers_def
proof (induction ms arbitrary: w)
  case (Cons m ms)
  have "length (direct T k m w) \<le> Suc (length w)" by (cases m) (simp add: direct_def getOrInsertFunction_def)
  then show ?case using Cons.IH [of "direct T k m w"] by simp
qed simp

definition no_vararg_reference :: "module_tools \<Rightarrow> string set \<Rightarrow> ir_unit \<Rightarrow> bool" where
  "no_vararg_reference T symbols u \<longleftrightarrow> (\<forall>f\<in>set u. redirected symbols f \<and> isVarArg T (fn_name f) \<longrightarrow> list_all is_call_use (fn_uses f))"

lemma rewrite_function_run:
  assumes "distinct (map fn_name (a @ f # b))" and "\<forall>name\<in>names (a @ f # b). plain name" and "\<forall>name\<in>names w. \<not> plain name"
    and "no_vararg_reference T symbols [f]"
  shows "\<exists>d'. rewrite_function T k False symbols f \<lparr>runit = a @ f # b @ w, wrappedFunctions = d, next_coverage_id = j\<rparr> =
     Inr \<lparr>runit = a @ redirect symbols f # b @ wrappers T k (moves symbols [f]) w, wrappedFunctions = d', next_coverage_id = j\<rparr>"
proof (cases "redirected symbols f")
  case True
  have "fn_name f \<notin> names a" "fn_name f \<notin> names b" using assms(1) by (auto simp: names_def)
  then have "on_function (fn_name f) g (a @ f # b) = a @ g f # b" for g by (simp add: on_function_other)
  moreover have "isVarArg T (fn_name f) \<longrightarrow> list_all is_call_use (fn_uses f)" using True assms(4) by (simp add: no_vararg_reference_def)
  ultimately show ?thesis
    using rewrite_uses_run [of "a @ f # b" w "fn_name f" T "fn_uses f" k d j] True assms(2,3)
    by (auto simp: rewrite_function_def redirected_def redirect_def drop_moved_uses wrappers_def moves_def)
qed (auto simp: rewrite_function_def redirected_def redirect_def wrappers_def moves_def)

lemma rewrite_functions_step:
  "\<lbrakk>distinct (map fn_name (a @ b)); \<forall>name\<in>names (a @ b). plain name; \<forall>name\<in>names w. \<not> plain name; no_vararg_reference T symbols b\<rbrakk> \<Longrightarrow>
     \<exists>d'. rewrite_functions (length b + n) T k False symbols (length a) \<lparr>runit = a @ b @ w, wrappedFunctions = d, next_coverage_id = j\<rparr> =
       rewrite_functions n T k False symbols (length (a @ b))
         \<lparr>runit = a @ map (redirect symbols) b @ wrappers T k (moves symbols b) w, wrappedFunctions = d', next_coverage_id = j\<rparr>"
proof (induction b arbitrary: a w d)
  case Nil
  then show ?case by (auto simp: moves_def wrappers_def)
next
  case (Cons f b)
  let ?w = "wrappers T k (moves symbols [f]) w"
  have "no_vararg_reference T symbols [f]" and b: "no_vararg_reference T symbols b" using Cons.prems(4) by (simp_all add: no_vararg_reference_def)
  then obtain d' where run: "rewrite_function T k False symbols f \<lparr>runit = a @ f # b @ w, wrappedFunctions = d, next_coverage_id = j\<rparr> =
     Inr \<lparr>runit = a @ redirect symbols f # b @ ?w, wrappedFunctions = d', next_coverage_id = j\<rparr>" using rewrite_function_run Cons.prems(1-3) by blast
  have "fn_name (redirect symbols f) = fn_name f" by (simp add: redirect_def)
  moreover have "\<forall>name\<in>names ?w. \<not> plain name" using Cons.prems(3) plain_wrappedName by (auto simp: names_wrappers)
  ultimately have "\<exists>d''. rewrite_functions (length b + n) T k False symbols (length (a @ [redirect symbols f]))
        \<lparr>runit = (a @ [redirect symbols f]) @ b @ ?w, wrappedFunctions = d', next_coverage_id = j\<rparr> =
      rewrite_functions n T k False symbols (length ((a @ [redirect symbols f]) @ b))
        \<lparr>runit = (a @ [redirect symbols f]) @ map (redirect symbols) b @ wrappers T k (moves symbols b) ?w, wrappedFunctions = d'', next_coverage_id = j\<rparr>"
    using Cons.prems(1,2) b by (intro Cons.IH) auto
  moreover have "wrappers T k (moves symbols b) ?w = wrappers T k (moves symbols (f # b)) w" by (simp add: moves_def wrappers_def)
  ultimately show ?case using run by simp
qed

lemma rewrite_functions_rest:
  "\<lbrakk>length (runit s) - i < n; \<forall>f\<in>set (drop i (runit s)). fn_name f \<notin> symbols\<rbrakk> \<Longrightarrow> rewrite_functions n T k coverage symbols i s = Inr s"
proof (induction n arbitrary: i)
  case (Suc n)
  show ?case
  proof (cases "i < length (runit s)")
    case True
    then have "fn_name (runit s ! i) \<notin> symbols" using Suc.prems(2) by (simp add: Cons_nth_drop_Suc [symmetric])
    moreover have "\<forall>f\<in>set (drop (Suc i) (runit s)). fn_name f \<notin> symbols" using Suc.prems(2) True by (simp add: Cons_nth_drop_Suc [symmetric])
    ultimately show ?thesis using Suc True by (simp add: rewrite_function_def)
  qed simp
qed simp

lemma rewrite_functions_run:
  assumes "distinct (map fn_name u)" and "\<forall>name\<in>names u. plain name" and "\<forall>name\<in>symbols. plain name" and "no_vararg_reference T symbols u"
    and "length u + length (moves symbols u) < n"
  shows "\<exists>d'. rewrite_functions n T k False symbols 0 \<lparr>runit = u, wrappedFunctions = d, next_coverage_id = j\<rparr> =
    Inr \<lparr>runit = map (redirect symbols) u @ wrappers T k (moves symbols u) [], wrappedFunctions = d', next_coverage_id = j\<rparr>"
proof -
  let ?w = "wrappers T k (moves symbols u) []"
  obtain n' where n: "n = length u + n'" using assms(5) by (metis add.assoc add_lessD1 less_imp_add_positive)
  obtain d' where "rewrite_functions n T k False symbols 0 \<lparr>runit = u, wrappedFunctions = d, next_coverage_id = j\<rparr> =
      rewrite_functions n' T k False symbols (length u) \<lparr>runit = map (redirect symbols) u @ ?w, wrappedFunctions = d', next_coverage_id = j\<rparr>"
    using rewrite_functions_step [of "[]" u "[]" T symbols n' k d j] assms(1,2,4) n by auto
  moreover have "\<forall>f\<in>set ?w. fn_name f \<notin> symbols"
  proof
    fix f assume "f \<in> set ?w"
    then have "fn_name f \<in> names ?w" by (simp add: names_def)
    then have "\<not> plain (fn_name f)" by (auto simp: names_wrappers)
    then show "fn_name f \<notin> symbols" using assms(3) by blast
  qed
  moreover have "length ?w < n'" using length_wrappers [of T k "moves symbols u" "[]"] assms(5) n by simp
  ultimately show ?thesis using rewrite_functions_rest [of "\<lparr>runit = map (redirect symbols) u @ ?w, wrappedFunctions = d', next_coverage_id = j\<rparr>" "length u" n' symbols T k False] by simp
qed

section \<open>The uses of a name\<close>

definition uses_of :: "ir_unit \<Rightarrow> string \<Rightarrow> ir_use set" where
  "uses_of u name = set (concat (map fn_uses (filter (\<lambda>f. fn_name f = name) u)))"

definition has_body :: "ir_unit \<Rightarrow> string \<Rightarrow> bool" where
  "has_body u name \<longleftrightarrow> (\<exists>f\<in>set u. fn_name f = name \<and> \<not> fn_declaration f)"

lemma uses_of_simps [simp]:
  "uses_of [] name = {}" "uses_of (f # u) name = (if fn_name f = name then set (fn_uses f) else {}) \<union> uses_of u name"
  "uses_of (u @ v) name = uses_of u name \<union> uses_of v name"
  by (simp_all add: uses_of_def)

lemma uses_of_insert [simp]: "uses_of (getOrInsertFunction name u) n = uses_of u n"
  by (simp add: getOrInsertFunction_def)

lemma uses_of_none: "name \<notin> names u \<Longrightarrow> uses_of u name = {}"
  by (induction u) auto

lemma uses_of_add_use: "uses_of (on_function name (add_use x) u) n = (if n = name \<and> name \<in> names u then insert x (uses_of u n) else uses_of u n)"
  by (induction u) (auto simp: add_use_def)

lemma uses_of_define [simp]: "uses_of (on_function name (\<lambda>f. f\<lparr>fn_declaration := b\<rparr>) u) n = uses_of u n"
  by (induction u) auto

lemma uses_of_rename: "original \<noteq> name \<Longrightarrow> uses_of (on_function name (\<lambda>f. f\<lparr>fn_name := original, fn_uses := []\<rparr>) u) n = (if n = name then {} else uses_of u n)"
  by (induction u) auto

lemma uses_of_wrappers: "uses_of (wrappers T k ms w) n = {x. \<exists>callee. (callee, x) \<in> set ms \<and> wrappedName T k callee x = n} \<union> uses_of w n"
  unfolding wrappers_def
proof (induction ms arbitrary: w)
  case (Cons m ms)
  obtain callee x where "m = (callee, x)" by (cases m)
  then show ?case using Cons.IH [of "direct T k m w"] by (auto simp: direct_def uses_of_add_use)
qed simp

lemma uses_of_find: "distinct (map fn_name u) \<Longrightarrow> find (\<lambda>f. fn_name f = name) u = Some f \<Longrightarrow> uses_of u name = set (fn_uses f) \<and> fn_name f = name \<and> f \<in> set u"
proof (induction u)
  case (Cons g u)
  show ?case
  proof (cases "fn_name g = name")
    case True
    then have "name \<notin> names u" using Cons.prems(1) by (auto simp: names_def)
    then show ?thesis using True Cons.prems(2) by (simp add: uses_of_none)
  qed (use Cons in simp)
qed simp

lemma has_body_simps [simp]:
  "\<not> has_body [] name" "has_body (f # u) name \<longleftrightarrow> fn_name f = name \<and> \<not> fn_declaration f \<or> has_body u name" "has_body (u @ v) name \<longleftrightarrow> has_body u name \<or> has_body v name"
  by (auto simp: has_body_def)

lemma has_body_add_use [simp]: "has_body (on_function n (add_use x) u) name = has_body u name"
  by (induction u) (auto simp: add_use_def)

lemma has_body_define: "name \<in> names u \<Longrightarrow> has_body (on_function name (\<lambda>f. f\<lparr>fn_declaration := False\<rparr>) u) name"
  by (induction u) auto

lemma names_rename: "names (on_function name (\<lambda>f. f\<lparr>fn_name := original, fn_uses := []\<rparr>) u) = names u - {name} \<union> (if name \<in> names u then {original} else {})"
  by (induction u) auto

section \<open>Replaced functions\<close>

text \<open>
  A function that is configured to release memory is replaced for all its users. When the name is in the module, the function of that name has a body afterwards, it calls the
  wrapper of the runtime, and all who used the function use it still. If the function had a body before, that body is kept under a new name and
  only the replacement refers to it. The uses of all other functions stay as they are.
\<close>

theorem handleFreeFunction_replaces:
  assumes "distinct (map fn_name u)" and "find (\<lambda>f. fn_name f = name) u = Some f" and "name \<noteq> ''shm_free_wrapper''" and "name \<noteq> ''dlsym''"
    and fresh: "\<And>ns s. unique_name T ns s \<notin> set ns"
  shows "has_body (handleFreeFunction T name u) name \<and> uses_of (handleFreeFunction T name u) name = uses_of u name \<and>
    Call_use (Free_call name) \<in> uses_of (handleFreeFunction T name u) ''shm_free_wrapper'' \<and>
    (\<not> fn_declaration f \<longrightarrow> (\<exists>original. original \<notin> names u \<and> uses_of (handleFreeFunction T name u) original = {Reference_use (Free_call name)} \<and>
      (\<forall>n. n \<notin> {original, ''shm_free_wrapper''} \<longrightarrow> uses_of (handleFreeFunction T name u) n = uses_of u n))) \<and>
    (fn_declaration f \<longrightarrow> (\<forall>n. n \<notin> {''dlsym'', ''shm_free_wrapper''} \<longrightarrow> uses_of (handleFreeFunction T name u) n = uses_of u n))"
proof -
  let ?u = "getOrInsertFunction ''shm_free_wrapper'' u" and ?x = "Call_use (Free_call name)"
  have f: "uses_of u name = set (fn_uses f)" "fn_name f = name" "f \<in> set u" using uses_of_find [OF assms(1,2)] by auto
  then have name: "name \<in> names u" by (auto simp: names_def)
  show ?thesis
  proof (cases "fn_declaration f")
    case True
    let ?v = "on_function name (\<lambda>f. f\<lparr>fn_declaration := False\<rparr>) (getOrInsertFunction ''dlsym'' ?u)"
    have run: "handleFreeFunction T name u = on_function ''shm_free_wrapper'' (add_use ?x) (on_function ''dlsym'' (add_use (Call_use (Dlsym_call name))) ?v)"
      using True assms(2) by (simp add: handleFreeFunction_def Let_def)
    show ?thesis unfolding run using True assms(3,4) name by (simp add: uses_of_add_use names_on_function has_body_define)
  next
    case False
    define original where "original = unique_name T (map fn_name ?u) (name @ ''_original'')"
    have o: "original \<notin> names ?u" using fresh unfolding original_def names_def by blast
    then have o': "original \<noteq> name" "original \<noteq> ''shm_free_wrapper''" "original \<notin> names u" using name by auto
    define v where "v = on_function name (\<lambda>f. f\<lparr>fn_name := original, fn_uses := []\<rparr>) ?u @ [\<lparr>fn_name = name, fn_declaration = False, fn_uses = rev (fn_uses f)\<rparr>]"
    have run: "handleFreeFunction T name u = on_function ''shm_free_wrapper'' (add_use ?x) (on_function original (add_use (Reference_use (Free_call name))) v)"
      using False assms(2) by (simp add: handleFreeFunction_def Let_def original_def v_def)
    have names: "original \<in> names v" "''shm_free_wrapper'' \<in> names v" using name assms(3) by (simp_all add: v_def names_rename)
    have "uses_of v n = uses_of u n" for n using o' f(1) by (auto simp: v_def uses_of_rename)
    then have uses: "uses_of (handleFreeFunction T name u) n = (if n = ''shm_free_wrapper'' then {?x} else if n = original then {Reference_use (Free_call name)} else {}) \<union> uses_of u n" for n
      unfolding run using names o' by (simp add: uses_of_add_use names_on_function)
    have "has_body (handleFreeFunction T name u) name" unfolding run by simp (simp add: v_def)
    then show ?thesis using False o' assms(3) uses_of_none [OF o'(3)] by (auto simp: uses)
  qed
qed

definition longer_name :: "string list \<Rightarrow> string \<Rightarrow> string" where
  "longer_name ns s = (if s \<in> set ns then s @ replicate (Suc (sum_list (map length ns))) (CHR ''.'') else s)"

lemma longer_name_fresh: "longer_name ns s \<notin> set ns"
proof
  assume a: "longer_name ns s \<in> set ns"
  then have "length (longer_name ns s) \<le> sum_list (map length ns)" by (intro member_le_sum_list) auto
  moreover have "s \<in> set ns" using a by (auto simp: longer_name_def split: if_splits)
  ultimately show False by (simp add: longer_name_def)
qed

theorem handleFreeFunction_replaces_witness:
  "has_body (handleFreeFunction (sample_tools\<lparr>unique_name := longer_name\<rparr>) ''f'' [\<lparr>fn_name = ''f'', fn_declaration = False, fn_uses = [Call_use (Instruction 1)]\<rparr>]) ''f'' \<and>
   uses_of (handleFreeFunction (sample_tools\<lparr>unique_name := longer_name\<rparr>) ''f'' [\<lparr>fn_name = ''f'', fn_declaration = False, fn_uses = [Call_use (Instruction 1)]\<rparr>]) ''f'' =
     {Call_use (Instruction 1)}"
  using handleFreeFunction_replaces [of "[\<lparr>fn_name = ''f'', fn_declaration = False, fn_uses = [Call_use (Instruction 1)]\<rparr>]" "''f''"
      "\<lparr>fn_name = ''f'', fn_declaration = False, fn_uses = [Call_use (Instruction 1)]\<rparr>" "sample_tools\<lparr>unique_name := longer_name\<rparr>"] longer_name_fresh
  by simp

end
