(* ===== verification/Linker_Front.thy ===== *)
theory Linker_Front
  imports Ipc_Redirect
begin

text \<open>
  The front end of the linker (\<^verbatim>\<open>cali-linker/cali_linker/linker_replacement.cpp\<close>): it reads the arguments of the system linker, assigns the files among them to
  the contexts of the configuration, has the contexts rewritten and puts the new files in the place of the old ones.
\<close>

section \<open>Environment\<close>

text \<open>
  Files, the environment and the functions on paths. A file that cannot be opened has no lines.
\<close>

record linker_env =
  file_exists :: "string \<Rightarrow> bool"
  file_lines :: "string \<Rightarrow> string list"
  environment :: "string \<Rightarrow> bool"
  read_config :: "string \<Rightarrow> YamlConfig outcome"
  parent_path :: "string \<Rightarrow> string"
  path_append :: "string \<Rightarrow> string \<Rightarrow> string"
  applicationPath :: string
  current_path :: string

fun replaceAll :: "string \<Rightarrow> string \<Rightarrow> string \<Rightarrow> string" where
  "replaceAll [] from to = []"
| "replaceAll (c # s) from to =
     (if from \<noteq> [] \<and> startsWith (c # s) from then to @ replaceAll (drop (length from - 1) s) from to else c # replaceAll s from to)"

section \<open>State\<close>

text \<open>
  The contexts are in the order in which they are found; the use of an argument is the number of its context.
\<close>

record LibraryContext =
  lc_config :: ContextConfig
  is_main_module :: bool
  files :: "string list"
  is_rewritten :: bool
  rewritten_args :: "string list"

record LinkerArguments =
  arguments :: "string list"
  librarySearchpath :: "string list"
  argumentUsage :: "nat \<rightharpoonup> nat"
  libraries :: "LibraryContext list"
  la_config :: YamlConfig
  output_filename :: string
  is_shared_library :: bool

definition LibraryContext_new :: "ContextConfig \<Rightarrow> LibraryContext" where
  "LibraryContext_new c = \<lparr>lc_config = c, is_main_module = False, files = [], is_rewritten = False, rewritten_args = []\<rparr>"

section \<open>Libtool files\<close>

definition wanted_flag :: "string \<Rightarrow> bool" where
  "wanted_flag s \<longleftrightarrow> 1 < length s \<and> s \<noteq> ''-pthread''"

function addFlags :: "string \<Rightarrow> string list" where
  "addFlags text =
     (let s = takeWhile (\<lambda>c. c \<noteq> CHR '' '') text; rest = dropWhile (\<lambda>c. c \<noteq> CHR '' '') text in
      (if wanted_flag s then [s] else []) @ (if rest = [] then [] else addFlags (tl rest)))"
  by auto
termination
proof (relation "measure length")
  fix t s rest :: string
  assume rest: "rest = dropWhile (\<lambda>c. c \<noteq> CHR '' '') t" and "rest \<noteq> []"
  then have "length (tl rest) < length rest" by simp
  also have "length rest \<le> length t" unfolding rest by (rule length_dropWhile_le)
  finally show "(tl rest, t) \<in> measure length" by simp
qed simp

declare addFlags.simps [simp del]

definition directory :: "string \<Rightarrow> string" where
  "directory f = rev (dropWhile (\<lambda>c. c \<noteq> CHR ''/'') (rev f))"

fun libtool_lines :: "string \<Rightarrow> string list \<Rightarrow> string \<times> string list \<Rightarrow> string \<times> string list" where
  "libtool_lines libtoolFile [] r = r"
| "libtool_lines libtoolFile (line # lines) (library, additionalFlags) =
     libtool_lines libtoolFile lines
       (if startsWith line (''old_library='' @ [CHR 0x27]) then
          let library = take (length line - 14) (drop 13 line) in
          (if CHR ''/'' \<in> set libtoolFile \<and> (library = [] \<or> hd library \<noteq> CHR ''/'') then directory libtoolFile @ ''.libs/'' @ library else library,
           additionalFlags)
        else if startsWith line (''inherited_linker_flags='' @ [CHR 0x27]) then (library, additionalFlags @ addFlags (take (length line - 25) (drop 24 line)))
        else if startsWith line (''dependency_libs='' @ [CHR 0x27]) then (library, additionalFlags @ addFlags (take (length line - 18) (drop 17 line)))
        else (library, additionalFlags))"

definition libtool_replacement :: "linker_env \<Rightarrow> string \<Rightarrow> string list" where
  "libtool_replacement E libtoolFile = (case libtool_lines libtoolFile (file_lines E libtoolFile) ([], []) of (library, additionalFlags) \<Rightarrow> library # additionalFlags)"

definition replace_libtool_in_arguments :: "linker_env \<Rightarrow> nat \<Rightarrow> string list \<Rightarrow> string list" where
  "replace_libtool_in_arguments E argNumber args = take argNumber args @ libtool_replacement E (args ! argNumber) @ drop (Suc argNumber) args"

section \<open>Reading the arguments\<close>

definition config_option :: "string \<Rightarrow> bool" where
  "config_option s \<longleftrightarrow> startsWith s ''--ipc-config='' \<or> startsWith s ''--cali-config=''"

definition find_configfile :: "string list \<Rightarrow> string" where
  "find_configfile args =
     fold (\<lambda>s configfile. if startsWith s ''--cali-config='' then drop 14 s else if startsWith s ''--ipc-config='' then drop 13 s else configfile) args ''config.yaml''"

text \<open>
  Without a configuration the libtool files are replaced where they stand; the flags they bring along are looked at as well.
\<close>

fun replace_libtool_files :: "nat \<Rightarrow> linker_env \<Rightarrow> nat \<Rightarrow> string list \<Rightarrow> string list outcome" where
  "replace_libtool_files 0 E i args = Inl Out_of_fuel"
| "replace_libtool_files (Suc n) E i args =
     (if i < length args then
        replace_libtool_files n E (Suc i) (if endsWith (args ! i) ''.la'' then replace_libtool_in_arguments E i args else args)
      else Inr args)"

text \<open>
  Arguments are replaced from the last to the first. After an option has been erased the number of the argument is used again, which is out of range
  when it was the last one.
\<close>

definition erase_nth :: "nat \<Rightarrow> 'a list \<Rightarrow> 'a list" where
  "erase_nth i xs = take i xs @ drop (Suc i) xs"

definition modify_argument :: "YamlConfig \<Rightarrow> nat \<Rightarrow> string list \<Rightarrow> string list outcome" where
  "modify_argument cfg i args =
     (let args = (if config_option (args ! i) then erase_nth i args else args) in
      if i < length args then
        (case replaceArguments cfg (args ! i) of
           None \<Rightarrow> Inr args
         | Some [] \<Rightarrow> Inr (erase_nth i args)
         | Some (x # xs) \<Rightarrow> Inr (take i args @ x # xs @ drop (Suc i) args))
      else Inl Undefined_behaviour)"

fun modify_arguments :: "YamlConfig \<Rightarrow> nat \<Rightarrow> string list \<Rightarrow> string list outcome" where
  "modify_arguments cfg 0 args = Inr args"
| "modify_arguments cfg (Suc i) args = bind_outcome (modify_argument cfg i args) (\<lambda>args. modify_arguments cfg i args)"

definition modifyArguments :: "YamlConfig \<Rightarrow> string list \<Rightarrow> string list outcome" where
  "modifyArguments cfg args = modify_arguments cfg (length args) args"

fun parse_arguments :: "bool \<Rightarrow> bool \<Rightarrow> string list \<Rightarrow> LinkerArguments \<Rightarrow> LinkerArguments" where
  "parse_arguments skipNext nextOutput [] st = st"
| "parse_arguments skipNext nextOutput (s # ss) st =
     (if skipNext then parse_arguments False nextOutput ss st
      else if nextOutput then parse_arguments False False ss (st\<lparr>output_filename := s\<rparr>)
      else if startsWith s ''-L'' then parse_arguments False False ss (st\<lparr>librarySearchpath := librarySearchpath st @ [drop 2 s]\<rparr>)
      else if s = ''-o'' then parse_arguments False True ss st
      else if s = ''-plugin'' \<or> s = ''-rpath'' then parse_arguments True False ss st
      else if s = ''-shared'' then parse_arguments False False ss (st\<lparr>is_shared_library := True\<rparr>)
      else parse_arguments False False ss st)"

definition sample_config :: "linker_env \<Rightarrow> string \<Rightarrow> string" where
  "sample_config E f = path_append E (path_append E (path_append E (parent_path E (parent_path E (applicationPath E))) ''cali-linker'') ''sample_configs'') f"

definition LinkerArguments_new :: "nat \<Rightarrow> linker_env \<Rightarrow> string list \<Rightarrow> LinkerArguments outcome" where
  "LinkerArguments_new n E argv =
     (let args = map (\<lambda>arg. replaceAll arg ''/usr/lib/llvm-5.0'' ''/usr/lib/llvm-7'') (tl argv);
          configfile = find_configfile args;
          configfile =
            (if (configfile = [] \<or> hd configfile \<noteq> CHR ''/'') \<and> \<not> file_exists E configfile \<and> file_exists E (sample_config E configfile)
             then sample_config E configfile else configfile)
      in bind_outcome
        (if \<not> file_exists E configfile then
           bind_outcome (replace_libtool_files n E 0 args) (\<lambda>args.
             if environment E ''CALI_IGNORE_MISSING_CONFIG'' \<or> environment E ''CALI_GENERATE_CONFIG_TEMPLATES'' then Inr (YamlConfig_empty, args)
             else Inl (Runtime_error ''Config file not found''))
         else bind_outcome (read_config E configfile) (\<lambda>cfg. Inr (cfg, args)))
        (\<lambda>(cfg, args). bind_outcome (modifyArguments cfg args) (\<lambda>args.
          Inr (parse_arguments False False args
            \<lparr>arguments = args, librarySearchpath = [''.''], argumentUsage = Map.empty, libraries = [], la_config = cfg, output_filename = [],
             is_shared_library = False\<rparr>))))"

section \<open>Contexts\<close>

text \<open>
  The file of a library argument, searched in the order of the search path.
\<close>

fun search_library :: "linker_env \<Rightarrow> string list \<Rightarrow> string \<Rightarrow> string option" where
  "search_library E [] name = None"
| "search_library E (sp # sps) name =
     (if file_exists E (sp @ ''/'' @ name) then Some (sp @ ''/'' @ name)
      else if file_exists E (sp @ ''/'' @ name @ ''.so'') then Some (sp @ ''/'' @ name @ ''.so'')
      else if file_exists E (sp @ ''/'' @ name @ ''.a'') then Some (sp @ ''/'' @ name @ ''.a'')
      else search_library E sps name)"

definition find_library :: "linker_env \<Rightarrow> string list \<Rightarrow> string \<Rightarrow> string option" where
  "find_library E path name = (if file_exists E name then Some name else search_library E path name)"

text \<open>
  The contexts of the configuration in the order of their names.
\<close>

definition ordered_contexts :: "YamlConfig \<Rightarrow> ContextConfig list" where
  "ordered_contexts cfg = map (\<lambda>k. the (contexts cfg k)) (sorted_list_of_set (dom (contexts cfg)))"

record building =
  la :: LinkerArguments
  known_libs :: "string \<rightharpoonup> nat"

definition open_context :: "ContextConfig \<Rightarrow> building \<Rightarrow> nat \<times> building" where
  "open_context c b =
     (case known_libs b (cname c) of
        Some k \<Rightarrow> (k, b)
      | None \<Rightarrow> (length (libraries (la b)),
          b\<lparr>la := (la b)\<lparr>libraries := libraries (la b) @ [LibraryContext_new c]\<rparr>, known_libs := (known_libs b)(cname c \<mapsto> length (libraries (la b)))\<rparr>))"

definition add_to_context :: "string \<Rightarrow> nat option \<Rightarrow> ContextConfig \<Rightarrow> building \<Rightarrow> building" where
  "add_to_context filename i c b =
     (let (k, b) = open_context c b;
          lib = libraries (la b) ! k;
          lib = (if filename \<in> set (files lib) then lib else lib\<lparr>files := files lib @ [filename]\<rparr>);
          b = b\<lparr>la := (la b)\<lparr>libraries := (libraries (la b))[k := lib]\<rparr>\<rparr>
      in case i of None \<Rightarrow> b | Some i \<Rightarrow> b\<lparr>la := (la b)\<lparr>argumentUsage := (argumentUsage (la b))(i \<mapsto> k)\<rparr>\<rparr>)"

definition add_file_to_library_list :: "string \<Rightarrow> nat option \<Rightarrow> building \<Rightarrow> building" where
  "add_file_to_library_list filename i b =
     (case find (\<lambda>c. ContextConfig_matches c filename) (ordered_contexts (la_config (la b))) of
        None \<Rightarrow> b
      | Some c \<Rightarrow> add_to_context filename i c b)"

definition libstdcxxFile :: "linker_env \<Rightarrow> string" where
  "libstdcxxFile E =
     (let f = path_append E (parent_path E (applicationPath E)) ''libstdc++.bc'' in if file_exists E f then f else ''/usr/cali-lib/libstdc++.bc'')"

definition library_argument :: "string \<Rightarrow> bool" where
  "library_argument s \<longleftrightarrow> startsWith s ''-l'' \<or> endsWith s ''.so'' \<or> endsWith s ''.a''"

definition object_argument :: "string \<Rightarrow> bool" where
  "object_argument s \<longleftrightarrow> (endsWith s ''.o'' \<or> endsWith s ''.bc'' \<or> endsWith s ''.lo'') \<and> \<not> startsWith s ''/usr/''"

fun scan_arguments :: "nat \<Rightarrow> linker_env \<Rightarrow> nat \<Rightarrow> building \<Rightarrow> building outcome" where
  "scan_arguments 0 E i b = Inl Out_of_fuel"
| "scan_arguments (Suc n) E i b =
     (if \<not> i < length (arguments (la b)) then Inr b
      else
        let s = arguments (la b) ! i in
        if endsWith s ''.la'' then scan_arguments n E i (b\<lparr>la := (la b)\<lparr>arguments := replace_libtool_in_arguments E i (arguments (la b))\<rparr>\<rparr>)
        else if addLibstdcxx (la_config (la b)) \<and> s = ''-lstdc++'' then scan_arguments n E (Suc i) (add_file_to_library_list (libstdcxxFile E) None b)
        else if library_argument s then
          scan_arguments n E (Suc i)
            (case find_library E (librarySearchpath (la b)) (if startsWith s ''-l'' then ''lib'' @ drop 2 s else s) of
               Some lib \<Rightarrow> add_file_to_library_list lib (Some i) b
             | None \<Rightarrow> b)
        else if object_argument s then scan_arguments n E (Suc i) (add_file_to_library_list s (Some i) b)
        else if s = ''-o'' \<or> s = ''-plugin'' \<or> s = ''-rpath'' then scan_arguments n E (Suc (Suc i)) b
        else scan_arguments n E (Suc i) b)"

definition set_main :: "nat \<Rightarrow> LinkerArguments \<Rightarrow> LinkerArguments" where
  "set_main k st = st\<lparr>libraries := (libraries st)[k := (libraries st ! k)\<lparr>is_main_module := True\<rparr>]\<rparr>"

definition build_libraries :: "nat \<Rightarrow> linker_env \<Rightarrow> LinkerArguments \<Rightarrow> LinkerArguments outcome" where
  "build_libraries n E st =
     bind_outcome (scan_arguments n E 0 \<lparr>la = st\<lparr>libraries := []\<rparr>, known_libs = Map.empty\<rparr>) (\<lambda>b.
       Inr (case known_libs b ''main'' of
              Some k \<Rightarrow> set_main k (la b)
            | None \<Rightarrow> if libraries (la b) \<noteq> [] then set_main 0 (la b) else la b))"

section \<open>Rewriting the contexts\<close>

text \<open>
  The module of each context is composed once. The numbers of the compositions follow the order of the contexts; the random parts of names are drawn in turn.
\<close>

definition base_name :: "string \<Rightarrow> string" where
  "base_name f = rev (takeWhile (\<lambda>c. c \<noteq> CHR ''/'') (rev f))"

fun get_modules :: "module_tools \<Rightarrow> YamlConfig \<Rightarrow> string \<Rightarrow> (nat \<Rightarrow> string) \<Rightarrow> nat \<Rightarrow> LibraryContext list \<Rightarrow> ipc_module list outcome" where
  "get_modules T cfg output_name random k [] = Inr []"
| "get_modules T cfg output_name random k (lib # libs) =
     bind_outcome (newIpcModulesFromFiles T (files lib) cfg output_name k (random k)) (\<lambda>m.
       bind_outcome (get_modules T cfg output_name random (Suc k) libs) (\<lambda>ms. Inr (m # ms)))"

fun load_contexts :: "module_tools \<Rightarrow> LibraryContext list \<Rightarrow> ipc_module list \<Rightarrow> symbols list outcome" where
  "load_contexts T (lib # libs) (m # ms) =
     bind_outcome (loadModuleFile T (ignoredFunctions (lc_config lib)) m) (\<lambda>s. bind_outcome (load_contexts T libs ms) (\<lambda>ss. Inr (s # ss)))"
| "load_contexts T libs ms = Inr []"

definition instrumentations :: "linker_env \<Rightarrow> string" where
  "instrumentations E = path_append E (parent_path E (applicationPath E)) ''instrumentations''"

definition loadUserInstrumentation :: "module_tools \<Rightarrow> linker_env \<Rightarrow> string \<Rightarrow> string list outcome" where
  "loadUserInstrumentation T E name =
     (if name = [] then Inr []
      else bind_outcome (loadModuleFile T [] (BinaryIpcModule_new (path_append E (instrumentations E) (''libinstrument-'' @ name @ ''.so'')) False)) (\<lambda>_.
        Inr [''-L'' @ instrumentations E, ''-rpath='' @ instrumentations E, ''-linstrument-'' @ name]))"

definition call_symbols :: "symbols \<Rightarrow> symbols \<Rightarrow> string set" where
  "call_symbols s1 s2 = snd s2 \<inter> fst s1"

text \<open>
  The first two contexts are connected: the calls of the first one to functions of the second one are directed to the other process. The result are the modules and
  the new arguments.
\<close>

definition createIpcJail :: "nat \<Rightarrow> module_tools \<Rightarrow> linker_env \<Rightarrow> LibraryContext list \<Rightarrow> ipc_module list \<Rightarrow> (ipc_module list \<times> string list) outcome" where
  "createIpcJail n T E libs ms =
     bind_outcome (load_contexts T libs ms) (\<lambda>ss.
       case (libs, ms, ss) of
         (l1 # l2 # _, m1 # m2 # rest, s1 # s2 # _) \<Rightarrow>
           bind_outcome (loadUserInstrumentation T E (instrument_user (lc_config l1))) (\<lambda>a1.
             bind_outcome (loadUserInstrumentation T E (instrument_user (lc_config l2))) (\<lambda>a2.
               bind_outcome (if canRewrite m1 then rewriteFunctionCalls n T (lc_config l1) 1 (call_symbols s1 s2) {} m1 else Inr ({}, m1)) (\<lambda>(_, m1).
                 Inr (m1 # m2 # rest, a1 @ a2))))
       | _ \<Rightarrow> Inl Undefined_behaviour)"

definition libipc_args :: "linker_env \<Rightarrow> string list" where
  "libipc_args E =
     (let lib = \<lambda>d f. path_append E (path_append E (parent_path E (applicationPath E)) d) f in
      [''--whole-archive'', lib ''libipc'' ''libipc.a'', lib ''libnsjail'' ''libnsjail.a'', lib ''libnsjail'' ''libkafel.a'', ''--no-whole-archive'', ''-ldl'', ''-lrt'',
       ''-lnl-3'', ''-lnl-route-3'', ''-lpthread'', ''-lstdc++''])"

definition libipc_variant :: "ContextConfig \<Rightarrow> string \<Rightarrow> string" where
  "libipc_variant c arg =
     (if instrument c then replaceAll arg ''libipc.a'' ''libipc-instrument.a''
      else if mprotect_mode c then replaceAll arg ''libipc.a'' ''libipc-mprotect.a''
      else if sequential_mode c then replaceAll arg ''libipc.a'' ''libipc-sequential.a''
      else arg)"

definition set_output_files :: "ipc_module \<Rightarrow> LibraryContext \<Rightarrow> LibraryContext" where
  "set_output_files m lib = (if canRewrite m then lib\<lparr>rewritten_args := rewritten_args lib @ rewrittenFilename m, is_rewritten := True\<rparr> else lib)"

definition finish_context :: "linker_env \<Rightarrow> string list \<Rightarrow> LibraryContext \<Rightarrow> ipc_module \<Rightarrow> LibraryContext" where
  "finish_context E new_files lib m =
     set_output_files m
       (if is_main_module lib then lib\<lparr>rewritten_args := rewritten_args lib @ map (libipc_variant (lc_config lib)) (libipc_args E) @ new_files\<rparr> else lib)"

definition communication_file :: "linker_env \<Rightarrow> string \<Rightarrow> string" where
  "communication_file E random = path_append E (current_path E) (''communication-'' @ to_string 1 @ ''-'' @ random @ ''.bc'')"

definition prepare_ipc :: "nat \<Rightarrow> module_tools \<Rightarrow> linker_env \<Rightarrow> (nat \<Rightarrow> string) \<Rightarrow> LinkerArguments \<Rightarrow> (LinkerArguments \<times> ipc_module list) outcome" where
  "prepare_ipc n T E random st =
     bind_outcome (get_modules T (la_config st) (base_name (output_filename st)) random 0 (libraries st)) (\<lambda>ms.
       bind_outcome (createIpcJail n T E (libraries st) ms) (\<lambda>(ms, new_arguments).
         let new_files = communication_file E (random (length ms)) # new_arguments in
         Inr (st\<lparr>libraries := map2 (finish_context E new_files) (libraries st) ms\<rparr>, ms)))"

section \<open>The arguments of the real linker\<close>

definition changesRequired :: "LinkerArguments \<Rightarrow> bool" where
  "changesRequired st \<longleftrightarrow> 2 \<le> length (libraries st) \<and> \<not> is_shared_library st"

fun linker_arguments :: "LinkerArguments \<Rightarrow> nat \<Rightarrow> string list \<Rightarrow> nat set \<Rightarrow> string list" where
  "linker_arguments st i [] processed = []"
| "linker_arguments st i (a # as) processed =
     (case argumentUsage st i of
        Some k \<Rightarrow>
          if is_rewritten (libraries st ! k) then
            if k \<in> processed then linker_arguments st (Suc i) as processed
            else rewritten_args (libraries st ! k) @ linker_arguments st (Suc i) as (insert k processed)
          else a # linker_arguments st (Suc i) as processed
      | None \<Rightarrow> a # linker_arguments st (Suc i) as processed)"

definition build_linker_argument_list :: "LinkerArguments \<Rightarrow> string list" where
  "build_linker_argument_list st = linker_arguments st 0 (arguments st) {}"

definition execute_real_linker :: "LinkerArguments \<Rightarrow> string list" where
  "execute_real_linker st = ''/usr/bin/ld.lld-7'' # (if changesRequired st then build_linker_argument_list st else arguments st)"

definition link :: "nat \<Rightarrow> module_tools \<Rightarrow> linker_env \<Rightarrow> (nat \<Rightarrow> string) \<Rightarrow> LinkerArguments \<Rightarrow> string list outcome" where
  "link n T E random st =
     (if output_filename st \<in> set (ignoreOutputs (la_config st)) then Inr (execute_real_linker st)
      else bind_outcome (build_libraries n E st) (\<lambda>st.
        if changesRequired st then bind_outcome (prepare_ipc n T E random st) (\<lambda>(st, _). Inr (execute_real_linker st))
        else Inr (execute_real_linker st)))"

definition front_main :: "nat \<Rightarrow> module_tools \<Rightarrow> linker_env \<Rightarrow> (nat \<Rightarrow> string) \<Rightarrow> string list \<Rightarrow> string list outcome" where
  "front_main n T E random argv = bind_outcome (LinkerArguments_new n E argv) (\<lambda>st. link n T E random st)"

section \<open>The new argument list\<close>

text \<open>
  What stands for the argument with number \<^term>\<open>i\<close>.
\<close>

definition argument_result :: "LinkerArguments \<Rightarrow> nat \<Rightarrow> string list" where
  "argument_result st i =
     (case argumentUsage st i of
        Some k \<Rightarrow>
          if is_rewritten (libraries st ! k) then if \<exists>j<i. argumentUsage st j = Some k then [] else rewritten_args (libraries st ! k)
          else [arguments st ! i]
      | None \<Rightarrow> [arguments st ! i])"

lemma linker_arguments_eq:
  assumes "arguments st = pre @ as" and "processed = {k. (\<exists>j<length pre. argumentUsage st j = Some k) \<and> is_rewritten (libraries st ! k)}"
  shows "linker_arguments st (length pre) as processed = concat (map (argument_result st) [length pre..<length (arguments st)])"
  using assms
proof (induction as arbitrary: pre processed)
  case (Cons a as)
  let ?i = "length pre"
  have a: "arguments st ! ?i = a" using Cons.prems(1) by simp
  have upt: "[?i..<length (arguments st)] = ?i # [Suc ?i..<length (arguments st)]" using Cons.prems(1) by (intro upt_conv_Cons) simp
  have next_i: "linker_arguments st (Suc ?i) as processed' = concat (map (argument_result st) [Suc ?i..<length (arguments st)])"
    if "processed' = {k. (\<exists>j<Suc ?i. argumentUsage st j = Some k) \<and> is_rewritten (libraries st ! k)}" for processed'
    using Cons.IH [of "pre @ [a]" processed'] Cons.prems(1) that by simp
  show ?case
  proof (cases "argumentUsage st ?i")
    case None
    then have "processed = {k. (\<exists>j<Suc ?i. argumentUsage st j = Some k) \<and> is_rewritten (libraries st ! k)}"
      using Cons.prems(2) by (auto simp: less_Suc_eq)
    moreover have "argument_result st ?i = [a]" using None a by (simp add: argument_result_def)
    ultimately show ?thesis using None next_i by (simp add: upt)
  next
    case (Some k)
    then have "(if is_rewritten (libraries st ! k) then insert k processed else processed) =
        {k. (\<exists>j<Suc ?i. argumentUsage st j = Some k) \<and> is_rewritten (libraries st ! k)}"
      using Cons.prems(2) by (auto simp: less_Suc_eq)
    from next_i [OF this] have rest: "linker_arguments st (Suc ?i) as (if is_rewritten (libraries st ! k) then insert k processed else processed) =
      concat (map (argument_result st) [Suc ?i..<length (arguments st)])" .
    have "argument_result st ?i = (if is_rewritten (libraries st ! k) then if k \<in> processed then [] else rewritten_args (libraries st ! k) else [a])"
      using Some a Cons.prems(2) by (auto simp: argument_result_def)
    then show ?thesis using Some rest by (simp add: upt insert_absorb split: if_splits)
  qed
qed simp

text \<open>
  C27: The arguments of the real linker. Every argument that belongs to no context, or to a context that has not been rewritten, stays in its place. The first argument of
  a rewritten context is replaced by the new arguments of the context, its other arguments are left out. The order is kept.
\<close>

theorem build_linker_argument_list_exact:
  "build_linker_argument_list st = concat (map (\<lambda>i.
     case argumentUsage st i of
       Some k \<Rightarrow>
         if is_rewritten (libraries st ! k) then if \<exists>j<i. argumentUsage st j = Some k then [] else rewritten_args (libraries st ! k)
         else [arguments st ! i]
     | None \<Rightarrow> [arguments st ! i]) [0..<length (arguments st)])"
  using linker_arguments_eq [of st "[]" "arguments st" "{}"] by (simp add: build_linker_argument_list_def argument_result_def [abs_def])

section \<open>Replaced arguments\<close>

definition expand :: "YamlConfig \<Rightarrow> string \<Rightarrow> string list" where
  "expand cfg s = (case replaceArguments cfg s of None \<Rightarrow> [s] | Some xs \<Rightarrow> xs)"

definition stable_replacements :: "YamlConfig \<Rightarrow> bool" where
  "stable_replacements cfg \<longleftrightarrow> (\<forall>s xs. replaceArguments cfg s = Some xs \<longrightarrow> (\<forall>x\<in>set xs. replaceArguments cfg x = None))"

definition expand_all :: "YamlConfig \<Rightarrow> string list \<Rightarrow> string list" where
  "expand_all cfg args = concat (map (expand cfg) (filter (\<lambda>a. \<not> config_option a) args))"

lemma expand_all_simps [simp]:
  "expand_all cfg [] = []" "expand_all cfg (a # as) = (if config_option a then expand_all cfg as else expand cfg a @ expand_all cfg as)"
  "expand_all cfg (as @ bs) = expand_all cfg as @ expand_all cfg bs"
  by (simp_all add: expand_all_def)

lemma expanded_stable:
  assumes "stable_replacements cfg" and "x \<in> set (expand_all cfg args)"
  shows "replaceArguments cfg x = None"
proof -
  from assms(2) obtain a where a: "x \<in> set (expand cfg a)" by (auto simp: expand_all_def)
  show ?thesis
  proof (cases "replaceArguments cfg a")
    case (Some xs)
    with a have "x \<in> set xs" by (simp add: expand_def)
    with assms(1) Some show ?thesis unfolding stable_replacements_def by blast
  qed (use a in \<open>simp add: expand_def\<close>)
qed

lemma modify_argument_run:
  assumes "stable_replacements cfg" and "config_option a \<Longrightarrow> expand_all cfg bs \<noteq> []"
  shows "modify_argument cfg (length pre) (pre @ a # expand_all cfg bs) = Inr (pre @ expand_all cfg (a # bs))"
proof (cases "config_option a")
  case True
  then obtain y ys where ys: "expand_all cfg bs = y # ys" using assms(2) by (cases "expand_all cfg bs") auto
  then have "replaceArguments cfg y = None" using expanded_stable [OF assms(1), of y bs] by simp
  then show ?thesis using True by (simp add: modify_argument_def Let_def erase_nth_def ys nth_append)
next
  case False
  then show ?thesis by (auto simp: modify_argument_def Let_def erase_nth_def expand_def nth_append split: option.split list.split)
qed

lemma modify_arguments_run:
  assumes "stable_replacements cfg" and "\<And>pre a post. args = pre @ a # post \<Longrightarrow> config_option a \<Longrightarrow> expand_all cfg (post @ bs) \<noteq> []"
  shows "modify_arguments cfg (length args) (args @ expand_all cfg bs) = Inr (expand_all cfg (args @ bs))"
  using assms(2)
proof (induction args arbitrary: bs rule: rev_induct)
  case (snoc a args)
  have step: "modify_argument cfg (length args) (args @ a # expand_all cfg bs) = Inr (args @ expand_all cfg (a # bs))"
    using snoc.prems [of args a "[]"] by (intro modify_argument_run [OF assms(1)]) simp
  have rest: "modify_arguments cfg (length args) (args @ expand_all cfg (a # bs)) = Inr (expand_all cfg (args @ a # bs))"
  proof (rule snoc.IH)
    fix pre x post assume "args = pre @ x # post" and "config_option x"
    then have "expand_all cfg ((post @ [a]) @ bs) \<noteq> []" by (intro snoc.prems [of pre x]) simp_all
    then show "expand_all cfg (post @ a # bs) \<noteq> []" by (simp only: append_assoc append.simps not_False_eq_True)
  qed
  have "modify_arguments cfg (length (args @ [a])) ((args @ [a]) @ expand_all cfg bs) =
      bind_outcome (modify_argument cfg (length args) (args @ a # expand_all cfg bs)) (\<lambda>as. modify_arguments cfg (length args) as)" by simp
  then show ?case unfolding step using rest by simp
qed simp

text \<open>
  The arguments are replaced as configured. When no replacement is itself replaced and something is left of the arguments after every option for the configuration file,
  the options are removed and each other argument is replaced by its replacement, in place. When such an option is the last argument, an element
  behind the end of the list is read.
\<close>

theorem modifyArguments_exact:
  assumes "stable_replacements cfg"
  shows "((\<forall>pre a post. args = pre @ a # post \<longrightarrow> config_option a \<longrightarrow> expand_all cfg post \<noteq> []) \<longrightarrow>
      modifyArguments cfg args = Inr (expand_all cfg args)) \<and>
    (args \<noteq> [] \<and> config_option (last args) \<longrightarrow> modifyArguments cfg args = Inl Undefined_behaviour)"
proof (intro conjI impI)
  assume "\<forall>pre a post. args = pre @ a # post \<longrightarrow> config_option a \<longrightarrow> expand_all cfg post \<noteq> []"
  then show "modifyArguments cfg args = Inr (expand_all cfg args)"
    using modify_arguments_run [OF assms, of args "[]"] by (auto simp: modifyArguments_def)
next
  assume a: "args \<noteq> [] \<and> config_option (last args)"
  then obtain pre x where "args = pre @ [x]" by (cases args rule: rev_cases) auto
  with a show "modifyArguments cfg args = Inl Undefined_behaviour"
    by (simp add: modifyArguments_def modify_argument_def erase_nth_def Let_def)
qed

definition sample_replacement :: YamlConfig where
  "sample_replacement = YamlConfig_new\<lparr>replaceArguments := [''-la'' \<mapsto> [''-lb'', ''-lc'']]\<rparr>"

theorem modifyArguments_exact_witness:
  "modifyArguments sample_replacement [''--cali-config=x'', ''-la''] = Inr [''-lb'', ''-lc''] \<and>
   modifyArguments sample_replacement [''-la'', ''--cali-config=x''] = Inl Undefined_behaviour"
proof -
  have st: "stable_replacements sample_replacement" by (simp add: stable_replacements_def sample_replacement_def YamlConfig_new_def split: if_splits)
  have opt: "config_option ''--cali-config=x''" "\<not> config_option ''-la''" by code_simp+
  have exp: "expand sample_replacement ''-la'' = [''-lb'', ''-lc'']" by (simp add: expand_def sample_replacement_def YamlConfig_new_def)
  have "\<forall>pre a post. [''--cali-config=x'', ''-la''] = pre @ a # post \<longrightarrow> config_option a \<longrightarrow> expand_all sample_replacement post \<noteq> []"
    using opt exp by (auto simp: Cons_eq_append_conv)
  then show ?thesis
    using modifyArguments_exact [OF st, of "[''--cali-config=x'', ''-la'']"] modifyArguments_exact [OF st, of "[''-la'', ''--cali-config=x'']"] opt exp by simp
qed

section \<open>The contexts of the arguments\<close>

text \<open>
  The file that an argument stands for.
\<close>

definition argument_file :: "linker_env \<Rightarrow> LinkerArguments \<Rightarrow> string \<Rightarrow> string option" where
  "argument_file E st s =
     (if library_argument s then find_library E (librarySearchpath st) (if startsWith s ''-l'' then ''lib'' @ drop 2 s else s)
      else if object_argument s then Some s else None)"

definition context_of :: "YamlConfig \<Rightarrow> string \<Rightarrow> ContextConfig option" where
  "context_of cfg f = find (\<lambda>c. ContextConfig_matches c f) (ordered_contexts cfg)"

definition named_contexts :: "YamlConfig \<Rightarrow> bool" where
  "named_contexts cfg \<longleftrightarrow> (\<forall>k c. contexts cfg k = Some c \<longrightarrow> cname c = k)"

lemma context_of_named: "named_contexts cfg \<Longrightarrow> context_of cfg f = Some c \<Longrightarrow> contexts cfg (cname c) = Some c \<and> ContextConfig_matches c f"
proof -
  assume n: "named_contexts cfg" and c: "context_of cfg f = Some c"
  from c have "c \<in> set (ordered_contexts cfg)" "ContextConfig_matches c f" by (auto simp: context_of_def find_Some_iff)
  moreover from this(1) obtain k where "contexts cfg k = Some c"
    by (cases "finite (dom (contexts cfg))") (auto simp: ordered_contexts_def)
  ultimately show ?thesis using n by (auto simp: named_contexts_def)
qed

text \<open>
  The state of the scan after the first \<^term>\<open>i\<close> arguments. A used argument stands for a file of its context, which is the first one that selects the file.
\<close>

definition use_ok :: "linker_env \<Rightarrow> LinkerArguments \<Rightarrow> nat \<Rightarrow> nat \<Rightarrow> bool" where
  "use_ok E st j k \<longleftrightarrow> j < length (arguments st) \<and> k < length (libraries st) \<and>
     (\<exists>f. argument_file E st (arguments st ! j) = Some f \<and> f \<in> set (files (libraries st ! k)) \<and>
        context_of (la_config st) f = Some (lc_config (libraries st ! k)))"

definition plain_context :: "YamlConfig \<Rightarrow> LibraryContext \<Rightarrow> bool" where
  "plain_context cfg lib \<longleftrightarrow> contexts cfg (cname (lc_config lib)) = Some (lc_config lib) \<and> \<not> is_main_module lib \<and> \<not> is_rewritten lib \<and> rewritten_args lib = []"

definition scanned :: "linker_env \<Rightarrow> nat \<Rightarrow> building \<Rightarrow> bool" where
  "scanned E i b \<longleftrightarrow> (\<forall>name k. known_libs b name = Some k \<longleftrightarrow> k < length (libraries (la b)) \<and> cname (lc_config (libraries (la b) ! k)) = name) \<and>
     (\<forall>lib\<in>set (libraries (la b)). plain_context (la_config (la b)) lib) \<and>
     (\<forall>j k. argumentUsage (la b) j = Some k \<longrightarrow> j < i \<and> use_ok E (la b) j k)"

definition same_command :: "building \<Rightarrow> building \<Rightarrow> bool" where
  "same_command b b' \<longleftrightarrow> arguments (la b') = arguments (la b) \<and> librarySearchpath (la b') = librarySearchpath (la b) \<and> la_config (la b') = la_config (la b)"

lemma argument_file_same: "same_command b b' \<Longrightarrow> argument_file E (la b') s = argument_file E (la b) s"
  by (simp add: argument_file_def same_command_def)

lemma open_context_scanned:
  assumes "scanned E i b" and "contexts (la_config (la b)) (cname c) = Some c" and "open_context c b = (k, b')"
  shows "scanned E i b'" "k < length (libraries (la b'))" "lc_config (libraries (la b') ! k) = c" "same_command b b'" "argumentUsage (la b') = argumentUsage (la b)"
proof -
  have known: "known_libs b name = Some k \<longleftrightarrow> k < length (libraries (la b)) \<and> cname (lc_config (libraries (la b) ! k)) = name" for name k
    using assms(1) by (simp add: scanned_def)
  have "scanned E i b' \<and> k < length (libraries (la b')) \<and> lc_config (libraries (la b') ! k) = c \<and> same_command b b' \<and> argumentUsage (la b') = argumentUsage (la b)"
  proof (cases "known_libs b (cname c)")
    case (Some l)
    then have l: "l < length (libraries (la b))" "cname (lc_config (libraries (la b) ! l)) = cname c" using known by simp_all
    have "plain_context (la_config (la b)) (libraries (la b) ! l)" using assms(1) nth_mem [OF l(1)] by (simp add: scanned_def)
    then have "contexts (la_config (la b)) (cname c) = Some (lc_config (libraries (la b) ! l))" unfolding plain_context_def l(2) by (rule conjunct1)
    then have "lc_config (libraries (la b) ! l) = c" unfolding assms(2) by simp
    then show ?thesis using Some assms(1,3) l(1) by (simp add: open_context_def same_command_def)
  next
    case None
    then have k: "k = length (libraries (la b))"
      and b': "b' = b\<lparr>la := (la b)\<lparr>libraries := libraries (la b) @ [LibraryContext_new c]\<rparr>, known_libs := (known_libs b)(cname c \<mapsto> length (libraries (la b)))\<rparr>"
      using assms(3) by (auto simp: open_context_def)
    have fresh: "cname (lc_config (libraries (la b) ! l)) \<noteq> cname c" if "l < length (libraries (la b))" for l
      using known [of "cname c" l] None that by simp
    have cmd: "same_command b b'" by (simp add: b' same_command_def)
    have uses: "use_ok E (la b') j l" if "use_ok E (la b) j l" for j l
      using that argument_file_same [OF cmd, of E] by (auto simp: use_ok_def b' nth_append)
    have lib: "libraries (la b') = libraries (la b) @ [LibraryContext_new c]" "known_libs b' = (known_libs b)(cname c \<mapsto> length (libraries (la b)))"
      "la_config (la b') = la_config (la b)" "argumentUsage (la b') = argumentUsage (la b)" by (simp_all add: b')
    have "known_libs b' name = Some l \<longleftrightarrow> l < length (libraries (la b')) \<and> cname (lc_config (libraries (la b') ! l)) = name" for name l
      unfolding lib using known [of name l] fresh [of l] by (auto simp: nth_append less_Suc_eq LibraryContext_new_def)
    moreover have "plain_context (la_config (la b)) (LibraryContext_new c)" using assms(2) by (simp add: plain_context_def LibraryContext_new_def)
    ultimately have "scanned E i b'"
      using assms(1) uses unfolding scanned_def lib(3,4) by (simp add: lib(1))
    then show ?thesis by (simp add: b' k same_command_def LibraryContext_new_def)
  qed
  then show "scanned E i b'" "k < length (libraries (la b'))" "lc_config (libraries (la b') ! k) = c" "same_command b b'" "argumentUsage (la b') = argumentUsage (la b)"
    by blast+
qed

lemma add_file_scanned:
  assumes b: "scanned E i b" and n: "named_contexts (la_config (la b))"
    and j: "\<And>x. j = Some x \<Longrightarrow> x = i \<and> i < length (arguments (la b)) \<and> argument_file E (la b) (arguments (la b) ! i) = Some f"
  shows "scanned E (Suc i) (add_file_to_library_list f j b) \<and> same_command b (add_file_to_library_list f j b)"
proof (cases "context_of (la_config (la b)) f")
  case None
  then have "add_file_to_library_list f j b = b" by (simp add: add_file_to_library_list_def context_of_def)
  then show ?thesis using b by (auto simp: scanned_def same_command_def intro: less_SucI)
next
  case (Some c)
  note c = context_of_named [OF n Some]
  obtain k b1 where o: "open_context c b = (k, b1)" by fastforce
  note b1 = open_context_scanned [OF b conjunct1 [OF c] o]
  let ?lib = "libraries (la b1) ! k"
  let ?new = "if f \<in> set (files ?lib) then ?lib else ?lib\<lparr>files := files ?lib @ [f]\<rparr>"
  define b2 where "b2 = b1\<lparr>la := (la b1)\<lparr>libraries := (libraries (la b1))[k := ?new]\<rparr>\<rparr>"
  have run: "add_file_to_library_list f j b = (case j of None \<Rightarrow> b2 | Some x \<Rightarrow> b2\<lparr>la := (la b2)\<lparr>argumentUsage := (argumentUsage (la b2))(x \<mapsto> k)\<rparr>\<rparr>)"
    using Some o by (simp add: add_file_to_library_list_def context_of_def add_to_context_def b2_def Let_def split: option.split)
  have new: "lc_config ?new = c" "plain_context cfg ?new = plain_context cfg ?lib" "set (files ?new) = insert f (set (files ?lib))" for cfg
    using b1(3) by (auto simp: plain_context_def)
  have libs: "libraries (la b2) ! l = (if l = k then ?new else libraries (la b1) ! l)" if "l < length (libraries (la b1))" for l
    using that by (auto simp: b2_def nth_list_update)
  have fields: "length (libraries (la b2)) = length (libraries (la b1))" "known_libs b2 = known_libs b1" "la_config (la b2) = la_config (la b)"
    "arguments (la b2) = arguments (la b)" "librarySearchpath (la b2) = librarySearchpath (la b)" "argumentUsage (la b2) = argumentUsage (la b)"
    using b1(4,5) by (simp_all add: b2_def same_command_def)
  have cmd: "same_command b b2" "same_command b1 b2" using fields b1(4) by (simp_all add: same_command_def)
  have known: "known_libs b2 name = Some l \<longleftrightarrow> l < length (libraries (la b2)) \<and> cname (lc_config (libraries (la b2) ! l)) = name" for name l
    using b1(1,3) libs [of l] new(1) unfolding scanned_def fields(1,2) by (cases "l = k") auto
  have plain: "\<forall>lib\<in>set (libraries (la b2)). plain_context (la_config (la b2)) lib"
    using b1(1,2) new(2) cmd(2) unfolding scanned_def by (auto simp: b2_def same_command_def dest!: set_update_subset_insert [THEN subsetD])
  have use: "use_ok E (la b2) x l" if "use_ok E (la b1) x l" for x l
    using that libs [of l] new(1,3) b1(3) cmd(2) argument_file_same [OF cmd(2), of E] fields(1) unfolding use_ok_def by (auto simp: same_command_def)
  have s2: "scanned E (Suc i) b2"
    unfolding scanned_def using known plain use b1(1,5) fields(6) by (auto simp: scanned_def intro: less_SucI)
  show ?thesis
  proof (cases j)
    case None
    then show ?thesis using run s2 cmd(1) by simp
  next
    case (Some x)
    then have x: "x = i" "i < length (arguments (la b))" "argument_file E (la b) (arguments (la b) ! i) = Some f" using j by simp_all
    let ?b = "b2\<lparr>la := (la b2)\<lparr>argumentUsage := (argumentUsage (la b2))(i \<mapsto> k)\<rparr>\<rparr>"
    have same: "use_ok E (la ?b) y l = use_ok E (la b2) y l" for y l by (simp add: use_ok_def argument_file_def)
    have "use_ok E (la b2) i k"
      using x(2,3) b1(2) libs [OF b1(2)] new(1,3) \<open>context_of (la_config (la b)) f = Some c\<close> argument_file_same [OF cmd(1), of E]
      by (auto simp: use_ok_def fields)
    then have "scanned E (Suc i) ?b" using s2 unfolding scanned_def same by auto
    then show ?thesis using run Some x(1) cmd(1) by (simp add: same_command_def)
  qed
qed

lemma scanned_mono: "scanned E i b \<Longrightarrow> i \<le> i' \<Longrightarrow> scanned E i' b"
  unfolding scanned_def by (blast intro: less_le_trans)

lemma replace_libtool_before:
  assumes "i < length args" and "j < i"
  shows "replace_libtool_in_arguments E i args ! j = args ! j" "j < length (replace_libtool_in_arguments E i args)"
  using assms by (simp_all add: replace_libtool_in_arguments_def nth_append)

lemma libtool_scanned:
  assumes "scanned E i b" and "i < length (arguments (la b))"
  shows "scanned E i (b\<lparr>la := (la b)\<lparr>arguments := replace_libtool_in_arguments E i (arguments (la b))\<rparr>\<rparr>)"
proof -
  let ?b = "b\<lparr>la := (la b)\<lparr>arguments := replace_libtool_in_arguments E i (arguments (la b))\<rparr>\<rparr>"
  have af: "argument_file E ((la b)\<lparr>arguments := x\<rparr>) = argument_file E (la b)" for x by (simp add: argument_file_def fun_eq_iff)
  have "use_ok E (la ?b) j k" if "use_ok E (la b) j k" "j < i" for j k
    using that replace_libtool_before [OF assms(2) that(2), of E] by (simp add: use_ok_def af)
  then show ?thesis using assms(1) by (simp add: scanned_def)
qed

lemma scan_arguments_scanned:
  "scan_arguments n E i b = Inr b' \<Longrightarrow> scanned E i b \<Longrightarrow> named_contexts (la_config (la b)) \<Longrightarrow>
     (\<exists>i'. scanned E i' b') \<and> la_config (la b') = la_config (la b)"
proof (induction n arbitrary: i b)
  case (Suc n)
  let ?s = "arguments (la b) ! i"
  show ?case
  proof (cases "i < length (arguments (la b))")
    case False
    then have "b' = b" using Suc.prems(1) by simp
    then show ?thesis using Suc.prems(2) by blast
  next
    case i: True
    have go: "(\<exists>i'. scanned E i' b') \<and> la_config (la b') = la_config (la b)"
      if "scan_arguments n E j b1 = Inr b'" "scanned E j b1" "la_config (la b1) = la_config (la b)" for j b1
      using Suc.IH [OF that(1,2)] Suc.prems(3) that(3) by simp
    have add: "scanned E (Suc i) (add_file_to_library_list f x b) \<and> la_config (la (add_file_to_library_list f x b)) = la_config (la b)"
      if "\<And>y. x = Some y \<Longrightarrow> y = i \<and> argument_file E (la b) ?s = Some f" for f x
    proof -
      have "y = i \<and> i < length (arguments (la b)) \<and> argument_file E (la b) ?s = Some f" if "x = Some y" for y using \<open>\<And>y. x = Some y \<Longrightarrow> _\<close> [OF that] i by simp
      from add_file_scanned [OF Suc.prems(2,3) this] show ?thesis by (simp add: same_command_def)
    qed
    consider (libtool) "endsWith ?s ''.la''" | (cxx) "\<not> endsWith ?s ''.la''" "addLibstdcxx (la_config (la b)) \<and> ?s = ''-lstdc++''"
      | (library) "\<not> endsWith ?s ''.la''" "\<not> (addLibstdcxx (la_config (la b)) \<and> ?s = ''-lstdc++'')" "library_argument ?s"
      | (object) "\<not> endsWith ?s ''.la''" "\<not> (addLibstdcxx (la_config (la b)) \<and> ?s = ''-lstdc++'')" "\<not> library_argument ?s" "object_argument ?s"
      | (other) "\<not> endsWith ?s ''.la''" "\<not> (addLibstdcxx (la_config (la b)) \<and> ?s = ''-lstdc++'')" "\<not> library_argument ?s" "\<not> object_argument ?s" by blast
    then show ?thesis
    proof cases
      case libtool
      then show ?thesis using Suc.prems(1) i by (intro go [OF _ libtool_scanned [OF Suc.prems(2) i]]) (simp_all add: Let_def)
    next
      case cxx
      then have "scan_arguments n E (Suc i) (add_file_to_library_list (libstdcxxFile E) None b) = Inr b'" using Suc.prems(1) i by (simp add: Let_def)
      from go [OF this] add [of None "libstdcxxFile E"] show ?thesis by simp
    next
      case library
      have af: "argument_file E (la b) ?s = find_library E (librarySearchpath (la b)) (if startsWith ?s ''-l'' then ''lib'' @ drop 2 ?s else ?s)"
        using library(3) by (simp add: argument_file_def)
      have "scan_arguments n E (Suc i) (case argument_file E (la b) ?s of Some lib \<Rightarrow> add_file_to_library_list lib (Some i) b | None \<Rightarrow> b) = Inr b'"
        using Suc.prems(1) i library unfolding af by (simp add: Let_def)
      moreover have "scanned E (Suc i) (case argument_file E (la b) ?s of Some lib \<Rightarrow> add_file_to_library_list lib (Some i) b | None \<Rightarrow> b)"
        "la_config (la (case argument_file E (la b) ?s of Some lib \<Rightarrow> add_file_to_library_list lib (Some i) b | None \<Rightarrow> b)) = la_config (la b)"
        using add [of "Some i"] scanned_mono [OF Suc.prems(2), of "Suc i"] by (cases "argument_file E (la b) ?s"; simp)+
      ultimately show ?thesis by (rule go)
    next
      case object
      then have "scan_arguments n E (Suc i) (add_file_to_library_list ?s (Some i) b) = Inr b'" using Suc.prems(1) i by (simp add: Let_def split: if_splits)
      moreover have "argument_file E (la b) ?s = Some ?s" using object by (simp add: argument_file_def)
      ultimately show ?thesis using go add [of "Some i" ?s] by simp
    next
      case other
      then have "scan_arguments n E (Suc i) b = Inr b' \<or> scan_arguments n E (Suc (Suc i)) b = Inr b'"
        using Suc.prems(1) i by (auto simp: Let_def split: if_splits)
      then show ?thesis using go scanned_mono [OF Suc.prems(2)] by auto
    qed
  qed
qed simp


definition sample_env :: linker_env where
  "sample_env = \<lparr>file_exists = (\<lambda>f. f = ''./libp.a''), file_lines = (\<lambda>f. if f = ''q.la'' then [''old_library='' @ [CHR 0x27] @ ''p.a'' @ [CHR 0x27]] else []),
     environment = (\<lambda>_. False), read_config = (\<lambda>_. Inr YamlConfig_new), parent_path = id, path_append = (@), applicationPath = [], current_path = []\<rparr>"

definition sample_contexts :: YamlConfig where
  "sample_contexts = YamlConfig_new\<lparr>contexts :=
     [''main'' \<mapsto> ContextConfig_new\<lparr>cname := ''main'', selectors := [''m.o'']\<rparr>, ''lib'' \<mapsto> ContextConfig_new\<lparr>cname := ''lib'', selectors := [''*.a'']\<rparr>]\<rparr>"

definition sample_arguments :: LinkerArguments where
  "sample_arguments = \<lparr>arguments = [''m.o'', ''-lp''], librarySearchpath = [''.''], argumentUsage = Map.empty, libraries = [], la_config = sample_contexts,
     output_filename = ''x'', is_shared_library = False\<rparr>"

lemma sample_ordered: "ordered_contexts sample_contexts =
    [ContextConfig_new\<lparr>cname := ''lib'', selectors := [''*.a'']\<rparr>, ContextConfig_new\<lparr>cname := ''main'', selectors := [''m.o'']\<rparr>]"
proof -
  have "sorted_list_of_set (set [''lib'', ''main'']) = [''lib'', ''main'']"
    by (rule sorted_list_of_set.idem_if_sorted_distinct) (simp_all add: less_eq_char_def less_char_def)
  then show ?thesis by (simp add: ordered_contexts_def sample_contexts_def YamlConfig_new_def)
qed

lemma sample_build: "build_libraries (Suc (Suc (Suc 0))) sample_env sample_arguments = Inr (sample_arguments\<lparr>argumentUsage := [0 \<mapsto> 0, 1 \<mapsto> 1],
    libraries := [\<lparr>lc_config = ContextConfig_new\<lparr>cname := ''main'', selectors := [''m.o'']\<rparr>, is_main_module = True, files = [''m.o''], is_rewritten = False, rewritten_args = []\<rparr>,
      \<lparr>lc_config = ContextConfig_new\<lparr>cname := ''lib'', selectors := [''*.a'']\<rparr>, is_main_module = False, files = [''./libp.a''], is_rewritten = False, rewritten_args = []\<rparr>]\<rparr>)"
proof -
  have m: "ContextConfig_matches (ContextConfig_new\<lparr>cname := ''lib'', selectors := [''*.a'']\<rparr>) ''./libp.a''"
    "\<not> ContextConfig_matches (ContextConfig_new\<lparr>cname := ''lib'', selectors := [''*.a'']\<rparr>) ''m.o''"
    "ContextConfig_matches (ContextConfig_new\<lparr>cname := ''main'', selectors := [''m.o'']\<rparr>) ''m.o''" by code_simp+
  have f: "find_library sample_env [''.''] ''libp'' = Some ''./libp.a''" by code_simp
  have k: "\<not> endsWith ''m.o'' ''.la''" "\<not> library_argument ''m.o''" "object_argument ''m.o''" "\<not> endsWith ''-lp'' ''.la''" "library_argument ''-lp''" "startsWith ''-lp'' ''-l''"
    by code_simp+
  have c: "cname (ContextConfig_new\<lparr>cname := n, selectors := l\<rparr>) = n" for n l by simp
  have x: "\<not> addLibstdcxx sample_contexts" by (simp add: sample_contexts_def YamlConfig_new_def)
  show ?thesis
    by (simp add: build_libraries_def sample_arguments_def Let_def k f x c m sample_ordered add_file_to_library_list_def add_to_context_def open_context_def
        LibraryContext_new_def set_main_def del: One_nat_def) (simp add: fun_upd_twist)
qed


section \<open>The scan ends\<close>

definition weight :: "linker_env \<Rightarrow> string \<Rightarrow> nat" where
  "weight E s = (if endsWith s ''.la'' then 2 + length (libtool_replacement E s) else 1)"

definition weights :: "linker_env \<Rightarrow> string list \<Rightarrow> nat" where
  "weights E args = sum_list (map (weight E) args)"

definition libtool_flat :: "linker_env \<Rightarrow> bool" where
  "libtool_flat E \<longleftrightarrow> (\<forall>f. \<forall>x\<in>set (libtool_replacement E f). \<not> endsWith x ''.la'')"

lemma add_file_arguments: "arguments (la (add_file_to_library_list f j b)) = arguments (la b)"
  by (simp add: add_file_to_library_list_def add_to_context_def open_context_def Let_def split: option.split prod.split)

lemma weights_drop: "i < length args \<Longrightarrow> weights E (drop i args) = weight E (args ! i) + weights E (drop (Suc i) args)"
  by (simp add: weights_def Cons_nth_drop_Suc [symmetric])

lemma weights_libtool:
  assumes "libtool_flat E" and "i < length args" and "endsWith (args ! i) ''.la''"
  shows "weights E (drop i (replace_libtool_in_arguments E i args)) < weights E (drop i args)"
proof -
  have "map (weight E) (libtool_replacement E (args ! i)) = map (\<lambda>_. 1) (libtool_replacement E (args ! i))"
    using assms(1) by (auto simp: weight_def libtool_flat_def)
  then have "weights E (libtool_replacement E (args ! i)) = length (libtool_replacement E (args ! i))" unfolding weights_def by (simp only: sum_list_triv) simp
  moreover have "drop i (replace_libtool_in_arguments E i args) = libtool_replacement E (args ! i) @ drop (Suc i) args"
    using assms(2) by (simp add: replace_libtool_in_arguments_def)
  ultimately show ?thesis using assms(3) weights_drop [OF assms(2), of E] by (simp add: weights_def) (simp add: weight_def)
qed

lemma scan_arguments_returns:
  "libtool_flat E \<Longrightarrow> weights E (drop i (arguments (la b))) < n \<Longrightarrow> \<exists>b'. scan_arguments n E i b = Inr b'"
proof (induction n arbitrary: i b)
  case (Suc n)
  show ?case
  proof (cases "i < length (arguments (la b))")
    case i: True
    let ?s = "arguments (la b) ! i"
    have step: "\<exists>b'. scan_arguments n E j b1 = Inr b'" if "arguments (la b1) = arguments (la b)" "i < j" "\<not> endsWith ?s ''.la''" for j b1
    proof (rule Suc.IH [OF Suc.prems(1)])
      have "weights E (drop j (arguments (la b))) \<le> weights E (drop (Suc i) (arguments (la b)))"
      proof -
        have "drop (Suc i) (arguments (la b)) = take (j - Suc i) (drop (Suc i) (arguments (la b))) @ drop j (arguments (la b))"
          using that(2) append_take_drop_id [of "j - Suc i" "drop (Suc i) (arguments (la b))"] by simp
        then show ?thesis by (metis weights_def map_append sum_list_append le_add2)
      qed
      then show "weights E (drop j (arguments (la b1))) < n"
        using Suc.prems(2) that weights_drop [OF i, of E] by (simp add: weight_def)
    qed
    show ?thesis
    proof (cases "endsWith ?s ''.la''")
      case True
      have "weights E (drop i (replace_libtool_in_arguments E i (arguments (la b)))) < n"
        using weights_libtool [OF Suc.prems(1) i True] Suc.prems(2) by simp
      then show ?thesis using True i Suc.IH [OF Suc.prems(1)] by (simp add: Let_def)
    next
      case False
      then show ?thesis using i step by (auto simp: Let_def add_file_arguments split: option.split)
    qed
  qed simp
qed simp

text \<open>
  The scan of the arguments ends. Where no libtool file brings in another libtool file, fuel for the arguments and for those that the libtool files among them
  bring in is enough, so the contexts are built.
\<close>

theorem build_libraries_returns:
  assumes "libtool_flat E" and "weights E (arguments st) < n"
  shows "\<exists>st'. build_libraries n E st = Inr st'"
  using scan_arguments_returns [OF assms(1), of 0 "\<lparr>la = st\<lparr>libraries := []\<rparr>, known_libs = Map.empty\<rparr>" n] assms(2)
  by (auto simp: build_libraries_def)

lemma sample_libtool: "libtool_replacement sample_env f = (if f = ''q.la'' then [''p.a''] else [[]])"
proof -
  have "libtool_replacement sample_env ''q.la'' = [''p.a'']" by code_simp
  then show ?thesis by (simp add: libtool_replacement_def sample_env_def)
qed

theorem build_libraries_returns_witness:
  "\<exists>st'. build_libraries 5 sample_env (sample_arguments\<lparr>arguments := [''q.la'', ''m.o'']\<rparr>) = Inr st'"
proof -
  have "\<not> endsWith ''p.a'' ''.la''" "\<not> endsWith [] ''.la''" by code_simp+
  then have "libtool_flat sample_env" by (simp add: libtool_flat_def sample_libtool)
  moreover have "weights sample_env [''q.la'', ''m.o''] < 5" by code_simp
  ultimately show ?thesis using build_libraries_returns [of sample_env "sample_arguments\<lparr>arguments := [''q.la'', ''m.o'']\<rparr>" 5] by simp
qed

text \<open>
  A libtool file that names itself as its library is read again and again.
\<close>

lemma scan_libtool_loop:
  "libtool_replacement E f = f # fs \<Longrightarrow> endsWith f ''.la'' \<Longrightarrow> i < length (arguments (la b)) \<Longrightarrow> arguments (la b) ! i = f \<Longrightarrow> scan_arguments n E i b = Inl Out_of_fuel"
proof (induction n arbitrary: b)
  case (Suc n)
  let ?args = "replace_libtool_in_arguments E i (arguments (la b))"
  have "i < length ?args" "?args ! i = f" using Suc.prems by (simp_all add: replace_libtool_in_arguments_def nth_append)
  then show ?case using Suc by (simp add: Let_def)
qed simp

section \<open>The calls between the first two contexts\<close>


definition sample_caller :: ir_unit where
  "sample_caller = [\<lparr>fn_name = ''f'', fn_declaration = True, fn_uses = [Call_use (Instruction 1), Reference_use (Instruction 2), Call_use (Instruction 3)]\<rparr>,
     \<lparr>fn_name = ''main'', fn_declaration = False, fn_uses = []\<rparr>]"

definition sample_callee :: ir_unit where
  "sample_callee = [\<lparr>fn_name = ''f'', fn_declaration = False, fn_uses = []\<rparr>]"


end
