(* ===== verification/Spec2Isabelle.thy ===== *)
theory Spec2Isabelle
  imports Shm_Mmap Shm_Alloc Ipc_Liveness Fd_Mapping Callbacks Seccomp_Filter Mappings Pdg_Call_Copy Pdg_Shared_Reach Pdg_Shared_Memory Pdg_Clone Linker_Front
begin

text \<open>
  A verification library for Cali, which moves a library of a program into a process of its own. Cali has two halves.

  The runtime (\<^verbatim>\<open>libipc\<close>) is linked into the program. It forks the process that holds the library, shares a segment of memory with it, passes
  calls, callbacks and file descriptors between the two processes and installs a system call filter in the library's process. The linker
  (\<^verbatim>\<open>cali-linker\<close>) replaces the system linker. It reads LLVM modules, builds a program dependence graph of the program, decides with searches on that graph
  which allocations have to live in shared memory and which functions handle descriptors, and generates the stubs that call the runtime.

  \<^bold>\<open>Conventions\<close> (\<^verbatim>\<open>Cali_Prelude\<close>). Machine integers are words of 8, 32 and 64 bits; a routine that can throw, abort or fail an assertion returns
  \<^verbatim>\<open>'a outcome\<close>, the sum of a \<^verbatim>\<open>failure\<close> and a value; stateful routines pass a record. What the kernel, the C library and LLVM answer is an argument of the
  definitions that use it. Interfaces between components are locales, each interpreted on the definitions of the component that provides it:
  \<^verbatim>\<open>page_bitmap\<close> (the bitmap for the page allocator), \<^verbatim>\<open>fd_table\<close> (one translation table for the pair of them), \<^verbatim>\<open>color_table\<close> (the packed colours for the
  searches), \<^verbatim>\<open>bfs_client\<close>, \<^verbatim>\<open>bfs_invariant\<close> and \<^verbatim>\<open>dfs_client\<close> (the searches for their visitors), \<^verbatim>\<open>node_marking\<close> (one mark spread along the structure
  of a value) and \<^verbatim>\<open>observation\<close> (what a routine adds to an observation of its state). \<^verbatim>\<open>bfs_visiting\<close> and
  \<^verbatim>\<open>bfs_examiner\<close> are the contracts of visitors that change the graph they search.

  \<^bold>\<open>Shared memory\<close> (\<^verbatim>\<open>libipc/shared_memory_manager.cpp\<close>, \<^verbatim>\<open>byte_bitset.h\<close>, \<^verbatim>\<open>shm_malloc.h\<close>, \<^verbatim>\<open>shared_lock.h\<close>, \<^verbatim>\<open>shared_memory_locking.cpp\<close>).

  \<^item> \<^verbatim>\<open>Byte_Bitset\<close>, \<^verbatim>\<open>Page_Bitmap\<close>: the flags of one byte and the search for a run of free pages in the bitmap, which is proved to find the first fit.
  \<^item> \<^verbatim>\<open>Shm_Region\<close>: the address tests and the rounding macros, with their wrap-around.
  \<^item> \<^verbatim>\<open>Shared_Lock\<close>: the semaphore mutex over a model of \<^verbatim>\<open>semop\<close> with interruption by signals, and the record locks; mutual exclusion by induction on the
    steps of any number of processes, and the behaviour of an interrupted wait.
  \<^item> \<^verbatim>\<open>Shared_Memory\<close>: \<^verbatim>\<open>SharedMemoryInformation\<close>, that is growth, remapping, allocation and release of pages. The invariant \<^verbatim>\<open>shm_inv\<close> is kept by every operation;
    a request that is served yields a free block inside the segment, and the exact condition for it to be served is given.
  \<^item> \<^verbatim>\<open>Shm_Mmap\<close>: the calls the allocator sees (\<^verbatim>\<open>shm_mmap\<close>, \<^verbatim>\<open>shm_munmap\<close>, \<^verbatim>\<open>shm_mremap\<close> and the replacements of the libc names) and the initialisation.
  \<^item> \<^verbatim>\<open>Shm_Alloc\<close>: the hooks of the allocation functions. Every block is freed and reallocated in the heap it came from, whichever process asks.

  \<^bold>\<open>Calls between the processes\<close> (\<^verbatim>\<open>libipc/ipc_communication.cpp\<close>, \<^verbatim>\<open>file_descriptor_manager.cpp\<close>, \<^verbatim>\<open>seccomp.cpp\<close>, \<^verbatim>\<open>mappings.cpp\<close>).

  \<^item> \<^verbatim>\<open>Ipc_Protocol\<close>: the two semaphores and message buffers as a step relation; calls, nested callbacks and answers are steps. A global invariant, proved by
    rule induction, gives absence of races on the buffers, alternation of the processes and agreement of answers with the innermost open call.
  \<^item> \<^verbatim>\<open>Ipc_Liveness\<close>: with no further calls made, a measure bounds the number of steps and every open call returns.
  \<^item> \<^verbatim>\<open>Callbacks\<close>: the callback table and the trampolines written as bytes, with a decoder for the two instructions used.
  \<^item> \<^verbatim>\<open>Fd_Mapping\<close>: the translation tables for descriptors are inverse to each other, and closing a descriptor closes both ends.
  \<^item> \<^verbatim>\<open>Seccomp_Filter\<close>: an interpreter of classic BPF and the two filter programs, whose decisions are characterised exactly.
  \<^item> \<^verbatim>\<open>Mappings\<close>: the global variables of the library become shared without changing their contents.

  \<^bold>\<open>Graph library of the linker\<close> (\<^verbatim>\<open>cali-linker/graph\<close>).

  \<^item> \<^verbatim>\<open>Base_Graph\<close>: the directed multigraph with recycled vertex numbers, which refines an abstract graph under every history of operations.
  \<^item> \<^verbatim>\<open>Color_Map\<close>: two bits of colour per vertex in a byte array.
  \<^item> \<^verbatim>\<open>Graph_Invariant\<close>: what a visitor keeps of a graph, its search keeps, and a search examines every vertex that it explores.
  \<^item> \<^verbatim>\<open>Graph_Search\<close>, \<^verbatim>\<open>Graph_Dfs\<close>, \<^verbatim>\<open>Graph_Bottom_Up\<close>, \<^verbatim>\<open>Graph_Scc\<close>: both breadth-first searches, depth-first search with its visitor interface,
    the bottom-up traversal and Tarjan's strongly connected components, with termination, exactness of the visited set and order of the results.

  \<^bold>\<open>Passes of the linker\<close> (\<^verbatim>\<open>cali-linker/passes\<close>, \<^verbatim>\<open>cali-linker/cali_linker\<close>).

  \<^item> \<^verbatim>\<open>Llvm_Ir\<close>: the questions the passes ask LLVM, as a record that is a parameter of every pass.
  \<^item> \<^verbatim>\<open>Linker_Config\<close>: the configuration classes and the matching of file names against selectors.
  \<^item> \<^verbatim>\<open>Pdg\<close>, \<^verbatim>\<open>Pdg_Vertex\<close>: the dependence graph with its index, the creation of vertices with their structure, and the joining of structures.
    Looking a vertex up always succeeds on a graph in order and keeps the structural edges well typed.
  \<^item> \<^verbatim>\<open>Pdg_Creation\<close>: the pass that builds the graph; a call connects every argument with its position at the callee.
  \<^item> \<^verbatim>\<open>Pdg_Reach\<close>: marking of sinks, influenced values and descriptors, with the exact set of marked vertices.
  \<^item> \<^verbatim>\<open>Pdg_Marks\<close>: marking of the memory behind pointers as shared. A call of a function of the library shares all the memory its arguments reach.
  \<^item> \<^verbatim>\<open>Pdg_Summary\<close>, \<^verbatim>\<open>Pdg_Summary_Exact\<close>, \<^verbatim>\<open>Pdg_Call_Copy\<close>: the reachability pass (\<^verbatim>\<open>PDGReachabilityPass.cpp\<close>). The summary edges of a component are exactly
    the flows between the vertices of its signatures, and a call copies every mark and every summarised flow of its callee.
  \<^item> \<^verbatim>\<open>Pdg_Shared_Reach\<close>: the spread of influence by shared memory over calls (\<^verbatim>\<open>PDGSharedReachabilityPass.cpp\<close>), with the case that is not reported.
  \<^item> \<^verbatim>\<open>Pdg_Shared_Memory\<close>: the rewriting of allocations (\<^verbatim>\<open>PDGSharedMemoryPass.cpp\<close>), with the exact list of edits and of recorded descriptors. A variable whose
    address is passed to a function of another context becomes a block in shared memory.
  \<^item> \<^verbatim>\<open>Pdg_Specialization\<close>, \<^verbatim>\<open>Pdg_Clone\<close>: the cloning of functions that are called with shared memory (\<^verbatim>\<open>PDGSpecializationPass.cpp\<close>). The test for shared
    memory behind a value is exact, the clone of a function in the graph is a copy of it, vertex by vertex and edge by edge, and a clone that turns out
    dead is removed twice.
  \<^item> \<^verbatim>\<open>Ipc_Module\<close>, \<^verbatim>\<open>Ipc_Redirect\<close>: the modules of a context (\<^verbatim>\<open>cali-linker/modules\<close>): their composition from files, their symbols, the direction of calls to
    wrappers and the replacement of functions that release memory. The files that take the place of the old ones are given exactly.
  \<^item> \<^verbatim>\<open>Linker_Front\<close>: the command itself (\<^verbatim>\<open>linker_replacement.cpp\<close>, \<^verbatim>\<open>ipc_rewriter.cpp\<close>). Every file goes to the first context that selects it, the calls from the first
    context to the second are directed to wrappers, exactly as stated, and the arguments of the real linker are the old ones with each
    rewritten context replaced once.
  \<^item> \<^verbatim>\<open>Data_Driven_Scc\<close>: clusters of structures, targets of indirect calls, and the order of functions from callee to caller.

  \<^bold>\<open>Recursion and fuel.\<close> Loops are structural recursion or \<^verbatim>\<open>function\<close>s with a termination proof. The graph searches recurse with a measure on the white
  vertices. Walks over the structure of values may meet cycles and take fuel. For the creation and the marking of structures and for the test of the specialisation pass a theorem shows that a stated amount
  suffices, as it does for the scan of the linker's arguments and for the direction of calls; the matching of structures and the passes that use it carry the fuel as an argument, and what is stated of them holds for every amount.

  \<^bold>\<open>Not modelled.\<close> The passing of descriptors over sockets, the reading of YAML and of archives, and the generation of the bodies of wrappers
  (\<^verbatim>\<open>communication_pair.cpp\<close>) are input and output through interfaces outside the repository. The two copies of glibc (\<^verbatim>\<open>glibc-2.23\<close> and \<^verbatim>\<open>libipc/malloc\<close>) are third-party code of which the runtime uses
  the documented behaviour. The nsjail library is a sequence of system calls that set up namespaces. The instrumentations and benchmarks are measurement
  tools.
\<close>

section \<open>Passes of the linker in sequence\<close>

text \<open>
  C37: The index from functions to vertices stays complete through the passes of the linker. The pass that builds the dependence graph, the reachability pass and the
  shared reachability pass keep the following on every path, whether they end normally or with an error: the adjacency lists are consistent, the index
  holds vertices of the graph only, and every live vertex is in the index under its function. An empty graph has the property, so the graph that
  any sequence of the passes leaves has it.
\<close>

theorem passes_keep_index:
  "pdg_inv (PDG_new config) \<and> keeps pdg_inv (creation_runOnModule n L externalSymbols structs ctx) \<and>
   keeps (\<lambda>s. pdg_inv (rpdg s)) (reach_runOnModule n L yaml) \<and> keeps (\<lambda>s. pdg_inv (rpdg s)) (influence_runOnModule n L ctx)"
  by (intro conjI pdg_inv_new creation_keeps_index keeps_reach_runOnModule keeps_influence_runOnModule)

end
